(* ===== verification/Prelude.thy ===== *)
theory Prelude
  imports Main
begin

text \<open>
  Shared vocabulary of the development: the parts of the JavaScript standard
  library the modelled sources use (string search, slicing, trimming and case
  mapping; the insertion-ordered \<open>Map\<close>; \<open>Array.prototype.findIndex\<close>) and the
  generic lemmas about them.

  A JavaScript string is modelled as a list of characters. The sources read
  strings by UTF-16 code unit; a \<open>char\<close> here is a code unit below 256, so the
  white-space class and \<open>toLowerCase\<close> below are the ones of ECMAScript
  restricted to that range. Times and counters are \<open>int\<close>; list sizes are
  \<open>nat\<close>.
\<close>

named_theorems js_defs \<open>definitions of the JavaScript helpers, for unfolding\<close>

section \<open>Strings\<close>

text \<open>\<open>String.prototype.startsWith\<close> and \<open>endsWith\<close> (arguments: pattern, text).\<close>

fun starts_with :: "'a list \<Rightarrow> 'a list \<Rightarrow> bool" where
  "starts_with [] s = True"
| "starts_with (c # p) [] = False"
| "starts_with (c # p) (d # s) = (c = d \<and> starts_with p s)"

definition ends_with :: "'a list \<Rightarrow> 'a list \<Rightarrow> bool" where
  "ends_with p s = starts_with (rev p) (rev s)"

text \<open>\<open>text.slice(a, b)\<close> for \<open>0 \<le> a\<close>, \<open>0 \<le> b\<close>.\<close>

definition slice :: "'a list \<Rightarrow> nat \<Rightarrow> nat \<Rightarrow> 'a list" where
  "slice s a b = take (b - a) (drop a s)"

text \<open>\<open>text.indexOf(c)\<close> on a single code unit: \<open>None\<close> stands for \<open>-1\<close>.\<close>

fun index_of :: "'a \<Rightarrow> 'a list \<Rightarrow> nat option" where
  "index_of c [] = None"
| "index_of c (d # s) = (if c = d then Some 0 else map_option Suc (index_of c s))"

text \<open>\<open>Array.prototype.findIndex\<close>: \<open>None\<close> stands for \<open>-1\<close>.\<close>

fun find_index :: "('a \<Rightarrow> bool) \<Rightarrow> 'a list \<Rightarrow> nat option" where
  "find_index P [] = None"
| "find_index P (x # xs) = (if P x then Some 0 else map_option Suc (find_index P xs))"

text \<open>\<open>xs[i]\<close>, with \<open>undefined\<close> out of range.\<close>

definition js_at :: "'a list \<Rightarrow> nat \<Rightarrow> 'a option" where
  "js_at xs i = (if i < length xs then Some (xs ! i) else None)"

text \<open>\<open>text.split(c)\<close> and \<open>parts.join(sep)\<close>.\<close>

fun split_on :: "'a \<Rightarrow> 'a list \<Rightarrow> 'a list list" where
  "split_on c [] = [[]]"
| "split_on c (d # s) =
     (if d = c then [] # split_on c s
      else (case split_on c s of [] \<Rightarrow> [[d]] | w # ws \<Rightarrow> (d # w) # ws))"

fun join :: "'a list \<Rightarrow> 'a list list \<Rightarrow> 'a list" where
  "join sep [] = []"
| "join sep [w] = w"
| "join sep (w # ws) = w @ sep @ join sep ws"

text \<open>The white space of \<open>\s\<close> and \<open>trim\<close> below code unit 256.\<close>

definition js_space :: "char \<Rightarrow> bool" where
  "js_space c = (c \<in> set [CHR 0x20, CHR 0x09, CHR 0x0A, CHR 0x0D, CHR 0x0B, CHR 0x0C, CHR 0xA0])"

definition trim_start :: "string \<Rightarrow> string" where
  "trim_start s = dropWhile js_space s"

definition trim_end :: "string \<Rightarrow> string" where
  "trim_end s = rev (dropWhile js_space (rev s))"

definition js_trim :: "string \<Rightarrow> string" where
  "js_trim s = trim_end (trim_start s)"

text \<open>\<open>toLowerCase\<close>: ASCII capitals and the Latin-1 capitals \<open>0xC0\<close> to \<open>0xDE\<close> except \<open>0xD7\<close>.\<close>

definition lower_char :: "char \<Rightarrow> char" where
  "lower_char c =
     (let n = (of_char c :: nat)
      in if (65 \<le> n \<and> n \<le> 90) \<or> (192 \<le> n \<and> n \<le> 222 \<and> n \<noteq> 215) then char_of (n + 32) else c)"

definition js_lower :: "string \<Rightarrow> string" where
  "js_lower s = map lower_char s"

text \<open>Character classes used by the sources' regular expressions.\<close>

definition is_digit :: "char \<Rightarrow> bool" where
  "is_digit c = (let n = (of_char c :: nat) in 48 \<le> n \<and> n \<le> 57)"

definition is_letter :: "char \<Rightarrow> bool" where
  "is_letter c = (let n = (of_char c :: nat) in (65 \<le> n \<and> n \<le> 90) \<or> (97 \<le> n \<and> n \<le> 122))"

definition is_alnum :: "char \<Rightarrow> bool" where
  "is_alnum c = (is_letter c \<or> is_digit c)"

text \<open>\<open>text.replaceAll(a, b)\<close> on single code units.\<close>

definition replace_char :: "'a \<Rightarrow> 'a \<Rightarrow> 'a list \<Rightarrow> 'a list" where
  "replace_char a b s = map (\<lambda>c. if c = a then b else c) s"

text \<open>\<open>[...new Set(xs)]\<close>: the first occurrence of every element.\<close>

definition js_uniq :: "'a list \<Rightarrow> 'a list" where
  "js_uniq xs = rev (remdups (rev xs))"

lemma set_js_uniq [simp]: "set (js_uniq xs) = set xs"
  by (simp add: js_uniq_def)

lemma distinct_js_uniq [simp]: "distinct (js_uniq xs)"
  by (simp add: js_uniq_def)

lemma js_uniq_distinct: "distinct xs \<Longrightarrow> js_uniq xs = xs"
  by (simp add: js_uniq_def distinct_remdups_id)

lemma length_js_uniq: "length (js_uniq xs) = card (set xs)"
  by (simp add: js_uniq_def length_remdups_card_conv)

text \<open>Removal of one optional suffix, as \<open>replace(/suffix$/, "")\<close>.\<close>

definition strip_suffix :: "'a list \<Rightarrow> 'a list \<Rightarrow> 'a list" where
  "strip_suffix p s = (if ends_with p s then take (length s - length p) s else s)"

lemma of_char_less: "(of_char (c :: char) :: nat) < 256"
  using nat_of_char_less_256 by blast

lemma lower_char_code:
  "(of_char (lower_char c) :: nat) =
     (let n = (of_char c :: nat)
      in if (65 \<le> n \<and> n \<le> 90) \<or> (192 \<le> n \<and> n \<le> 222 \<and> n \<noteq> 215) then n + 32 else n)"
  by (simp add: lower_char_def Let_def)

lemma char_code_eq: "c = d \<longleftrightarrow> (of_char c :: nat) = of_char d"
  by simp

lemma starts_with_iff: "starts_with p s \<longleftrightarrow> (\<exists>t. s = p @ t)"
  by (induction p s rule: starts_with.induct) auto

lemma starts_with_append [simp]: "starts_with p (p @ t)"
  by (induction p) auto

lemma starts_with_length: "starts_with p s \<Longrightarrow> length p \<le> length s"
  by (auto simp: starts_with_iff)

lemma starts_with_take: "starts_with p s \<longleftrightarrow> take (length p) s = p"
  by (metis append_eq_conv_conj append_take_drop_id starts_with_iff)

lemma starts_with_drop: "starts_with p s \<Longrightarrow> p @ drop (length p) s = s"
  by (auto simp: starts_with_iff)

lemma ends_with_iff: "ends_with p s \<longleftrightarrow> (\<exists>t. s = t @ p)"
  by (auto simp: ends_with_def starts_with_iff) (metis rev_append rev_rev_ident)

lemma index_of_None_iff: "index_of c s = None \<longleftrightarrow> c \<notin> set s"
  by (induction s) auto

lemma index_of_Some:
  "index_of c s = Some i \<Longrightarrow> i < length s \<and> s ! i = c \<and> c \<notin> set (take i s)"
  by (induction s arbitrary: i) (auto split: if_splits)

lemma find_index_None_iff: "find_index P xs = None \<longleftrightarrow> (\<forall>x \<in> set xs. \<not> P x)"
  by (induction xs) auto

lemma find_index_Some:
  "find_index P xs = Some i \<Longrightarrow> i < length xs \<and> P (xs ! i) \<and> (\<forall>x \<in> set (take i xs). \<not> P x)"
  by (induction xs arbitrary: i) (auto split: if_splits)

lemma split_on_nonempty [simp]: "split_on c s \<noteq> []"
  by (induction s) (auto split: list.splits)

lemma join_Cons: "ws \<noteq> [] \<Longrightarrow> join sep (w # ws) = w @ sep @ join sep ws"
  by (cases ws) auto

lemma join_split_on: "join [c] (split_on c s) = s"
proof (induction s)
  case Nil
  show ?case by simp
next
  case (Cons d s)
  obtain w ws where ws: "split_on c s = w # ws"
    by (cases "split_on c s") auto
  show ?case
    using Cons.IH ws by (cases ws) auto
qed

lemma split_on_word: "c \<notin> set w \<Longrightarrow> split_on c w = [w]"
  by (induction w) auto

lemma split_on_step: "c \<notin> set w \<Longrightarrow> split_on c (w @ c # s) = w # split_on c s"
  by (induction w) auto

lemma split_on_join: "ws \<noteq> [] \<Longrightarrow> \<forall>w \<in> set ws. c \<notin> set w \<Longrightarrow> split_on c (join [c] ws) = ws"
proof (induction ws)
  case Nil
  then show ?case by simp
next
  case (Cons w ws)
  then show ?case by (cases ws) (simp_all add: split_on_word split_on_step)
qed

lemma split_on_free: "w \<in> set (split_on c s) \<Longrightarrow> c \<notin> set w"
proof (induction s arbitrary: w)
  case Nil
  then show ?case by simp
next
  case (Cons d s)
  obtain u us where us: "split_on c s = u # us"
    by (cases "split_on c s") auto
  show ?case
    using Cons us by (auto split: if_splits)
qed

subsection \<open>Trimmed texts\<close>

lemma trim_end_prefix: "\<exists>t. s = trim_end s @ t"
proof -
  have "s = rev (takeWhile js_space (rev s) @ dropWhile js_space (rev s))" by simp
  then have "s = trim_end s @ rev (takeWhile js_space (rev s))" unfolding trim_end_def rev_append .
  then show ?thesis by blast
qed

lemma js_trim_hd: "js_trim s \<noteq> [] \<Longrightarrow> \<not> js_space (hd (js_trim s))"
proof -
  assume ne: "js_trim s \<noteq> []"
  obtain t where t: "trim_start s = js_trim s @ t" using trim_end_prefix unfolding js_trim_def by blast
  then have "trim_start s \<noteq> []" "hd (trim_start s) = hd (js_trim s)" using ne by auto
  then show ?thesis using hd_dropWhile [of js_space s] by (simp add: trim_start_def)
qed

lemma js_trim_id: "s \<noteq> [] \<Longrightarrow> \<not> js_space (hd s) \<Longrightarrow> \<not> js_space (last s) \<Longrightarrow> js_trim s = s"
proof -
  assume s: "s \<noteq> []" "\<not> js_space (hd s)" "\<not> js_space (last s)"
  have "trim_start s = s" using s(1,2) by (cases s) (simp_all add: trim_start_def)
  moreover have "dropWhile js_space (rev s) = rev s"
    using s(1,3) by (cases s rule: rev_cases) simp_all
  ultimately show ?thesis by (simp add: js_trim_def trim_end_def)
qed

lemma trim_start_idem: "trim_start (trim_start s) = trim_start s"
  by (simp add: trim_start_def dropWhile_idem)

lemma js_trim_last: "js_trim s \<noteq> [] \<Longrightarrow> \<not> js_space (last (js_trim s))"
  using hd_dropWhile [of js_space "rev (trim_start s)"] by (simp add: js_trim_def trim_end_def last_rev)

lemma js_trim_idem [simp]: "js_trim (js_trim s) = js_trim s"
proof (cases "js_trim s = []")
  case True
  show ?thesis unfolding True by (simp add: js_trim_def trim_start_def trim_end_def)
next
  case False
  then show ?thesis using js_trim_id js_trim_hd js_trim_last by blast
qed

section \<open>The insertion-ordered Map\<close>

text \<open>
  A JavaScript \<open>Map\<close> keeps its entries in insertion order; \<open>set\<close> on a key that is
  present keeps the key's place. It is modelled as an association list with
  distinct keys.
\<close>

type_synonym ('k, 'v) jsmap = "('k \<times> 'v) list"

fun jm_get :: "'k \<Rightarrow> ('k, 'v) jsmap \<Rightarrow> 'v option" where
  "jm_get k [] = None"
| "jm_get k ((k', v) # m) = (if k = k' then Some v else jm_get k m)"

fun jm_set :: "'k \<Rightarrow> 'v \<Rightarrow> ('k, 'v) jsmap \<Rightarrow> ('k, 'v) jsmap" where
  "jm_set k v [] = [(k, v)]"
| "jm_set k v ((k', v') # m) = (if k = k' then (k, v) # m else (k', v') # jm_set k v m)"

definition jm_delete :: "'k \<Rightarrow> ('k, 'v) jsmap \<Rightarrow> ('k, 'v) jsmap" where
  "jm_delete k m = filter (\<lambda>e. fst e \<noteq> k) m"

definition jm_keys :: "('k, 'v) jsmap \<Rightarrow> 'k list" where
  "jm_keys m = map fst m"

definition jm_values :: "('k, 'v) jsmap \<Rightarrow> 'v list" where
  "jm_values m = map snd m"

definition jm_has :: "'k \<Rightarrow> ('k, 'v) jsmap \<Rightarrow> bool" where
  "jm_has k m = (jm_get k m \<noteq> None)"

definition jm_wf :: "('k, 'v) jsmap \<Rightarrow> bool" where
  "jm_wf m = distinct (map fst m)"

lemma jm_get_map_of: "jm_get k m = map_of m k"
  by (induction m) auto

lemma jm_get_set [simp]: "jm_get k (jm_set k' v m) = (if k = k' then Some v else jm_get k m)"
  by (induction m rule: jm_set.induct) auto

lemma jm_get_delete [simp]: "jm_get k (jm_delete k' m) = (if k = k' then None else jm_get k m)"
  by (induction m) (auto simp: jm_delete_def)

lemma jm_keys_set: "set (map fst (jm_set k v m)) = insert k (set (map fst m))"
  by (induction k v m rule: jm_set.induct) auto

lemma jm_wf_Nil [simp]: "jm_wf []"
  by (simp add: jm_wf_def)

lemma jm_wf_set [simp]: "jm_wf m \<Longrightarrow> jm_wf (jm_set k v m)"
proof (induction k v m rule: jm_set.induct)
  case (2 k v k' v' m)
  then show ?case
    using jm_keys_set [of k v m] by (auto simp: jm_wf_def)
qed (simp add: jm_wf_def)

lemma jm_wf_filter: "jm_wf m \<Longrightarrow> jm_wf (filter P m)"
  by (simp add: jm_wf_def distinct_map_filter)

lemma jm_wf_delete [simp]: "jm_wf m \<Longrightarrow> jm_wf (jm_delete k m)"
  by (simp add: jm_delete_def jm_wf_filter)

lemma jm_set_fresh: "jm_get k m = None \<Longrightarrow> jm_set k v m = m @ [(k, v)]"
  by (induction k v m rule: jm_set.induct) (auto split: if_splits)

lemma jm_get_None_iff: "jm_get k m = None \<longleftrightarrow> k \<notin> fst ` set m"
  by (simp add: jm_get_map_of map_of_eq_None_iff)

lemma jm_get_mem: "jm_get k m = Some v \<Longrightarrow> (k, v) \<in> set m"
  by (induction m) (auto split: if_splits)

lemma jm_mem_get: "jm_wf m \<Longrightarrow> (k, v) \<in> set m \<Longrightarrow> jm_get k m = Some v"
  by (auto simp: jm_wf_def jm_get_map_of)

lemma length_jm_set: "length (jm_set k v m) = (if jm_has k m then length m else Suc (length m))"
  by (induction k v m rule: jm_set.induct) (auto simp: jm_has_def)

lemma jm_get_filter:
  "jm_wf m \<Longrightarrow>
     jm_get k (filter P m) = (case jm_get k m of None \<Rightarrow> None | Some v \<Rightarrow> if P (k, v) then Some v else None)"
proof (induction m)
  case Nil
  show ?case by simp
next
  case (Cons e m)
  obtain k' v' where e: "e = (k', v')" by (cases e)
  have wf: "jm_wf m" and fresh: "k' \<notin> fst ` set m"
    using Cons.prems e by (auto simp: jm_wf_def)
  have "jm_get k' (filter P m) = None"
    using fresh by (auto simp: jm_get_None_iff)
  then show ?case
    using Cons.IH [OF wf] e by (auto split: option.splits)
qed

lemma length_jm_delete: "jm_wf m \<Longrightarrow> jm_has k m \<Longrightarrow> Suc (length (jm_delete k m)) = length m"
proof (induction m)
  case Nil
  then show ?case by (simp add: jm_has_def)
next
  case (Cons e m)
  obtain k' v' where e: "e = (k', v')" by (cases e)
  show ?case
  proof (cases "k = k'")
    case True
    have "filter (\<lambda>e. fst e \<noteq> k) m = m"
      using Cons.prems(1) e True by (auto simp: jm_wf_def filter_id_conv)
    then show ?thesis using e True by (simp add: jm_delete_def)
  next
    case False
    have "jm_wf m" "jm_has k m"
      using Cons.prems e False by (auto simp: jm_wf_def jm_has_def)
    then show ?thesis
      using Cons.IH e False by (simp add: jm_delete_def)
  qed
qed

lemma length_jm_delete_le: "length (jm_delete k m) \<le> length m"
  by (simp add: jm_delete_def)

section \<open>JSON values\<close>

text \<open>
  A value of type \<open>unknown\<close> read from a configuration file. The entries of an
  object are listed in the order \<open>Object.entries\<close> yields them.
\<close>

datatype json = JNull | JBool bool | JNum int | JStr string | JArr "json list" | JObj "(string \<times> json) list"

section \<open>Last match wins\<close>

text \<open>
  The contract of an evaluator that reads a list of rules and answers with the
  last one that applies to a question: what it answers for no rules and after
  one more rule.
\<close>

locale last_match =
  fixes applies :: "'r \<Rightarrow> 'q \<Rightarrow> bool"
    and winner :: "'r list \<Rightarrow> 'q \<Rightarrow> 'r option"
  assumes winner_Nil: "winner [] q = None"
    and winner_snoc: "winner (rs @ [r]) q = (if applies r q then Some r else winner rs q)"
begin

lemma winner_append: "winner (rs @ rs') q = (case winner rs' q of Some r \<Rightarrow> Some r | None \<Rightarrow> winner rs q)"
proof (induction rs' rule: rev_induct)
  case Nil
  then show ?case by (simp add: winner_Nil)
next
  case (snoc r rs')
  show ?case
    using snoc unfolding append_assoc [symmetric] winner_snoc by (simp split: option.splits)
qed

lemma winner_None_iff: "winner rs q = None \<longleftrightarrow> (\<forall>r \<in> set rs. \<not> applies r q)"
  by (induction rs rule: rev_induct) (auto simp: winner_Nil winner_snoc)

lemma winner_Some_iff:
  "winner rs q = Some r \<longleftrightarrow> (\<exists>as bs. rs = as @ r # bs \<and> applies r q \<and> (\<forall>b \<in> set bs. \<not> applies b q))"
proof
  assume "winner rs q = Some r"
  then show "\<exists>as bs. rs = as @ r # bs \<and> applies r q \<and> (\<forall>b \<in> set bs. \<not> applies b q)"
  proof (induction rs rule: rev_induct)
    case Nil
    then show ?case by (simp add: winner_Nil)
  next
    case (snoc x xs)
    show ?case
    proof (cases "applies x q")
      case True
      then show ?thesis using snoc.prems by (intro exI [of _ xs] exI [of _ "[]"]) (simp add: winner_snoc)
    next
      case False
      then obtain as bs where "xs = as @ r # bs" "applies r q" "\<forall>b \<in> set bs. \<not> applies b q"
        using snoc by (auto simp: winner_snoc)
      then show ?thesis using False by (intro exI [of _ as] exI [of _ "bs @ [x]"]) simp
    qed
  qed
next
  assume "\<exists>as bs. rs = as @ r # bs \<and> applies r q \<and> (\<forall>b \<in> set bs. \<not> applies b q)"
  then obtain as bs where rs: "rs = (as @ [r]) @ bs" "applies r q" "\<forall>b \<in> set bs. \<not> applies b q" by auto
  then have "winner bs q = None" by (simp add: winner_None_iff)
  then show "winner rs q = Some r" unfolding rs(1) winner_append using winner_snoc [of "[]" r q] rs(2) by simp
qed

end

end
