(* ===== verification/ShellSyntax.thy ===== *)
theory ShellSyntax
  imports Prelude
begin

text \<open>
  The shell reader of \<open>apps/server/src/git-command-policy.ts\<close>: the tokenizer of
  one segment (\<open>tokenizeSegment\<close>), the heredoc readers (\<open>readHeredocOperator\<close>,
  \<open>readHeredocBody\<close>, \<open>substitutionRanges\<close>) and the splitter of a command line
  into segments (\<open>splitShellCommand\<close>).

  The source walks an index over the text. Here every loop walks the rest of
  the text: \<open>command[index]\<close> is the head of the rest, \<open>command.startsWith(x, index)\<close>
  is \<open>starts_with x rest\<close>, \<open>command[index - 1]\<close> is the argument \<open>prev\<close>, the slice
  from \<open>start\<close> to \<open>index\<close> is \<open>cur\<close>, and positions are carried as numbers.
\<close>

section \<open>Tokens\<close>

datatype quote = SingleQ | DoubleQ

record shell_token =
  token_text :: string
  token_offset :: nat

definition or_else :: "'a option \<Rightarrow> 'a \<Rightarrow> 'a" where
  "or_else x d = (case x of None \<Rightarrow> d | Some y \<Rightarrow> y)"

lemma or_else_simps [simp]: "or_else None d = d" "or_else (Some y) d = y"
  by (simp_all add: or_else_def)

text \<open>The loop of \<open>tokenizeSegment\<close>; \<open>offset = -1\<close> of the source is \<open>None\<close>.\<close>

function tokenize_loop :: "string \<Rightarrow> nat \<Rightarrow> quote option \<Rightarrow> string \<Rightarrow> nat option \<Rightarrow> shell_token list" where
  "tokenize_loop [] index quot current off =
     (case off of None \<Rightarrow> [] | Some p \<Rightarrow> [\<lparr>token_text = current, token_offset = p\<rparr>])"
| "tokenize_loop (c # rest) index quot current off =
     (if quot = Some SingleQ then
        (if c = CHR 0x27 then tokenize_loop rest (Suc index) None current off
         else tokenize_loop rest (Suc index) quot (current @ [c]) off)
      else if c = CHR 0x5C \<and> rest \<noteq> [] then
        (if hd rest = CHR 0x0A \<and> quot = None then tokenize_loop (tl rest) (index + 2) quot current off
         else tokenize_loop (tl rest) (index + 2) quot (current @ [hd rest]) (Some (or_else off index)))
      else if quot = Some DoubleQ then
        (if c = CHR 0x22 then tokenize_loop rest (Suc index) None current off
         else tokenize_loop rest (Suc index) quot (current @ [c]) off)
      else if c = CHR 0x27 \<or> c = CHR 0x22 then
        tokenize_loop rest (Suc index) (Some (if c = CHR 0x27 then SingleQ else DoubleQ)) current
          (Some (or_else off index))
      else if js_space c then
        (case off of None \<Rightarrow> [] | Some p \<Rightarrow> [\<lparr>token_text = current, token_offset = p\<rparr>])
          @ tokenize_loop rest (Suc index) quot [] None
      else if c = CHR ''#'' \<and> off = None then []
      else tokenize_loop rest (Suc index) quot (current @ [c]) (Some (or_else off index)))"
  by pat_completeness auto
termination
  by (relation "measure (\<lambda>(s, _). length s)") auto

declare tokenize_loop.simps(2) [simp del]

definition tokenizeSegment :: "string \<Rightarrow> shell_token list" where
  "tokenizeSegment s = tokenize_loop s 0 None [] None"

section \<open>Heredocs\<close>

record pending_heredoc =
  delimiter :: string
  quoted :: bool
  stripTabs :: bool

text \<open>The characters that end a heredoc delimiter: the class \<open>[\s;&|<>()]\<close>.\<close>

definition heredoc_stop :: "char \<Rightarrow> bool" where
  "heredoc_stop c = (js_space c \<or> c \<in> set '';&|<>()'')"

function heredoc_word :: "string \<Rightarrow> string \<Rightarrow> bool \<Rightarrow> string \<times> bool \<times> string" where
  "heredoc_word [] d q = (d, q, [])"
| "heredoc_word (c # rest) d q =
     (if heredoc_stop c then (d, q, c # rest)
      else if c = CHR 0x27 \<or> c = CHR 0x22 then
        heredoc_word (tl (dropWhile (\<lambda>x. x \<noteq> c) rest)) (d @ takeWhile (\<lambda>x. x \<noteq> c) rest) True
      else if c = CHR 0x5C \<and> rest \<noteq> [] then heredoc_word (tl rest) (d @ [hd rest]) True
      else heredoc_word rest (d @ [c]) q)"
  by pat_completeness auto
termination
  by (relation "measure (\<lambda>(s, _). length s)")
    (auto simp: less_Suc_eq_le intro: le_trans [OF diff_le_self] length_dropWhile_le)

text \<open>\<open>readHeredocOperator\<close>: the pending heredoc and the text after its delimiter word.\<close>

definition readHeredocOperator :: "string \<Rightarrow> pending_heredoc \<times> string" where
  "readHeredocOperator s =
     (let strip = starts_with ''-'' s;
          s1 = (if strip then tl s else s);
          s2 = dropWhile (\<lambda>c. c = CHR '' '' \<or> c = CHR 0x09) s1;
          (d, q, rest) = heredoc_word s2 [] False
      in (\<lparr>delimiter = d, quoted = q, stripTabs = strip\<rparr>, rest))"

definition is_nl :: "char \<Rightarrow> bool" where
  "is_nl c = (c = CHR 0x0A)"

text \<open>\<open>readHeredocBody\<close>: the body before the terminator line and the text after that line.\<close>

function heredoc_body :: "pending_heredoc \<Rightarrow> string \<Rightarrow> string \<Rightarrow> string \<times> string" where
  "heredoc_body h body rest =
     (let line = takeWhile (\<lambda>c. \<not> is_nl c) rest;
          compare = (if stripTabs h then dropWhile (\<lambda>c. c = CHR 0x09) line else line);
          after = dropWhile (\<lambda>c. \<not> is_nl c) rest
      in if compare = delimiter h then (body, tl after)
         else if after = [] then (body @ rest, [])
         else heredoc_body h (body @ line @ [CHR 0x0A]) (tl after))"
  by pat_completeness auto
termination
proof (relation "measure (\<lambda>(h, b, s). length s)", goal_cases)
  case (2 h body rest line cmp after)
  then have "0 < length (dropWhile (\<lambda>c. \<not> is_nl c) rest)" by simp
  moreover have "length (dropWhile (\<lambda>c. \<not> is_nl c) rest) \<le> length rest" by (rule length_dropWhile_le)
  ultimately have "length (dropWhile (\<lambda>c. \<not> is_nl c) rest) - 1 < length rest" by linarith
  with 2 show ?case by simp
qed simp

declare heredoc_body.simps [simp del]

definition readHeredocBody :: "pending_heredoc \<Rightarrow> string \<Rightarrow> string \<times> string" where
  "readHeredocBody h s = heredoc_body h [] s"

text \<open>
  \<open>substitutionRanges\<close>: the \<open>$(...)\<close> and backtick substitutions of an unquoted
  heredoc body, each as its start and its text. \<open>paren_body\<close> is the inner loop
  over the parenthesis depth.
\<close>

function paren_body :: "string \<Rightarrow> nat \<Rightarrow> string \<times> string" where
  "paren_body [] depth = ([], [])"
| "paren_body (c # rest) depth =
     (if c = CHR 0x5C then
        (let r = paren_body (tl rest) depth in (c # take 1 rest @ fst r, snd r))
      else if c = CHR ''('' then (let r = paren_body rest (Suc depth) in (c # fst r, snd r))
      else if c = CHR '')'' then
        (if depth \<le> 1 then ([], c # rest)
         else (let r = paren_body rest (depth - 1) in (c # fst r, snd r)))
      else (let r = paren_body rest depth in (c # fst r, snd r)))"
  by pat_completeness auto
termination
  by (relation "measure (\<lambda>(s, _). length s)") auto

declare paren_body.simps(2) [simp del]

lemma paren_body_append: "fst (paren_body s d) @ snd (paren_body s d) = s"
proof (induction s d rule: paren_body.induct)
  case (1 d)
  then show ?case by simp
next
  case (2 c rest d)
  have "take 1 rest @ tl rest = rest" by (cases rest) auto
  then show ?case
    using 2 by (subst (1 2) paren_body.simps) (auto simp: Let_def)
qed

lemma paren_body_length: "length (snd (paren_body s d)) \<le> length s"
  by (metis paren_body_append length_append le_add2)

function substitutionRanges :: "string \<Rightarrow> nat \<Rightarrow> (nat \<times> string) list" where
  "substitutionRanges [] index = []"
| "substitutionRanges (c # rest) index =
     (if c = CHR 0x5C then substitutionRanges (tl rest) (index + 2)
      else if starts_with ''$('' (c # rest) then
        (let r = paren_body (tl rest) 1
         in (index + 2, fst r) # substitutionRanges (tl (snd r)) (index + 3 + length (fst r)))
      else if c = CHR 0x60 then
        (let inner = takeWhile (\<lambda>x. x \<noteq> CHR 0x60) rest
         in (index + 1, inner) #
              substitutionRanges (tl (dropWhile (\<lambda>x. x \<noteq> CHR 0x60) rest)) (index + 2 + length inner))
      else substitutionRanges rest (Suc index))"
  by pat_completeness auto
termination
proof (relation "measure (\<lambda>(s, _). length s)", goal_cases)
  case (3 c rest index r)
  have "length (snd (paren_body (tl rest) 1)) \<le> length (tl rest)"
    by (rule paren_body_length)
  then show ?case using 3 by simp
next
  case (4 c rest index inner)
  have "length (dropWhile (\<lambda>x. x \<noteq> CHR 0x60) rest) \<le> length rest" by (rule length_dropWhile_le)
  then show ?case by simp
qed simp_all

declare substitutionRanges.simps(2) [simp del]

text \<open>
  The bodies of the heredocs pending at a newline, one after the other: what
  the shell substitutes in them (position and text), the text after the last
  terminator, and its position.
\<close>

fun heredoc_bodies :: "pending_heredoc list \<Rightarrow> string \<Rightarrow> nat \<Rightarrow> (nat \<times> string) list \<times> string \<times> nat" where
  "heredoc_bodies [] rest cursor = ([], rest, cursor)"
| "heredoc_bodies (h # hs) rest cursor =
     (let b = readHeredocBody h rest;
          subs = (if quoted h then [] else map (\<lambda>(p, t). (cursor + p, t)) (substitutionRanges (fst b) 0));
          r = heredoc_bodies hs (snd b) (cursor + (length rest - length (snd b)))
      in (subs @ fst r, snd r))"

section \<open>Splitting a command line\<close>

definition SEPARATORS :: "string list" where
  "SEPARATORS = [''&&'', ''||'', '';;'', ''|&'', '';'', ''|'', ''&'', [CHR 0x0A], ''('', '')'',
     ''{'', ''}'', [CHR 0x60], ''$('']"

definition RESERVED_PREFIX :: "string list" where
  "RESERVED_PREFIX = [''if'', ''then'', ''else'', ''elif'', ''while'', ''until'', ''do'', ''!'',
     ''coproc'', ''time'']"

record shell_segment =
  seg_text :: string
  seg_start :: nat
  seg_commandStart :: nat
  seg_tokens :: "string list"

text \<open>
  What one pass over the command line produces, in order: the text of a
  segment (\<open>flush\<close>) or the text of a heredoc substitution that is split by a
  recursive call, each with its position.
\<close>

datatype scan_item = Flush nat string | Nested nat string

text \<open>The classes \<open>[\s;|&(){}`]\<close> (before a comment) and \<open>[\s;|&()]\<close> (around a brace word).\<close>

definition comment_before :: "char \<Rightarrow> bool" where
  "comment_before c = (js_space c \<or> c \<in> set '';|&(){}'' \<or> c = CHR 0x60)"

definition brace_neighbour :: "char \<Rightarrow> bool" where
  "brace_neighbour c = (js_space c \<or> c \<in> set '';|&()'')"

text \<open>A comment starts here; a heredoc operator (and not a here-string) starts here.\<close>

definition comment_start :: "char option \<Rightarrow> char \<Rightarrow> bool" where
  "comment_start prev c = (c = CHR ''#'' \<and> (case prev of None \<Rightarrow> True | Some p \<Rightarrow> comment_before p))"

definition heredoc_start :: "string \<Rightarrow> bool" where
  "heredoc_start s = (starts_with ''<<'' s \<and> js_at s 2 \<noteq> Some CHR ''<'')"

text \<open>The separator that starts at the current position, when it really separates commands here.\<close>

definition active_separator :: "char option \<Rightarrow> string \<Rightarrow> string option" where
  "active_separator prev s =
     (case find (\<lambda>candidate. starts_with candidate s) SEPARATORS of
        None \<Rightarrow> None
      | Some separator \<Rightarrow>
          (let redirection = (separator = ''&'' \<and>
                 (prev = Some CHR ''>'' \<or> prev = Some CHR ''<'' \<or> js_at s 1 = Some CHR ''>''));
               brace = (separator = ''{'' \<or> separator = ''}'');
               braceWord = (brace
                 \<and> (case prev of None \<Rightarrow> True | Some p \<Rightarrow> brace_neighbour p)
                 \<and> (case js_at s 1 of None \<Rightarrow> True | Some n \<Rightarrow> brace_neighbour n))
           in if \<not> redirection \<and> (braceWord \<or> \<not> brace) then Some separator else None))"

lemma heredoc_word_length: "length (snd (snd (heredoc_word s d q))) \<le> length s"
proof (induction s d q rule: heredoc_word.induct)
  case (1 d q)
  then show ?case by simp
next
  case (2 c rest d q)
  have "length (tl (dropWhile (\<lambda>x. x \<noteq> c) rest)) \<le> length rest"
    using length_dropWhile_le [of "\<lambda>x. x \<noteq> c" rest] by simp
  then show ?case using 2 by (auto simp: le_SucI)
qed

lemma readHeredocOperator_length: "length (snd (readHeredocOperator s)) \<le> length s"
proof -
  define s1 where "s1 = (if starts_with ''-'' s then tl s else s)"
  define s2 where "s2 = dropWhile (\<lambda>c. c = CHR '' '' \<or> c = CHR 0x09) s1"
  have "length s2 \<le> length s1" unfolding s2_def by (rule length_dropWhile_le)
  moreover have "length s1 \<le> length s" by (simp add: s1_def)
  moreover have tail: "snd (readHeredocOperator s) = snd (snd (heredoc_word s2 [] False))"
    by (simp only: readHeredocOperator_def s1_def s2_def Let_def case_prod_beta snd_conv)
  ultimately show ?thesis
    using heredoc_word_length [of s2 "[]" False] by (simp add: tail)
qed

lemma heredoc_body_split: "\<exists>mid. body @ rest = fst (heredoc_body h body rest) @ mid @ snd (heredoc_body h body rest)"
proof (induction h body rest rule: heredoc_body.induct)
  case (1 h body rest)
  define line where "line = takeWhile (\<lambda>c. \<not> is_nl c) rest"
  define after where "after = dropWhile (\<lambda>c. \<not> is_nl c) rest"
  define cmp where "cmp = (if stripTabs h then dropWhile (\<lambda>c. c = CHR 0x09) line else line)"
  have eq: "heredoc_body h body rest =
     (if cmp = delimiter h then (body, tl after)
      else if after = [] then (body @ rest, [])
      else heredoc_body h (body @ line @ [CHR 0x0A]) (tl after))"
    by (subst heredoc_body.simps) (simp only: Let_def line_def after_def cmp_def)
  have rest: "rest = line @ after" by (simp add: line_def after_def)
  have after1: "after = take 1 after @ tl after" by (cases after) auto
  consider (found) "cmp = delimiter h" | (eof) "cmp \<noteq> delimiter h" "after = []"
    | (more) "cmp \<noteq> delimiter h" "after \<noteq> []" by blast
  then show ?case
  proof cases
    case found
    then have "body @ rest = fst (heredoc_body h body rest) @ (line @ take 1 after) @ snd (heredoc_body h body rest)"
      using eq rest after1 by simp
    then show ?thesis by blast
  next
    case eof
    then show ?thesis using eq by simp
  next
    case more
    then have nl: "take 1 after = [CHR 0x0A]"
      using hd_dropWhile [of "\<lambda>c. \<not> is_nl c" rest] by (cases after) (auto simp: after_def is_nl_def)
    have "\<exists>mid. (body @ line @ [CHR 0x0A]) @ tl after
        = fst (heredoc_body h (body @ line @ [CHR 0x0A]) (tl after)) @ mid
          @ snd (heredoc_body h (body @ line @ [CHR 0x0A]) (tl after))"
      using more by (intro "1.IH") (simp_all only: line_def after_def cmp_def, simp_all)
    moreover have "body @ rest = (body @ line @ [CHR 0x0A]) @ tl after"
      using rest after1 nl by (metis append.assoc)
    ultimately show ?thesis using eq more by simp
  qed
qed

lemma readHeredocBody_split: "\<exists>mid. rest = fst (readHeredocBody h rest) @ mid @ snd (readHeredocBody h rest)"
  using heredoc_body_split [of "[]" rest h] by (simp add: readHeredocBody_def)

lemma readHeredocBody_length: "length (snd (readHeredocBody h rest)) \<le> length rest"
  using readHeredocBody_split [of rest h] by (metis length_append le_add2 trans_le_add2)

lemma heredoc_bodies_length: "length (fst (snd (heredoc_bodies hs rest cursor))) \<le> length rest"
proof (induction hs arbitrary: rest cursor)
  case Nil
  then show ?case by simp
next
  case (Cons h hs)
  have "length (fst (snd (heredoc_bodies (h # hs) rest cursor))) \<le> length (snd (readHeredocBody h rest))"
    using Cons.IH by (simp add: Let_def)
  then show ?case
    using readHeredocBody_length [of h rest] by linarith
qed

text \<open>
  The loop of \<open>splitShellCommand\<close>. \<open>stack\<close> holds the quote states saved at each
  open \<open>$(\<close> (the last one first), \<open>heredocs\<close> the heredocs announced on the
  current line.
\<close>

function scan_shell :: "string \<Rightarrow> char option \<Rightarrow> nat \<Rightarrow> string \<Rightarrow> nat \<Rightarrow> quote option \<Rightarrow> quote option list
    \<Rightarrow> pending_heredoc list \<Rightarrow> scan_item list" where
  "scan_shell [] prev index cur start quot stack heredocs = [Flush start cur]"
| "scan_shell (c # rest) prev index cur start quot stack heredocs =
     (if quot = Some SingleQ then
        scan_shell rest (Some c) (Suc index) (cur @ [c]) start (if c = CHR 0x27 then None else quot) stack heredocs
      else if c = CHR 0x5C \<and> rest \<noteq> [] then
        scan_shell (tl rest) (Some (hd rest)) (index + 2) (cur @ [c, hd rest]) start quot stack heredocs
      else if quot = Some DoubleQ then
        (if c = CHR 0x22 then scan_shell rest (Some c) (Suc index) (cur @ [c]) start None stack heredocs
         else if starts_with ''$('' (c # rest) then
           Flush start cur #
             scan_shell (tl rest) (Some CHR ''('') (index + 2) [] (index + 2) None (Some DoubleQ # stack) heredocs
         else scan_shell rest (Some c) (Suc index) (cur @ [c]) start quot stack heredocs)
      else if c = CHR 0x27 \<or> c = CHR 0x22 then
        scan_shell rest (Some c) (Suc index) (cur @ [c]) start
          (Some (if c = CHR 0x27 then SingleQ else DoubleQ)) stack heredocs
      else if comment_start prev c then
        (let skipped = takeWhile (\<lambda>d. \<not> is_nl d) rest
         in scan_shell (dropWhile (\<lambda>d. \<not> is_nl d) rest) (Some (last (c # skipped)))
              (index + Suc (length skipped)) (cur @ c # skipped) start quot stack heredocs)
      else if heredoc_start (c # rest) then
        (let r = readHeredocOperator (tl rest);
             consumed = take (length rest - length (snd r)) rest
         in scan_shell (snd r) (Some (last (c # consumed))) (index + Suc (length consumed))
              (cur @ c # consumed) start quot stack
              (if delimiter (fst r) \<noteq> [] then heredocs @ [fst r] else heredocs))
      else if is_nl c \<and> heredocs \<noteq> [] then
        (let r = heredoc_bodies heredocs rest (Suc index)
         in Flush start cur # map (\<lambda>(p, t). Nested p t) (fst r)
              @ scan_shell (fst (snd r)) (Some c) (snd (snd r)) [] (snd (snd r)) quot stack [])
      else if c = CHR '')'' \<and> stack \<noteq> [] then
        Flush start cur # scan_shell rest (Some c) (Suc index) [] (Suc index) (hd stack) (tl stack) heredocs
      else if starts_with ''$('' (c # rest) then
        Flush start cur #
          scan_shell (tl rest) (Some CHR ''('') (index + 2) [] (index + 2) None (None # stack) heredocs
      else
        (case active_separator prev (c # rest) of
           Some separator \<Rightarrow>
             Flush start cur #
               scan_shell (drop (length separator - 1) rest) (Some (last separator)) (index + length separator) []
                 (index + length separator) quot stack heredocs
         | None \<Rightarrow> scan_shell rest (Some c) (Suc index) (cur @ [c]) start quot stack heredocs))"
  by pat_completeness auto
termination
proof (relation "measure (\<lambda>(s, _). length s)", goal_cases)
  case (8 c rest prev index cur start quot stack heredocs skipped)
  then show ?case using length_dropWhile_le [of "\<lambda>d. \<not> is_nl d" rest] by simp
next
  case (9 c rest prev index cur start quot stack heredocs r consumed)
  have "length (snd (readHeredocOperator (tl rest))) \<le> length (tl rest)"
    by (rule readHeredocOperator_length)
  then show ?case using 9 by simp
next
  case (10 c rest prev index cur start quot stack heredocs r)
  have "length (fst (snd (heredoc_bodies heredocs rest (Suc index)))) \<le> length rest"
    by (rule heredoc_bodies_length)
  then show ?case using 10 by simp
qed auto

declare scan_shell.simps(2) [simp del]

section \<open>Positions\<close>

text \<open>
  \<open>at_position w p t\<close>: the text \<open>t\<close> stands in \<open>w\<close> at position \<open>p\<close>. Everything the
  scanner emits stands in the command line at the position it is emitted with.
\<close>

definition at_position :: "string \<Rightarrow> nat \<Rightarrow> string \<Rightarrow> bool" where
  "at_position w p t = (\<exists>a b. w = a @ t @ b \<and> p = length a)"

lemma at_positionI: "w = a @ t @ b \<Longrightarrow> p = length a \<Longrightarrow> at_position w p t"
  by (auto simp: at_position_def)

lemma at_position_trans:
  assumes "at_position w p t" and "at_position t q u"
  shows "at_position w (p + q) u"
proof -
  obtain a b where w: "w = a @ t @ b" "p = length a" using assms(1) by (auto simp: at_position_def)
  obtain c d where t: "t = c @ u @ d" "q = length c" using assms(2) by (auto simp: at_position_def)
  show ?thesis by (rule at_positionI [of _ "a @ c" _ "d @ b"]) (simp_all add: w t)
qed

lemma at_position_slice: "at_position w p t \<Longrightarrow> slice w p (p + length t) = t"
  by (auto simp: at_position_def slice_def)

lemma at_position_length: "at_position w p t \<Longrightarrow> p + length t \<le> length w"
  by (auto simp: at_position_def)

lemma substitutionRanges_at:
  "(q, t) \<in> set (substitutionRanges s index) \<Longrightarrow> w = a @ s \<Longrightarrow> index = length a \<Longrightarrow> at_position w q t"
proof (induction s index arbitrary: a rule: substitutionRanges.induct)
  case (1 index)
  then show ?case by simp
next
  case (2 c rest index)
  consider (esc) "c = CHR 0x5C" | (par) "c \<noteq> CHR 0x5C" "starts_with ''$('' (c # rest)"
    | (tick) "c \<noteq> CHR 0x5C" "\<not> starts_with ''$('' (c # rest)" "c = CHR 0x60"
    | (plain) "c \<noteq> CHR 0x5C" "\<not> starts_with ''$('' (c # rest)" "c \<noteq> CHR 0x60" by blast
  then show ?case
  proof cases
    case esc
    show ?thesis
    proof (cases rest)
      case Nil
      then show ?thesis using esc 2(5) by (simp add: substitutionRanges.simps)
    next
      case (Cons d rest')
      then show ?thesis
        using esc 2(5,6,7) 2(1) [OF esc, of "a @ [c, d]"] by (simp add: substitutionRanges.simps)
    qed
  next
    case par
    define r where "r = paren_body (tl rest) 1"
    have rest: "c # rest = ''$('' @ tl rest" using par(2) by (cases rest) auto
    have body: "tl rest = fst r @ snd r" by (simp add: r_def paren_body_append)
    have whole: "w = (a @ ''$('') @ fst r @ snd r" using 2(6) rest body by simp
    have "(q, t) = (index + 2, fst r) \<or> (q, t) \<in> set (substitutionRanges (tl (snd r)) (index + 3 + length (fst r)))"
      using 2(5) par by (simp add: substitutionRanges.simps r_def Let_def)
    then show ?thesis
    proof
      assume "(q, t) = (index + 2, fst r)"
      then show ?thesis using whole 2(7) by (intro at_positionI [of _ "a @ ''$(''" _ "snd r"]) auto
    next
      assume in_tail: "(q, t) \<in> set (substitutionRanges (tl (snd r)) (index + 3 + length (fst r)))"
      show ?thesis
      proof (cases "snd r")
        case Nil
        then show ?thesis using in_tail by simp
      next
        case (Cons d after)
        show ?thesis
          using 2(2) [OF par r_def, of "a @ ''$('' @ fst r @ [d]"] in_tail Cons whole 2(7)
          by (simp add: r_def [symmetric] add.commute)
      qed
    qed
  next
    case tick
    define inner where "inner = takeWhile (\<lambda>x. x \<noteq> CHR 0x60) rest"
    define after where "after = dropWhile (\<lambda>x. x \<noteq> CHR 0x60) rest"
    have whole: "w = (a @ [c]) @ inner @ after" using 2(6) by (simp add: inner_def after_def)
    have "(q, t) = (index + 1, inner) \<or> (q, t) \<in> set (substitutionRanges (tl after) (index + 2 + length inner))"
      using 2(5) tick by (simp add: substitutionRanges.simps inner_def [symmetric] after_def [symmetric] Let_def)
    then show ?thesis
    proof
      assume "(q, t) = (index + 1, inner)"
      then show ?thesis using whole 2(7) by (intro at_positionI [of _ "a @ [c]" _ after]) auto
    next
      assume in_tail: "(q, t) \<in> set (substitutionRanges (tl after) (index + 2 + length inner))"
      show ?thesis
      proof (cases after)
        case Nil
        then show ?thesis using in_tail by simp
      next
        case (Cons d after')
        show ?thesis
          using 2(3) [OF tick inner_def, of "a @ [c] @ inner @ [d]"] in_tail Cons whole 2(7)
          by (simp add: after_def [symmetric] inner_def [symmetric])
      qed
    qed
  next
    case plain
    then show ?thesis
      using 2(5,6,7) 2(4) [OF plain, of "a @ [c]"] by (auto simp: substitutionRanges.simps split: if_splits)
  qed
qed

lemma heredoc_bodies_at:
  assumes "w = a @ rest" and "cursor = length a"
  shows "(\<forall>(q, t) \<in> set (fst (heredoc_bodies hs rest cursor)). cursor \<le> q \<and> at_position w q t) \<and>
     (\<exists>mid. rest = mid @ fst (snd (heredoc_bodies hs rest cursor)) \<and>
        snd (snd (heredoc_bodies hs rest cursor)) = cursor + length mid)"
  using assms
proof (induction hs arbitrary: a rest cursor)
  case Nil
  then show ?case by simp
next
  case (Cons h hs)
  obtain body after where b: "readHeredocBody h rest = (body, after)" by (cases "readHeredocBody h rest")
  obtain mid where mid: "rest = body @ mid @ after"
    using readHeredocBody_split [of rest h] b by auto
  have cursor': "cursor + (length rest - length after) = length (a @ body @ mid)"
    using mid Cons.prems by simp
  have whole: "w = (a @ body @ mid) @ after" using Cons.prems mid by simp
  have subs: "at_position w (cursor + q) t" if "(q, t) \<in> set (substitutionRanges body 0)" for q t
  proof -
    have "at_position body q t" using substitutionRanges_at [OF that, of body "[]"] by simp
    moreover have "at_position w cursor body"
      using Cons.prems mid by (auto intro: at_positionI)
    ultimately show ?thesis by (rule at_position_trans [rotated])
  qed
  show ?case
    using Cons.IH [OF whole cursor'] subs mid b
    by (auto simp: Let_def intro!: exI [of _ "body @ mid @ _"])
qed

definition item_at :: "string \<Rightarrow> scan_item \<Rightarrow> bool" where
  "item_at w it = (case it of Flush p t \<Rightarrow> at_position w p t | Nested p t \<Rightarrow> at_position w p t)"

lemma item_at_simps [simp]:
  "item_at w (Flush p t) = at_position w p t" "item_at w (Nested p t) = at_position w p t"
  by (simp_all add: item_at_def)

lemma active_separator_prefix:
  "active_separator prev s = Some x \<Longrightarrow> starts_with x s \<and> x \<noteq> [] \<and> x \<in> set SEPARATORS"
  by (auto simp: active_separator_def Let_def find_Some_iff SEPARATORS_def split: option.splits if_splits)

text \<open>
  The scanner, one step at a time: a step consumes a non-empty piece of the
  text and either adds it to the current segment, or ends the segment there and
  emits the substitutions of the heredoc bodies in the consumed piece.
\<close>

definition scan_step :: "char \<Rightarrow> string \<Rightarrow> char option \<Rightarrow> nat \<Rightarrow> string \<Rightarrow> nat \<Rightarrow> quote option \<Rightarrow> quote option list
    \<Rightarrow> pending_heredoc list \<Rightarrow> bool" where
  "scan_step c rest prev index cur start quot stack heredocs \<longleftrightarrow>
     (\<exists>emitted consumed rest' prev' cur' start' quot' stack' heredocs'.
        scan_shell (c # rest) prev index cur start quot stack heredocs
          = emitted @ scan_shell rest' prev' (index + length consumed) cur' start' quot' stack' heredocs' \<and>
        c # rest = consumed @ rest' \<and> consumed \<noteq> [] \<and>
        (emitted = [] \<and> cur' = cur @ consumed \<and> start' = start \<or>
         (\<exists>ns. emitted = Flush start cur # map (\<lambda>(p, t). Nested p t) ns \<and> cur' = [] \<and>
            start' = index + length consumed \<and>
            (\<forall>(p, t) \<in> set ns. length t < length (c # rest) \<and>
               (\<forall>w a. w = a @ c # rest \<longrightarrow> index = length a \<longrightarrow> at_position w p t)))))"

lemma scan_step_keep:
  assumes "scan_shell (c # rest) prev index cur start quot stack heredocs
      = scan_shell rest' prev' (index + length consumed) (cur @ consumed) start quot' stack' heredocs'"
    and "c # rest = consumed @ rest'" and "consumed \<noteq> []"
  shows "scan_step c rest prev index cur start quot stack heredocs"
  unfolding scan_step_def using assms
  by (intro exI [of _ "[]"] exI [of _ consumed] exI [of _ rest'] exI [of _ prev'] exI [of _ "cur @ consumed"]
        exI [of _ start] exI [of _ quot'] exI [of _ stack'] exI [of _ heredocs']) simp

lemma scan_step_cut:
  assumes "scan_shell (c # rest) prev index cur start quot stack heredocs
      = Flush start cur # map (\<lambda>(p, t). Nested p t) ns @
        scan_shell rest' prev' (index + length consumed) [] (index + length consumed) quot' stack' heredocs'"
    and "c # rest = consumed @ rest'" and "consumed \<noteq> []"
    and "\<forall>(p, t) \<in> set ns. length t < length (c # rest) \<and>
           (\<forall>w a. w = a @ c # rest \<longrightarrow> index = length a \<longrightarrow> at_position w p t)"
  shows "scan_step c rest prev index cur start quot stack heredocs"
  unfolding scan_step_def using assms
  by (intro exI [of _ "Flush start cur # map (\<lambda>(p, t). Nested p t) ns"] exI [of _ consumed] exI [of _ rest']
        exI [of _ prev'] exI [of _ "[]"] exI [of _ "index + length consumed"] exI [of _ quot'] exI [of _ stack']
        exI [of _ heredocs']) auto

lemma heredoc_word_suffix: "\<exists>u. s = u @ snd (snd (heredoc_word s d q))"
proof (induction s d q rule: heredoc_word.induct)
  case (1 d q)
  then show ?case by simp
next
  case (2 c rest d q)
  consider (stop) "heredoc_stop c" | (quoted) "\<not> heredoc_stop c" "c = CHR 0x27 \<or> c = CHR 0x22"
    | (esc) "\<not> heredoc_stop c" "\<not> (c = CHR 0x27 \<or> c = CHR 0x22)" "c = CHR 0x5C \<and> rest \<noteq> []"
    | (plain) "\<not> heredoc_stop c" "\<not> (c = CHR 0x27 \<or> c = CHR 0x22)" "\<not> (c = CHR 0x5C \<and> rest \<noteq> [])" by blast
  then show ?case
  proof cases
    case stop
    then show ?thesis by simp
  next
    case quoted
    obtain u where "tl (dropWhile (\<lambda>x. x \<noteq> c) rest)
        = u @ snd (snd (heredoc_word (c # rest) d q))"
      using 2(1) [OF quoted] quoted by auto
    moreover have "\<exists>v. rest = v @ tl (dropWhile (\<lambda>x. x \<noteq> c) rest)"
      by (metis append_assoc append_Nil2 list.exhaust_sel tl_Nil takeWhile_dropWhile_id append_Cons append_Nil)
    ultimately show ?thesis by (metis append_Cons append_assoc)
  next
    case esc
    then show ?thesis using 2(2) [OF esc] by (cases rest) (auto intro: exI [of _ "c # _ # _"])
  next
    case plain
    then obtain u where "rest = u @ snd (snd (heredoc_word rest (d @ [c]) q))" using 2(3) by blast
    moreover have "heredoc_word (c # rest) d q = heredoc_word rest (d @ [c]) q" using plain by auto
    ultimately show ?thesis by (metis append_Cons)
  qed
qed

lemma dropWhile_suffix: "\<exists>u. s = u @ dropWhile P s"
  by (metis takeWhile_dropWhile_id)

lemma readHeredocOperator_suffix: "take (length s - length (snd (readHeredocOperator s))) s @ snd (readHeredocOperator s) = s"
proof -
  define s1 where "s1 = (if starts_with ''-'' s then tl s else s)"
  define s2 where "s2 = dropWhile (\<lambda>c. c = CHR '' '' \<or> c = CHR 0x09) s1"
  have tail: "snd (readHeredocOperator s) = snd (snd (heredoc_word s2 [] False))"
    by (simp only: readHeredocOperator_def s1_def s2_def Let_def case_prod_beta snd_conv)
  have "\<exists>u. s = u @ s1"
    by (cases s) (auto simp: s1_def intro: exI [of _ "[_]"])
  moreover have "\<exists>u. s1 = u @ s2" unfolding s2_def by (rule dropWhile_suffix)
  moreover have "\<exists>u. s2 = u @ snd (snd (heredoc_word s2 [] False))" by (rule heredoc_word_suffix)
  ultimately obtain u where "s = u @ snd (readHeredocOperator s)" unfolding tail by (metis append_assoc)
  then show ?thesis by (metis add_diff_cancel_right' append_eq_conv_conj length_append)
qed

lemma heredoc_bodies_nested:
  assumes "(p, t) \<in> set (fst (heredoc_bodies hs rest (Suc index)))"
  shows "length t < length (c # rest) \<and> (\<forall>w a. w = a @ c # rest \<longrightarrow> index = length a \<longrightarrow> at_position w p t)"
proof -
  have at: "Suc index \<le> p \<and> at_position w p t" if "w = a @ c # rest" "index = length a" for w a
    using heredoc_bodies_at [of w "a @ [c]" rest "Suc index" hs] that assms by auto
  have "Suc index \<le> p \<and> at_position (replicate index c @ c # rest) p t"
    by (rule at [of _ "replicate index c"]) simp_all
  then have "length t \<le> length rest" by (auto dest: at_position_length)
  then show ?thesis using at by simp
qed

text \<open>One equation per branch of the loop.\<close>

lemma scan_single_quote:
  "quot = Some SingleQ \<Longrightarrow>
     scan_shell (c # rest) prev index cur start quot stack heredocs =
     scan_shell rest (Some c) (Suc index) (cur @ [c]) start (if c = CHR 0x27 then None else quot) stack heredocs"
  by (simp only: scan_shell.simps simp_thms if_True)

lemma scan_escape:
  "quot \<noteq> Some SingleQ \<Longrightarrow> c = CHR 0x5C \<Longrightarrow> rest \<noteq> [] \<Longrightarrow>
     scan_shell (c # rest) prev index cur start quot stack heredocs =
     scan_shell (tl rest) (Some (hd rest)) (index + 2) (cur @ [c, hd rest]) start quot stack heredocs"
  by (simp only: scan_shell.simps simp_thms if_True if_False)

lemma scan_double_quote:
  "\<not> (c = CHR 0x5C \<and> rest \<noteq> []) \<Longrightarrow>
     scan_shell (c # rest) prev index cur start (Some DoubleQ) stack heredocs =
     (if c = CHR 0x22 then scan_shell rest (Some c) (Suc index) (cur @ [c]) start None stack heredocs
      else if starts_with ''$('' (c # rest) then
        Flush start cur #
          scan_shell (tl rest) (Some CHR ''('') (index + 2) [] (index + 2) None (Some DoubleQ # stack) heredocs
      else scan_shell rest (Some c) (Suc index) (cur @ [c]) start (Some DoubleQ) stack heredocs)"
  by (simp only: scan_shell.simps(2) [of c rest prev index cur start "Some DoubleQ" stack heredocs] option.inject quote.distinct
      simp_thms if_True if_False)

lemma scan_open_quote:
  "\<not> (c = CHR 0x5C \<and> rest \<noteq> []) \<Longrightarrow> c = CHR 0x27 \<or> c = CHR 0x22 \<Longrightarrow>
     scan_shell (c # rest) prev index cur start None stack heredocs =
     scan_shell rest (Some c) (Suc index) (cur @ [c]) start
       (Some (if c = CHR 0x27 then SingleQ else DoubleQ)) stack heredocs"
  by (simp only: scan_shell.simps(2) [of c rest prev index cur start None stack heredocs] option.distinct
      simp_thms if_True if_False)

text \<open>The branches outside quotes.\<close>

lemma scan_unquoted:
  "\<not> (c = CHR 0x5C \<and> rest \<noteq> []) \<Longrightarrow> \<not> (c = CHR 0x27 \<or> c = CHR 0x22) \<Longrightarrow>
     scan_shell (c # rest) prev index cur start None stack heredocs =
     (if comment_start prev c then
        (let skipped = takeWhile (\<lambda>d. \<not> is_nl d) rest
         in scan_shell (dropWhile (\<lambda>d. \<not> is_nl d) rest) (Some (last (c # skipped)))
              (index + Suc (length skipped)) (cur @ c # skipped) start None stack heredocs)
      else if heredoc_start (c # rest) then
        (let r = readHeredocOperator (tl rest);
             consumed = take (length rest - length (snd r)) rest
         in scan_shell (snd r) (Some (last (c # consumed))) (index + Suc (length consumed))
              (cur @ c # consumed) start None stack
              (if delimiter (fst r) \<noteq> [] then heredocs @ [fst r] else heredocs))
      else if is_nl c \<and> heredocs \<noteq> [] then
        (let r = heredoc_bodies heredocs rest (Suc index)
         in Flush start cur # map (\<lambda>(p, t). Nested p t) (fst r)
              @ scan_shell (fst (snd r)) (Some c) (snd (snd r)) [] (snd (snd r)) None stack [])
      else if c = CHR '')'' \<and> stack \<noteq> [] then
        Flush start cur # scan_shell rest (Some c) (Suc index) [] (Suc index) (hd stack) (tl stack) heredocs
      else if starts_with ''$('' (c # rest) then
        Flush start cur #
          scan_shell (tl rest) (Some CHR ''('') (index + 2) [] (index + 2) None (None # stack) heredocs
      else
        (case active_separator prev (c # rest) of
           Some separator \<Rightarrow>
             Flush start cur #
               scan_shell (drop (length separator - 1) rest) (Some (last separator)) (index + length separator) []
                 (index + length separator) None stack heredocs
         | None \<Rightarrow> scan_shell rest (Some c) (Suc index) (cur @ [c]) start None stack heredocs))"
  by (simp only: scan_shell.simps(2) [of c rest prev index cur start None stack heredocs] option.distinct
      simp_thms if_True if_False)

lemma starts_dollar_paren: "starts_with ''$('' (c # rest) \<Longrightarrow> c # rest = [c, CHR ''(''] @ tl rest"
  by (cases rest) auto

lemma scan_step_quoted:
  assumes "quot \<noteq> None \<or> (c = CHR 0x5C \<and> rest \<noteq> []) \<or> c = CHR 0x27 \<or> c = CHR 0x22"
  shows "scan_step c rest prev index cur start quot stack heredocs"
proof -
  consider
    (sq) "quot = Some SingleQ"
  | (esc) "quot \<noteq> Some SingleQ" "c = CHR 0x5C" "rest \<noteq> []"
  | (cut) "quot = Some DoubleQ" "\<not> (c = CHR 0x5C \<and> rest \<noteq> [])" "c \<noteq> CHR 0x22" "starts_with ''$('' (c # rest)"
  | (dq) "quot = Some DoubleQ" "\<not> (c = CHR 0x5C \<and> rest \<noteq> [])" "c = CHR 0x22 \<or> \<not> starts_with ''$('' (c # rest)"
  | (openq) "quot = None" "\<not> (c = CHR 0x5C \<and> rest \<noteq> [])" "c = CHR 0x27 \<or> c = CHR 0x22"
  proof (cases quot)
    case None
    then show ?thesis using assms that(2) that(5) by blast
  next
    case (Some q)
    then show ?thesis using that(1) that(2) that(3) that(4) by (cases q) blast+
  qed
  then show ?thesis
  proof cases
    case sq
    have "scan_shell (c # rest) prev index cur start quot stack heredocs
        = scan_shell rest (Some c) (index + length [c]) (cur @ [c]) start (if c = CHR 0x27 then None else quot) stack heredocs"
      using scan_single_quote [OF sq] by simp
    then show ?thesis by (rule scan_step_keep) simp_all
  next
    case esc
    have "scan_shell (c # rest) prev index cur start quot stack heredocs
        = scan_shell (tl rest) (Some (hd rest)) (index + length [c, hd rest]) (cur @ [c, hd rest]) start quot stack heredocs"
      using scan_escape [OF esc] by simp
    then show ?thesis by (rule scan_step_keep) (simp_all add: esc(3))
  next
    case cut
    have "scan_shell (c # rest) prev index cur start quot stack heredocs
        = Flush start cur # map (\<lambda>(p, t). Nested p t) [] @
          scan_shell (tl rest) (Some CHR ''('') (index + length [c, CHR ''('']) [] (index + length [c, CHR ''('']) None (Some DoubleQ # stack) heredocs"
      unfolding cut(1) scan_double_quote [OF cut(2)] using cut(3,4)
      by (simp only: if_True if_False simp_thms list.map append_Nil append_Cons list.size add_Suc_right add_0_right add_2_eq_Suc')
    then show ?thesis by (rule scan_step_cut) (use starts_dollar_paren [OF cut(4)] in simp_all)
  next
    case dq
    have "scan_shell (c # rest) prev index cur start quot stack heredocs
        = scan_shell rest (Some c) (index + length [c]) (cur @ [c]) start (if c = CHR 0x22 then None else Some DoubleQ) stack heredocs"
      using scan_double_quote [OF dq(2), of prev index cur start stack heredocs] dq by auto
    then show ?thesis by (rule scan_step_keep) simp_all
  next
    case openq
    have "scan_shell (c # rest) prev index cur start quot stack heredocs
        = scan_shell rest (Some c) (index + length [c]) (cur @ [c]) start (Some (if c = CHR 0x27 then SingleQ else DoubleQ)) stack heredocs"
      using scan_open_quote [OF openq(2,3), of prev index cur start stack heredocs] openq(1) by simp
    then show ?thesis by (rule scan_step_keep) simp_all
  qed
qed

lemma heredoc_consumed:
  assumes "heredoc_start (c # rest)"
  shows "take (length rest - length (snd (readHeredocOperator (tl rest)))) rest @ snd (readHeredocOperator (tl rest)) = rest"
proof -
  obtain d rest' where rest: "rest = d # rest'" using assms by (cases rest) (auto simp: heredoc_start_def)
  have "length rest - length (snd (readHeredocOperator rest')) = Suc (length rest' - length (snd (readHeredocOperator rest')))"
    using readHeredocOperator_length [of rest'] by (simp add: rest Suc_diff_le)
  then show ?thesis using readHeredocOperator_suffix [of rest'] by (simp add: rest)
qed

lemma scan_step_unquoted_cut:
  assumes nesc: "\<not> (c = CHR 0x5C \<and> rest \<noteq> [])" and nquo: "\<not> (c = CHR 0x27 \<or> c = CHR 0x22)"
    and guards: "\<not> comment_start prev c" "\<not> heredoc_start (c # rest)"
    and cut: "(is_nl c \<and> heredocs \<noteq> []) \<or> (c = CHR '')'' \<and> stack \<noteq> []) \<or> starts_with ''$('' (c # rest)
        \<or> active_separator prev (c # rest) \<noteq> None"
  shows "scan_step c rest prev index cur start None stack heredocs"
proof -
  note eq = scan_unquoted [OF nesc nquo, of prev index cur start stack heredocs]
  consider
    (newline) "is_nl c \<and> heredocs \<noteq> []"
  | (close) "\<not> (is_nl c \<and> heredocs \<noteq> [])" "c = CHR '')'' \<and> stack \<noteq> []"
  | (subst) "\<not> (is_nl c \<and> heredocs \<noteq> [])" "\<not> (c = CHR '')'' \<and> stack \<noteq> [])" "starts_with ''$('' (c # rest)"
  | (sep) x where "\<not> (is_nl c \<and> heredocs \<noteq> [])" "\<not> (c = CHR '')'' \<and> stack \<noteq> [])"
      "\<not> starts_with ''$('' (c # rest)" "active_separator prev (c # rest) = Some x"
    using cut by auto
  then show ?thesis
  proof cases
    case newline
    obtain mid where mid: "rest = mid @ fst (snd (heredoc_bodies heredocs rest (Suc index)))"
        "snd (snd (heredoc_bodies heredocs rest (Suc index))) = Suc index + length mid"
      using heredoc_bodies_at [of "replicate (Suc index) c @ rest" "replicate (Suc index) c" rest "Suc index" heredocs] by auto
    let ?r = "heredoc_bodies heredocs rest (Suc index)"
    have "scan_shell (c # rest) prev index cur start None stack heredocs
        = Flush start cur # map (\<lambda>(p, t). Nested p t) (fst ?r) @
          scan_shell (fst (snd ?r)) (Some c) (index + length (c # mid)) [] (index + length (c # mid)) None stack []"
      using eq guards newline mid(2) by (simp add: Let_def)
    then show ?thesis
    proof (rule scan_step_cut)
      show "c # rest = (c # mid) @ fst (snd ?r)" using mid(1) by simp
      show "\<forall>(p, t) \<in> set (fst ?r). length t < length (c # rest) \<and>
           (\<forall>w a. w = a @ c # rest \<longrightarrow> index = length a \<longrightarrow> at_position w p t)"
        using heredoc_bodies_nested [of _ _ heredocs rest index c] by blast
    qed simp
  next
    case close
    have "scan_shell (c # rest) prev index cur start None stack heredocs
        = Flush start cur # map (\<lambda>(p, t). Nested p t) [] @
          scan_shell rest (Some c) (index + length [c]) [] (index + length [c]) (hd stack) (tl stack) heredocs"
      unfolding eq using guards close
      by (simp only: if_True if_False simp_thms list.map append_Nil append_Cons list.size add_Suc_right add_0_right)
    then show ?thesis by (rule scan_step_cut) simp_all
  next
    case subst
    have "scan_shell (c # rest) prev index cur start None stack heredocs
        = Flush start cur # map (\<lambda>(p, t). Nested p t) [] @
          scan_shell (tl rest) (Some CHR ''('') (index + length [c, CHR ''('']) [] (index + length [c, CHR ''('']) None (None # stack) heredocs"
      using eq guards subst by (simp del: starts_with.simps)
    then show ?thesis by (rule scan_step_cut) (use starts_dollar_paren [OF subst(3)] in simp_all)
  next
    case (sep x)
    then obtain d x' where x: "x = d # x'" using active_separator_prefix by (cases x) auto
    then have at: "c # rest = x @ drop (length x - 1) rest"
      using active_separator_prefix [OF sep(4)] by (auto simp: starts_with_iff)
    have "scan_shell (c # rest) prev index cur start None stack heredocs
        = Flush start cur # map (\<lambda>(p, t). Nested p t) [] @
          scan_shell (drop (length x - 1) rest) (Some (last x)) (index + length x) [] (index + length x) None stack heredocs"
      using eq guards sep by (simp del: starts_with.simps)
    then show ?thesis by (rule scan_step_cut) (use at x in simp_all)
  qed
qed

lemma scan_stepI: "scan_step c rest prev index cur start quot stack heredocs"
proof (cases "quot \<noteq> None \<or> (c = CHR 0x5C \<and> rest \<noteq> []) \<or> c = CHR 0x27 \<or> c = CHR 0x22")
  case True
  then show ?thesis by (rule scan_step_quoted)
next
  case False
  then have quot: "quot = None" and nesc: "\<not> (c = CHR 0x5C \<and> rest \<noteq> [])"
    and nquo: "\<not> (c = CHR 0x27 \<or> c = CHR 0x22)" by auto
  note eq = scan_unquoted [OF nesc nquo, of prev index cur start stack heredocs]
  consider
    (comment) "comment_start prev c"
  | (heredoc) "\<not> comment_start prev c" "heredoc_start (c # rest)"
  | (cut) "\<not> comment_start prev c" "\<not> heredoc_start (c # rest)"
      "(is_nl c \<and> heredocs \<noteq> []) \<or> (c = CHR '')'' \<and> stack \<noteq> []) \<or> starts_with ''$('' (c # rest)
        \<or> active_separator prev (c # rest) \<noteq> None"
  | (word) "\<not> comment_start prev c" "\<not> heredoc_start (c # rest)" "\<not> (is_nl c \<and> heredocs \<noteq> [])"
      "\<not> (c = CHR '')'' \<and> stack \<noteq> [])" "\<not> starts_with ''$('' (c # rest)" "active_separator prev (c # rest) = None"
    by blast
  then show ?thesis
  proof cases
    case comment
    let ?k = "c # takeWhile (\<lambda>d. \<not> is_nl d) rest"
    have "scan_shell (c # rest) prev index cur start None stack heredocs
        = scan_shell (dropWhile (\<lambda>d. \<not> is_nl d) rest) (Some (last ?k)) (index + length ?k) (cur @ ?k) start None stack heredocs"
      using eq comment by (simp del: starts_with.simps add: Let_def)
    then show ?thesis unfolding quot by (rule scan_step_keep) simp_all
  next
    case heredoc
    let ?r = "readHeredocOperator (tl rest)"
    let ?k = "c # take (length rest - length (snd ?r)) rest"
    have "scan_shell (c # rest) prev index cur start None stack heredocs
        = scan_shell (snd ?r) (Some (last ?k)) (index + length ?k) (cur @ ?k) start None stack
            (if delimiter (fst ?r) \<noteq> [] then heredocs @ [fst ?r] else heredocs)"
      unfolding eq Let_def using heredoc by (simp only: if_True if_False simp_thms list.size add_Suc_right add_0_right)
    then show ?thesis unfolding quot
      by (rule scan_step_keep) (use heredoc_consumed [OF heredoc(2)] in simp_all)
  next
    case cut
    show ?thesis unfolding quot by (rule scan_step_unquoted_cut [OF nesc nquo cut])
  next
    case word
    have "scan_shell (c # rest) prev index cur start None stack heredocs
        = scan_shell rest (Some c) (index + length [c]) (cur @ [c]) start None stack heredocs"
      using eq word by (simp del: starts_with.simps)
    then show ?thesis unfolding quot by (rule scan_step_keep) simp_all
  qed
qed

lemma scan_item_ok:
  assumes "it \<in> set (scan_shell rest prev index cur start quot stack heredocs)"
    and "w = a @ cur @ rest" and "start = length a" and "index = length a + length cur"
  shows "item_at w it \<and> (case it of Nested p t \<Rightarrow> length t < length rest | Flush p t \<Rightarrow> True)"
  using assms
proof (induction "length rest" arbitrary: rest prev index cur start quot stack heredocs a rule: less_induct)
  case less
  show ?case
  proof (cases rest)
    case Nil
    then show ?thesis using less.prems by (auto intro: at_positionI)
  next
    case (Cons c rest1)
    obtain emitted consumed rest' prev' cur' start' quot' stack' heredocs' where
      step: "scan_shell (c # rest1) prev index cur start quot stack heredocs
          = emitted @ scan_shell rest' prev' (index + length consumed) cur' start' quot' stack' heredocs'"
      and split: "c # rest1 = consumed @ rest'" "consumed \<noteq> []"
      and kinds: "emitted = [] \<and> cur' = cur @ consumed \<and> start' = start \<or>
         (\<exists>ns. emitted = Flush start cur # map (\<lambda>(p, t). Nested p t) ns \<and> cur' = [] \<and>
            start' = index + length consumed \<and>
            (\<forall>(p, t) \<in> set ns. length t < length (c # rest1) \<and>
               (\<forall>w a. w = a @ c # rest1 \<longrightarrow> index = length a \<longrightarrow> at_position w p t)))"
      using scan_stepI [of c rest1 prev index cur start quot stack heredocs] unfolding scan_step_def by (elim exE conjE) (rule that)
    have shorter: "length rest' < length rest" using split Cons by (cases consumed) auto
    have nested_mono: "(case it of Nested p t \<Rightarrow> length t < length rest' | Flush p t \<Rightarrow> True) \<Longrightarrow>
        (case it of Nested p t \<Rightarrow> length t < length rest | Flush p t \<Rightarrow> True)"
      using shorter by (auto split: scan_item.splits)
    from kinds show ?thesis
    proof
      assume keep: "emitted = [] \<and> cur' = cur @ consumed \<and> start' = start"
      have "item_at w it \<and> (case it of Nested p t \<Rightarrow> length t < length rest' | Flush p t \<Rightarrow> True)"
      proof (rule less.hyps [OF shorter])
        show "it \<in> set (scan_shell rest' prev' (index + length consumed) cur' start' quot' stack' heredocs')"
          using less.prems(1) step keep Cons by simp
        show "w = a @ cur' @ rest'" using less.prems(2) keep split(1) Cons by simp
        show "start' = length a" using less.prems(3) keep by simp
        show "index + length consumed = length a + length cur'" using less.prems(4) keep by simp
      qed
      then show ?thesis using nested_mono by blast
    next
      assume "\<exists>ns. emitted = Flush start cur # map (\<lambda>(p, t). Nested p t) ns \<and> cur' = [] \<and>
            start' = index + length consumed \<and>
            (\<forall>(p, t) \<in> set ns. length t < length (c # rest1) \<and>
               (\<forall>w a. w = a @ c # rest1 \<longrightarrow> index = length a \<longrightarrow> at_position w p t))"
      then obtain ns where ns: "emitted = Flush start cur # map (\<lambda>(p, t). Nested p t) ns" "cur' = []"
            "start' = index + length consumed"
            and nested: "\<And>p t. (p, t) \<in> set ns \<Longrightarrow> length t < length (c # rest1) \<and>
               (\<forall>w a. w = a @ c # rest1 \<longrightarrow> index = length a \<longrightarrow> at_position w p t)" by blast
      consider (flush) "it = Flush start cur" | (nest) p t where "it = Nested p t" "(p, t) \<in> set ns"
        | (later) "it \<in> set (scan_shell rest' prev' (index + length consumed) cur' start' quot' stack' heredocs')"
        using less.prems(1) step ns(1) Cons by auto
      then show ?thesis
      proof cases
        case flush
        then show ?thesis using less.prems by (auto intro: at_positionI)
      next
        case nest
        have "w = (a @ cur) @ c # rest1" "index = length (a @ cur)" using less.prems(2,4) Cons by simp_all
        then have "at_position w p t" using nested [OF nest(2)] by blast
        then show ?thesis using nested [OF nest(2)] nest(1) Cons by simp
      next
        case later
        have "item_at w it \<and> (case it of Nested p t \<Rightarrow> length t < length rest' | Flush p t \<Rightarrow> True)"
        proof (rule less.hyps [OF shorter later])
          show "w = (a @ cur @ consumed) @ cur' @ rest'" using less.prems(2) ns(2) split(1) Cons by simp
          show "start' = length (a @ cur @ consumed)" using less.prems(4) ns(3) by simp
          show "index + length consumed = length (a @ cur @ consumed) + length cur'" using less.prems(4) ns(2) by simp
        qed
        then show ?thesis using nested_mono by blast
      qed
    qed
  qed
qed

lemma scan_shell_items:
  "it \<in> set (scan_shell w None 0 [] 0 None [] []) \<Longrightarrow>
     item_at w it \<and> (case it of Nested p t \<Rightarrow> length t < length w | Flush p t \<Rightarrow> True)"
  by (rule scan_item_ok [where a = "[]"]) simp_all

section \<open>Segments\<close>

text \<open>The loop over the reserved words in front of a command (\<open>flush\<close>): \<open>time\<close> takes its \<open>-p\<close>.\<close>

function drop_reserved :: "shell_token list \<Rightarrow> shell_token list" where
  "drop_reserved [] = []"
| "drop_reserved (t # ts) =
     (if token_text t \<in> set RESERVED_PREFIX then
        (if token_text t = ''time'' \<and> ts \<noteq> [] \<and> token_text (hd ts) = ''-p'' then drop_reserved (tl ts)
         else drop_reserved ts)
      else t # ts)"
  by pat_completeness auto
termination
  by (relation "measure length") auto

declare drop_reserved.simps(2) [simp del]

text \<open>
  \<open>flush\<close>: the segment of the text \<open>text\<close> that starts at \<open>start\<close>, or nothing when
  no token of it has a character (a stray closing quote is not a command).
\<close>

definition flush_segment :: "nat \<Rightarrow> nat \<Rightarrow> string \<Rightarrow> shell_segment list" where
  "flush_segment offset start txt =
     (let rest = drop_reserved (tokenizeSegment txt);
          leading = length txt - length (trim_start txt)
      in if list_all (\<lambda>t. token_text t = []) rest then []
         else [\<lparr>seg_text = txt, seg_start = offset + start + leading,
                seg_commandStart = offset + start + token_offset (hd rest),
                seg_tokens = map token_text rest\<rparr>])"

function splitShellCommand :: "string \<Rightarrow> nat \<Rightarrow> shell_segment list" where
  "splitShellCommand command offset =
     concat (map (\<lambda>it. case it of
         Flush start txt \<Rightarrow> flush_segment offset start txt
       | Nested pos txt \<Rightarrow> splitShellCommand txt (offset + pos))
       (scan_shell command None 0 [] 0 None [] []))"
  by pat_completeness auto
termination
proof (relation "measure (\<lambda>(s, _). length s)", goal_cases)
  case (2 w p it q t)
  then show ?case using scan_shell_items [of it w] by simp
qed simp

declare splitShellCommand.simps [simp del]

subsection \<open>Where the segments stand\<close>

text \<open>The branches of the loop of \<open>tokenizeSegment\<close>.\<close>

lemma tokenize_cases:
  fixes c :: char and rest :: string and quot :: "quote option" and off :: "nat option"
  obtains
    (sq) "quot = Some SingleQ"
  | (esc) "quot \<noteq> Some SingleQ" "c = CHR 0x5C \<and> rest \<noteq> []"
  | (dq) "quot \<noteq> Some SingleQ" "\<not> (c = CHR 0x5C \<and> rest \<noteq> [])" "quot = Some DoubleQ"
  | (openq) "quot \<noteq> Some SingleQ" "\<not> (c = CHR 0x5C \<and> rest \<noteq> [])" "quot \<noteq> Some DoubleQ" "c = CHR 0x27 \<or> c = CHR 0x22"
  | (space) "quot \<noteq> Some SingleQ" "\<not> (c = CHR 0x5C \<and> rest \<noteq> [])" "quot \<noteq> Some DoubleQ" "\<not> (c = CHR 0x27 \<or> c = CHR 0x22)" "js_space c"
  | (hash) "quot \<noteq> Some SingleQ" "\<not> (c = CHR 0x5C \<and> rest \<noteq> [])" "quot \<noteq> Some DoubleQ" "\<not> (c = CHR 0x27 \<or> c = CHR 0x22)" "\<not> js_space c"
      "c = CHR ''#'' \<and> off = None"
  | (word) "quot \<noteq> Some SingleQ" "\<not> (c = CHR 0x5C \<and> rest \<noteq> [])" "quot \<noteq> Some DoubleQ" "\<not> (c = CHR 0x27 \<or> c = CHR 0x22)" "\<not> js_space c"
      "\<not> (c = CHR ''#'' \<and> off = None)"
  by blast

text \<open>A token starts at a character that is not white space.\<close>

lemma tokenize_loop_offsets:
  "tok \<in> set (tokenize_loop s index quot current off) \<Longrightarrow>
     off = Some (token_offset tok) \<or>
     (index \<le> token_offset tok \<and> token_offset tok < index + length s \<and> \<not> js_space (s ! (token_offset tok - index)))"
proof (induction s index quot current off rule: tokenize_loop.induct)
  case (1 index quot current off)
  then show ?case by (auto split: option.splits)
next
  case (2 c rest index quot current off)
  note IH = "2.IH" and prems = "2.prems"
  have special: "\<not> js_space CHR 0x5C" "\<not> js_space CHR 0x27" "\<not> js_space CHR 0x22" by (simp_all add: js_space_def)
  note defs = tokenize_loop.simps(2) nth_Cons' special
  show ?case
  proof (cases rule: tokenize_cases [where quot = quot and c = c and rest = rest and off = off])
    case sq
    then show ?thesis using IH(1) [OF sq] IH(2) [OF sq] prems
      by (cases "c = CHR 0x27") (auto simp: defs)
  next
    case esc
    then show ?thesis using IH(3) [OF esc] IH(4) [OF esc] prems
      by (cases "hd rest = CHR 0x0A \<and> quot = None"; cases off; cases rest) (auto simp: defs numeral_2_eq_2)
  next
    case dq
    then show ?thesis using IH(5) [OF dq] IH(6) [OF dq] prems
      by (cases "c = CHR 0x22") (auto simp: defs)
  next
    case openq
    then show ?thesis using IH(7) [OF openq] prems
      by (cases off) (auto simp: defs)
  next
    case space
    then show ?thesis using IH(8) [OF space] prems
      by (cases off) (auto simp: defs)
  next
    case hash
    then show ?thesis using prems by (simp add: tokenize_loop.simps(2))
  next
    case word
    then show ?thesis using IH(9) [OF word] prems
      by (cases off) (auto simp: defs)
  qed
qed

lemma tokenizeSegment_offset:
  "tok \<in> set (tokenizeSegment s) \<Longrightarrow> token_offset tok < length s \<and> \<not> js_space (s ! token_offset tok)"
  using tokenize_loop_offsets [of tok s 0 None "[]" None] by (auto simp: tokenizeSegment_def)

lemma drop_reserved_subset: "set (drop_reserved ts) \<subseteq> set ts"
proof (induction ts rule: drop_reserved.induct)
  case 1
  then show ?case by simp
next
  case (2 t ts)
  then show ?case by (cases ts) (auto simp: drop_reserved.simps(2))
qed

lemma leading_le:
  assumes "k < length s" and "\<not> js_space (s ! k)"
  shows "length s - length (trim_start s) \<le> k"
proof (rule ccontr)
  assume "\<not> ?thesis"
  moreover have "length (takeWhile js_space s) + length (trim_start s) = length s"
    by (metis takeWhile_dropWhile_id length_append trim_start_def)
  ultimately have "k < length (takeWhile js_space s)" by linarith
  then show False using assms(2) by (metis nth_mem set_takeWhileD takeWhile_nth)
qed

definition segment_in :: "string \<Rightarrow> nat \<Rightarrow> shell_segment \<Rightarrow> bool" where
  "segment_in w offset seg =
     (offset \<le> seg_start seg \<and> seg_start seg \<le> seg_commandStart seg \<and>
      seg_commandStart seg < offset + length w \<and>
      \<not> js_space (w ! (seg_commandStart seg - offset)) \<and>
      (\<exists>p. at_position w p (seg_text seg) \<and> offset + p \<le> seg_start seg \<and>
         seg_commandStart seg < offset + p + length (seg_text seg)) \<and>
      (\<exists>t \<in> set (seg_tokens seg). t \<noteq> []))"

lemma segment_in_mono:
  assumes "segment_in t (offset + p) seg" and at: "at_position w p t"
  shows "segment_in w offset seg"
proof -
  obtain a b where w: "w = a @ t @ b" "p = length a" using at by (auto simp: at_position_def)
  obtain q where q: "at_position t q (seg_text seg)" "offset + p + q \<le> seg_start seg"
      "seg_commandStart seg < offset + p + q + length (seg_text seg)"
    using assms(1) by (auto simp: segment_in_def)
  have k: "seg_commandStart seg - offset = p + (seg_commandStart seg - (offset + p))"
    using assms(1) by (simp add: segment_in_def)
  have "w ! (seg_commandStart seg - offset) = t ! (seg_commandStart seg - (offset + p))"
    using assms(1) unfolding k w by (auto simp: segment_in_def nth_append)
  moreover have "at_position w (p + q) (seg_text seg)" by (rule at_position_trans [OF at q(1)])
  ultimately show ?thesis
    using assms(1) q w by (auto simp: segment_in_def add.assoc intro: exI [of _ "p + q"])
qed

lemma flush_segment_in:
  assumes "seg \<in> set (flush_segment offset p txt)" and "at_position w p txt"
  shows "segment_in w offset seg"
proof (rule segment_in_mono [OF _ assms(2)])
  define rest where "rest = drop_reserved (tokenizeSegment txt)"
  have seg: "\<not> list_all (\<lambda>t. token_text t = []) rest"
      "seg = \<lparr>seg_text = txt, seg_start = offset + p + (length txt - length (trim_start txt)),
              seg_commandStart = offset + p + token_offset (hd rest), seg_tokens = map token_text rest\<rparr>"
    using assms(1) by (auto simp: flush_segment_def rest_def Let_def split: if_splits)
  then have "hd rest \<in> set (tokenizeSegment txt)"
    using drop_reserved_subset [of "tokenizeSegment txt"] by (cases rest) (auto simp: rest_def)
  from tokenizeSegment_offset [OF this] leading_le [of "token_offset (hd rest)" "txt"]
  show "segment_in txt (offset + p) seg"
    using seg(1) by (auto simp: segment_in_def seg(2) list_all_iff intro!: exI [of _ 0] at_positionI [of _ "[]" _ "[]"])
qed

lemma splitShellCommand_in:
  "seg \<in> set (splitShellCommand w offset) \<Longrightarrow> segment_in w offset seg"
proof (induction w offset arbitrary: seg rule: splitShellCommand.induct)
  case (1 w offset)
  obtain it where it: "it \<in> set (scan_shell w None 0 [] 0 None [] [])"
      "seg \<in> set (case it of Flush p t \<Rightarrow> flush_segment offset p t | Nested p t \<Rightarrow> splitShellCommand t (offset + p))"
    using "1.prems" by (auto simp: splitShellCommand.simps [of w])
  show ?case
  proof (cases it)
    case (Flush p t)
    then show ?thesis using it scan_shell_items [OF it(1)] by (auto intro: flush_segment_in)
  next
    case (Nested p t)
    then have "segment_in t (offset + p) seg" using "1.IH" [OF it(1) Nested] it(2) by simp
    then show ?thesis using scan_shell_items [OF it(1)] Nested by (auto intro: segment_in_mono)
  qed
qed

section \<open>Splitting at a control operator\<close>

definition shift_item :: "nat \<Rightarrow> scan_item \<Rightarrow> scan_item" where
  "shift_item n it = (case it of Flush p t \<Rightarrow> Flush (n + p) t | Nested p t \<Rightarrow> Nested (n + p) t)"

lemma heredoc_bodies_shift:
  "heredoc_bodies hs rest (n + cursor) =
     (map (\<lambda>(p, t). (n + p, t)) (fst (heredoc_bodies hs rest cursor)),
      fst (snd (heredoc_bodies hs rest cursor)), n + snd (snd (heredoc_bodies hs rest cursor)))"
proof (induction hs arbitrary: rest cursor)
  case Nil
  then show ?case by simp
next
  case (Cons h hs)
  show ?case
    using Cons.IH [of "snd (readHeredocBody h rest)" "cursor + (length rest - length (snd (readHeredocBody h rest)))"]
    by (simp add: Let_def add.assoc comp_def case_prod_beta)
qed

text \<open>One equation for the branches that end a segment outside quotes, with every position relative.\<close>

lemma scan_shell_shift:
  "scan_shell s prev (n + index) cur (n + start) quot stack heredocs
     = map (shift_item n) (scan_shell s prev index cur start quot stack heredocs)"
proof (induction s prev index cur start quot stack heredocs rule: scan_shell.induct)
  case (1 prev index cur start quot stack heredocs)
  then show ?case by (simp add: shift_item_def)
next
  case (2 c rest prev index cur start quot stack heredocs)
  note IH = "2.IH"
  show ?case
  proof (cases "quot \<noteq> None \<or> (c = CHR 0x5C \<and> rest \<noteq> []) \<or> c = CHR 0x27 \<or> c = CHR 0x22")
    case True
    consider
      (sq) "quot = Some SingleQ"
    | (esc) "quot \<noteq> Some SingleQ" "c = CHR 0x5C \<and> rest \<noteq> []"
    | (dq) "quot \<noteq> Some SingleQ" "\<not> (c = CHR 0x5C \<and> rest \<noteq> [])" "quot = Some DoubleQ"
    | (openq) "quot \<noteq> Some SingleQ" "\<not> (c = CHR 0x5C \<and> rest \<noteq> [])" "quot \<noteq> Some DoubleQ" "c = CHR 0x27 \<or> c = CHR 0x22"
    proof (cases quot)
      case None
      then show ?thesis using True that(2) that(4) by blast
    next
      case (Some q)
      then show ?thesis using that(1) that(2) that(3) by (cases q) blast+
    qed
    then show ?thesis
    proof cases
      case sq
      show ?thesis using IH(1) [OF sq] unfolding scan_single_quote [OF sq] add_Suc_right .
    next
      case esc
      then show ?thesis using IH(2) [OF esc] by (simp add: scan_escape)
    next
      case dq
      show ?thesis
        using IH(3) [OF dq] IH(4) [OF dq] IH(5) [OF dq] dq(2) unfolding dq(3)
        by (simp add: scan_double_quote shift_item_def del: starts_with.simps)
    next
      case openq
      then have "quot = None" by (metis quote.exhaust not_None_eq)
      then show ?thesis using IH(6) [OF openq] openq by (simp add: scan_open_quote)
    qed
  next
    case False
    then have quot: "quot = None" and nesc: "\<not> (c = CHR 0x5C \<and> rest \<noteq> [])"
      and nquo: "\<not> (c = CHR 0x27 \<or> c = CHR 0x22)" by auto
    have g: "quot \<noteq> Some SingleQ" "quot \<noteq> Some DoubleQ" using quot by simp_all
    note G = g(1) nesc g(2) nquo
    consider
      (comment) "comment_start prev c"
    | (heredoc) "\<not> comment_start prev c" "heredoc_start (c # rest)"
    | (newline) "\<not> comment_start prev c" "\<not> heredoc_start (c # rest)" "is_nl c \<and> heredocs \<noteq> []"
    | (close) "\<not> comment_start prev c" "\<not> heredoc_start (c # rest)" "\<not> (is_nl c \<and> heredocs \<noteq> [])"
        "c = CHR '')'' \<and> stack \<noteq> []"
    | (subst) "\<not> comment_start prev c" "\<not> heredoc_start (c # rest)" "\<not> (is_nl c \<and> heredocs \<noteq> [])"
        "\<not> (c = CHR '')'' \<and> stack \<noteq> [])" "starts_with ''$('' (c # rest)"
    | (sep) x where "\<not> comment_start prev c" "\<not> heredoc_start (c # rest)" "\<not> (is_nl c \<and> heredocs \<noteq> [])"
        "\<not> (c = CHR '')'' \<and> stack \<noteq> [])" "\<not> starts_with ''$('' (c # rest)" "active_separator prev (c # rest) = Some x"
    | (word) "\<not> comment_start prev c" "\<not> heredoc_start (c # rest)" "\<not> (is_nl c \<and> heredocs \<noteq> [])"
        "\<not> (c = CHR '')'' \<and> stack \<noteq> [])" "\<not> starts_with ''$('' (c # rest)" "active_separator prev (c # rest) = None"
      by blast
    then show ?thesis
    proof cases
      case comment
      then show ?thesis using IH(7) [OF G comment refl] unfolding quot scan_unquoted [OF nesc nquo]
        by (simp only: if_True Let_def add.assoc add_Suc_right)
    next
      case heredoc
      then show ?thesis using IH(8) [OF G heredoc refl refl] unfolding quot scan_unquoted [OF nesc nquo]
        by (simp only: if_True if_False Let_def add.assoc add_Suc_right)
    next
      case newline
      let ?r = "heredoc_bodies heredocs rest (Suc index)"
      have r: "heredoc_bodies heredocs rest (Suc (n + index)) = (map (\<lambda>(p, t). (n + p, t)) (fst ?r), fst (snd ?r), n + snd (snd ?r))"
        using heredoc_bodies_shift [of heredocs rest n "Suc index"] by simp
      have "map (\<lambda>(p, t). Nested p t) (map (\<lambda>(p, t). (n + p, t)) xs) = map (shift_item n) (map (\<lambda>(p, t). Nested p t) xs)" for xs
        by (auto simp: shift_item_def)
      then show ?thesis using IH(9) [OF G newline refl] newline unfolding quot scan_unquoted [OF nesc nquo]
        by (simp only: if_True if_False Let_def r fst_conv snd_conv list.map map_append) (simp add: shift_item_def)
    next
      case close
      then show ?thesis using IH(10) [OF G close] unfolding quot scan_unquoted [OF nesc nquo]
        by (simp only: if_True if_False list.map add.assoc add_Suc_right) (simp add: shift_item_def)
    next
      case subst
      then show ?thesis using IH(11) [OF G subst] unfolding quot scan_unquoted [OF nesc nquo]
        by (simp only: if_True if_False list.map add.assoc add_Suc_right) (simp add: shift_item_def)
    next
      case (sep x)
      then show ?thesis using IH(13) [OF G sep] unfolding quot scan_unquoted [OF nesc nquo]
        by (simp only: if_True if_False list.map option.case add.assoc add_Suc_right) (simp add: shift_item_def)
    next
      case word
      then show ?thesis using IH(12) [OF G word] unfolding quot scan_unquoted [OF nesc nquo]
        by (simp only: if_True if_False list.map add_Suc_right option.case)
    qed
  qed
qed

text \<open>After a control operator the text is read as at the start of a line.\<close>

lemma active_separator_fresh:
  "p \<noteq> CHR ''<'' \<Longrightarrow> p \<noteq> CHR ''>'' \<Longrightarrow> brace_neighbour p \<Longrightarrow> active_separator (Some p) s = active_separator None s"
  by (cases "find (\<lambda>candidate. starts_with candidate s) SEPARATORS") (simp_all add: active_separator_def Let_def)

lemma scan_shell_fresh:
  assumes "comment_before p" and "p \<noteq> CHR ''<''" and "p \<noteq> CHR ''>''" and "brace_neighbour p"
  shows "scan_shell s (Some p) index cur start None stack heredocs = scan_shell s None index cur start None stack heredocs"
proof (cases s)
  case Nil
  then show ?thesis by simp
next
  case (Cons c rest)
  have same: "comment_start (Some p) c = comment_start None c"
    "active_separator (Some p) (c # rest) = active_separator None (c # rest)"
    using assms by (simp_all add: comment_start_def active_separator_fresh)
  show ?thesis unfolding Cons
    by (simp only: scan_shell.simps(2) [of c rest "Some p"] scan_shell.simps(2) [of c rest None] same)
qed

text \<open>Plain text: characters no rule of the shell reader looks at.\<close>

definition plain_char :: "char \<Rightarrow> bool" where
  "plain_char c = (is_alnum c \<or> c \<in> set '' -_./:=+,@%~^'')"

lemma char_eq_of_char: "c = d \<longleftrightarrow> (of_char c :: nat) = of_char d"
  by simp

lemma plain_char_cases:
  assumes "plain_char c"
  shows "c \<noteq> CHR 0x5C" "c \<noteq> CHR 0x27" "c \<noteq> CHR 0x22" "c \<noteq> CHR ''#''" "c \<noteq> CHR ''<''" "\<not> is_nl c"
    "c \<noteq> CHR '')''" "c \<noteq> CHR ''$''" "x \<in> set SEPARATORS \<Longrightarrow> \<not> starts_with x (c # rest)"
    "c \<noteq> CHR ''>''"
  using assms by (auto simp: plain_char_def is_nl_def is_alnum_def is_letter_def is_digit_def Let_def SEPARATORS_def)

lemma active_separator_plain: "plain_char c \<Longrightarrow> active_separator prev (c # rest) = None"
proof -
  assume "plain_char c"
  then have "find (\<lambda>candidate. starts_with candidate (c # rest)) SEPARATORS = None"
    by (auto simp: find_None_iff plain_char_cases(9))
  then show ?thesis by (simp add: active_separator_def)
qed

lemma scan_plain_char:
  assumes "plain_char c"
  shows "scan_shell (c # rest) prev index cur start None stack heredocs
    = scan_shell rest (Some c) (Suc index) (cur @ [c]) start None stack heredocs"
proof -
  note p = plain_char_cases [OF assms]
  have guards: "\<not> (c = CHR 0x5C \<and> rest \<noteq> [])" "\<not> (c = CHR 0x27 \<or> c = CHR 0x22)" "\<not> comment_start prev c"
    "\<not> heredoc_start (c # rest)" "\<not> (is_nl c \<and> heredocs \<noteq> [])" "\<not> (c = CHR '')'' \<and> stack \<noteq> [])"
    "\<not> starts_with ''$('' (c # rest)"
    using p by (auto simp: comment_start_def heredoc_start_def)
  show ?thesis unfolding scan_unquoted [OF guards(1,2)]
    by (simp only: guards(3-) if_False active_separator_plain [OF assms] option.case)
qed

lemma scan_plain:
  "list_all plain_char w \<Longrightarrow>
     scan_shell (w @ s) prev index cur start None stack heredocs
     = scan_shell s (if w = [] then prev else Some (last w)) (index + length w) (cur @ w) start None stack heredocs"
proof (induction w arbitrary: prev index cur)
  case Nil
  then show ?case by simp
next
  case (Cons c w)
  then show ?case by (simp add: scan_plain_char)
qed

text \<open>The operators that end a command, and the text after one of them.\<close>

definition CONTROL_OPERATORS :: "string list" where
  "CONTROL_OPERATORS = [''&&'', ''||'', '';'', ''|'', [CHR 0x0A]]"

definition starts_command :: "string \<Rightarrow> bool" where
  "starts_command b = (case b of [] \<Rightarrow> True | c # _ \<Rightarrow> c \<notin> set ''&|;'')"

lemma active_control_operator:
  assumes "x \<in> set CONTROL_OPERATORS" and "starts_command b" and "case prev of None \<Rightarrow> True | Some p \<Rightarrow> plain_char p"
  shows "active_separator prev (x @ b) = Some x"
proof -
  have prev: "prev \<noteq> Some CHR ''>''" "prev \<noteq> Some CHR ''<''"
    using assms(3) plain_char_cases(5,10) [of "the prev"] by (auto split: option.splits)
  have "find (\<lambda>candidate. starts_with candidate (x @ b)) SEPARATORS = Some x"
  proof -
    have b: "\<not> starts_with [CHR ''&''] b \<and> \<not> starts_with [CHR ''|''] b \<and> \<not> starts_with [CHR '';''] b"
      using assms(2) by (cases b) (auto simp: starts_command_def)
    consider "x = ''&&''" | "x = ''||''" | "x = '';''" | "x = ''|''" | "x = [CHR 0x0A]"
      using assms(1) unfolding CONTROL_OPERATORS_def by auto
    then show ?thesis using b by cases (simp_all add: SEPARATORS_def)
  qed
  moreover have "x \<noteq> ''&''" "x \<noteq> ''{''" "x \<noteq> ''}''" using assms(1) by (auto simp: CONTROL_OPERATORS_def)
  ultimately show ?thesis by (simp add: active_separator_def Let_def)
qed

lemma scan_control_operator:
  assumes x: "x \<in> set CONTROL_OPERATORS" and b: "starts_command b" and "case prev of None \<Rightarrow> True | Some p \<Rightarrow> plain_char p"
  shows "scan_shell (x @ b) prev index cur start None stack []
    = Flush start cur # map (shift_item (index + length x)) (scan_shell b None 0 [] 0 None stack [])"
proof -
  obtain c x' where cx: "x = c # x'" using x by (auto simp: CONTROL_OPERATORS_def)
  have c: "c \<in> set ''&|;'' \<or> c = CHR 0x0A" and l: "last x \<in> set ''&|;'' \<or> last x = CHR 0x0A"
    using x cx by (auto simp: CONTROL_OPERATORS_def)
  have guards: "\<not> (c = CHR 0x5C \<and> x' @ b \<noteq> [])" "\<not> (c = CHR 0x27 \<or> c = CHR 0x22)" "\<not> comment_start prev c"
    "\<not> heredoc_start (c # x' @ b)" "\<not> (is_nl c \<and> [] \<noteq> [])" "\<not> (c = CHR '')'' \<and> stack \<noteq> [])"
    "\<not> starts_with ''$('' (c # x' @ b)"
    using c by (auto simp: comment_start_def heredoc_start_def)
  have "active_separator prev (c # x' @ b) = Some x"
    using active_control_operator [OF assms] by (simp add: cx)
  then have "scan_shell (c # x' @ b) prev index cur start None stack []
    = Flush start cur # scan_shell (drop (length x - 1) (x' @ b)) (Some (last x)) (index + length x) []
                 (index + length x) None stack []"
    unfolding scan_unquoted [OF guards(1,2)] using guards(3-)
    by (simp only: if_False option.case simp_thms)
  moreover have "drop (length x - 1) (x' @ b) = b" by (simp add: cx)
  moreover have "scan_shell b (Some (last x)) (index + length x) [] (index + length x) None stack []
      = scan_shell b None (index + length x) [] (index + length x) None stack []"
    by (rule scan_shell_fresh) (use l in \<open>auto simp: comment_before_def brace_neighbour_def js_space_def\<close>)
  ultimately show ?thesis
    using scan_shell_shift [of b None "index + length x" 0 "[]" 0 None stack "[]"] by (simp add: cx)
qed

lemma split_shift:
  "concat (map (\<lambda>it. case it of Flush p t \<Rightarrow> flush_segment offset p t | Nested p t \<Rightarrow> splitShellCommand t (offset + p))
     (map (shift_item n) items))
   = concat (map (\<lambda>it. case it of Flush p t \<Rightarrow> flush_segment (offset + n) p t
       | Nested p t \<Rightarrow> splitShellCommand t (offset + n + p)) items)"
  by (induction items) (auto simp: shift_item_def flush_segment_def Let_def add.assoc split: scan_item.splits)

lemma split_at_operator:
  assumes "list_all plain_char w" and "x \<in> set CONTROL_OPERATORS" and "starts_command b"
  shows "splitShellCommand (w @ x @ b) offset
    = flush_segment offset 0 w @ splitShellCommand b (offset + length w + length x)"
proof -
  have "scan_shell (w @ x @ b) None 0 [] 0 None [] []
      = Flush 0 w # map (shift_item (length w + length x)) (scan_shell b None 0 [] 0 None [] [])"
  proof (cases "w = []")
    case True
    then show ?thesis using scan_control_operator [OF assms(2,3), of None 0 "[]" 0 "[]"] by simp
  next
    case False
    then have "plain_char (last w)" using assms(1) by (simp add: list_all_iff)
    then show ?thesis
      using scan_control_operator [OF assms(2,3), of "Some (last w)" "length w" w 0 "[]"] False
      by (simp add: scan_plain [OF assms(1)])
  qed
  then show ?thesis
    by (simp add: splitShellCommand.simps [of "w @ x @ b"] splitShellCommand.simps [of b] split_shift del: map_map)
      (simp only: add.assoc)
qed

text \<open>Plain text alone is one segment.\<close>

lemma split_plain: "list_all plain_char w \<Longrightarrow> splitShellCommand w offset = flush_segment offset 0 w"
  using scan_plain [of w "[]" None 0 "[]" 0 "[]" "[]"] by (simp add: splitShellCommand.simps [of w])

section \<open>Quoting\<close>

lemma tokenize_single_quoted:
  "CHR 0x27 \<notin> set s \<Longrightarrow>
     tokenize_loop (s @ CHR 0x27 # rest) index (Some SingleQ) current off
     = tokenize_loop rest (index + Suc (length s)) None (current @ s) off"
proof (induction s arbitrary: index current)
  case Nil
  then show ?case by (simp add: tokenize_loop.simps(2))
next
  case (Cons c s)
  then show ?case by (auto simp: tokenize_loop.simps(2))
qed

lemma tokenize_quoted_words:
  "list_all (\<lambda>s. CHR 0x27 \<notin> set s) ws \<Longrightarrow>
     map token_text (tokenize_loop (concat (map (\<lambda>s. CHR 0x27 # s @ [CHR 0x27, CHR '' '']) ws)) index None [] None) = ws"
proof (induction ws arbitrary: index)
  case Nil
  then show ?case by simp
next
  case (Cons s ws)
  have special: "\<not> js_space CHR 0x27" "js_space CHR '' ''" by (simp_all add: js_space_def)
  let ?rest = "concat (map (\<lambda>s. CHR 0x27 # s @ [CHR 0x27, CHR '' '']) ws)"
  have "tokenize_loop (CHR 0x27 # s @ CHR 0x27 # CHR '' '' # ?rest) index None [] None
      = tokenize_loop (s @ CHR 0x27 # CHR '' '' # ?rest) (Suc index) (Some SingleQ) [] (Some index)"
    by (subst tokenize_loop.simps(2)) simp
  also have "\<dots> = tokenize_loop (CHR '' '' # ?rest) (Suc index + Suc (length s)) None s (Some index)"
    using Cons.prems by (subst tokenize_single_quoted) simp_all
  also have "\<dots> = \<lparr>token_text = s, token_offset = index\<rparr> # tokenize_loop ?rest (Suc (Suc index + Suc (length s))) None [] None"
    by (subst tokenize_loop.simps(2)) (simp add: special)
  finally show ?case using Cons.IH Cons.prems by simp
qed

lemma tokenize_quoted_list:
  "list_all (\<lambda>s. CHR 0x27 \<notin> set s) ws \<Longrightarrow>
     map token_text (tokenizeSegment (concat (map (\<lambda>s. CHR 0x27 # s @ [CHR 0x27, CHR '' '']) ws))) = ws"
  by (simp add: tokenizeSegment_def tokenize_quoted_words)

text \<open>Double-quoted text without \<open>$\<close> and without escapes is scanned as part of the segment.\<close>

definition quoted_char :: "char \<Rightarrow> bool" where
  "quoted_char c = (c \<noteq> CHR 0x22 \<and> c \<noteq> CHR 0x5C \<and> c \<noteq> CHR ''$'')"

lemma scan_double_quoted:
  "list_all quoted_char s \<Longrightarrow>
     scan_shell (s @ CHR 0x22 # rest) prev index cur start (Some DoubleQ) stack heredocs
     = scan_shell rest (Some CHR 0x22) (index + Suc (length s)) (cur @ s @ [CHR 0x22]) start None stack heredocs"
proof (induction s arbitrary: prev index cur)
  case Nil
  then show ?case by (subst append_Nil, subst scan_double_quote) simp_all
next
  case (Cons c s)
  have c: "\<not> (c = CHR 0x5C \<and> s @ CHR 0x22 # rest \<noteq> [])" "c \<noteq> CHR 0x22" "\<not> starts_with ''$('' (c # s @ CHR 0x22 # rest)"
    using Cons.prems by (auto simp: quoted_char_def)
  have "scan_shell (c # s @ CHR 0x22 # rest) prev index cur start (Some DoubleQ) stack heredocs
      = scan_shell (s @ CHR 0x22 # rest) (Some c) (Suc index) (cur @ [c]) start (Some DoubleQ) stack heredocs"
    unfolding scan_double_quote [OF c(1)] by (simp only: c(2,3) if_False)
  then show ?case using Cons by simp
qed

lemma split_double_quoted:
  assumes "list_all plain_char w" and "list_all quoted_char s"
  shows "splitShellCommand (w @ [CHR 0x22] @ s @ [CHR 0x22]) offset = flush_segment offset 0 (w @ [CHR 0x22] @ s @ [CHR 0x22])"
proof -
  have "scan_shell (w @ CHR 0x22 # s @ [CHR 0x22]) None 0 [] 0 None [] []
      = scan_shell (CHR 0x22 # s @ [CHR 0x22]) (if w = [] then None else Some (last w)) (length w) w 0 None [] []"
    using scan_plain [OF assms(1), of "CHR 0x22 # s @ [CHR 0x22]" None 0 "[]" 0 "[]" "[]"] by simp
  also have "\<dots> = scan_shell (s @ [CHR 0x22]) (Some CHR 0x22) (Suc (length w)) (w @ [CHR 0x22]) 0 (Some DoubleQ) [] []"
    by (subst scan_open_quote) simp_all
  also have "\<dots> = [Flush 0 (w @ CHR 0x22 # s @ [CHR 0x22])]"
    using scan_double_quoted [OF assms(2), of "[]" "Some CHR 0x22" "Suc (length w)" "w @ [CHR 0x22]" 0 "[]" "[]"] by simp
  finally show ?thesis by (simp add: splitShellCommand.simps [of "w @ _"])
qed

end
