(* ===== verification/GitCommandPolicy.thy ===== *)
theory GitCommandPolicy
  imports ShellSyntax
begin

text \<open>
  The classifier of \<open>apps/server/src/git-command-policy.ts\<close>: the program behind
  assignments and wrappers (\<open>splitProgramTokens\<close>), the git, gh and rm policies,
  the interpreters (\<open>interpreterScript\<close>) and \<open>classifyTokens\<close>, which follows
  them down to \<open>MAX_INTERPRETER_DEPTH\<close>.

  A JavaScript \<open>undefined\<close> is \<open>None\<close>; \<open>!text\<close> is "\<open>None\<close> or empty". The dot of a
  regular expression is \<open>re_dot\<close>: it excludes the line terminators.
\<close>

section \<open>Types\<close>

datatype command_kind = ReadK | WriteK | DestructiveK | OtherK

datatype identity_scope = RepositoryScope | GlobalScope

record identity_fields =
  id_name :: bool
  id_email :: bool

record git_verdict =
  v_kind :: command_kind
  v_createsCommit :: bool
  v_identityWrite :: "(identity_fields \<times> identity_scope) option"

record classified_command =
  kind :: command_kind
  family :: "string option"
  gitDirectory :: "string option"
  createsCommit :: bool
  commitIdentity :: identity_fields
  identityWrite :: "(identity_fields \<times> identity_scope) option"
  segment :: shell_segment

definition MAX_INTERPRETER_DEPTH :: nat where
  "MAX_INTERPRETER_DEPTH = 4"

definition re_dot :: "string \<Rightarrow> bool" where
  "re_dot s = (case s of [] \<Rightarrow> False | c # _ \<Rightarrow> c \<noteq> CHR 0x0A \<and> c \<noteq> CHR 0x0D)"

text \<open>\<open>xs[0]\<close> and \<open>!x\<close>.\<close>

definition js_head :: "'a list \<Rightarrow> 'a option" where
  "js_head xs = (case xs of [] \<Rightarrow> None | x # _ \<Rightarrow> Some x)"

definition js_falsy :: "string option \<Rightarrow> bool" where
  "js_falsy x = (x = None \<or> x = Some [])"

lemma js_head_simps [simp]: "js_head [] = None" "js_head (x # xs) = Some x"
  by (simp_all add: js_head_def)

section \<open>The program of a segment\<close>

text \<open>\<open>ASSIGNMENT\<close>: \<open>/^[A-Za-z_][A-Za-z0-9_]*=/\<close>.\<close>

definition is_assignment :: "string \<Rightarrow> bool" where
  "is_assignment s =
     (case s of [] \<Rightarrow> False
      | c # rest \<Rightarrow> (is_letter c \<or> c = CHR ''_'') \<and>
          starts_with ''='' (dropWhile (\<lambda>d. is_alnum d \<or> d = CHR ''_'') rest))"

definition WRAPPERS :: "string list" where
  "WRAPPERS = [''sudo'', ''doas'', ''command'', ''exec'', ''env'', ''nohup'', ''time'', ''builtin'', ''nice'',
     ''caffeinate'', ''timeout'', ''xargs'']"

definition WRAPPER_VALUE_FLAGS :: "string \<Rightarrow> string list" where
  "WRAPPER_VALUE_FLAGS w =
     (if w = ''sudo'' then [''-u'', ''-g'', ''-h'', ''-p'', ''-C'', ''-D'', ''-r'', ''-t'', ''-T'', ''-U'']
      else if w = ''doas'' then [''-u'', ''-C'']
      else if w = ''env'' then [''-u'', ''--unset'', ''-C'', ''--chdir'']
      else if w = ''nice'' then [''-n'', ''--adjustment'']
      else if w = ''caffeinate'' then [''-t'', ''-w'']
      else if w = ''timeout'' then [''-s'', ''--signal'', ''-k'', ''--kill-after'']
      else if w = ''xargs'' then [''-I'', ''-n'', ''-P'', ''-L'', ''-s'', ''-d'', ''-E'', ''-a'', ''-J'', ''-R'', ''-S'',
        ''--max-args'', ''--max-procs'', ''--max-lines'', ''--max-chars'', ''--delimiter'', ''--eof'', ''--arg-file'',
        ''--process-slot-var'', ''--replace'']
      else [])"

definition programName :: "string option \<Rightarrow> string" where
  "programName token =
     (if js_falsy token then []
      else strip_suffix ''.exe'' (js_lower (last (split_on CHR ''/'' (replace_char CHR 0x5C CHR ''/'' (the token))))))"

definition tokens_size :: "string list \<Rightarrow> nat" where
  "tokens_size ts = sum_list (map (\<lambda>t. Suc (length t)) ts)"

lemma tokens_size_simps [simp]:
  "tokens_size [] = 0" "tokens_size (t # ts) = Suc (length t) + tokens_size ts"
  "tokens_size (ts @ us) = tokens_size ts + tokens_size us"
  by (simp_all add: tokens_size_def)

lemma tokens_size_tl: "tokens_size (tl ts) \<le> tokens_size ts"
  by (cases ts) simp_all

lemma tokens_size_drop: "tokens_size (drop n ts) \<le> tokens_size ts"
  by (metis append_take_drop_id le_add2 tokens_size_simps(3))

lemma tokenize_loop_size:
  "tokens_size (map token_text (tokenize_loop s index quot current off)) \<le> Suc (length s + length current)"
proof (induction s index quot current off rule: tokenize_loop.induct)
  case (1 index quot current off)
  then show ?case by (auto split: option.splits)
next
  case (2 c rest index quot current off)
  note IH = "2.IH"
  show ?case
  proof (cases rule: tokenize_cases [where quot = quot and c = c and rest = rest and off = off])
    case sq
    then show ?thesis using IH(1) [OF sq] IH(2) [OF sq] by (cases "c = CHR 0x27") (auto simp: tokenize_loop.simps(2))
  next
    case esc
    then show ?thesis using IH(3) [OF esc] IH(4) [OF esc] by (cases rest) (auto simp: tokenize_loop.simps(2))
  next
    case dq
    then show ?thesis using IH(5) [OF dq] IH(6) [OF dq] by (cases "c = CHR 0x22") (auto simp: tokenize_loop.simps(2))
  next
    case openq
    then show ?thesis using IH(7) [OF openq] by (auto simp: tokenize_loop.simps(2))
  next
    case space
    then show ?thesis using IH(8) [OF space] by (cases off) (simp_all add: tokenize_loop.simps(2))
  next
    case hash
    then show ?thesis by (simp add: tokenize_loop.simps(2))
  next
    case word
    then show ?thesis using IH(9) [OF word] by (auto simp: tokenize_loop.simps(2))
  qed
qed

lemma tokenizeSegment_size: "tokens_size (map token_text (tokenizeSegment s)) \<le> Suc (length s)"
  using tokenize_loop_size [of s 0 None "[]" None] by (simp add: tokenizeSegment_def)

text \<open>
  \<open>env -S\<close>: the text to split again, and whether it was attached to the option
  (\<open>inline\<close>); \<open>None\<close> when the option is not a split-string option.
\<close>

definition split_string_option :: "string \<Rightarrow> string list \<Rightarrow> (string \<times> string list) option" where
  "split_string_option option rest =
     (if option = ''-S'' \<or> option = ''--split-string'' then
        Some (case rest of [] \<Rightarrow> ([], []) | script # rest' \<Rightarrow> (script, rest'))
      else if starts_with ''-S'' option then Some (drop 2 option, rest)
      else if starts_with ''--split-string='' option then Some (drop 15 option, rest)
      else None)"

lemma split_string_option_size:
  assumes "split_string_option option rest = Some (script, rest')"
  shows "tokens_size (map token_text (tokenizeSegment script)) + tokens_size rest' \<le> length option + tokens_size rest"
proof -
  have "Suc (length script) + tokens_size rest' \<le> length option + tokens_size rest"
    using assms by (auto simp: split_string_option_def dest!: starts_with_length split: if_splits list.splits)
  then show ?thesis using tokenizeSegment_size [of script] by simp
qed

definition xargs_attached :: "string \<Rightarrow> bool" where
  "xargs_attached s =
     (case s of a # b # rest \<Rightarrow> a = CHR ''-'' \<and> b \<in> set ''InPLsdEaJRS'' \<and> re_dot rest | _ \<Rightarrow> False)"

text \<open>The loop over the options of one wrapper.\<close>

function wrapper_options :: "string \<Rightarrow> string list \<Rightarrow> string list \<Rightarrow> string list \<times> string list" where
  "wrapper_options wrapper assignments [] = (assignments, [])"
| "wrapper_options wrapper assignments (option # rest) =
     (if wrapper = ''env'' \<and> is_assignment option then wrapper_options wrapper (assignments @ [option]) rest
      else if option = ''--'' then (assignments, rest)
      else if \<not> starts_with ''-'' option then (assignments, option # rest)
      else
        (case (if wrapper = ''env'' then split_string_option option rest else None) of
           Some (script, rest') \<Rightarrow>
             wrapper_options wrapper assignments (map token_text (tokenizeSegment script) @ rest')
         | None \<Rightarrow>
             (if option \<in> set (WRAPPER_VALUE_FLAGS wrapper) then wrapper_options wrapper assignments (tl rest)
              else if wrapper = ''xargs'' \<and> xargs_attached option then wrapper_options wrapper assignments rest
              else wrapper_options wrapper assignments rest)))"
  by pat_completeness auto
termination
  by (relation "measure (\<lambda>(w, a, ts). tokens_size ts)")
    (auto simp: less_Suc_eq_le trans_le_add2 [OF tokens_size_tl] dest!: split_string_option_size split: if_splits)

declare wrapper_options.simps(2) [simp del]

lemma wrapper_options_size: "tokens_size (snd (wrapper_options wrapper assignments ts)) \<le> tokens_size ts"
proof (induction wrapper assignments ts rule: wrapper_options.induct)
  case (1 wrapper assignments)
  then show ?case by simp
next
  case (2 wrapper assignments option rest)
  show ?case
  proof (cases "if wrapper = ''env'' then split_string_option option rest else None")
    case None
    then show ?thesis using 2 tokens_size_tl [of rest]
      by (subst wrapper_options.simps) (cases "wrapper = ''xargs'' \<and> xargs_attached option"; auto)
  next
    case (Some p)
    obtain script rest' where p: "p = (script, rest')" by (cases p)
    have "tokens_size (map token_text (tokenizeSegment script)) + tokens_size rest' \<le> length option + tokens_size rest"
      using Some p by (intro split_string_option_size) (simp split: if_splits)
    then show ?thesis
      using 2(1) 2(5) [OF _ _ _ Some p [symmetric]] Some p
      by (subst wrapper_options.simps) auto
  qed
qed

text \<open>\<open>splitProgramTokens\<close>: the leading assignments and the program with its arguments.\<close>

function split_program :: "string list \<Rightarrow> string list \<Rightarrow> nat \<Rightarrow> string list \<times> string list" where
  "split_program assignments [] hops = (assignments, [])"
| "split_program assignments (token # rest) hops =
     (if hops < 16 then
        (if is_assignment token then split_program (assignments @ [token]) rest hops
         else
           (let wrapper = programName (Some token) in
            if wrapper \<notin> set WRAPPERS then (assignments, token # rest)
            else
              (let r = wrapper_options wrapper assignments rest
               in split_program (fst r) (if wrapper = ''timeout'' then tl (snd r) else snd r) (Suc hops))))
      else (assignments, token # rest))"
  by pat_completeness auto
termination
proof (relation "measure (\<lambda>(a, ts, h). tokens_size ts)", goal_cases)
  case (3 assignments token rest hops wrapper r)
  have "tokens_size (snd (wrapper_options wrapper assignments rest)) \<le> tokens_size rest"
    by (rule wrapper_options_size)
  then show ?case
    using 3 tokens_size_tl [of "snd (wrapper_options wrapper assignments rest)"] by auto
qed auto

declare split_program.simps(2) [simp del]

definition splitProgramTokens :: "string list \<Rightarrow> string list \<times> string list" where
  "splitProgramTokens tokens = split_program [] tokens 0"

definition programTokens :: "string list \<Rightarrow> string list" where
  "programTokens tokens = snd (splitProgramTokens tokens)"

section \<open>Flags\<close>

text \<open>\<open>/^-[A-Za-z0-9]+$/\<close> and the letter among the characters after the dash.\<close>

definition shortFlagHas :: "string \<Rightarrow> char \<Rightarrow> bool" where
  "shortFlagHas token letter =
     (starts_with ''-'' token \<and> tl token \<noteq> [] \<and> list_all is_alnum (tl token) \<and> letter \<in> set (tl token))"

definition hasFlag :: "string list \<Rightarrow> string list \<Rightarrow> bool" where
  "hasFlag args flags =
     list_ex (\<lambda>arg. list_ex (\<lambda>flag. arg = flag \<or> starts_with (flag @ ''='') arg) flags) args"

definition dashed :: "string \<Rightarrow> bool" where
  "dashed s = starts_with ''-'' s"

definition GIT_OPTIONS_WITH_VALUE :: "string list" where
  "GIT_OPTIONS_WITH_VALUE = [''-C'', ''-c'', ''--git-dir'', ''--work-tree'', ''--namespace'', ''--exec-path'',
     ''--config-env'', ''--super-prefix'', ''--list-cmds'', ''--attr-source'']"

definition joinGitDirectory :: "string option \<Rightarrow> string \<Rightarrow> string" where
  "joinGitDirectory previous nxt =
     (if js_falsy previous \<or> starts_with ''/'' nxt
         \<or> (case nxt of a # b # c # _ \<Rightarrow> is_letter a \<and> b = CHR '':'' \<and> (c = CHR 0x5C \<or> c = CHR ''/'') | _ \<Rightarrow> False)
      then nxt
      else rev (dropWhile (\<lambda>c. c = CHR ''/'') (rev (the previous))) @ ''/'' @ nxt)"

definition GIT_READ :: "string list" where
  "GIT_READ = [
     ''status'', ''log'', ''diff'', ''show'', ''fetch'', ''ls-files'', ''ls-tree'', ''ls-remote'', ''cat-file'', ''rev-parse'',
     ''rev-list'', ''describe'', ''blame'', ''annotate'', ''shortlog'', ''grep'', ''count-objects'', ''check-ignore'',
     ''check-attr'', ''check-ref-format'', ''check-mailmap'', ''name-rev'', ''merge-base'', ''merge-tree'', ''for-each-ref'',
     ''var'', ''version'', ''help'', ''whatchanged'', ''show-ref'', ''show-branch'', ''verify-commit'', ''verify-tag'',
     ''diff-tree'', ''diff-index'', ''diff-files'', ''cherry'', ''range-diff'', ''format-patch'', ''patch-id'', ''stripspace'',
     ''interpret-trailers'', ''fsck'', ''get-tar-commit-id'']"

definition GIT_COMMIT_STOP_FLAGS :: "string list" where
  "GIT_COMMIT_STOP_FLAGS = [''--abort'', ''--quit'', ''--skip'']"

definition BRANCH_READ_FLAGS :: "string list" where
  "BRANCH_READ_FLAGS = [''--list'', ''-l'', ''-a'', ''--all'', ''-r'', ''--remotes'', ''-v'', ''-vv'', ''-vvv'', ''--verbose'',
     ''--show-current'', ''--merged'', ''--no-merged'', ''--contains'', ''--no-contains'', ''--points-at'', ''--sort'', ''--format'',
     ''--color'', ''--no-color'', ''--column'', ''--no-column'', ''-i'', ''--ignore-case'', ''--abbrev'', ''--no-abbrev'']"

definition BRANCH_PATTERN_FLAGS :: "string list" where
  "BRANCH_PATTERN_FLAGS = [''--list'', ''-l'', ''--contains'', ''--no-contains'', ''--merged'', ''--no-merged'', ''--points-at'']"

definition CONFIG_READ_FLAGS :: "string list" where
  "CONFIG_READ_FLAGS = [''-l'', ''--list'', ''--get'', ''--get-all'', ''--get-regexp'', ''--get-urlmatch'', ''--get-color'',
     ''--get-colorbool'', ''--show-origin'', ''--show-scope'']"

definition CONFIG_WRITE_FLAGS :: "string list" where
  "CONFIG_WRITE_FLAGS = [''--add'', ''--unset'', ''--unset-all'', ''--replace-all'', ''--rename-section'', ''--remove-section'',
     ''--edit'', ''-e'']"

definition CONFIG_VALUE_FLAGS :: "string list" where
  "CONFIG_VALUE_FLAGS = [''-f'', ''--file'', ''--blob'', ''--type'', ''--default'']"

definition CONFIG_READ_SUBCOMMANDS :: "string list" where
  "CONFIG_READ_SUBCOMMANDS = [''get'', ''list'']"

section \<open>git\<close>

definition verdict_of :: "command_kind \<Rightarrow> git_verdict" where
  "verdict_of k = \<lparr>v_kind = k, v_createsCommit = False, v_identityWrite = None\<rparr>"

definition commit_verdict :: "bool \<Rightarrow> git_verdict" where
  "commit_verdict b = \<lparr>v_kind = WriteK, v_createsCommit = b, v_identityWrite = None\<rparr>"

lemma verdict_simps [simp]:
  "v_kind (verdict_of k) = k" "v_createsCommit (verdict_of k) = False" "v_identityWrite (verdict_of k) = None"
  "v_kind (commit_verdict b) = WriteK" "v_createsCommit (commit_verdict b) = b" "v_identityWrite (commit_verdict b) = None"
  by (simp_all add: verdict_of_def commit_verdict_def)

text \<open>The positional arguments of \<open>git config\<close>: the loop that skips the flags and their values.\<close>

function config_positional :: "string list \<Rightarrow> string list" where
  "config_positional [] = []"
| "config_positional (arg # rest) =
     (if arg \<in> set CONFIG_VALUE_FLAGS then config_positional (tl rest)
      else if \<not> dashed arg then arg # config_positional rest
      else config_positional rest)"
  by pat_completeness auto
termination
  by (relation "measure length") auto

declare config_positional.simps(2) [simp del]

definition classifyGitConfig :: "string list \<Rightarrow> git_verdict" where
  "classifyGitConfig args =
     (let positional = config_positional args in
      if list_ex (\<lambda>flag. hasFlag args [flag]) CONFIG_WRITE_FLAGS then verdict_of WriteK
      else if list_ex (\<lambda>flag. hasFlag args [flag]) CONFIG_READ_FLAGS then verdict_of ReadK
      else if positional \<noteq> [] \<and> hd positional \<in> set CONFIG_READ_SUBCOMMANDS then verdict_of ReadK
      else
        (let pair = (if js_head positional = Some ''set'' then tl positional else positional);
             key = js_at pair 0;
             value = js_at pair 1
         in if value = None then verdict_of ReadK
            else
              (let scope = (if hasFlag args [''--global'', ''--system'', ''-f'', ''--file'', ''--blob'']
                            then GlobalScope else RepositoryScope)
               in \<lparr>v_kind = WriteK, v_createsCommit = False,
                   v_identityWrite =
                     (if key = Some ''user.name'' \<or> key = Some ''user.email''
                      then Some (\<lparr>id_name = (key = Some ''user.name''), id_email = (key = Some ''user.email'')\<rparr>, scope)
                      else None)\<rparr>)))"

text \<open>The cases of \<open>classifyGit\<close> that read their arguments, one definition each.\<close>

definition classify_push :: "string list \<Rightarrow> git_verdict" where
  "classify_push args =
     (let refspecDelete = list_ex (\<lambda>arg. starts_with ''+'' arg \<or> (starts_with '':'' arg \<and> re_dot (tl arg))) args;
          forced = list_ex (\<lambda>arg. arg = ''--force'' \<or> starts_with ''--force-with-lease'' arg \<or> arg = ''--force-if-includes''
            \<or> arg = ''--delete'' \<or> arg = ''--mirror'' \<or> arg = ''--prune'' \<or> shortFlagHas arg CHR ''f''
            \<or> shortFlagHas arg CHR ''d'') args
      in verdict_of (if forced \<or> refspecDelete then DestructiveK else WriteK))"

definition classify_clean :: "string list \<Rightarrow> git_verdict" where
  "classify_clean args =
     (if hasFlag args [''-n'', ''--dry-run''] \<or> list_ex (\<lambda>arg. shortFlagHas arg CHR ''n'') args then verdict_of ReadK
      else if hasFlag args [''--force''] \<or> list_ex (\<lambda>arg. shortFlagHas arg CHR ''f'') args then verdict_of DestructiveK
      else verdict_of WriteK)"

definition branch_read_flag :: "string \<Rightarrow> bool" where
  "branch_read_flag flag =
     (takeWhile (\<lambda>c. c \<noteq> CHR ''='') flag \<in> set BRANCH_READ_FLAGS
      \<or> (starts_with ''-'' flag \<and> tl flag \<noteq> [] \<and> list_all (\<lambda>c. c \<in> set ''alrvi'') (tl flag)))"

definition classify_branch :: "string list \<Rightarrow> git_verdict" where
  "classify_branch args =
     (if list_ex (\<lambda>arg. arg = ''-D'' \<or> shortFlagHas arg CHR ''D'') args then verdict_of DestructiveK
      else if (hasFlag args [''-d'', ''--delete''] \<or> list_ex (\<lambda>arg. shortFlagHas arg CHR ''d'') args)
          \<and> (hasFlag args [''-f'', ''--force''] \<or> list_ex (\<lambda>arg. shortFlagHas arg CHR ''f'') args) then verdict_of DestructiveK
      else if args = [] then verdict_of ReadK
      else if \<not> list_all branch_read_flag (filter dashed args) then verdict_of WriteK
      else if filter (\<lambda>a. \<not> dashed a) args = [] then verdict_of ReadK
      else if list_ex (\<lambda>flag. hasFlag args [flag]) BRANCH_PATTERN_FLAGS then verdict_of ReadK
      else verdict_of WriteK)"

definition classify_tag :: "string list \<Rightarrow> git_verdict" where
  "classify_tag args =
     (let annotated = hasFlag args [''-a'', ''--annotate'', ''-s'', ''--sign'', ''-m'', ''--message'', ''-F'', ''--file'', ''-u'', ''--local-user'']
            \<or> list_ex (\<lambda>arg. (starts_with ''-'' arg \<and> tl arg \<noteq> [] \<and> hd (tl arg) \<in> set ''asuF'')
                 \<or> (starts_with ''-m'' arg \<and> re_dot (drop 2 arg))) args
      in if hasFlag args [''-d'', ''--delete''] \<or> list_ex (\<lambda>arg. shortFlagHas arg CHR ''d'') args then verdict_of WriteK
         else if args = [] \<or> (\<not> annotated \<and>
             (hasFlag args [''-l'', ''--list'', ''--contains'', ''--no-contains'', ''--points-at'', ''--merged'', ''--no-merged'']
              \<or> list_ex (\<lambda>arg. (starts_with ''-n'' arg \<and> list_all is_digit (drop 2 arg)) \<or> shortFlagHas arg CHR ''l'') args))
         then verdict_of ReadK
         else commit_verdict annotated)"

definition classify_stash :: "string list \<Rightarrow> git_verdict" where
  "classify_stash args =
     (let verb = js_head args in
      if verb = Some ''list'' \<or> verb = Some ''show'' then verdict_of ReadK
      else if verb = Some ''drop'' \<or> verb = Some ''clear'' then verdict_of DestructiveK
      else commit_verdict (js_falsy verb \<or> dashed (the verb) \<or> verb = Some ''push'' \<or> verb = Some ''save'' \<or> verb = Some ''create''))"

definition classify_worktree :: "string list \<Rightarrow> git_verdict" where
  "classify_worktree args =
     (let verb = js_head args in
      if js_falsy verb \<or> verb = Some ''list'' then verdict_of ReadK
      else if verb = Some ''remove'' \<and> (hasFlag args [''--force'', ''-f''] \<or> list_ex (\<lambda>arg. shortFlagHas arg CHR ''f'') args)
      then verdict_of DestructiveK
      else verdict_of WriteK)"

definition classify_reflog :: "string list \<Rightarrow> git_verdict" where
  "classify_reflog args =
     (let verb = js_head args in
      if js_falsy verb \<or> verb = Some ''show'' \<or> dashed (the verb) then verdict_of ReadK
      else verdict_of (if verb = Some ''expire'' \<or> verb = Some ''delete'' then DestructiveK else WriteK))"

definition stops_commit :: "string list \<Rightarrow> bool" where
  "stops_commit args = list_ex (\<lambda>flag. hasFlag args [flag]) GIT_COMMIT_STOP_FLAGS"

definition classify_rebase :: "string list \<Rightarrow> git_verdict" where
  "classify_rebase args =
     (if hasFlag args [''-i'', ''--interactive''] \<or> list_ex (\<lambda>arg. shortFlagHas arg CHR ''i'') args then verdict_of DestructiveK
      else commit_verdict (\<not> stops_commit args))"

definition classifyGit :: "string option \<Rightarrow> string list \<Rightarrow> git_verdict" where
  "classifyGit sub args =
     (let verb = js_head args; s = or_else sub [] in
      if js_falsy sub \<or> s = ''--version'' \<or> s = ''--help'' \<or> s = ''-h'' then verdict_of ReadK
      else if s = ''push'' then classify_push args
      else if s = ''reset'' then verdict_of (if hasFlag args [''--hard''] then DestructiveK else WriteK)
      else if s = ''clean'' then classify_clean args
      else if s = ''branch'' then classify_branch args
      else if s = ''remote'' then
        verdict_of (if js_falsy verb \<or> the verb \<in> set [''-v'', ''--verbose'', ''show'', ''get-url''] then ReadK else WriteK)
      else if s = ''worktree'' then classify_worktree args
      else if s = ''tag'' then classify_tag args
      else if s = ''stash'' then classify_stash args
      else if s = ''config'' then classifyGitConfig args
      else if s = ''reflog'' then classify_reflog args
      else if s = ''notes'' then
        (if js_falsy verb \<or> the verb \<in> set [''list'', ''show'', ''get-ref''] then verdict_of ReadK else commit_verdict True)
      else if s = ''submodule'' then
        verdict_of (if js_falsy verb \<or> the verb \<in> set [''status'', ''summary''] then ReadK else WriteK)
      else if s = ''symbolic-ref'' then
        verdict_of (if length (filter (\<lambda>a. \<not> dashed a) args) \<le> 1 then ReadK else WriteK)
      else if s = ''sparse-checkout'' then verdict_of (if verb = Some ''list'' then ReadK else WriteK)
      else if s = ''lfs'' then
        verdict_of (if or_else verb [] \<in> set [''ls-files'', ''status'', ''env'', ''version'', ''logs''] then ReadK else WriteK)
      else if s = ''update-ref'' then verdict_of (if hasFlag args [''-d''] then DestructiveK else WriteK)
      else if s = ''hash-object'' then verdict_of (if hasFlag args [''-w''] then WriteK else ReadK)
      else if s = ''rebase'' then classify_rebase args
      else if s = ''filter-branch'' \<or> s = ''filter-repo'' then verdict_of DestructiveK
      else if s = ''commit'' \<or> s = ''commit-tree'' then commit_verdict True
      else if s = ''merge'' \<or> s = ''cherry-pick'' \<or> s = ''revert'' \<or> s = ''am'' then commit_verdict (\<not> stops_commit args)
      else verdict_of (if s \<in> set GIT_READ then ReadK else WriteK))"

text \<open>
  The loop over git's own options in \<open>classifyGitTokens\<close>: the tokens from the
  subcommand on, the directory and the inline identity.
\<close>

function git_options :: "string list \<Rightarrow> string option \<Rightarrow> identity_fields \<Rightarrow> string list \<times> string option \<times> identity_fields" where
  "git_options [] dir inline = ([], dir, inline)"
| "git_options (token # rest) dir inline =
     (if \<not> dashed token \<or> token = ''--'' then (token # rest, dir, inline)
      else
        (let name = takeWhile (\<lambda>c. c \<noteq> CHR ''='') token;
             inlineValue = (if CHR ''='' \<in> set token then Some (drop (Suc (length name)) token) else None)
         in if name \<in> set GIT_OPTIONS_WITH_VALUE then
              (let value = or_else inlineValue (or_else (js_head rest) []);
                   dir' = (if name = ''-C'' then Some (joinGitDirectory dir value) else dir);
                   inline' = (if name = ''-c'' then
                       \<lparr>id_name = id_name inline \<or> (starts_with ''user.name='' value \<and> re_dot (drop 10 value)),
                        id_email = id_email inline \<or> (starts_with ''user.email='' value \<and> re_dot (drop 11 value))\<rparr>
                     else inline)
               in git_options (if inlineValue = None then tl rest else rest) dir' inline')
            else if starts_with ''-C'' token \<and> re_dot (drop 2 token) then
              git_options rest (Some (joinGitDirectory dir (drop 2 token))) inline
            else git_options rest dir inline))"
  by pat_completeness auto
termination
  by (relation "measure (\<lambda>(ts, _). length ts)") auto

declare git_options.simps(2) [simp del]

definition classifyGitTokens :: "string list \<Rightarrow> git_verdict \<times> string \<times> string option \<times> identity_fields" where
  "classifyGitTokens tokens =
     (let (ts, dir, inline) = git_options (tl tokens) None \<lparr>id_name = False, id_email = False\<rparr>;
          sub = js_head ts;
          verdict = classifyGit sub (tl ts);
          family = (if \<not> js_falsy sub \<and> \<not> dashed (the sub) then ''git '' @ the sub else ''git'')
      in (verdict, family, dir, inline))"

section \<open>gh and rm\<close>

definition GH_GLOBAL_VALUE_FLAGS :: "string list" where
  "GH_GLOBAL_VALUE_FLAGS = [''-R'', ''--repo'']"

definition GH_READ_VERBS :: "string list" where
  "GH_READ_VERBS = [''list'', ''view'', ''status'', ''checks'', ''diff'', ''watch'']"

text \<open>The loop over gh's own options: \<open>None\<close> when \<open>--version\<close> or \<open>--help\<close> answers the command.\<close>

function gh_options :: "string list \<Rightarrow> string list option" where
  "gh_options [] = Some []"
| "gh_options (token # rest) =
     (if \<not> dashed token then Some (token # rest)
      else if token = ''--version'' \<or> token = ''--help'' then None
      else gh_options (if token \<in> set GH_GLOBAL_VALUE_FLAGS then tl rest else rest))"
  by pat_completeness auto
termination
  by (relation "measure length") auto

declare gh_options.simps(2) [simp del]

text \<open>The HTTP method of \<open>gh api\<close>: the value after \<open>-X\<close> or \<open>--method\<close>, else the one attached to \<open>--method=\<close>.\<close>

fun value_after :: "string list \<Rightarrow> string list \<Rightarrow> string option" where
  "value_after flags (a # b # rest) = (if a \<in> set flags then Some b else value_after flags (b # rest))"
| "value_after flags _ = None"

definition api_method :: "string list \<Rightarrow> string option" where
  "api_method rest =
     (case value_after [''-X'', ''--method''] rest of
        Some m \<Rightarrow> Some m
      | None \<Rightarrow> map_option (drop 9) (find (\<lambda>arg. starts_with ''--method='' arg) rest))"

definition api_mutating :: "string list \<Rightarrow> bool" where
  "api_mutating rest =
     ((\<not> js_falsy (api_method rest) \<and> js_lower (the (api_method rest)) \<noteq> ''get'')
      \<or> list_ex (\<lambda>arg. arg \<in> set [''-f'', ''-F'', ''--field'', ''--raw-field'', ''--input'']
           \<or> starts_with ''--field='' arg \<or> starts_with ''--raw-field='' arg
           \<or> ((starts_with ''-f'' arg \<or> starts_with ''-F'' arg) \<and> re_dot (drop 2 arg))) rest)"

definition classifyGhTokens :: "string list \<Rightarrow> command_kind \<times> string" where
  "classifyGhTokens tokens =
     (case gh_options (tl tokens) of
        None \<Rightarrow> (ReadK, ''gh'')
      | Some ts \<Rightarrow>
          (let command = or_else (js_head ts) [];
               rest = tl ts;
               verb = js_head rest;
               v = or_else verb [];
               family = (if command \<noteq> [] then
                   (if \<not> js_falsy verb \<and> \<not> dashed v \<and> command \<noteq> ''api'' then ''gh '' @ command @ '' '' @ v
                    else ''gh '' @ command)
                 else ''gh'')
           in
            if command = [] \<or> command \<in> set [''version'', ''help'', ''status'', ''search''] then (ReadK, family)
            else if command = ''auth'' then (if verb = Some ''status'' then ReadK else WriteK, family)
            else if command = ''api'' then (if api_mutating rest then WriteK else ReadK, family)
            else if command = ''repo'' \<and> verb = Some ''delete'' then (DestructiveK, family)
            else if command = ''config'' then (if verb = Some ''get'' \<or> verb = Some ''list'' then ReadK else WriteK, family)
            else if command \<in> set [''alias'', ''extension'', ''ssh-key'', ''gpg-key'', ''cache'', ''label'', ''secret'', ''variable'',
                ''ruleset'', ''attestation''] then (if verb = Some ''list'' then ReadK else WriteK, family)
            else if \<not> js_falsy verb \<and> v \<in> set GH_READ_VERBS then (ReadK, family)
            else (WriteK, family)))"

definition classifyRm :: "string list \<Rightarrow> command_kind" where
  "classifyRm tokens =
     (let flags = filter dashed (tl tokens);
          recursive = list_ex (\<lambda>f. f = ''--recursive'' \<or> shortFlagHas f CHR ''r'' \<or> shortFlagHas f CHR ''R'') flags;
          forced = list_ex (\<lambda>f. f = ''--force'' \<or> shortFlagHas f CHR ''f'') flags
      in if recursive \<and> forced then DestructiveK else OtherK)"

section \<open>Interpreters\<close>

definition SHELLS :: "string list" where
  "SHELLS = [''bash'', ''sh'', ''zsh'', ''dash'', ''ksh'', ''mksh'', ''ash'', ''fish'']"

definition FIND_EXEC_FLAGS :: "string list" where
  "FIND_EXEC_FLAGS = [''-exec'', ''-execdir'', ''-ok'', ''-okdir'']"

datatype interpreted = Script string | ProgramTokens "string list"

text \<open>\<open>/^-[A-Za-z]*c[A-Za-z]*$/\<close>.\<close>

definition has_command_letter :: "string \<Rightarrow> bool" where
  "has_command_letter token = (starts_with ''-'' token \<and> list_all is_letter (tl token) \<and> CHR ''c'' \<in> set (tl token))"

function shell_script :: "bool \<Rightarrow> string list \<Rightarrow> interpreted option" where
  "shell_script saw [] = None"
| "shell_script saw (token # rest) =
     (if token = ''--'' then (if saw then map_option Script (js_head rest) else None)
      else if starts_with ''--command='' token then Some (Script (drop 10 token))
      else if token \<in> set [''-o'', ''+o'', ''-O'', ''+O''] then shell_script saw (tl rest)
      else if \<not> starts_with ''-'' token \<and> \<not> starts_with ''+'' token then (if saw then Some (Script token) else None)
      else shell_script (saw \<or> has_command_letter token \<or> token = ''--command'') rest)"
  by pat_completeness auto
termination
  by (relation "measure (\<lambda>(b, ts). length ts)") auto

declare shell_script.simps(2) [simp del]

definition interpreterScript :: "string \<Rightarrow> string list \<Rightarrow> interpreted option" where
  "interpreterScript program tokens =
     (let rest = tl tokens in
      if program \<in> set SHELLS then shell_script False rest
      else if program = ''eval'' then
        (let script = join '' '' rest in if script \<noteq> [] then Some (Script script) else None)
      else if program = ''su'' then
        (let after = dropWhile (\<lambda>t. t \<noteq> ''-c'' \<and> t \<noteq> ''--command'') rest in
         if after \<noteq> [] \<and> tl after \<noteq> [] then Some (Script (hd (tl after)))
         else map_option (\<lambda>t. Script (drop 10 t)) (find (\<lambda>t. starts_with ''--command='' t) rest))
      else if program = ''find'' then
        (let after = dropWhile (\<lambda>t. t \<notin> set FIND_EXEC_FLAGS) rest;
             inner = takeWhile (\<lambda>t. t \<noteq> '';'' \<and> t \<noteq> ''+'') (tl after)
         in if inner \<noteq> [] then Some (ProgramTokens inner) else None)
      else None)"

section \<open>Classification\<close>

text \<open>The names of the non-empty upper-case assignments; both halves of a name or email must be given.\<close>

definition is_env_name :: "char \<Rightarrow> bool" where
  "is_env_name c = ((65 \<le> (of_char c :: nat) \<and> (of_char c :: nat) \<le> 90) \<or> c = CHR ''_'')"

definition assigned_name :: "string \<Rightarrow> string option" where
  "assigned_name entry =
     (let name = takeWhile is_env_name entry; rest = dropWhile is_env_name entry
      in if name \<noteq> [] \<and> starts_with ''='' rest \<and> re_dot (tl rest) then Some name else None)"

definition identityFromAssignments :: "string list \<Rightarrow> identity_fields" where
  "identityFromAssignments assignments =
     (let names = List.map_filter assigned_name assignments
      in \<lparr>id_name = (''GIT_AUTHOR_NAME'' \<in> set names \<and> ''GIT_COMMITTER_NAME'' \<in> set names),
          id_email = (''GIT_AUTHOR_EMAIL'' \<in> set names \<and> ''GIT_COMMITTER_EMAIL'' \<in> set names)\<rparr>)"

definition merge_identity :: "identity_fields \<Rightarrow> identity_fields \<Rightarrow> identity_fields" where
  "merge_identity a b = \<lparr>id_name = id_name a \<or> id_name b, id_email = id_email a \<or> id_email b\<rparr>"

definition other_command :: "identity_fields \<Rightarrow> (identity_fields \<times> identity_scope) option \<Rightarrow> shell_segment \<Rightarrow> classified_command" where
  "other_command ident idwrite seg =
     \<lparr>kind = OtherK, family = None, gitDirectory = None, createsCommit = False, commitIdentity = ident,
      identityWrite = idwrite, segment = seg\<rparr>"

text \<open>The commands an interpreter runs: those that are not \<open>other\<close>, with the identity of the interpreter's prefix added.\<close>

definition inner_commands :: "identity_fields \<Rightarrow> shell_segment \<Rightarrow> classified_command list \<Rightarrow> classified_command list" where
  "inner_commands ident seg nested =
     (let classified = filter (\<lambda>c. kind c \<noteq> OtherK) nested in
      if classified = [] then [other_command ident None seg]
      else map (\<lambda>c. c\<lparr>commitIdentity := merge_identity (commitIdentity c) ident\<rparr>) classified)"

function classifyTokens :: "string list \<Rightarrow> shell_segment \<Rightarrow> nat \<Rightarrow> classified_command list" where
  "classifyTokens segmentTokens seg depth =
     (let (assignments, tokens) = splitProgramTokens segmentTokens;
          program = programName (js_head tokens);
          ident = identityFromAssignments assignments
      in
       if program = ''git'' then
         (let (verdict, fam, dir, inline) = classifyGitTokens tokens
          in [\<lparr>kind = v_kind verdict, family = Some fam, gitDirectory = dir, createsCommit = v_createsCommit verdict,
               commitIdentity = merge_identity ident inline, identityWrite = v_identityWrite verdict, segment = seg\<rparr>])
       else if program = ''gh'' then
         (let (k, fam) = classifyGhTokens tokens
          in [\<lparr>kind = k, family = Some fam, gitDirectory = None, createsCommit = False, commitIdentity = ident,
               identityWrite = None, segment = seg\<rparr>])
       else if program = ''rm'' then
         (let k = classifyRm tokens
          in [\<lparr>kind = k, family = Some (if k = DestructiveK then ''rm -rf'' else ''rm''), gitDirectory = None,
               createsCommit = False, commitIdentity = ident, identityWrite = None, segment = seg\<rparr>])
       else if program \<in> set [''export'', ''declare'', ''typeset''] then
         (let exported = identityFromAssignments (filter is_assignment (tl tokens))
          in [other_command ident
                (if id_name exported \<or> id_email exported then Some (exported, GlobalScope) else None) seg])
       else if depth < MAX_INTERPRETER_DEPTH then
         (case interpreterScript program tokens of
            Some (Script script) \<Rightarrow>
              inner_commands ident seg
                (concat (map (\<lambda>entry. classifyTokens (seg_tokens entry) seg (Suc depth)) (splitShellCommand script 0)))
          | Some (ProgramTokens inner) \<Rightarrow> inner_commands ident seg (classifyTokens inner seg (Suc depth))
          | None \<Rightarrow> [other_command ident None seg])
       else [other_command ident None seg])"
  by pat_completeness auto
termination
  by (relation "measure (\<lambda>(ts, seg, depth). MAX_INTERPRETER_DEPTH - depth)") auto

declare classifyTokens.simps [simp del]

definition classifySegment :: "shell_segment \<Rightarrow> classified_command list" where
  "classifySegment seg = classifyTokens (seg_tokens seg) seg 0"

definition classifyShellCommand :: "string \<Rightarrow> classified_command list" where
  "classifyShellCommand command = concat (map classifySegment (splitShellCommand command 0))"

section \<open>Classification is attached to the segment\<close>

definition at_segment :: "shell_segment \<Rightarrow> classified_command \<Rightarrow> classified_command" where
  "at_segment seg c = c\<lparr>segment := seg\<rparr>"

lemma at_segment_simps [simp]:
  "kind (at_segment seg c) = kind c" "family (at_segment seg c) = family c" "segment (at_segment seg c) = seg"
  "createsCommit (at_segment seg c) = createsCommit c" "identityWrite (at_segment seg c) = identityWrite c"
  "gitDirectory (at_segment seg c) = gitDirectory c" "commitIdentity (at_segment seg c) = commitIdentity c"
  "at_segment seg (other_command i w seg') = other_command i w seg"
  by (simp_all add: at_segment_def other_command_def)

lemma inner_commands_at:
  "inner_commands ident seg (map (at_segment seg) xs) = map (at_segment seg) (inner_commands ident seg' xs)"
proof -
  have "filter (\<lambda>c. kind c \<noteq> OtherK) (map (at_segment seg) xs) = map (at_segment seg) (filter (\<lambda>c. kind c \<noteq> OtherK) xs)"
    by (induction xs) auto
  then show ?thesis
    by (simp add: inner_commands_def Let_def at_segment_def other_command_def)
qed

lemma classifyTokens_at:
  "classifyTokens ts seg d = map (at_segment seg) (classifyTokens ts seg' d)"
proof (induction ts seg' d arbitrary: seg rule: classifyTokens.induct)
  case (1 ts seg' d)
  obtain assignments tokens where st: "splitProgramTokens ts = (assignments, tokens)" by (cases "splitProgramTokens ts")
  define program where "program = programName (js_head tokens)"
  define ident where "ident = identityFromAssignments assignments"
  note unfold = classifyTokens.simps [of ts] st prod.case Let_def program_def [symmetric] ident_def [symmetric]
  show ?case
  proof (cases "program = ''git'' \<or> program = ''gh'' \<or> program = ''rm'' \<or> program \<in> set [''export'', ''declare'', ''typeset'']
      \<or> \<not> d < MAX_INTERPRETER_DEPTH")
    case True
    then show ?thesis unfolding unfold
      by (cases "classifyGitTokens tokens"; cases "classifyGhTokens tokens") (auto simp: at_segment_def other_command_def)
  next
    case False
    then have g: "program \<noteq> ''git''" "program \<noteq> ''gh''" "program \<noteq> ''rm''"
      "program \<notin> set [''export'', ''declare'', ''typeset'']" "d < MAX_INTERPRETER_DEPTH" by simp_all
    note IH = "1.IH" [OF st [symmetric] refl program_def ident_def g]
    show ?thesis
    proof (cases "interpreterScript program tokens")
      case None
      then show ?thesis unfolding unfold using g by simp
    next
      case (Some r)
      show ?thesis
      proof (cases r)
        case (Script script)
        have "concat (map (\<lambda>entry. classifyTokens (seg_tokens entry) seg (Suc d)) (splitShellCommand script 0))
            = map (at_segment seg) (concat (map (\<lambda>entry. classifyTokens (seg_tokens entry) seg' (Suc d)) (splitShellCommand script 0)))"
          unfolding map_concat map_map comp_def
          by (rule arg_cong [where f = concat], rule map_cong [OF refl]) (rule IH(1) [OF Some Script])
        then show ?thesis unfolding unfold using g Some Script by (simp add: inner_commands_at)
      next
        case (ProgramTokens inner)
        have "classifyTokens inner seg (Suc d) = map (at_segment seg) (classifyTokens inner seg' (Suc d))"
          by (rule IH(2) [OF Some ProgramTokens])
        then show ?thesis unfolding unfold using g Some ProgramTokens by (simp add: inner_commands_at)
      qed
    qed
  qed
qed

lemma classifyTokens_segment: "c \<in> set (classifyTokens ts seg d) \<Longrightarrow> segment c = seg"
  by (subst (asm) classifyTokens_at [where seg' = seg]) auto

lemma classifyShellCommand_segment:
  "c \<in> set (classifyShellCommand command) \<Longrightarrow> segment c \<in> set (splitShellCommand command 0)"
  by (auto simp: classifyShellCommand_def classifySegment_def dest: classifyTokens_segment)

definition shift_segment :: "nat \<Rightarrow> shell_segment \<Rightarrow> shell_segment" where
  "shift_segment n seg = seg\<lparr>seg_start := seg_start seg + n, seg_commandStart := seg_commandStart seg + n\<rparr>"

definition shift_command :: "nat \<Rightarrow> classified_command \<Rightarrow> classified_command" where
  "shift_command n c = c\<lparr>segment := shift_segment n (segment c)\<rparr>"

lemma flush_segment_shift: "flush_segment (offset + n) p t = map (shift_segment n) (flush_segment offset p t)"
  by (simp add: flush_segment_def Let_def shift_segment_def)

lemma splitShellCommand_shift:
  "splitShellCommand w (offset + n) = map (shift_segment n) (splitShellCommand w offset)"
proof (induction w offset rule: splitShellCommand.induct)
  case (1 w offset)
  show ?case unfolding splitShellCommand.simps [of w] map_concat map_map
  proof (rule arg_cong [where f = concat], rule map_cong [OF refl])
    fix it assume it: "it \<in> set (scan_shell w None 0 [] 0 None [] [])"
    show "(case it of Flush p t \<Rightarrow> flush_segment (offset + n) p t | Nested p t \<Rightarrow> splitShellCommand t (offset + n + p))
      = (map (shift_segment n) \<circ> (\<lambda>it. case it of Flush p t \<Rightarrow> flush_segment offset p t
            | Nested p t \<Rightarrow> splitShellCommand t (offset + p))) it"
    proof (cases it)
      case (Flush p t)
      then show ?thesis by (simp add: flush_segment_shift)
    next
      case (Nested p t)
      show ?thesis using "1.IH" [OF it Nested] by (simp add: Nested ac_simps)
    qed
  qed
qed

lemma classifySegment_shift: "classifySegment (shift_segment n seg) = map (shift_command n) (classifySegment seg)"
proof -
  have "classifySegment (shift_segment n seg) = map (at_segment (shift_segment n seg)) (classifySegment seg)"
    unfolding classifySegment_def
    by (subst classifyTokens_at [where seg' = seg]) (simp add: shift_segment_def)
  also have "\<dots> = map (shift_command n) (classifySegment seg)"
    by (rule map_cong [OF refl])
      (auto simp: shift_command_def at_segment_def classifySegment_def dest: classifyTokens_segment)
  finally show ?thesis .
qed

lemma classify_at_operator:
  assumes "list_all plain_char w" and "x \<in> set CONTROL_OPERATORS" and "starts_command b"
  shows "classifyShellCommand (w @ x @ b)
    = classifyShellCommand w @ map (shift_command (length w + length x)) (classifyShellCommand b)"
proof -
  have "splitShellCommand (w @ x @ b) 0
      = splitShellCommand w 0 @ map (shift_segment (length w + length x)) (splitShellCommand b 0)"
    using split_at_operator [OF assms, of 0] split_plain [OF assms(1), of 0]
      splitShellCommand_shift [of b 0 "length w + length x"] by simp
  then show ?thesis
    by (simp add: classifyShellCommand_def map_concat comp_def classifySegment_shift)
qed

section \<open>What each verdict allows\<close>

text \<open>Only the write tier records commits; only it (or an \<open>export\<close>) writes an identity.\<close>

definition sound_verdict :: "git_verdict \<Rightarrow> bool" where
  "sound_verdict v = ((v_createsCommit v \<longrightarrow> v_kind v = WriteK) \<and> (v_identityWrite v \<noteq> None \<longrightarrow> v_kind v = WriteK))"

lemma sound_verdict_intros:
  "sound_verdict (verdict_of k)" "sound_verdict (commit_verdict b)"
  "(c \<Longrightarrow> sound_verdict v) \<Longrightarrow> (\<not> c \<Longrightarrow> sound_verdict u) \<Longrightarrow> sound_verdict (if c then v else u)"
  by (simp_all add: sound_verdict_def)

lemma sound_classifyGitConfig: "sound_verdict (classifyGitConfig args)"
  unfolding classifyGitConfig_def Let_def
  by (intro sound_verdict_intros) (simp_all add: sound_verdict_def)

lemma sound_classifyGit: "sound_verdict (classifyGit sub args)"
  unfolding classifyGit_def Let_def classify_push_def classify_clean_def classify_branch_def classify_tag_def
    classify_stash_def classify_worktree_def classify_reflog_def classify_rebase_def
  by (intro sound_verdict_intros sound_classifyGitConfig)

definition sound_command :: "classified_command \<Rightarrow> bool" where
  "sound_command c = ((createsCommit c \<longrightarrow> kind c = WriteK) \<and> (identityWrite c \<noteq> None \<longrightarrow> kind c = WriteK \<or> kind c = OtherK))"

lemma sound_other [simp]: "sound_command (other_command i w seg)"
  by (simp add: sound_command_def other_command_def)

lemma sound_inner: "(\<And>c. c \<in> set cs \<Longrightarrow> sound_command c) \<Longrightarrow> c \<in> set (inner_commands i seg cs) \<Longrightarrow> sound_command c"
  by (auto simp: inner_commands_def Let_def sound_command_def split: if_splits)
    (auto simp: other_command_def)

lemma sound_classifyTokens: "c \<in> set (classifyTokens ts seg d) \<Longrightarrow> sound_command c"
proof (induction ts seg d arbitrary: c rule: classifyTokens.induct)
  case (1 ts seg d)
  obtain assignments tokens where st: "splitProgramTokens ts = (assignments, tokens)" by (cases "splitProgramTokens ts")
  define program where "program = programName (js_head tokens)"
  define ident where "ident = identityFromAssignments assignments"
  note unfold = classifyTokens.simps [of ts] st prod.case Let_def program_def [symmetric] ident_def [symmetric]
  show ?case
  proof (cases "program = ''git'' \<or> program = ''gh'' \<or> program = ''rm'' \<or> program \<in> set [''export'', ''declare'', ''typeset'']
      \<or> \<not> d < MAX_INTERPRETER_DEPTH")
    case True
    obtain verdict fam dir inline where git: "classifyGitTokens tokens = (verdict, fam, dir, inline)"
      by (cases "classifyGitTokens tokens")
    then have "sound_verdict verdict"
      using sound_classifyGit by (auto simp: classifyGitTokens_def Let_def split: prod.splits)
    then show ?thesis using "1.prems" True git unfolding unfold
      by (auto simp: sound_command_def sound_verdict_def other_command_def split: prod.splits if_splits)
  next
    case False
    then have g: "program \<noteq> ''git''" "program \<noteq> ''gh''" "program \<noteq> ''rm''"
      "program \<notin> set [''export'', ''declare'', ''typeset'']" "d < MAX_INTERPRETER_DEPTH" by simp_all
    note IH = "1.IH" [OF st [symmetric] refl program_def ident_def g]
    show ?thesis
    proof (cases "interpreterScript program tokens")
      case None
      then show ?thesis using "1.prems" g unfolding unfold by simp
    next
      case (Some r)
      show ?thesis
      proof (cases r)
        case (Script script)
        then have "c \<in> set (inner_commands ident seg
            (concat (map (\<lambda>entry. classifyTokens (seg_tokens entry) seg (Suc d)) (splitShellCommand script 0))))"
          using "1.prems" g Some unfolding unfold by simp
        then show ?thesis by (rule sound_inner [rotated]) (use IH(1) [OF Some Script] in auto)
      next
        case (ProgramTokens inner)
        then have "c \<in> set (inner_commands ident seg (classifyTokens inner seg (Suc d)))"
          using "1.prems" g Some unfolding unfold by simp
        then show ?thesis by (rule sound_inner [rotated]) (use IH(2) [OF Some ProgramTokens] in auto)
      qed
    qed
  qed
qed

section \<open>Assignments and wrappers never hide the program\<close>

definition PLAIN_WRAPPERS :: "string list" where
  "PLAIN_WRAPPERS = [''sudo'', ''doas'', ''command'', ''exec'', ''env'', ''nohup'', ''time'', ''builtin'', ''nice'',
     ''caffeinate'', ''xargs'']"

lemma plain_wrappers_ok:
  "w \<in> set PLAIN_WRAPPERS \<Longrightarrow>
     programName (Some w) = w \<and> w \<in> set WRAPPERS \<and> w \<noteq> ''timeout'' \<and> \<not> is_assignment w \<and> \<not> dashed w"
proof -
  have "list_all (\<lambda>w. programName (Some w) = w \<and> w \<in> set WRAPPERS \<and> w \<noteq> ''timeout'' \<and> \<not> is_assignment w \<and> \<not> dashed w)
      PLAIN_WRAPPERS"
    by code_simp
  then show "w \<in> set PLAIN_WRAPPERS \<Longrightarrow> ?thesis" unfolding list_all_iff by blast
qed

lemma wrapper_options_stop:
  "\<not> dashed t \<Longrightarrow> \<not> is_assignment t \<Longrightarrow> wrapper_options w as (t # rest) = (as, t # rest)"
  by (auto simp: wrapper_options.simps(2) dashed_def)

text \<open>A program that is neither an assignment nor a wrapper nor an option.\<close>

definition real_program :: "string \<Rightarrow> bool" where
  "real_program p = (\<not> dashed p \<and> \<not> is_assignment p \<and> programName (Some p) \<notin> set WRAPPERS)"

lemma split_program_assignments:
  "list_all is_assignment as \<Longrightarrow> hops < 16 \<Longrightarrow> split_program bs (as @ ts) hops = split_program (bs @ as) ts hops"
  by (induction as arbitrary: bs) (simp_all add: split_program.simps(2))

lemma split_program_wrappers:
  "set ws \<subseteq> set PLAIN_WRAPPERS \<Longrightarrow> hops + length ws \<le> 16 \<Longrightarrow> real_program p \<Longrightarrow>
     split_program as (ws @ p # args) hops = (as, p # args)"
proof (induction ws arbitrary: hops)
  case Nil
  then show ?case by (simp add: split_program.simps(2) real_program_def)
next
  case (Cons w ws)
  have w: "programName (Some w) = w" "w \<in> set WRAPPERS" "w \<noteq> ''timeout''" "\<not> is_assignment w"
    using plain_wrappers_ok [of w] Cons.prems(1) by simp_all
  have stop: "wrapper_options w as (ws @ p # args) = (as, ws @ p # args)"
  proof (cases ws)
    case Nil
    then show ?thesis using Cons.prems(3) by (simp add: wrapper_options_stop real_program_def)
  next
    case (Cons w' ws')
    then have "w' \<in> set PLAIN_WRAPPERS" using Cons.prems(1) by simp
    then show ?thesis using plain_wrappers_ok [of w'] Cons by (simp add: wrapper_options_stop)
  qed
  have "split_program as (w # ws @ p # args) hops = split_program as (ws @ p # args) (Suc hops)"
    using Cons.prems(2) w stop by (simp add: split_program.simps(2))
  then show ?case using Cons.IH [of "Suc hops"] Cons.prems by simp
qed

lemma splitProgramTokens_wrapped:
  "list_all is_assignment as \<Longrightarrow> set ws \<subseteq> set PLAIN_WRAPPERS \<Longrightarrow> length ws \<le> 16 \<Longrightarrow> real_program p \<Longrightarrow>
     splitProgramTokens (as @ ws @ p # args) = (as, p # args)"
  by (simp add: splitProgramTokens_def split_program_assignments split_program_wrappers)

lemma programName_git: "programName (Some ''git'') = ''git''" and real_program_git: "real_program ''git''"
  by (code_simp)+

lemma git_options_directories:
  "\<not> dashed sub \<Longrightarrow>
     git_options (concat (map (\<lambda>d. [''-C'', d]) ds) @ sub # args) dir inline
     = (sub # args, fold (\<lambda>d prev. Some (joinGitDirectory prev d)) ds dir, inline)"
proof (induction ds arbitrary: dir)
  case Nil
  then show ?case by (simp add: git_options.simps(2))
next
  case (Cons d ds)
  have c: "dashed ''-C''" "''-C'' \<noteq> ''--''" "takeWhile (\<lambda>c. c \<noteq> CHR ''='') ''-C'' = ''-C''" "CHR ''='' \<notin> set ''-C''"
    "''-C'' \<in> set GIT_OPTIONS_WITH_VALUE" "''-C'' \<noteq> ''-c''"
    by (code_simp)+
  have "git_options (''-C'' # d # concat (map (\<lambda>d. [''-C'', d]) ds) @ sub # args) dir inline
      = git_options (concat (map (\<lambda>d. [''-C'', d]) ds) @ sub # args) (Some (joinGitDirectory dir d)) inline"
    by (subst git_options.simps(2)) (simp only: c Let_def if_True if_False simp_thms or_else_simps js_head_simps list.sel)
  then show ?case using Cons by simp
qed

lemma classify_git_command:
  assumes "list_all is_assignment as" and "set ws \<subseteq> set PLAIN_WRAPPERS" and "length ws \<le> 16"
    and "sub \<noteq> []" and "\<not> dashed sub"
  shows "classifyTokens (as @ ws @ ''git'' # concat (map (\<lambda>d. [''-C'', d]) ds) @ sub # args) seg depth =
    [\<lparr>kind = v_kind (classifyGit (Some sub) args), family = Some (''git '' @ sub),
      gitDirectory = fold (\<lambda>d prev. Some (joinGitDirectory prev d)) ds None,
      createsCommit = v_createsCommit (classifyGit (Some sub) args),
      commitIdentity = identityFromAssignments as,
      identityWrite = v_identityWrite (classifyGit (Some sub) args), segment = seg\<rparr>]"
proof -
  have "classifyGitTokens (''git'' # concat (map (\<lambda>d. [''-C'', d]) ds) @ sub # args)
      = (classifyGit (Some sub) args, ''git '' @ sub, fold (\<lambda>d prev. Some (joinGitDirectory prev d)) ds None,
         \<lparr>id_name = False, id_email = False\<rparr>)"
    using assms(4,5) by (simp add: classifyGitTokens_def git_options_directories js_falsy_def)
  then show ?thesis
    using splitProgramTokens_wrapped [OF assms(1-3) real_program_git]
    by (subst classifyTokens.simps) (simp add: programName_git merge_identity_def Let_def)
qed

section \<open>The destructive tier\<close>

text \<open>
  The shapes the header of the source lists as destructive, stated apart from
  the code: whatever else is among the arguments, these always ask.
\<close>

inductive destructive_shape :: "string \<Rightarrow> string list \<Rightarrow> bool" where
  push_flag: "a \<in> set args \<Longrightarrow> a \<in> set [''--force'', ''-f'', ''--force-if-includes'', ''--delete'', ''-d'', ''--mirror'', ''--prune'']
     \<Longrightarrow> destructive_shape ''push'' args"
| push_lease: "''--force-with-lease'' @ v \<in> set args \<Longrightarrow> destructive_shape ''push'' args"
| push_refspec: "CHR ''+'' # ref \<in> set args \<Longrightarrow> destructive_shape ''push'' args"
| reset_hard: "''--hard'' \<in> set args \<Longrightarrow> destructive_shape ''reset'' args"
| clean_force: "a \<in> set args \<Longrightarrow> a \<in> set [''-f'', ''-fd'', ''-fdx'', ''--force''] \<Longrightarrow>
     \<not> hasFlag args [''-n'', ''--dry-run''] \<Longrightarrow> \<not> list_ex (\<lambda>a. shortFlagHas a CHR ''n'') args \<Longrightarrow> destructive_shape ''clean'' args"
| branch_delete: "''-D'' \<in> set args \<Longrightarrow> destructive_shape ''branch'' args"
| branch_delete_force: "''-d'' \<in> set args \<Longrightarrow> ''-f'' \<in> set args \<Longrightarrow> destructive_shape ''branch'' args"
| stash_drop: "verb \<in> set [''drop'', ''clear''] \<Longrightarrow> destructive_shape ''stash'' (verb # args)"
| rebase_interactive: "a \<in> set args \<Longrightarrow> a \<in> set [''-i'', ''--interactive''] \<Longrightarrow> destructive_shape ''rebase'' args"
| filter_history: "sub \<in> set [''filter-branch'', ''filter-repo''] \<Longrightarrow> destructive_shape sub args"
| reflog_prune: "verb \<in> set [''expire'', ''delete''] \<Longrightarrow> destructive_shape ''reflog'' (verb # args)"
| worktree_remove: "a \<in> set args \<Longrightarrow> a \<in> set [''--force'', ''-f''] \<Longrightarrow> destructive_shape ''worktree'' (''remove'' # args)"
| ref_delete: "''-d'' \<in> set args \<Longrightarrow> destructive_shape ''update-ref'' args"

lemma hasFlag_mem: "a \<in> set args \<Longrightarrow> a \<in> set flags \<Longrightarrow> hasFlag args flags"
  by (auto simp: hasFlag_def list_ex_iff)

lemma list_ex_mem: "a \<in> set xs \<Longrightarrow> P a \<Longrightarrow> list_ex P xs"
  by (auto simp: list_ex_iff)

lemma short_flags:
  "shortFlagHas ''-f'' CHR ''f''" "shortFlagHas ''-d'' CHR ''d''" "shortFlagHas ''-fd'' CHR ''f''" "shortFlagHas ''-fdx'' CHR ''f''"
  by (code_simp)+

lemma classifyGit_cases:
  "classifyGit (Some ''push'') args = classify_push args"
  "classifyGit (Some ''clean'') args = classify_clean args"
  "classifyGit (Some ''branch'') args = classify_branch args"
  "classifyGit (Some ''stash'') args = classify_stash args"
  "classifyGit (Some ''rebase'') args = classify_rebase args"
  "classifyGit (Some ''reflog'') args = classify_reflog args"
  "classifyGit (Some ''worktree'') args = classify_worktree args"
  "classifyGit (Some ''reset'') args = verdict_of (if hasFlag args [''--hard''] then DestructiveK else WriteK)"
  "classifyGit (Some ''update-ref'') args = verdict_of (if hasFlag args [''-d''] then DestructiveK else WriteK)"
  "classifyGit (Some ''filter-branch'') args = verdict_of DestructiveK"
  "classifyGit (Some ''filter-repo'') args = verdict_of DestructiveK"
  by (simp_all add: classifyGit_def Let_def js_falsy_def)

lemma classify_pushI: "a \<in> set args \<Longrightarrow>
    a = ''--force'' \<or> starts_with ''--force-with-lease'' a \<or> a = ''--force-if-includes'' \<or> a = ''--delete'' \<or> a = ''--mirror''
      \<or> a = ''--prune'' \<or> shortFlagHas a CHR ''f'' \<or> shortFlagHas a CHR ''d'' \<or> starts_with ''+'' a \<Longrightarrow>
    v_kind (classify_push args) = DestructiveK"
  unfolding classify_push_def Let_def by (auto simp: list_ex_iff)

lemma destructive_shape_classified: "destructive_shape sub args \<Longrightarrow> v_kind (classifyGit (Some sub) args) = DestructiveK"
proof (induction sub args rule: destructive_shape.induct)
  case (push_flag a args)
  then show ?case using short_flags unfolding classifyGit_cases by (intro classify_pushI) auto
next
  case (push_lease v args)
  have "starts_with ''--force-with-lease'' (''--force-with-lease'' @ v)" by (rule starts_with_append)
  then show ?case using push_lease unfolding classifyGit_cases by (blast intro: classify_pushI)
next
  case (push_refspec r args)
  have "starts_with ''+'' (CHR ''+'' # r)" by simp
  then show ?case using push_refspec unfolding classifyGit_cases by (blast intro: classify_pushI)
next
  case (reset_hard args)
  then show ?case by (simp add: classifyGit_cases hasFlag_mem)
next
  case (clean_force a args)
  have "hasFlag args [''--force''] \<or> list_ex (\<lambda>a. shortFlagHas a CHR ''f'') args"
    using clean_force(1,2) short_flags by (auto simp: list_ex_iff intro: hasFlag_mem)
  then show ?case using clean_force(3,4) by (simp add: classifyGit_cases classify_clean_def)
next
  case (branch_delete args)
  then have "list_ex (\<lambda>arg. arg = ''-D'' \<or> shortFlagHas arg CHR ''D'') args" by (auto simp: list_ex_iff)
  then show ?case by (simp add: classifyGit_cases classify_branch_def)
next
  case (branch_delete_force args)
  then have "hasFlag args [''-d'', ''--delete'']" "hasFlag args [''-f'', ''--force'']" by (auto intro: hasFlag_mem)
  then show ?case by (simp add: classifyGit_cases classify_branch_def)
next
  case (stash_drop verb args)
  then show ?case by (auto simp: classifyGit_cases classify_stash_def)
next
  case (rebase_interactive a args)
  then have "hasFlag args [''-i'', ''--interactive'']" by (auto intro: hasFlag_mem)
  then show ?case by (simp add: classifyGit_cases classify_rebase_def)
next
  case (filter_history sub args)
  then show ?case by (auto simp: classifyGit_cases)
next
  case (reflog_prune verb args)
  then show ?case by (auto simp: classifyGit_cases classify_reflog_def js_falsy_def dashed_def Let_def)
next
  case (worktree_remove a args)
  then have "hasFlag (''remove'' # args) [''--force'', ''-f'']" by (auto intro: hasFlag_mem)
  then show ?case by (simp add: classifyGit_cases classify_worktree_def js_falsy_def Let_def)
next
  case (ref_delete args)
  then show ?case by (simp add: classifyGit_cases hasFlag_mem)
qed

lemma destructive_shape_sub: "destructive_shape sub args \<Longrightarrow> sub \<noteq> [] \<and> \<not> dashed sub"
  by (cases rule: destructive_shape.cases) (auto simp: dashed_def)

section \<open>Interpreters are followed\<close>

lemma inner_commands_destructive:
  "c \<in> set nested \<Longrightarrow> kind c = DestructiveK \<Longrightarrow> \<exists>c' \<in> set (inner_commands ident seg nested). kind c' = DestructiveK"
  by (auto simp: inner_commands_def Let_def filter_empty_conv intro!: bexI [of _ c])

lemma shells_ok: "sh \<in> set SHELLS \<Longrightarrow> real_program sh \<and> programName (Some sh) = sh \<and>
    sh \<notin> set [''git'', ''gh'', ''rm'', ''export'', ''declare'', ''typeset'']"
proof -
  have "list_all (\<lambda>sh. real_program sh \<and> programName (Some sh) = sh \<and>
    sh \<notin> set [''git'', ''gh'', ''rm'', ''export'', ''declare'', ''typeset'']) SHELLS" by code_simp
  then show "sh \<in> set SHELLS \<Longrightarrow> ?thesis" unfolding list_all_iff by blast
qed

lemma shell_command_flag: "\<not> starts_with ''-'' s \<Longrightarrow> \<not> starts_with ''+'' s \<Longrightarrow> shell_script False [''-c'', s] = Some (Script s)"
proof -
  assume s: "\<not> starts_with ''-'' s" "\<not> starts_with ''+'' s"
  have "s \<noteq> ''--''" "\<not> starts_with ''--command='' s" "s \<notin> set [''-o'', ''+o'', ''-O'', ''+O'']"
    using s by (auto simp: starts_with_iff)
  moreover have "has_command_letter ''-c''" by code_simp
  ultimately show ?thesis using s by (simp add: shell_script.simps(2))
qed

lemma classify_shell_script:
  assumes "sh \<in> set SHELLS" and "depth < MAX_INTERPRETER_DEPTH"
    and "\<not> starts_with ''-'' script" and "\<not> starts_with ''+'' script"
    and "list_all is_assignment as" and "set ws \<subseteq> set PLAIN_WRAPPERS" and "length ws \<le> 16"
  shows "classifyTokens (as @ ws @ [sh, ''-c'', script]) seg depth
    = inner_commands (identityFromAssignments as) seg
        (concat (map (\<lambda>entry. classifyTokens (seg_tokens entry) seg (Suc depth)) (splitShellCommand script 0)))"
proof -
  have st: "splitProgramTokens (as @ ws @ [sh, ''-c'', script]) = (as, [sh, ''-c'', script])"
    using splitProgramTokens_wrapped [OF assms(5-7), of sh "[''-c'', script]"] shells_ok [OF assms(1)] by simp
  have "interpreterScript sh [sh, ''-c'', script] = Some (Script script)"
    using assms(1) shell_command_flag [OF assms(3,4)] by (simp add: interpreterScript_def)
  then show ?thesis
    using st shells_ok [OF assms(1)] assms(2) by (subst classifyTokens.simps) simp
qed

end
