(* ===== verification/DestructiveMarker.thy ===== *)
theory DestructiveMarker
  imports GitCommandPolicy
begin

text \<open>
  The end of \<open>apps/server/src/git-command-policy.ts\<close>: the removal of markers the
  model wrote itself (\<open>stripDestructiveMarkers\<close>), the marking of destructive
  commands (\<open>markDestructiveCommands\<close>) and the engine rules
  (\<open>gitWorkflowPermissionRules\<close>).
\<close>

section \<open>Removing markers\<close>

definition DESTRUCTIVE_MARKER :: string where
  "DESTRUCTIVE_MARKER = ''DESTRUCTIVE_COMMAND=1''"

definition LEGACY_DESTRUCTIVE_MARKER :: string where
  "LEGACY_DESTRUCTIVE_MARKER = ''OMNIRUSH_DESTRUCTIVE=1''"

text \<open>One match of \<open>(?:MARKER|LEGACY)\s+\<close> at the head of the text: the text after it.\<close>

definition MARKERS :: "string list" where
  "MARKERS = [DESTRUCTIVE_MARKER, LEGACY_DESTRUCTIVE_MARKER]"

definition marker_prefix :: "string \<Rightarrow> string \<Rightarrow> bool" where
  "marker_prefix m s =
     (starts_with m s \<and> (case drop (length m) s of [] \<Rightarrow> False | c # _ \<Rightarrow> js_space c))"

definition marker_at :: "string \<Rightarrow> string option" where
  "marker_at s =
     map_option (\<lambda>m. dropWhile js_space (drop (length m) s)) (find (\<lambda>m. marker_prefix m s) MARKERS)"

lemma marker_prefix_iff: "marker_prefix m s \<longleftrightarrow> (\<exists>d b. s = m @ d # b \<and> js_space d)"
  by (auto simp: marker_prefix_def starts_with_iff split: list.splits)

lemma markers_no_space: "m \<in> set MARKERS \<Longrightarrow> m \<noteq> [] \<and> list_all (\<lambda>c. \<not> js_space c) m"
proof -
  have "list_all (\<lambda>m. m \<noteq> [] \<and> list_all (\<lambda>c. \<not> js_space c) m) MARKERS" by code_simp
  then show "m \<in> set MARKERS \<Longrightarrow> ?thesis" by (auto simp: list_all_iff)
qed

lemma marker_at_None_iff: "marker_at s = None \<longleftrightarrow> (\<forall>m \<in> set MARKERS. \<not> marker_prefix m s)"
  by (auto simp: marker_at_def find_None_iff)

lemma marker_at_length:
  assumes "marker_at s = Some r"
  shows "length r < length s"
proof -
  obtain m where m: "m \<in> set MARKERS" "marker_prefix m s" "r = dropWhile js_space (drop (length m) s)"
    using assms by (auto simp: marker_at_def find_Some_iff dest: nth_mem)
  have "length r \<le> length (drop (length m) s)" unfolding m(3) by (rule length_dropWhile_le)
  moreover have "0 < length m" using markers_no_space [OF m(1)] by simp
  moreover have "length m \<le> length s" using m(2) by (auto simp: marker_prefix_iff)
  ultimately show ?thesis by (metis diff_less le_less_trans length_drop order_less_le_trans)
qed

text \<open>The global replacement; \<open>fresh\<close> holds at the start of the line and after white space (\<open>^\<close> or the lookbehind).\<close>

function strip_markers :: "bool \<Rightarrow> string \<Rightarrow> string" where
  "strip_markers fresh [] = []"
| "strip_markers fresh (c # rest) =
     (case (if fresh then marker_at (c # rest) else None) of
        Some after \<Rightarrow> strip_markers True after
      | None \<Rightarrow> c # strip_markers (js_space c) rest)"
  by pat_completeness auto
termination
  by (relation "measure (\<lambda>(b, s). length s)") (auto dest!: marker_at_length split: if_splits)

declare strip_markers.simps(2) [simp del]

definition stripDestructiveMarkers :: "string \<Rightarrow> string" where
  "stripDestructiveMarkers command = strip_markers True command"

lemma strip_markers_word:
  "list_all (\<lambda>c. \<not> js_space c) m \<Longrightarrow> js_space d \<Longrightarrow> strip_markers False s = m @ d # b \<Longrightarrow>
     \<exists>d' b'. s = m @ d' # b' \<and> js_space d'"
proof (induction m arbitrary: s)
  case Nil
  then show ?case by (cases s) (auto simp: strip_markers.simps(2))
next
  case (Cons c m)
  obtain rest where s: "s = c # rest" "strip_markers (js_space c) rest = m @ d # b"
    using Cons.prems(3) by (cases s) (auto simp: strip_markers.simps(2))
  then have "strip_markers False rest = m @ d # b" using Cons.prems(1) by simp
  then show ?case using Cons s by auto
qed

lemma strip_markers_clean:
  "strip_markers fresh s = a @ m @ d # b \<Longrightarrow> m \<in> set MARKERS \<Longrightarrow> js_space d \<Longrightarrow>
     (a = [] \<longrightarrow> \<not> fresh) \<and> (a \<noteq> [] \<longrightarrow> \<not> js_space (last a))"
proof (induction fresh s arbitrary: a rule: strip_markers.induct)
  case (1 fresh)
  then show ?case using markers_no_space [of m] by simp
next
  case (2 fresh c rest)
  show ?case
  proof (cases "if fresh then marker_at (c # rest) else None")
    case (Some r)
    then have "strip_markers True r = a @ m @ d # b" using "2.prems"(1) by (simp add: strip_markers.simps(2))
    then show ?thesis using "2.IH"(2) [OF Some _ "2.prems"(2,3)] by blast
  next
    case None
    then have eq: "c # strip_markers (js_space c) rest = a @ m @ d # b"
      using "2.prems"(1) by (simp add: strip_markers.simps(2))
    show ?thesis
    proof (cases a)
      case Nil
      obtain m' where m: "m = c # m'" using eq Nil markers_no_space [OF "2.prems"(2)] by (cases m) auto
      have "\<not> js_space c" "list_all (\<lambda>c. \<not> js_space c) m'" using markers_no_space [OF "2.prems"(2)] m by auto
      then obtain d' b' where "rest = m' @ d' # b'" "js_space d'"
        using strip_markers_word [of m' d rest b] eq Nil m "2.prems"(3) by auto
      then have "fresh \<Longrightarrow> False" using None m "2.prems"(2) by (auto simp: marker_at_None_iff marker_prefix_iff)
      then show ?thesis using Nil by blast
    next
      case (Cons e a')
      then have "strip_markers (js_space c) rest = a' @ m @ d # b" "e = c" using eq by auto
      then show ?thesis using "2.IH"(1) [OF None _ "2.prems"(2,3), of a'] Cons by auto
    qed
  qed
qed

lemma strip_markers_id:
  "(\<And>a m d b. s = a @ m @ d # b \<Longrightarrow> m \<in> set MARKERS \<Longrightarrow> js_space d \<Longrightarrow>
      (a = [] \<longrightarrow> \<not> fresh) \<and> (a \<noteq> [] \<longrightarrow> \<not> js_space (last a))) \<Longrightarrow> strip_markers fresh s = s"
proof (induction s arbitrary: fresh)
  case Nil
  then show ?case by simp
next
  case (Cons c rest)
  have "marker_at (c # rest) = None" if fresh
    using Cons.prems [of "[]"] that by (auto simp: marker_at_None_iff marker_prefix_iff)
  moreover have "strip_markers (js_space c) rest = rest"
  proof (rule Cons.IH)
    fix a m d b assume "rest = a @ m @ d # b" "m \<in> set MARKERS" "js_space d"
    then show "(a = [] \<longrightarrow> \<not> js_space c) \<and> (a \<noteq> [] \<longrightarrow> \<not> js_space (last a))"
      using Cons.prems [of "c # a" m d b] by (cases "a = []") auto
  qed
  ultimately show ?case by (auto simp: strip_markers.simps(2) split: option.splits)
qed

lemma strip_idempotent: "stripDestructiveMarkers (stripDestructiveMarkers s) = stripDestructiveMarkers s"
proof -
  have "strip_markers True (strip_markers True s) = strip_markers True s"
  proof (rule strip_markers_id)
    fix a m d b assume "strip_markers True s = a @ m @ d # b" "m \<in> set MARKERS" "js_space d"
    then show "(a = [] \<longrightarrow> \<not> True) \<and> (a \<noteq> [] \<longrightarrow> \<not> js_space (last a))"
      using strip_markers_clean [of True s a m d b] by blast
  qed
  then show ?thesis by (simp add: stripDestructiveMarkers_def)
qed

section \<open>Marking\<close>

text \<open>The loop of \<open>markDestructiveCommands\<close> over the offsets, the last one first.\<close>

definition insert_markers :: "nat list \<Rightarrow> string \<Rightarrow> string" where
  "insert_markers offsets s = fold (\<lambda>o' r. take o' r @ DESTRUCTIVE_MARKER @ '' '' @ drop o' r) offsets s"

definition descending_offsets :: "classified_command list \<Rightarrow> nat list" where
  "descending_offsets cs = rev (sort (remdups (map (\<lambda>c. seg_commandStart (segment c)) cs)))"

definition markDestructiveCommands :: "string \<Rightarrow> string \<times> classified_command list" where
  "markDestructiveCommands command =
     (let clean = stripDestructiveMarkers command;
          destructive = filter (\<lambda>c. kind c = DestructiveK) (classifyShellCommand clean)
      in if destructive = [] then (clean, destructive)
         else (insert_markers (descending_offsets destructive) clean, destructive))"

text \<open>The specification: one marker in front of every position of a set, in one pass.\<close>

fun mark_positions :: "nat set \<Rightarrow> nat \<Rightarrow> string \<Rightarrow> string" where
  "mark_positions S i [] = []"
| "mark_positions S i (c # s) = (if i \<in> S then DESTRUCTIVE_MARKER @ '' '' else []) @ c # mark_positions S (Suc i) s"

lemma mark_positions_none: "(\<And>p. p \<in> S \<Longrightarrow> p < i) \<Longrightarrow> mark_positions S i s = s"
proof (induction s arbitrary: i)
  case Nil
  then show ?case by simp
next
  case (Cons c s)
  have "i \<notin> S" using Cons.prems by blast
  then show ?case using Cons.IH [of "Suc i"] Cons.prems by (simp add: less_SucI)
qed

lemma mark_positions_insert:
  "i \<le> p \<Longrightarrow> p < i + length s \<Longrightarrow> (\<And>q. q \<in> S \<Longrightarrow> p < q) \<Longrightarrow>
     mark_positions (insert p S) i s
     = take (p - i) (mark_positions S i s) @ DESTRUCTIVE_MARKER @ '' '' @ drop (p - i) (mark_positions S i s)"
proof (induction s arbitrary: i)
  case Nil
  then show ?case by simp
next
  case (Cons c s)
  show ?case
  proof (cases "p = i")
    case True
    have "mark_positions (insert p S) (Suc i) s = mark_positions S (Suc i) s"
    proof -
      have "mark_positions (insert p S) j t = mark_positions S j t" if "p < j" for j t
        using that by (induction t arbitrary: j) auto
      then show ?thesis using True by simp
    qed
    moreover have "i \<notin> S" using Cons.prems(3) True by blast
    ultimately show ?thesis using True by simp
  next
    case False
    then have "i \<notin> S" "Suc i \<le> p" "p - i = Suc (p - Suc i)" using Cons.prems by (auto dest: Cons.prems(3))
    then show ?thesis using Cons.IH [of "Suc i"] Cons.prems False by simp
  qed
qed

lemma insert_markers_positions:
  "sorted_wrt (>) offsets \<Longrightarrow> (\<And>p. p \<in> set offsets \<Longrightarrow> p < length s) \<Longrightarrow>
     insert_markers offsets s = mark_positions (set offsets) 0 s"
proof (induction offsets rule: rev_induct)
  case Nil
  then show ?case using mark_positions_none [of "{}" 0 s] by (simp add: insert_markers_def)
next
  case (snoc p ps)
  have "insert_markers ps s = mark_positions (set ps) 0 s"
    using snoc by (simp add: sorted_wrt_append)
  moreover have "mark_positions (insert p (set ps)) 0 s
      = take p (mark_positions (set ps) 0 s) @ DESTRUCTIVE_MARKER @ '' '' @ drop p (mark_positions (set ps) 0 s)"
    using mark_positions_insert [of 0 p s "set ps"] snoc.prems by (simp add: sorted_wrt_append)
  ultimately show ?case by (simp add: insert_markers_def)
qed

lemma descending_offsets_sorted: "sorted_wrt (>) (descending_offsets cs)"
  by (simp add: descending_offsets_def sorted_wrt_rev strict_sorted_iff)

lemma set_descending_offsets: "set (descending_offsets cs) = (\<lambda>c. seg_commandStart (segment c)) ` set cs"
  by (simp add: descending_offsets_def)

lemma mark_as_positions:
  "markDestructiveCommands command =
     (let clean = stripDestructiveMarkers command;
          destructive = filter (\<lambda>c. kind c = DestructiveK) (classifyShellCommand clean)
      in (mark_positions ((\<lambda>c. seg_commandStart (segment c)) ` set destructive) 0 clean, destructive))"
proof -
  define clean where "clean = stripDestructiveMarkers command"
  define destructive where "destructive = filter (\<lambda>c. kind c = DestructiveK) (classifyShellCommand clean)"
  have "p < length clean" if p: "p \<in> set (descending_offsets destructive)" for p
  proof -
    obtain c where c: "c \<in> set (classifyShellCommand clean)" "p = seg_commandStart (segment c)"
      using p by (auto simp: set_descending_offsets destructive_def)
    then show ?thesis
      using splitShellCommand_in [OF classifyShellCommand_segment [OF c(1)]] by (simp add: segment_in_def)
  qed
  then have "insert_markers (descending_offsets destructive) clean
      = mark_positions (set (descending_offsets destructive)) 0 clean"
    by (intro insert_markers_positions descending_offsets_sorted)
  then have "(if destructive = [] then (clean, destructive)
         else (insert_markers (descending_offsets destructive) clean, destructive))
      = (mark_positions ((\<lambda>c. seg_commandStart (segment c)) ` set destructive) 0 clean, destructive)"
    using mark_positions_none [of "{}" 0 clean] by (simp add: set_descending_offsets)
  then show ?thesis
    unfolding markDestructiveCommands_def Let_def clean_def [symmetric] destructive_def [symmetric] .
qed

end
