(* ===== verification/PermissionRules.thy ===== *)
theory PermissionRules
  imports Prelude
begin

text \<open>
  \<open>apps/server/src/effective-permissions.ts\<close>: the engine's permission ruleset as
  the server reads it. A pattern is matched by \<open>matchesPermissionPattern\<close>, the
  last matching rule wins (\<open>winningRule\<close>), a configuration block is flattened
  into rules (\<open>rulesFromPermissionConfig\<close>) and a winning rule is attributed to
  the configuration layer that wrote it (\<open>attributeRule\<close>).

  \<open>process.platform\<close> and the home directory are arguments.
\<close>

datatype permission_action = AllowA | AskA | DenyA

record permission_rule =
  rule_permission :: string
  rule_pattern :: string
  rule_action :: permission_action

datatype permission_source = EngineSource | GlobalSource | OmnirushSource | WorkspaceSource

datatype permission_key = ShellKey | EditKey | WebKey | McpKey | OutsideFoldersKey | EnvFilesKey | DoomLoopKey

record permission_row =
  row_key :: permission_key
  row_permission :: string
  row_action :: permission_action
  row_rule :: "permission_rule option"
  row_source :: "permission_source option"
  row_exceptions :: nat

record permission_layers =
  layer_global :: json
  layer_omnirush :: json
  layer_workspace :: json

definition PROBES :: "(permission_key \<times> string \<times> string) list" where
  "PROBES = [(ShellKey, ''bash'', ''*''), (EditKey, ''edit'', ''*''), (WebKey, ''webfetch'', ''*''),
     (McpKey, ''omnirush_effective_mcp_probe'', ''*''), (OutsideFoldersKey, ''external_directory'', ''*''),
     (EnvFilesKey, ''read'', ''/workspace/.env''), (DoomLoopKey, ''doom_loop'', ''*'')]"

definition as_action :: "json \<Rightarrow> permission_action option" where
  "as_action v =
     (case v of JStr s \<Rightarrow>
        (if s = ''allow'' then Some AllowA else if s = ''ask'' then Some AskA else if s = ''deny'' then Some DenyA else None)
      | _ \<Rightarrow> None)"

section \<open>Patterns\<close>

text \<open>
  The regular expression the source builds: \<open>*\<close> is any run of characters, \<open>?\<close> one
  character, everything else itself; \<open>ci\<close> is the \<open>i\<close> flag of Windows.
\<close>

definition same_char :: "bool \<Rightarrow> char \<Rightarrow> char \<Rightarrow> bool" where
  "same_char ci c d = (if ci then lower_char c = lower_char d else c = d)"

fun wildcard :: "bool \<Rightarrow> string \<Rightarrow> string \<Rightarrow> bool" where
  "wildcard ci [] s = (s = [])"
| "wildcard ci (p # ps) [] = (p = CHR ''*'' \<and> wildcard ci ps [])"
| "wildcard ci (p # ps) (c # s) =
     (if p = CHR ''*'' then wildcard ci ps (c # s) \<or> wildcard ci (p # ps) s
      else (p = CHR ''?'' \<or> same_char ci p c) \<and> wildcard ci ps s)"

definition slashes :: "string \<Rightarrow> string" where
  "slashes s = replace_char CHR 0x5C CHR ''/'' s"

definition matchesPermissionPattern :: "bool \<Rightarrow> string \<Rightarrow> string \<Rightarrow> bool" where
  "matchesPermissionPattern win input pattern =
     (let p = slashes pattern; s = slashes input
      in wildcard win p s
         \<or> (ends_with '' *'' p \<and> wildcard win (take (length p - 2) p) s))"

definition rule_applies :: "bool \<Rightarrow> permission_rule \<Rightarrow> string \<times> string \<Rightarrow> bool" where
  "rule_applies win rule q =
     (matchesPermissionPattern win (fst q) (rule_permission rule) \<and> matchesPermissionPattern win (snd q) (rule_pattern rule))"

definition winningRule :: "bool \<Rightarrow> permission_rule list \<Rightarrow> string \<times> string \<Rightarrow> permission_rule option" where
  "winningRule win rules q = fold (\<lambda>rule winner. if rule_applies win rule q then Some rule else winner) rules None"

interpretation wr: last_match "rule_applies win" "winningRule win"
  by unfold_locales (simp_all add: winningRule_def)

text \<open>The engine's answer: the winning rule's action, or ask.\<close>

definition decided_action :: "permission_rule option \<Rightarrow> permission_action" where
  "decided_action rule = (case rule of None \<Rightarrow> AskA | Some r \<Rightarrow> rule_action r)"

section \<open>Configuration blocks\<close>

definition expandPattern :: "string \<Rightarrow> string \<Rightarrow> string" where
  "expandPattern home pattern =
     (if starts_with ''~/'' pattern then home @ tl pattern
      else if pattern = ''~'' then home
      else if starts_with ''$HOME'' pattern then home @ drop 5 pattern
      else pattern)"

definition entry_rules :: "string \<Rightarrow> string \<Rightarrow> json \<Rightarrow> permission_rule list" where
  "entry_rules home permission entry =
     (case as_action entry of
        Some a \<Rightarrow> [\<lparr>rule_permission = permission, rule_pattern = ''*'', rule_action = a\<rparr>]
      | None \<Rightarrow>
          (case entry of
             JObj entries \<Rightarrow>
               List.map_filter (\<lambda>(pattern, v). map_option (\<lambda>a. \<lparr>rule_permission = permission,
                   rule_pattern = expandPattern home pattern, rule_action = a\<rparr>) (as_action v)) entries
           | _ \<Rightarrow> []))"

definition rulesFromPermissionConfig :: "string \<Rightarrow> json \<Rightarrow> permission_rule list" where
  "rulesFromPermissionConfig home value =
     (case as_action value of
        Some a \<Rightarrow> entry_rules home ''*'' value
      | None \<Rightarrow>
          (case value of
             JObj entries \<Rightarrow> concat (map (\<lambda>(permission, entry). entry_rules home permission entry) entries)
           | _ \<Rightarrow> []))"

definition layerContains :: "permission_rule list \<Rightarrow> permission_rule \<Rightarrow> bool" where
  "layerContains layerRules rule =
     list_ex (\<lambda>c. rule_permission c = rule_permission rule \<and> rule_pattern c = rule_pattern rule
        \<and> rule_action c = rule_action rule) layerRules"

definition attributeRule :: "string \<Rightarrow> permission_layers \<Rightarrow> permission_rule \<Rightarrow> permission_source" where
  "attributeRule home layers rule =
     (case find (\<lambda>(source, block). layerContains (rulesFromPermissionConfig home block) rule)
         [(WorkspaceSource, layer_workspace layers), (OmnirushSource, layer_omnirush layers), (GlobalSource, layer_global layers)] of
        Some (source, _) \<Rightarrow> source
      | None \<Rightarrow> EngineSource)"

definition summarizeEffectivePermissions ::
    "bool \<Rightarrow> string \<Rightarrow> permission_rule list \<Rightarrow> permission_layers \<Rightarrow> permission_row list" where
  "summarizeEffectivePermissions win home rules layers =
     map (\<lambda>(key, permission, pattern).
        (let rule = winningRule win rules (permission, pattern);
             exceptions = filter (\<lambda>c. rule_permission c = permission \<and> rule_pattern c \<noteq> ''*''
                 \<and> \<not> (case rule of None \<Rightarrow> False | Some r \<Rightarrow> rule_permission c = rule_permission r
                        \<and> rule_pattern c = rule_pattern r \<and> rule_action c = rule_action r)) rules
         in \<lparr>row_key = key, row_permission = permission, row_action = decided_action rule, row_rule = rule,
             row_source = map_option (attributeRule home layers) rule, row_exceptions = length exceptions\<rparr>)) PROBES"

definition selectGoverningAgent :: "('a \<Rightarrow> string) \<Rightarrow> 'a list \<Rightarrow> string option \<Rightarrow> 'a option" where
  "selectGoverningAgent name agents defaultAgent =
     (case find (\<lambda>a. Some (name a) = defaultAgent) agents of
        Some a \<Rightarrow> Some a
      | None \<Rightarrow>
          (case find (\<lambda>a. name a = ''omnirush'') agents of
             Some a \<Rightarrow> Some a
           | None \<Rightarrow> find (\<lambda>a. name a = ''build'') agents))"

section \<open>Patterns as languages\<close>

text \<open>What a pattern means: the set of texts it matches.\<close>

fun pattern_texts :: "bool \<Rightarrow> string \<Rightarrow> string set" where
  "pattern_texts ci [] = {[]}"
| "pattern_texts ci (p # ps) =
     (if p = CHR ''*'' then {u @ s | u s. s \<in> pattern_texts ci ps}
      else {c # s | c s. (p = CHR ''?'' \<or> same_char ci p c) \<and> s \<in> pattern_texts ci ps})"

lemma star_texts: "c # s \<in> pattern_texts ci (CHR ''*'' # ps) \<longleftrightarrow>
    c # s \<in> pattern_texts ci ps \<or> s \<in> pattern_texts ci (CHR ''*'' # ps)"
proof
  assume "c # s \<in> pattern_texts ci (CHR ''*'' # ps)"
  then obtain u t where ut: "c # s = u @ t" "t \<in> pattern_texts ci ps" by auto
  then show "c # s \<in> pattern_texts ci ps \<or> s \<in> pattern_texts ci (CHR ''*'' # ps)" by (cases u) auto
next
  assume "c # s \<in> pattern_texts ci ps \<or> s \<in> pattern_texts ci (CHR ''*'' # ps)"
  then obtain u t where "c # s = u @ t" "t \<in> pattern_texts ci ps"
    by (auto intro: that [of "[]"]) (metis append_Cons that)
  then show "c # s \<in> pattern_texts ci (CHR ''*'' # ps)" by auto
qed

lemma wildcard_texts: "wildcard ci p s \<longleftrightarrow> s \<in> pattern_texts ci p"
proof (induction ci p s rule: wildcard.induct)
  case (3 ci p ps c s)
  show ?case
  proof (cases "p = CHR ''*''")
    case True
    then show ?thesis using 3(1,2) star_texts [of c s ci ps] by simp
  next
    case False
    then show ?thesis using 3(3) by auto
  qed
qed auto

lemma wildcard_literal:
  "CHR ''*'' \<notin> set u \<Longrightarrow> CHR ''?'' \<notin> set u \<Longrightarrow> wildcard ci (u @ ps) (u @ s) = wildcard ci ps s"
  by (induction u) (auto simp: same_char_def)

lemma wildcard_star: "wildcard ci ''*'' s"
  by (induction s) simp_all

section \<open>Properties\<close>

text \<open>A permission pattern means a set of texts: a pattern matches exactly the texts of its
  language (backslashes read as slashes), and one that ends with a blank and a
  star also matches what it matches without them.\<close>

theorem pattern_language:
  "matchesPermissionPattern win input pattern \<longleftrightarrow>
     slashes input \<in> pattern_texts win (slashes pattern) \<union>
       {s. \<exists>p. slashes pattern = p @ '' *'' \<and> s \<in> pattern_texts win p}"
  by (auto simp: matchesPermissionPattern_def Let_def wildcard_texts ends_with_iff)

text \<open>The winning rule is the last one that applies, and rules added behind a ruleset override
  it exactly on the questions one of them applies to: the layers of the
  configuration are merged by appending them.\<close>

theorem winning_rule_last_match:
  "(winningRule win rules q = Some r \<longleftrightarrow>
     (\<exists>as bs. rules = as @ r # bs \<and> rule_applies win r q \<and> \<not> list_ex (\<lambda>b. rule_applies win b q) bs)) \<and>
   winningRule win (rules @ layer) q =
     (if list_ex (\<lambda>b. rule_applies win b q) layer then winningRule win layer q else winningRule win rules q)"
proof -
  have "(\<forall>b \<in> set bs. \<not> rule_applies win b q) \<longleftrightarrow> \<not> list_ex (\<lambda>b. rule_applies win b q) bs" for bs
    by (simp add: list_ex_iff)
  then have "winningRule win rules q = Some r \<longleftrightarrow>
      (\<exists>as bs. rules = as @ r # bs \<and> rule_applies win r q \<and> \<not> list_ex (\<lambda>b. rule_applies win b q) bs)"
    by (simp only: wr.winner_Some_iff)
  moreover have "winningRule win (rules @ layer) q =
      (if list_ex (\<lambda>b. rule_applies win b q) layer then winningRule win layer q else winningRule win rules q)"
  proof (cases "winningRule win layer q")
    case None
    then show ?thesis by (simp add: wr.winner_append) (simp add: wr.winner_None_iff list_ex_iff)
  next
    case (Some x)
    then have "list_ex (\<lambda>b. rule_applies win b q) layer"
      by (auto simp: wr.winner_Some_iff)
    then show ?thesis using Some by (simp add: wr.winner_append)
  qed
  ultimately show ?thesis by blast
qed

lemma layerContains_mem: "layerContains rs r \<longleftrightarrow> r \<in> set rs"
  by (auto simp: layerContains_def list_ex_iff intro: permission_rule.equality)
    (metis (full_types) old.unit.exhaust permission_rule.equality)

text \<open>A rule is attributed to the last layer of the merge order that wrote it: to the workspace
  if its block has the rule, else to the injected block, else to the global file,
  and to the engine only when no block has it.\<close>

theorem attribution_latest_layer:
  "attributeRule home layers r =
     (if r \<in> set (rulesFromPermissionConfig home (layer_workspace layers)) then WorkspaceSource
      else if r \<in> set (rulesFromPermissionConfig home (layer_omnirush layers)) then OmnirushSource
      else if r \<in> set (rulesFromPermissionConfig home (layer_global layers)) then GlobalSource
      else EngineSource)"
  by (simp add: attributeRule_def layerContains_mem)

end
