(* ===== verification/GitRules.thy ===== *)
theory GitRules
  imports DestructiveMarker PermissionRules
begin

text \<open>
  The engine rules of \<open>apps/server/src/git-command-policy.ts\<close>
  (\<open>gitWorkflowPermissionRules\<close>) under the ruleset semantics of
  \<open>effective-permissions.ts\<close>, and the properties of the command policy as a
  whole: where segments stand, how a line splits at a control operator, which
  commands are destructive whatever surrounds them, and what the marker does.
\<close>

section \<open>The rules\<close>

definition READ_ONLY_GIT_PATTERNS :: "string list" where
  "READ_ONLY_GIT_PATTERNS = [
     ''git status *'', ''git log *'', ''git diff *'', ''git show *'', ''git fetch *'', ''git remote'',
     ''git remote -v'', ''git remote --verbose'', ''git remote show *'', ''git remote get-url *'',
     ''git worktree list *'', ''git branch'', ''git branch --list *'', ''git branch -l *'', ''git branch -a'',
     ''git branch --all'', ''git branch -r'', ''git branch --remotes'', ''git branch -v'', ''git branch -vv'',
     ''git branch --verbose'', ''git branch -av'', ''git branch -avv'', ''git branch -ra'', ''git branch -rv'',
     ''git branch --show-current'', ''git branch --merged *'', ''git branch --no-merged *'',
     ''git branch --contains *'', ''git branch --points-at *'', ''git tag'', ''git tag -l *'', ''git tag --list *'',
     ''git tag -n*'', ''git tag --contains *'', ''git tag --points-at *'', ''git stash list *'', ''git stash show *'',
     ''git config --get *'', ''git config --get-all *'', ''git config --get-regexp *'', ''git config --list *'',
     ''git config -l *'', ''git config --show-origin *'', ''git config user.name'', ''git config user.email'',
     ''git config --local user.name'', ''git config --local user.email'', ''git rev-parse *'', ''git rev-list *'',
     ''git ls-files *'', ''git ls-tree *'', ''git ls-remote *'', ''git cat-file *'', ''git describe *'',
     ''git blame *'', ''git shortlog *'', ''git grep *'', ''git count-objects *'', ''git check-ignore *'',
     ''git name-rev *'', ''git merge-base *'', ''git for-each-ref *'', ''git reflog'', ''git reflog show *'',
     ''git show-ref *'', ''git version'', ''git --version'', ''git help *'', ''git --help'', ''git diff-tree *'',
     ''git whatchanged *'', ''git cherry *'', ''git range-diff *'', ''git var *'', ''git submodule status *'',
     ''git submodule summary *'', ''git lfs ls-files *'', ''git lfs status *'', ''git lfs env'', ''git notes list *'',
     ''git notes show *'', ''git sparse-checkout list'', ''git clean -n *'', ''git clean --dry-run *'']"

definition READ_ONLY_GH_PATTERNS :: "string list" where
  "READ_ONLY_GH_PATTERNS = [
     ''gh pr list *'', ''gh pr view *'', ''gh pr status *'', ''gh pr checks *'', ''gh pr diff *'', ''gh issue list *'',
     ''gh issue view *'', ''gh issue status *'', ''gh repo view *'', ''gh repo list *'', ''gh run list *'',
     ''gh run view *'', ''gh run watch *'', ''gh workflow list *'', ''gh workflow view *'', ''gh release list *'',
     ''gh release view *'', ''gh auth status *'', ''gh search *'', ''gh label list *'', ''gh gist list *'',
     ''gh gist view *'', ''gh config get *'', ''gh config list *'', ''gh alias list *'', ''gh extension list *'',
     ''gh ssh-key list *'', ''gh cache list *'', ''gh status *'', ''gh version'', ''gh --version'', ''gh help *'',
     ''gh --help'']"

definition SHELL_PATH_PREFIXES :: "string list" where
  "SHELL_PATH_PREFIXES = [[], ''/bin/'', ''/usr/bin/'', ''/usr/local/bin/'', ''/opt/homebrew/bin/'']"

definition INTERPRETER_PATTERNS :: "string list" where
  "INTERPRETER_PATTERNS =
     concat (map (\<lambda>prefix. map (\<lambda>shell. prefix @ shell @ '' -*c *'') [''bash'', ''sh'', ''zsh'', ''dash'', ''ksh''])
       SHELL_PATH_PREFIXES)
     @ [''eval *'', ''env -S *'', ''env --split-string*'', ''su *'']"

definition DESTRUCTIVE_PATTERNS :: "string list" where
  "DESTRUCTIVE_PATTERNS = [
     ''git push --force*'', ''git push -f*'', ''git push * --force*'', ''git push * -f*'', ''git push --delete *'',
     ''git push -d *'', ''git push * --delete *'', ''git push * :*'', ''git push --mirror*'', ''git push * --mirror*'',
     ''git push --prune*'', ''git push * --prune*'', ''git reset --hard*'', ''git reset * --hard*'', ''git clean -*f*'',
     ''git clean --force*'', ''git clean * --force*'', ''git branch -D *'', ''git branch * -D*'',
     ''git branch --delete --force *'', ''git branch --force --delete *'', ''git rebase -i*'',
     ''git rebase --interactive*'', ''git rebase * -i*'', ''git rebase * --interactive*'', ''git filter-branch*'',
     ''git filter-repo*'', ''git stash drop*'', ''git stash clear*'', ''git reflog expire*'', ''git reflog delete*'',
     ''git worktree remove --force*'', ''git worktree remove -f *'', ''git worktree remove * --force*'',
     ''git worktree remove * -f*'', ''git update-ref -d *'', ''gh repo delete *'', ''rm -rf *'', ''rm -fr *'',
     ''rm -Rf *'', ''rm -fR *'', ''rm -r -f *'', ''rm -f -r *'', ''rm -R -f *'', ''rm -f -R *'',
     ''rm --recursive --force *'', ''rm --force --recursive *'', ''rm -r --force *'', ''rm -f --recursive *'']"

text \<open>The entries in the order the source assigns them; a key assigned again keeps its place.\<close>

definition workflow_entries :: "(string \<times> permission_action) list" where
  "workflow_entries =
     concat (map (\<lambda>pattern. [(pattern, AllowA), (''git --no-pager '' @ drop 4 pattern, AllowA),
        (''git -P '' @ drop 4 pattern, AllowA)]) READ_ONLY_GIT_PATTERNS)
     @ map (\<lambda>pattern. (pattern, AllowA)) READ_ONLY_GH_PATTERNS
     @ map (\<lambda>pattern. (pattern, AskA)) INTERPRETER_PATTERNS
     @ map (\<lambda>pattern. (pattern, AskA)) DESTRUCTIVE_PATTERNS"

definition gitWorkflowPermissionRules :: "(string, permission_action) jsmap" where
  "gitWorkflowPermissionRules =
     jm_set (DESTRUCTIVE_MARKER @ '' *'') AskA
       (fold (\<lambda>(k, v) m. jm_set k v m) workflow_entries [(''git *'', AskA), (''gh *'', AskA), (''sudo *'', AskA)])"

text \<open>The rules as the engine reads them: entries of the \<open>bash\<close> permission, in the order of the record.\<close>

definition bash_rules :: "(string, permission_action) jsmap \<Rightarrow> permission_rule list" where
  "bash_rules m = map (\<lambda>(p, a). \<lparr>rule_permission = ''bash'', rule_pattern = p, rule_action = a\<rparr>) m"

lemma fold_jm_set_keys:
  "fst ` set (fold (\<lambda>(k, v) m. jm_set k v m) xs m) \<subseteq> fst ` set xs \<union> fst ` set m"
proof (induction xs arbitrary: m)
  case Nil
  then show ?case by simp
next
  case (Cons e xs)
  obtain k v where e: "e = (k, v)" by (cases e)
  show ?case using Cons [of "jm_set k v m"] jm_keys_set [of k v m] e by auto
qed

lemma marker_rule_last: "\<exists>m. gitWorkflowPermissionRules = m @ [(DESTRUCTIVE_MARKER @ '' *'', AskA)]"
proof -
  define m where "m = fold (\<lambda>(k, v) m. jm_set k v m) workflow_entries [(''git *'', AskA), (''gh *'', AskA), (''sudo *'', AskA)]"
  have "list_all (\<lambda>e. hd (fst e) \<noteq> CHR ''D'') workflow_entries" by code_simp
  then have "hd k \<noteq> CHR ''D''" if "k \<in> fst ` set m" for k
    using that fold_jm_set_keys [of workflow_entries "[(''git *'', AskA), (''gh *'', AskA), (''sudo *'', AskA)]"]
    by (fastforce simp: m_def list_all_iff)
  moreover have "hd (DESTRUCTIVE_MARKER @ '' *'') = CHR ''D''" by (simp add: DESTRUCTIVE_MARKER_def)
  ultimately have "jm_get (DESTRUCTIVE_MARKER @ '' *'') m = None" by (auto simp: jm_get_None_iff)
  then show ?thesis
    unfolding gitWorkflowPermissionRules_def m_def [symmetric] by (auto simp: jm_set_fresh)
qed

lemma marker_pattern_matches: "matchesPermissionPattern win (DESTRUCTIVE_MARKER @ '' '' @ command) (DESTRUCTIVE_MARKER @ '' *'')"
proof -
  have lit: "CHR ''*'' \<notin> set (DESTRUCTIVE_MARKER @ '' '')" "CHR ''?'' \<notin> set (DESTRUCTIVE_MARKER @ '' '')"
      "slashes (DESTRUCTIVE_MARKER @ '' '') = DESTRUCTIVE_MARKER @ '' ''"
      "slashes (DESTRUCTIVE_MARKER @ '' *'') = (DESTRUCTIVE_MARKER @ '' '') @ ''*''"
    by (code_simp)+
  have "slashes (DESTRUCTIVE_MARKER @ '' '' @ command) = (DESTRUCTIVE_MARKER @ '' '') @ slashes command"
    using lit(3) by (simp add: slashes_def replace_char_def)
  then have "wildcard win (slashes (DESTRUCTIVE_MARKER @ '' *'')) (slashes (DESTRUCTIVE_MARKER @ '' '' @ command))"
    unfolding lit(4) by (simp only: wildcard_literal [OF lit(1,2)] wildcard_star)
  then show ?thesis by (simp add: matchesPermissionPattern_def Let_def)
qed

section \<open>Properties of the command policy\<close>


lemma split_example:
  "splitShellCommand ('' ls'' @ '';'' @ '' time -p rm y'') 7 =
     [\<lparr>seg_text = '' ls'', seg_start = 8, seg_commandStart = 8, seg_tokens = [''ls'']\<rparr>,
      \<lparr>seg_text = '' time -p rm y'', seg_start = 12, seg_commandStart = 20, seg_tokens = [''rm'', ''y'']\<rparr>]"
proof -
  have "list_all plain_char '' ls''" "list_all plain_char '' time -p rm y''" "'';'' \<in> set CONTROL_OPERATORS"
    "starts_command '' time -p rm y''" by (code_simp)+
  then have "splitShellCommand ('' ls'' @ '';'' @ '' time -p rm y'') 7 = flush_segment 7 0 '' ls'' @ flush_segment 11 0 '' time -p rm y''"
    by (simp add: split_at_operator split_plain del: append.simps)
  also have "\<dots> = [\<lparr>seg_text = '' ls'', seg_start = 8, seg_commandStart = 8, seg_tokens = [''ls'']\<rparr>,
      \<lparr>seg_text = '' time -p rm y'', seg_start = 12, seg_commandStart = 20, seg_tokens = [''rm'', ''y'']\<rparr>]" by code_simp
  finally show ?thesis .
qed


text \<open>A control operator really separates commands: behind a plain first command and any of
  \<open>&&\<close>, \<open>||\<close>, \<open>;\<close>, \<open>|\<close> or a newline, the rest of the line (whatever it contains) is
  classified exactly as it would be alone, with its positions moved. A command
  cannot be hidden by what stands in front of it.\<close>

theorem classify_at_control_operator:
  assumes "list_all plain_char w" and "x \<in> set CONTROL_OPERATORS" and "starts_command b"
  shows "classifyShellCommand (w @ x @ b)
    = classifyShellCommand w @ map (shift_command (length w + length x)) (classifyShellCommand b)"
  by (rule classify_at_operator [OF assms])

theorem classify_at_control_operator_witness:
  "classifyShellCommand (''ls -a '' @ ''&&'' @ '' git push -f'')
    = classifyShellCommand ''ls -a '' @ map (shift_command (length ''ls -a '' + length ''&&'')) (classifyShellCommand '' git push -f'')"
proof -
  have "list_all plain_char ''ls -a ''" "''&&'' \<in> set CONTROL_OPERATORS" "starts_command '' git push -f''"
    by (code_simp)+
  then show ?thesis by (rule classify_at_control_operator)
qed



text \<open>C2. Interpreters are followed: a shell run with \<open>-c\<close>, behind any assignments and wrappers,
  is destructive as soon as one command of its script is, and the classified
  command is attached to the interpreter's segment, where the marker belongs.\<close>

theorem shell_script_destructive:
  assumes "sh \<in> set SHELLS" and "depth < MAX_INTERPRETER_DEPTH"
    and "\<not> starts_with ''-'' script" and "\<not> starts_with ''+'' script"
    and "list_all is_assignment as" and "set ws \<subseteq> set PLAIN_WRAPPERS" and "length ws \<le> 16"
    and "entry \<in> set (splitShellCommand script 0)"
    and "c \<in> set (classifyTokens (seg_tokens entry) seg (Suc depth))" and "kind c = DestructiveK"
  shows "\<exists>c' \<in> set (classifyTokens (as @ ws @ [sh, ''-c'', script]) seg depth). kind c' = DestructiveK \<and> segment c' = seg"
proof -
  have "c \<in> set (concat (map (\<lambda>entry. classifyTokens (seg_tokens entry) seg (Suc depth)) (splitShellCommand script 0)))"
    using assms(8,9) by auto
  then show ?thesis
    using inner_commands_destructive [OF _ assms(10)] classify_shell_script [OF assms(1-7), of seg]
      classifyTokens_segment [of _ "as @ ws @ [sh, ''-c'', script]" seg depth]
    by (metis (no_types, lifting))
qed

theorem shell_script_destructive_witness:
  "\<forall>seg. \<exists>c' \<in> set (classifyTokens ([] @ [''sudo''] @ [''bash'', ''-c'', ''git push -f'']) seg 0). kind c' = DestructiveK \<and> segment c' = seg"
proof
  fix seg
  obtain c where c: "classifyTokens ([] @ [] @ ''git'' # concat (map (\<lambda>d. [''-C'', d]) []) @ ''push'' # [''-f'']) seg (Suc 0) = [c]"
      "kind c = DestructiveK"
    using classify_git_command [of "[]" "[]" "''push''" "[]" "[''-f'']" seg "Suc 0"]
      destructive_shape_classified [OF push_flag [of "''-f''" "[''-f'']"]] by (auto simp: dashed_def)
  have split: "splitShellCommand ''git push -f'' 0
      = [\<lparr>seg_text = ''git push -f'', seg_start = 0, seg_commandStart = 0, seg_tokens = [''git'', ''push'', ''-f'']\<rparr>]"
  proof -
    have "list_all plain_char ''git push -f''" by code_simp
    then show ?thesis unfolding split_plain [OF \<open>list_all plain_char ''git push -f''\<close>] by code_simp
  qed
  show "\<exists>c' \<in> set (classifyTokens ([] @ [''sudo''] @ [''bash'', ''-c'', ''git push -f'']) seg 0). kind c' = DestructiveK \<and> segment c' = seg"
    by (rule shell_script_destructive [where c = c and entry = "hd (splitShellCommand ''git push -f'' 0)"])
      (use c in \<open>simp_all add: split SHELLS_def MAX_INTERPRETER_DEPTH_def PLAIN_WRAPPERS_def\<close>)
qed



text \<open>\<open>markDestructiveCommands\<close> inserts, into the line with its old markers removed, exactly
  one marker in front of every destructive command and nothing else: inserting
  from the last offset to the first is the one-pass insertion at the set of
  command starts.\<close>

theorem mark_is_one_pass_insertion:
  "markDestructiveCommands command =
     (let clean = stripDestructiveMarkers command;
          destructive = filter (\<lambda>c. kind c = DestructiveK) (classifyShellCommand clean)
      in (mark_positions ((\<lambda>c. seg_commandStart (segment c)) ` set destructive) 0 clean, destructive))"
  by (rule mark_as_positions)

text \<open>The command line that is classified carries no marker of its own: after
  \<open>stripDestructiveMarkers\<close> no marker followed by white space stands at the start of the line
  or after white space.\<close>

theorem stripped_line_has_no_marker:
  assumes "stripDestructiveMarkers command = a @ m @ d # b" and "m \<in> set MARKERS" and "js_space d"
  shows "a \<noteq> [] \<and> \<not> js_space (last a)"
  using strip_markers_clean [of True command a m d b] assms by (auto simp: stripDestructiveMarkers_def)

theorem stripped_line_has_no_marker_witness:
  "''x;'' \<noteq> [] \<and> \<not> js_space (last ''x;'')"
proof (rule stripped_line_has_no_marker)
  have "stripDestructiveMarkers ''DESTRUCTIVE_COMMAND=1 x;DESTRUCTIVE_COMMAND=1 rm'' = ''x;DESTRUCTIVE_COMMAND=1 rm''" by code_simp
  then show "stripDestructiveMarkers ''DESTRUCTIVE_COMMAND=1 x;DESTRUCTIVE_COMMAND=1 rm'' = ''x;'' @ DESTRUCTIVE_MARKER @ CHR '' '' # ''rm''"
    by (simp add: DESTRUCTIVE_MARKER_def)
qed (simp_all add: MARKERS_def js_space_def)

text \<open>C24. A marked command always asks: whatever rules the engine and the user's configuration put
  before the workflow rules (an \<open>allow\<close> of everything included), the winning rule
  for a command that starts with the marker is the marker rule.\<close>

theorem marked_command_always_asks:
  "decided_action (winningRule win (before @ bash_rules gitWorkflowPermissionRules)
      (''bash'', DESTRUCTIVE_MARKER @ '' '' @ command)) = AskA"
proof -
  obtain m where m: "gitWorkflowPermissionRules = m @ [(DESTRUCTIVE_MARKER @ '' *'', AskA)]"
    using marker_rule_last by blast
  let ?r = "\<lparr>rule_permission = ''bash'', rule_pattern = DESTRUCTIVE_MARKER @ '' *'', rule_action = AskA\<rparr>"
  have bash: "matchesPermissionPattern win ''bash'' ''bash''"
    by (simp add: matchesPermissionPattern_def same_char_def slashes_def replace_char_def)
  have applies: "rule_applies win ?r (''bash'', DESTRUCTIVE_MARKER @ '' '' @ command)"
    unfolding rule_applies_def fst_conv snd_conv permission_rule.simps using bash marker_pattern_matches by blast
  have rules: "before @ bash_rules gitWorkflowPermissionRules = (before @ bash_rules m) @ [?r]"
    by (simp add: m bash_rules_def)
  show ?thesis unfolding rules wr.winner_snoc using applies by (simp add: decided_action_def)
qed

text \<open>Text in double quotes without \<open>$\<close> and without escapes is data to the classifier: the
  line is one segment, whatever the quotes hold. This is so for a backtick too,
  although the shell runs a backtick substitution inside double quotes; so a
  destructive command written that way yields no destructive entry.\<close>

theorem double_quoted_text_is_data:
  assumes "list_all plain_char w" and "list_all quoted_char s"
  shows "splitShellCommand (w @ [CHR 0x22] @ s @ [CHR 0x22]) offset = flush_segment offset 0 (w @ [CHR 0x22] @ s @ [CHR 0x22])"
  by (rule split_double_quoted [OF assms])

theorem double_quoted_text_is_data_witness:
  "map seg_tokens (splitShellCommand (''echo '' @ [CHR 0x22] @ (CHR 0x60 # ''git push -f'' @ [CHR 0x60]) @ [CHR 0x22]) 0)
     = [[''echo'', CHR 0x60 # ''git push -f'' @ [CHR 0x60]]]"
proof -
  have data: "list_all plain_char ''echo ''" "list_all quoted_char (CHR 0x60 # ''git push -f'' @ [CHR 0x60])" by (code_simp)+
  show ?thesis unfolding double_quoted_text_is_data [OF data] by code_simp
qed

end
