(* ===== verification/ThreadApprovals.thy ===== *)
theory ThreadApprovals
  imports PermissionRules
begin

text \<open>
  \<open>apps/server/src/thread-approvals.ts\<close>: the memory of what a user approved on a
  thread, and the replayer that answers repeat asks.

  The per-workspace key-value store is a map from workspace ids to the parsed
  value (its SQL is not modelled); \<open>JSON.parse\<close>, \<open>workspaceIdForDirectory\<close> and
  the platform are arguments. The replayer handles one frame at a time, so its
  behaviour is a sequence of steps; \<open>replies\<close> records the POSTs it makes (their
  outcome changes nothing but the log).
\<close>

record approval_grant =
  grant_permission :: string
  grant_patterns :: "string list"

type_synonym thread_sessions = "(string, approval_grant list) jsmap"

type_synonym approval_store = "string \<Rightarrow> thread_sessions option"

section \<open>Stored values\<close>

definition json_field :: "string \<Rightarrow> json \<Rightarrow> json option" where
  "json_field k v = (case v of JObj entries \<Rightarrow> jm_get k entries | _ \<Rightarrow> None)"

definition json_string :: "json option \<Rightarrow> string option" where
  "json_string v = (case v of Some (JStr s) \<Rightarrow> Some s | _ \<Rightarrow> None)"

text \<open>The non-empty strings of an array (\<open>stringList\<close>).\<close>

definition stringList :: "json option \<Rightarrow> string list" where
  "stringList v =
     (case v of Some (JArr xs) \<Rightarrow>
        List.map_filter (\<lambda>x. case x of JStr s \<Rightarrow> if s \<noteq> [] then Some s else None | _ \<Rightarrow> None) xs
      | _ \<Rightarrow> [])"

definition parseGrants :: "json \<Rightarrow> approval_grant list" where
  "parseGrants v =
     (case v of JArr xs \<Rightarrow>
        List.map_filter (\<lambda>entry.
          (case (json_string (json_field ''permission'' entry), json_field ''patterns'' entry) of
             (Some permission, Some (JArr ps)) \<Rightarrow>
               (let patterns = stringList (Some (JArr ps))
                in if patterns \<noteq> [] then Some \<lparr>grant_permission = permission, grant_patterns = patterns\<rparr> else None)
           | _ \<Rightarrow> None)) xs
      | _ \<Rightarrow> [])"

definition parseWorkspaceThreadApprovals :: "json option \<Rightarrow> thread_sessions" where
  "parseWorkspaceThreadApprovals value =
     (case value of
        Some v \<Rightarrow>
          (case json_field ''sessions'' v of
             Some (JObj sessions) \<Rightarrow> map (\<lambda>(s, grants). (s, parseGrants grants)) sessions
           | _ \<Rightarrow> [])
      | None \<Rightarrow> [])"

section \<open>Grants\<close>

text \<open>The mirror of the engine's matcher; it is the function of \<open>effective-permissions.ts\<close>, written again.\<close>

definition matchesApprovalPattern :: "bool \<Rightarrow> string \<Rightarrow> string \<Rightarrow> bool" where
  "matchesApprovalPattern win input pattern =
     (let p = slashes pattern; s = slashes input
      in wildcard win p s \<or> (ends_with '' *'' p \<and> wildcard win (take (length p - 2) p) s))"

definition grantCovers :: "bool \<Rightarrow> approval_grant \<Rightarrow> string \<Rightarrow> string list \<Rightarrow> bool" where
  "grantCovers win grant permission patterns =
     (matchesApprovalPattern win permission (grant_permission grant) \<and> patterns \<noteq> [] \<and>
      list_all (\<lambda>pattern. list_ex (\<lambda>granted. matchesApprovalPattern win pattern granted) (grant_patterns grant)) patterns)"

definition sessions_of :: "approval_store \<Rightarrow> string \<Rightarrow> thread_sessions" where
  "sessions_of store ws = (case store ws of Some s \<Rightarrow> s | None \<Rightarrow> [])"

definition listThreadApprovals :: "approval_store \<Rightarrow> string \<Rightarrow> string \<Rightarrow> approval_grant list" where
  "listThreadApprovals store ws session =
     (case jm_get session (sessions_of store ws) of Some grants \<Rightarrow> grants | None \<Rightarrow> [])"

definition rememberThreadApproval :: "approval_store \<Rightarrow> string \<Rightarrow> string \<Rightarrow> approval_grant \<Rightarrow> approval_store" where
  "rememberThreadApproval store ws session grant =
     (if grant_patterns grant = [] then store
      else
        (let stored = sessions_of store ws;
             current = (case jm_get session stored of Some grants \<Rightarrow> grants | None \<Rightarrow> [])
         in if list_ex (\<lambda>e. grant_permission e = grant_permission grant \<and> grant_patterns e = grant_patterns grant) current
            then store
            else store(ws := Some (jm_set session (current @ [grant]) stored))))"

definition forgetThreadApprovals :: "approval_store \<Rightarrow> string \<Rightarrow> string \<Rightarrow> approval_store" where
  "forgetThreadApprovals store ws session =
     (case store ws of
        None \<Rightarrow> store
      | Some stored \<Rightarrow>
          (if jm_has session stored then store(ws := Some (jm_delete session stored)) else store))"

section \<open>The replayer\<close>

record pending_ask =
  ask_directory :: string
  ask_sessionId :: string
  ask_permission :: string
  ask_patterns :: "string list"
  ask_always :: "string list"

record replayer =
  pending :: "(string, pending_ask) jsmap"
  approvals :: approval_store
  replies :: "(string \<times> pending_ask) list"

definition text_field :: "string \<Rightarrow> json \<Rightarrow> string" where
  "text_field k props = (case json_string (json_field k props) of Some s \<Rightarrow> s | None \<Rightarrow> [])"

definition ask_of :: "string \<Rightarrow> json \<Rightarrow> pending_ask" where
  "ask_of directory props =
     \<lparr>ask_directory = directory, ask_sessionId = text_field ''sessionID'' props, ask_permission = text_field ''permission'' props,
      ask_patterns = stringList (json_field ''patterns'' props), ask_always = stringList (json_field ''always'' props)\<rparr>"

definition onAsked :: "bool \<Rightarrow> (string \<Rightarrow> string option) \<Rightarrow> string \<Rightarrow> json \<Rightarrow> replayer \<Rightarrow> replayer" where
  "onAsked win workspaceIdForDirectory directory props st =
     (let requestId = text_field ''id'' props; ask = ask_of directory props in
      if requestId = [] \<or> ask_sessionId ask = [] \<or> ask_permission ask = [] then st
      else
        (let st1 = st\<lparr>pending := jm_set requestId ask (pending st)\<rparr> in
         case workspaceIdForDirectory directory of
           None \<Rightarrow> st1
         | Some ws \<Rightarrow>
             (if ws = [] then st1
              else
                (case find (\<lambda>g. grantCovers win g (ask_permission ask) (ask_patterns ask))
                    (listThreadApprovals (approvals st1) ws (ask_sessionId ask)) of
                   None \<Rightarrow> st1
                 | Some covering \<Rightarrow> st1\<lparr>replies := replies st1 @ [(requestId, ask)]\<rparr>))))"

text \<open>The grant an \<open>always\<close> reply gives to a pending ask: the engine's suggestion, else the exact request.\<close>

definition grant_of :: "pending_ask \<Rightarrow> approval_grant" where
  "grant_of ask =
     \<lparr>grant_permission = ask_permission ask,
      grant_patterns = (if ask_always ask \<noteq> [] then ask_always ask else ask_patterns ask)\<rparr>"

definition onReplied :: "(string \<Rightarrow> string option) \<Rightarrow> json \<Rightarrow> replayer \<Rightarrow> replayer" where
  "onReplied workspaceIdForDirectory props st =
     (let requestId = text_field ''requestID'' props in
      case jm_get requestId (pending st) of
        None \<Rightarrow> st
      | Some ask \<Rightarrow>
          (let st1 = st\<lparr>pending := jm_delete requestId (pending st)\<rparr> in
           if json_string (json_field ''reply'' props) \<noteq> Some ''always'' then st1
           else
             (case workspaceIdForDirectory (ask_directory ask) of
                None \<Rightarrow> st1
              | Some ws \<Rightarrow>
                  (if ws = [] then st1
                   else st1\<lparr>approvals := rememberThreadApproval (approvals st1) ws (ask_sessionId ask) (grant_of ask)\<rparr>))))"

definition is_obj :: "json option \<Rightarrow> bool" where
  "is_obj v = (case v of Some (JObj _) \<Rightarrow> True | _ \<Rightarrow> False)"

text \<open>\<open>sseFramePayload\<close>: the \<open>data:\<close> lines of a frame, joined and parsed.\<close>

definition strip_cr :: "string \<Rightarrow> string" where
  "strip_cr line = strip_suffix [CHR 0x0D] line"

definition sseFramePayload :: "(string \<Rightarrow> json option) \<Rightarrow> string \<Rightarrow> json option" where
  "sseFramePayload parse frame =
     (let lines = split_on CHR 0x0A frame;
          lines' = map strip_cr (butlast lines) @ [last lines];
          data = join [CHR 0x0A] (map (\<lambda>l. js_trim (drop 5 l)) (filter (starts_with ''data:'') lines'))
      in if data = [] then None else parse data)"

definition handleFrame ::
    "(string \<Rightarrow> json option) \<Rightarrow> bool \<Rightarrow> (string \<Rightarrow> string option) \<Rightarrow> string \<Rightarrow> replayer \<Rightarrow> replayer" where
  "handleFrame parse win workspaceIdForDirectory frame st =
     (case sseFramePayload parse frame of
        None \<Rightarrow> st
      | Some payload \<Rightarrow>
          (case (json_string (json_field ''directory'' payload), json_field ''payload'' payload) of
             (Some directory, Some event) \<Rightarrow>
               (if \<not> is_obj (Some event) then st
                else
                  (let props = (if is_obj (json_field ''properties'' event) then the (json_field ''properties'' event) else JObj []);
                       type = json_string (json_field ''type'' event)
                   in if type = Some ''permission.asked'' then onAsked win workspaceIdForDirectory directory props st
                      else if type = Some ''permission.replied'' then onReplied workspaceIdForDirectory props st
                      else st))
           | _ \<Rightarrow> st))"

text \<open>
  The steps of the replayer: an ask, a reply, the loss of the stream (which
  clears the pending asks before reconnecting), and the removal of a thread's
  approvals by the server. \<open>approved\<close> collects what an \<open>always\<close> reply approved:
  the workspace, the thread and the grant.
\<close>

definition approved_by :: "(string \<Rightarrow> string option) \<Rightarrow> json \<Rightarrow> replayer \<Rightarrow> (string \<times> string \<times> approval_grant) set" where
  "approved_by workspaceIdForDirectory props st =
     (case jm_get (text_field ''requestID'' props) (pending st) of
        None \<Rightarrow> {}
      | Some ask \<Rightarrow>
          (if json_string (json_field ''reply'' props) = Some ''always''
           then (case workspaceIdForDirectory (ask_directory ask) of None \<Rightarrow> {} | Some ws \<Rightarrow> {(ws, ask_sessionId ask, grant_of ask)})
           else {}))"

inductive replay_reachable :: "bool \<Rightarrow> (string \<Rightarrow> string option) \<Rightarrow> replayer \<Rightarrow> (string \<times> string \<times> approval_grant) set \<Rightarrow> bool"
  for win wsFor where
  start: "replay_reachable win wsFor \<lparr>pending = [], approvals = (\<lambda>_. None), replies = []\<rparr> {}"
| asked: "replay_reachable win wsFor st G \<Longrightarrow> replay_reachable win wsFor (onAsked win wsFor directory props st) G"
| replied: "replay_reachable win wsFor st G \<Longrightarrow>
    replay_reachable win wsFor (onReplied wsFor props st) (G \<union> approved_by wsFor props st)"
| dropped: "replay_reachable win wsFor st G \<Longrightarrow> replay_reachable win wsFor (st\<lparr>pending := []\<rparr>) G"
| forgotten: "replay_reachable win wsFor st G \<Longrightarrow>
    replay_reachable win wsFor (st\<lparr>approvals := forgetThreadApprovals (approvals st) ws session\<rparr>) G"

section \<open>The store\<close>

lemma listThreadApprovals_remember:
  "grant_patterns g \<noteq> [] \<Longrightarrow> g \<in> set (listThreadApprovals (rememberThreadApproval store ws session g) ws session)"
  by (auto simp: listThreadApprovals_def rememberThreadApproval_def sessions_of_def Let_def list_ex_iff
      split: option.splits intro: approval_grant.equality)
    (metis (full_types) approval_grant.equality old.unit.exhaust)+

lemma listThreadApprovals_remember_sub:
  "h \<in> set (listThreadApprovals (rememberThreadApproval store ws session g) ws' session') \<Longrightarrow>
     h \<in> set (listThreadApprovals store ws' session') \<or> (ws' = ws \<and> session' = session \<and> h = g)"
  by (auto simp: listThreadApprovals_def rememberThreadApproval_def sessions_of_def Let_def
      split: option.splits if_splits)

lemma listThreadApprovals_forget:
  "listThreadApprovals (forgetThreadApprovals store ws session) ws' session' =
     (if ws' = ws \<and> session' = session then [] else listThreadApprovals store ws' session')"
  by (auto simp: listThreadApprovals_def forgetThreadApprovals_def sessions_of_def jm_has_def split: option.splits)

section \<open>What the replayer answers\<close>

definition replay_ok :: "bool \<Rightarrow> (string \<Rightarrow> string option) \<Rightarrow> replayer \<Rightarrow> (string \<times> string \<times> approval_grant) set \<Rightarrow> bool" where
  "replay_ok win wsFor st G =
     ((\<forall>ws s. \<forall>g \<in> set (listThreadApprovals (approvals st) ws s). (ws, s, g) \<in> G) \<and>
      (\<forall>(rid, ask) \<in> set (replies st). \<exists>ws g. wsFor (ask_directory ask) = Some ws \<and> (ws, ask_sessionId ask, g) \<in> G \<and>
         grantCovers win g (ask_permission ask) (ask_patterns ask)))"

lemma replay_ok_pending: "replay_ok win wsFor (st\<lparr>pending := p\<rparr>) G = replay_ok win wsFor st G"
  by (simp add: replay_ok_def)

lemma replay_ok_asked:
  assumes "replay_ok win wsFor st G"
  shows "replay_ok win wsFor (onAsked win wsFor directory props st) G"
proof -
  define ask where "ask = ask_of directory props"
  define st1 where "st1 = st\<lparr>pending := jm_set (text_field ''id'' props) ask (pending st)\<rparr>"
  have ok1: "replay_ok win wsFor st1 G" using assms by (simp add: st1_def replay_ok_pending)
  have dir: "ask_directory ask = directory" by (simp add: ask_def ask_of_def)
  have eq: "onAsked win wsFor directory props st =
     (if text_field ''id'' props = [] \<or> ask_sessionId ask = [] \<or> ask_permission ask = [] then st
      else case wsFor directory of None \<Rightarrow> st1
        | Some ws \<Rightarrow> if ws = [] then st1
            else case find (\<lambda>g. grantCovers win g (ask_permission ask) (ask_patterns ask))
                    (listThreadApprovals (approvals st1) ws (ask_sessionId ask)) of
                   None \<Rightarrow> st1 | Some g \<Rightarrow> st1\<lparr>replies := replies st1 @ [(text_field ''id'' props, ask)]\<rparr>)"
    unfolding onAsked_def Let_def ask_def st1_def ..
  show ?thesis
  proof (cases "wsFor directory")
    case None
    then show ?thesis using assms ok1 by (simp add: eq)
  next
    case (Some ws)
    show ?thesis
    proof (cases "find (\<lambda>g. grantCovers win g (ask_permission ask) (ask_patterns ask))
                    (listThreadApprovals (approvals st1) ws (ask_sessionId ask))")
      case None
      then show ?thesis using assms ok1 Some by (simp add: eq)
    next
      case (Some g)
      then have g: "g \<in> set (listThreadApprovals (approvals st1) ws (ask_sessionId ask))"
          "grantCovers win g (ask_permission ask) (ask_patterns ask)"
        by (auto simp: find_Some_iff dest: nth_mem)
      then have "(ws, ask_sessionId ask, g) \<in> G" using ok1 by (auto simp: replay_ok_def)
      then have "replay_ok win wsFor (st1\<lparr>replies := replies st1 @ [(text_field ''id'' props, ask)]\<rparr>) G"
        using ok1 g \<open>wsFor directory = Some ws\<close> dir unfolding replay_ok_def by auto
      then show ?thesis using assms ok1 \<open>wsFor directory = Some ws\<close> Some by (simp add: eq)
    qed
  qed
qed

lemma replay_ok_replied:
  assumes "replay_ok win wsFor st G"
  shows "replay_ok win wsFor (onReplied wsFor props st) (G \<union> approved_by wsFor props st)"
proof (cases "jm_get (text_field ''requestID'' props) (pending st)")
  case None
  then show ?thesis using assms by (simp add: onReplied_def approved_by_def)
next
  case (Some ask)
  have mono: "replay_ok win wsFor st (G \<union> H)" for H using assms unfolding replay_ok_def by blast
  show ?thesis
  proof (cases "json_string (json_field ''reply'' props) = Some ''always'' \<and> (\<exists>ws. wsFor (ask_directory ask) = Some ws \<and> ws \<noteq> [])")
    case True
    then obtain ws where ws: "wsFor (ask_directory ask) = Some ws" "ws \<noteq> []" by blast
    have G: "approved_by wsFor props st = {(ws, ask_sessionId ask, grant_of ask)}"
      using True Some ws by (simp add: approved_by_def)
    have run: "onReplied wsFor props st = st\<lparr>pending := jm_delete (text_field ''requestID'' props) (pending st),
        approvals := rememberThreadApproval (approvals st) ws (ask_sessionId ask) (grant_of ask)\<rparr>"
      using True Some ws by (simp add: onReplied_def Let_def)
    show ?thesis using mono [of "{(ws, ask_sessionId ask, grant_of ask)}"] unfolding run G replay_ok_def
      by (auto dest!: listThreadApprovals_remember_sub)
  next
    case False
    then have "onReplied wsFor props st = st\<lparr>pending := jm_delete (text_field ''requestID'' props) (pending st)\<rparr>"
      using Some by (auto simp: onReplied_def Let_def split: option.splits)
    then show ?thesis using mono by (simp add: replay_ok_pending)
  qed
qed

lemma replay_invariant: "replay_reachable win wsFor st G \<Longrightarrow> replay_ok win wsFor st G"
proof (induction rule: replay_reachable.induct)
  case start
  then show ?case by (simp add: replay_ok_def listThreadApprovals_def sessions_of_def)
next
  case (asked st G directory props)
  then show ?case by (intro replay_ok_asked)
next
  case (replied st G props)
  then show ?case by (intro replay_ok_replied)
next
  case (dropped st G)
  then show ?case by (simp add: replay_ok_pending)
next
  case (forgotten st G ws session)
  then show ?case by (auto simp: replay_ok_def listThreadApprovals_forget)
qed

text \<open>A run of three asks: the user approves the first one; the others are answered by the replayer.\<close>

definition example_ask :: "string \<Rightarrow> string \<Rightarrow> string list \<Rightarrow> json" where
  "example_ask rid pattern always =
     JObj [(''id'', JStr rid), (''sessionID'', JStr ''s''), (''permission'', JStr ''bash''),
       (''patterns'', JArr [JStr pattern]), (''always'', JArr (map JStr always))]"

definition example_reply :: "string \<Rightarrow> json" where
  "example_reply rid = JObj [(''requestID'', JStr rid), (''reply'', JStr ''always'')]"

definition example_run :: replayer where
  "example_run =
     (let ws = (\<lambda>d. Some ''w'');
          st = \<lparr>pending = [], approvals = (\<lambda>_. None), replies = []\<rparr>;
          st = onReplied ws (example_reply ''1'') (onAsked False ws ''d'' (example_ask ''1'' ''a x'' []) st);
          st = onReplied ws (example_reply ''2'') (onAsked False ws ''d'' (example_ask ''2'' ''a x'' [''a *'']) st)
      in onAsked False ws ''d'' (example_ask ''3'' ''a y'' [''a *'']) st)"

lemma example_run_reachable: "\<exists>G. replay_reachable False (\<lambda>d. Some ''w'') example_run G"
  unfolding example_run_def Let_def by (intro exI) (rule asked replied start)+

lemma example_run_replies:
  "replies example_run = [(''2'', ask_of ''d'' (example_ask ''2'' ''a x'' [''a *''])), (''3'', ask_of ''d'' (example_ask ''3'' ''a y'' [''a *'']))]"
  by code_simp

section \<open>Properties\<close>

text \<open>C4. The replayer never answers for a thread on its own: in every reachable state, each reply it
  made is for an ask whose patterns are covered by a grant that an \<open>always\<close> reply
  gave before on the same thread of the same workspace. Losing the stream, other
  threads' grants and unparsable frames never approve anything.\<close>

theorem replay_only_what_was_approved:
  assumes "replay_reachable win wsFor st G" and "(rid, ask) \<in> set (replies st)"
  shows "\<exists>ws g. wsFor (ask_directory ask) = Some ws \<and> (ws, ask_sessionId ask, g) \<in> G \<and>
    matchesApprovalPattern win (ask_permission ask) (grant_permission g) \<and> ask_patterns ask \<noteq> [] \<and>
    (\<forall>p \<in> set (ask_patterns ask). \<exists>q \<in> set (grant_patterns g). matchesApprovalPattern win p q)"
proof -
  obtain ws g where "wsFor (ask_directory ask) = Some ws" "(ws, ask_sessionId ask, g) \<in> G"
      "grantCovers win g (ask_permission ask) (ask_patterns ask)"
    using replay_invariant [OF assms(1)] assms(2) by (auto simp: replay_ok_def)
  then show ?thesis by (auto simp: grantCovers_def list_all_iff list_ex_iff)
qed

theorem replay_only_what_was_approved_witness:
  "\<exists>G ws g. replay_reachable False (\<lambda>d. Some ''w'') example_run G \<and> (ws, ''s'', g) \<in> G \<and>
     matchesApprovalPattern False ''bash'' (grant_permission g) \<and>
     (\<exists>q \<in> set (grant_patterns g). matchesApprovalPattern False ''a y'' q)"
proof -
  obtain G where G: "replay_reachable False (\<lambda>d. Some ''w'') example_run G" using example_run_reachable by blast
  let ?ask = "ask_of ''d'' (example_ask ''3'' ''a y'' [''a *''])"
  have "(''3'', ?ask) \<in> set (replies example_run)"
    by (simp only: example_run_replies list.set insert_iff simp_thms)
  from replay_only_what_was_approved [OF G this]
  obtain ws g where "(ws, ask_sessionId ?ask, g) \<in> G"
      "matchesApprovalPattern False (ask_permission ?ask) (grant_permission g)"
      "\<forall>p \<in> set (ask_patterns ?ask). \<exists>q \<in> set (grant_patterns g). matchesApprovalPattern False p q" by blast
  moreover have "ask_sessionId ?ask = ''s''" "ask_permission ?ask = ''bash''" "ask_patterns ?ask = [''a y'']"
    by (code_simp)+
  ultimately show ?thesis using G by (metis list.set_intros(1))
qed

text \<open>A replayed reply can widen what the user approved. The replayer answers \<open>always\<close> again, so
  when the engine reports that reply like the user's, the patterns the engine
  suggested for the repeat ask are remembered too: here the user approved the
  exact command \<open>a x\<close> only, and \<open>a y\<close> is answered for him, which his own grant does
  not cover.\<close>

theorem replayed_reply_widens_grant:
  "(\<exists>G. replay_reachable False (\<lambda>d. Some ''w'') example_run G) \<and>
   map fst (replies example_run) = [''2'', ''3''] \<and>
   grant_of (ask_of ''d'' (example_ask ''1'' ''a x'' [])) = \<lparr>grant_permission = ''bash'', grant_patterns = [''a x'']\<rparr> \<and>
   \<not> grantCovers False (grant_of (ask_of ''d'' (example_ask ''1'' ''a x'' []))) ''bash'' [''a y'']"
proof -
  have "grant_of (ask_of ''d'' (example_ask ''1'' ''a x'' [])) = \<lparr>grant_permission = ''bash'', grant_patterns = [''a x'']\<rparr>"
    by code_simp
  moreover have "\<not> grantCovers False \<lparr>grant_permission = ''bash'', grant_patterns = [''a x'']\<rparr> ''bash'' [''a y'']"
    by code_simp
  ultimately show ?thesis using example_run_reachable by (simp add: example_run_replies)
qed

text \<open>Approvals are kept per thread: remembering a grant makes it listed for its thread and
  changes no other thread, doing so twice stores it once, and forgetting a
  thread empties that thread only.\<close>

theorem thread_approvals_are_per_thread:
  "listThreadApprovals (forgetThreadApprovals store ws session) ws' session' =
     (if ws' = ws \<and> session' = session then [] else listThreadApprovals store ws' session') \<and>
   (listThreadApprovals (rememberThreadApproval store ws session g) ws' session' =
     (if ws' = ws \<and> session' = session \<and> grant_patterns g \<noteq> [] \<and> g \<notin> set (listThreadApprovals store ws session)
      then listThreadApprovals store ws session @ [g] else listThreadApprovals store ws' session')) \<and>
   rememberThreadApproval (rememberThreadApproval store ws session g) ws session g = rememberThreadApproval store ws session g"
proof -
  have dup: "list_ex (\<lambda>e. grant_permission e = grant_permission g \<and> grant_patterns e = grant_patterns g) xs \<longleftrightarrow> g \<in> set xs" for xs
    by (induction xs) (auto intro: approval_grant.equality)
  show ?thesis
  proof (intro conjI)
    show "listThreadApprovals (rememberThreadApproval store ws session g) ws' session' =
     (if ws' = ws \<and> session' = session \<and> grant_patterns g \<noteq> [] \<and> g \<notin> set (listThreadApprovals store ws session)
      then listThreadApprovals store ws session @ [g] else listThreadApprovals store ws' session')"
      unfolding listThreadApprovals_def rememberThreadApproval_def Let_def dup sessions_of_def
      by (auto split: option.splits)
    show "rememberThreadApproval (rememberThreadApproval store ws session g) ws session g = rememberThreadApproval store ws session g"
      unfolding rememberThreadApproval_def Let_def dup sessions_of_def by (auto split: option.splits)
  qed (rule listThreadApprovals_forget)
qed

end
