(* ===== verification/ManagedPolicy.thy ===== *)
theory ManagedPolicy
  imports GitRules
begin

text \<open>
  \<open>apps/server/src/managed-policy-rules.ts\<close> and the merge of execution policies
  in \<open>packages/types/src/den/desktop-policies.ts\<close>: the organization's execution
  policy as engine rules (\<open>executionRules\<close>, \<open>legacyExecutionPermissions\<close>) and as the
  server's own answer (\<open>policyDenial\<close>), and the routes it governs
  (\<open>policyRequestActions\<close>).

  The shared mode rules (\<open>permission-modes.json\<close>) and the URL parser are
  arguments. Records keep insertion order; the patterns are not array indices
  (JavaScript would list such keys first).
\<close>

datatype policy_action = SyncP | ShellP | TerminalP | SavedCommandP | FileWriteP | EngineConfigP | BrowserExternalP
  | ModelP | WebfetchP | WebsearchP | BrowserP | ExtensionsP | SettingsP | ProviderP | WorkspaceP | GitIdentityP

record execution_policy =
  commands_deny :: bool
  blockedCommands :: "string list"
  browserOrigins :: "string list option"
  blockBrowserUploads :: bool

record desktop_config =
  execution :: "execution_policy option"
  allowCustomProviders :: "bool option"
  allowZenModel :: "bool option"
  allowMultipleWorkspaces :: "bool option"
  allowControlSettings :: "bool option"
  allowManageExtensions :: "bool option"
  allowBuiltInExtensions :: "bool option"

datatype approval_mode = CarefulMode | GuardedMode | FullMode

section \<open>Merging execution policies\<close>

definition merge_execution :: "execution_policy \<Rightarrow> execution_policy \<Rightarrow> execution_policy" where
  "merge_execution policy result =
     \<lparr>commands_deny = (commands_deny policy \<or> commands_deny result),
      blockedCommands = js_uniq (blockedCommands result @ blockedCommands policy),
      browserOrigins =
        (case browserOrigins policy of
           None \<Rightarrow> browserOrigins result
         | Some origins \<Rightarrow>
             (case browserOrigins result of None \<Rightarrow> Some origins | Some kept \<Rightarrow> Some (filter (\<lambda>o'. o' \<in> set origins) kept))),
      blockBrowserUploads = (blockBrowserUploads result \<or> blockBrowserUploads policy)\<rparr>"

definition resolveDesktopExecutionPolicy :: "execution_policy option list \<Rightarrow> execution_policy" where
  "resolveDesktopExecutionPolicy documents =
     fold (\<lambda>d result. case d of None \<Rightarrow> result | Some policy \<Rightarrow> merge_execution policy result) documents
       \<lparr>commands_deny = False, blockedCommands = [], browserOrigins = None, blockBrowserUploads = False\<rparr>"

section \<open>Engine rules\<close>

record engine_rule =
  er_action :: string
  er_resource :: string
  er_effect :: permission_action

definition executionRules :: "execution_policy option \<Rightarrow> engine_rule list" where
  "executionRules policy =
     (case policy of
        None \<Rightarrow> []
      | Some p \<Rightarrow>
          (if commands_deny p then [\<lparr>er_action = ''shell'', er_resource = ''*'', er_effect = DenyA\<rparr>] else [])
          @ map (\<lambda>r. \<lparr>er_action = ''shell'', er_resource = r, er_effect = DenyA\<rparr>) (blockedCommands p)
          @ (if browserOrigins p \<noteq> None
             then [\<lparr>er_action = ''webfetch'', er_resource = ''*'', er_effect = DenyA\<rparr>,
                   \<lparr>er_action = ''websearch'', er_resource = ''*'', er_effect = DenyA\<rparr>]
             else []))"

datatype permission_entry = ActionEntry permission_action | TableEntry "(string, permission_action) jsmap"

type_synonym permission_block = "(string, permission_entry) jsmap"

definition bash_table :: "permission_block \<Rightarrow> (string, permission_action) jsmap" where
  "bash_table block = (case jm_get ''bash'' block of Some (TableEntry t) \<Rightarrow> t | _ \<Rightarrow> [])"

text \<open>\<open>delete table[key]; table[key] = value\<close>: the entry moves to the end.\<close>

definition reinsert :: "string \<Rightarrow> 'v \<Rightarrow> (string, 'v) jsmap \<Rightarrow> (string, 'v) jsmap" where
  "reinsert k v m = jm_set k v (jm_delete k m)"

definition mode_permissions ::
    "permission_block \<Rightarrow> (string, permission_action) jsmap \<Rightarrow> permission_entry \<Rightarrow> approval_mode \<Rightarrow> permission_block" where
  "mode_permissions careful normal_bash normal_read mode =
     (case mode of
        FullMode \<Rightarrow>
          [(''bash'', TableEntry [(''*'', AllowA)]), (''read'', TableEntry [(''*'', AllowA)]), (''edit'', ActionEntry AllowA),
           (''webfetch'', ActionEntry AllowA), (''websearch'', ActionEntry AllowA), (''doom_loop'', ActionEntry AllowA),
           (''external_directory'', ActionEntry AllowA)]
      | CarefulMode \<Rightarrow>
          jm_set ''bash'' (TableEntry (bash_table careful)) (jm_delete ''external_directory'' careful)
      | GuardedMode \<Rightarrow>
          [(''bash'', TableEntry (fold (\<lambda>(p, a) m. reinsert p a m) gitWorkflowPermissionRules normal_bash)),
           (''read'', normal_read)])"

definition apply_execution_rule :: "engine_rule \<Rightarrow> permission_block \<Rightarrow> permission_block" where
  "apply_execution_rule rule permissions =
     (if er_action rule = ''shell'' then
        jm_set ''bash'' (TableEntry (reinsert (er_resource rule) (er_effect rule) (bash_table permissions))) permissions
      else if er_action rule = ''webfetch'' \<or> er_action rule = ''websearch'' then
        jm_set (er_action rule) (ActionEntry (er_effect rule)) permissions
      else permissions)"

definition legacyExecutionPermissions ::
    "permission_block \<Rightarrow> (string, permission_action) jsmap \<Rightarrow> permission_entry
      \<Rightarrow> execution_policy option \<Rightarrow> approval_mode \<Rightarrow> permission_block" where
  "legacyExecutionPermissions careful normal_bash normal_read policy mode =
     fold apply_execution_rule (executionRules policy) (mode_permissions careful normal_bash normal_read mode)"

section \<open>Blocked command patterns\<close>

text \<open>
  \<open>matches\<close>: the two-pointer glob matcher. The rest of the rule and of the command
  stand for the two indices; \<open>star\<close> holds the rule after the last star and the
  rest of the command at \<open>retry\<close>.
\<close>

function glob_loop :: "string \<Rightarrow> string \<Rightarrow> (string \<times> string) option \<Rightarrow> bool" where
  "glob_loop rule [] star = list_all (\<lambda>c. c = CHR ''*'') rule"
| "glob_loop rule (c # command) star =
     (if rule \<noteq> [] \<and> (hd rule = CHR ''?'' \<or> hd rule = c) then glob_loop (tl rule) command star
      else if rule \<noteq> [] \<and> hd rule = CHR ''*'' then glob_loop (tl rule) (c # command) (Some (tl rule, c # command))
      else
        (case star of
           Some (after, retry) \<Rightarrow> glob_loop after (tl retry) (Some (after, tl retry))
         | None \<Rightarrow> False))"
  by pat_completeness auto
termination
proof (relation "inv_image (less_than <*lex*> less_than <*lex*> less_than)
    (\<lambda>(r, c, st). (max (count_list r CHR ''*'') (case st of None \<Rightarrow> 0 | Some (a, _) \<Rightarrow> count_list a CHR ''*''),
        (case st of None \<Rightarrow> 0 | Some (_, b) \<Rightarrow> length b), length c))", goal_cases)
  case (2 rule c command star)
  then obtain r rs where "rule = r # rs" by (cases rule) auto
  then show ?case by (cases star) (auto split: if_splits)
next
  case (3 rule c command star)
  then obtain rs where "rule = CHR ''*'' # rs" by (cases rule) auto
  then show ?case by (cases star) auto
next
  case (4 rule c command star p after retry)
  then show ?case by (cases retry) auto
qed (auto intro!: wf_inv_image wf_lex_prod)

declare glob_loop.simps(2) [simp del]

definition glob_matches :: "string \<Rightarrow> string \<Rightarrow> bool" where
  "glob_matches pattern value = glob_loop (js_lower pattern) (js_lower value) None"

section \<open>The server's answer\<close>

text \<open>The paths a patch names: \<open>/^\*\*\* (?:Add File|...|Move to): (.+)$/gm\<close>.\<close>

definition patch_prefixes :: "string list" where
  "patch_prefixes = [''*** Add File: '', ''*** Update File: '', ''*** Delete File: '', ''*** Move to: '']"

definition patch_line_path :: "string \<Rightarrow> string option" where
  "patch_line_path line =
     (case find (\<lambda>p. starts_with p line \<and> drop (length p) line \<noteq> []) patch_prefixes of
        None \<Rightarrow> None
      | Some p \<Rightarrow> Some (drop (length p) line))"

definition patch_paths :: "string \<Rightarrow> string list" where
  "patch_paths patch = List.map_filter patch_line_path (split_on CHR 0x0A (replace_char CHR 0x0D CHR 0x0A patch))"

text \<open>The path test: after trimming, without case, by the segments between slashes of either kind.\<close>

fun adjacent_config :: "string list \<Rightarrow> bool" where
  "adjacent_config (a # b # rest) =
     ((a = ''opencode'' \<and> b \<in> set [''plugin'', ''plugins'', ''tool'', ''tools'', ''skill'', ''skills'', ''agent'', ''agents''])
      \<or> adjacent_config (b # rest))"
| "adjacent_config _ = False"

definition managed_config_path :: "string \<Rightarrow> bool" where
  "managed_config_path path =
     (let segs = split_on CHR ''/'' (js_lower (slashes (js_trim path)))
      in last segs \<in> set [''opencode.json'', ''opencode.jsonc'', ''runtime-opencode-config.json'']
         \<or> ''.opencode'' \<in> set segs \<or> adjacent_config segs)"

text \<open>What a request may carry: the fields of \<open>input\<close> the source reads.\<close>

definition input_string :: "string \<Rightarrow> json \<Rightarrow> string option" where
  "input_string k input = (case input of JObj es \<Rightarrow> (case jm_get k es of Some (JStr s) \<Rightarrow> Some s | _ \<Rightarrow> None) | _ \<Rightarrow> None)"

definition operation_paths :: "json \<Rightarrow> string list" where
  "operation_paths operation =
     (case operation of
        JObj es \<Rightarrow> List.map_filter (\<lambda>(k, v). if k \<in> set [''path'', ''from'', ''to'']
            then (case v of JStr s \<Rightarrow> Some s | _ \<Rightarrow> None) else None) es
      | _ \<Rightarrow> [])"

definition written_paths :: "json \<Rightarrow> string list" where
  "written_paths input =
     List.map_filter (\<lambda>k. input_string k input) [''filePath'', ''path'']
     @ concat (map patch_paths (List.map_filter (\<lambda>k. input_string k input) [''patchText'', ''patch'']))
     @ (case input of JObj es \<Rightarrow> (case jm_get ''operations'' es of
            Some (JArr ops) \<Rightarrow> concat (map operation_paths ops) | _ \<Rightarrow> []) | _ \<Rightarrow> [])"

definition hasExecutionLimits :: "execution_policy option \<Rightarrow> bool" where
  "hasExecutionLimits ex =
     (case ex of None \<Rightarrow> False
      | Some e \<Rightarrow> commands_deny e \<or> blockedCommands e \<noteq> [] \<or> browserOrigins e \<noteq> None \<or> blockBrowserUploads e)"

definition commands_limited :: "execution_policy option \<Rightarrow> bool" where
  "commands_limited ex = (case ex of None \<Rightarrow> False | Some e \<Rightarrow> commands_deny e \<or> blockedCommands e \<noteq> [])"

definition config_managed :: "desktop_config \<Rightarrow> bool" where
  "config_managed policy =
     (hasExecutionLimits (execution policy) \<or> allowCustomProviders policy = Some False
      \<or> allowManageExtensions policy = Some False \<or> allowControlSettings policy = Some False)"

record parsed_url =
  url_username :: string
  url_password :: string
  url_origin :: string

definition input_flag :: "string \<Rightarrow> json \<Rightarrow> bool" where
  "input_flag k input = (case input of JObj es \<Rightarrow> jm_get k es = Some (JBool True) | _ \<Rightarrow> False)"

definition browser_denial :: "(string \<Rightarrow> parsed_url option) \<Rightarrow> desktop_config \<Rightarrow> policy_action \<Rightarrow> json \<Rightarrow> string option" where
  "browser_denial parse_url policy action input =
     (let url = or_else (input_string ''url'' input) [];
          origins = (case execution policy of None \<Rightarrow> None | Some e \<Rightarrow> browserOrigins e);
          uploads = (case execution policy of None \<Rightarrow> False | Some e \<Rightarrow> blockBrowserUploads e);
          approved = (case origins of None \<Rightarrow> True
            | Some os \<Rightarrow> (case parse_url url of None \<Rightarrow> False
                | Some t \<Rightarrow> url_username t = [] \<and> url_password t = [] \<and> url_origin t \<in> set os))
      in if action = BrowserP \<and> allowBuiltInExtensions policy = Some False
         then Some ''Built-in extensions are disabled by your organization.''
         else if \<not> approved then Some ''This website is not approved by your organization.''
         else if uploads \<and> (starts_with ''ws:'' (js_lower url) \<or> starts_with ''wss:'' (js_lower url) \<or> input_flag ''hasUpload'' input
             \<or> (case input_string ''method'' input of None \<Rightarrow> False | Some m \<Rightarrow> m \<notin> set [''GET'', ''HEAD'', ''OPTIONS'']))
         then Some ''Browser uploads are blocked by your team's policy.''
         else None)"

definition policyDenial :: "(string \<Rightarrow> parsed_url option) \<Rightarrow> desktop_config \<Rightarrow> policy_action \<Rightarrow> json \<Rightarrow> string option" where
  "policyDenial parse_url policy action input =
     (let ex = execution policy;
          command = or_else (input_string ''command'' input) []
      in
      if action = TerminalP \<and> commands_limited ex then Some ''Interactive terminals are blocked by your team's command policy.''
      else if action = SavedCommandP \<and> commands_limited ex then Some ''Saved commands are blocked by your team's command policy.''
      else if action = ShellP \<and> (case ex of None \<Rightarrow> False | Some e \<Rightarrow> commands_deny e)
      then Some ''Your organization has blocked OS commands for your team.''
      else if action = ShellP \<and> (case ex of None \<Rightarrow> False | Some e \<Rightarrow> list_ex (\<lambda>p. glob_matches p command) (blockedCommands e))
      then Some ''This command is blocked by your team's policy.''
      else if action = FileWriteP \<and> config_managed policy \<and> list_ex managed_config_path (written_paths input)
      then Some ''Your organization manages this configuration. Change access in Den.''
      else if action = EngineConfigP \<and> config_managed policy
      then Some ''Your organization manages engine configuration. Change access in Den.''
      else if action = BrowserExternalP \<and> ((case ex of None \<Rightarrow> False | Some e \<Rightarrow> browserOrigins e \<noteq> None \<or> blockBrowserUploads e)
          \<or> allowBuiltInExtensions policy = Some False)
      then Some ''Open this site in the managed browser.''
      else if (action = ModelP \<or> action = ProviderP) \<and> input_string ''providerID'' input = Some ''opencode''
      then (if allowZenModel policy = Some False then Some ''Your organization has disabled this AI provider.'' else None)
      else if (action = WebfetchP \<or> action = WebsearchP) \<and> (case ex of None \<Rightarrow> False | Some e \<Rightarrow> browserOrigins e \<noteq> None)
      then Some ''Use OmniRush.ai's built-in browser to open approved websites.''
      else if (action = BrowserP \<or> action = WebfetchP) \<and> browser_denial parse_url policy action input \<noteq> None
      then browser_denial parse_url policy action input
      else if action = ExtensionsP \<and> allowManageExtensions policy = Some False
      then Some ''Your organization has disabled local extension management.''
      else if action = SettingsP \<and> allowControlSettings policy = Some False
      then Some ''Your organization has disabled changing these settings.''
      else if action = ProviderP \<and> allowCustomProviders policy = Some False
      then Some ''Your organization only allows its assigned AI providers.''
      else if action = WorkspaceP \<and> allowMultipleWorkspaces policy = Some False
      then Some ''Your organization has restricted additional workspaces.''
      else None)"

section \<open>Governed routes\<close>

definition EXTENSION_ROUTES :: "string list" where
  "EXTENSION_ROUTES = [''cloud-plugins'', ''claude-plugins'', ''plugins'', ''skills'', ''commands'', ''mcp'']"

definition SETTINGS_ROUTES :: "string list" where
  "SETTINGS_ROUTES = [''config'', ''opencode-config'', ''runtime-config'', ''permissions'', ''authorized-folders'', ''box'']"

text \<open>\<open>/^\/workspace\/[^/]+\/(?:...)(?:\/|$)/\<close> on the segments of the path.\<close>

definition workspace_route :: "string list \<Rightarrow> string list \<Rightarrow> bool" where
  "workspace_route names segs =
     (case segs of a # b # c # d # _ \<Rightarrow> a = [] \<and> b = ''workspace'' \<and> c \<noteq> [] \<and> d \<in> set names | _ \<Rightarrow> False)"

text \<open>\<open>/\/mcp\/[^/]+\/(?:auth|managed\/connect)$/\<close>.\<close>

definition mcp_connect_route :: "string list \<Rightarrow> bool" where
  "mcp_connect_route segs =
     ((case rev segs of a # b # c # _ # _ \<Rightarrow> a = ''auth'' \<and> b \<noteq> [] \<and> c = ''mcp'' | _ \<Rightarrow> False)
      \<or> (case rev segs of a # b # c # d # _ # _ \<Rightarrow> a = ''connect'' \<and> b = ''managed'' \<and> c \<noteq> [] \<and> d = ''mcp'' | _ \<Rightarrow> False))"

definition policyRequestActions :: "string \<Rightarrow> string \<Rightarrow> policy_action list" where
  "policyRequestActions method path =
     (if method \<in> set [''GET'', ''HEAD'', ''OPTIONS''] then []
      else
        (let segs = split_on CHR ''/'' path in
         (if path \<in> set [''/workspaces/local'', ''/workspaces/remote''] then [WorkspaceP] else [])
         @ (if path = ''/runtime-config/providers'' then [ProviderP] else [])
         @ (if path \<in> set [''/runtime-config/approvals'', ''/runtime-config/best-practices''] then [SettingsP] else [])
         @ (if path = ''/omnirush/subagent-model'' \<or> path = ''/omnirush/web-search'' then [SettingsP] else [])
         @ (if workspace_route EXTENSION_ROUTES segs \<and> \<not> mcp_connect_route segs then [ExtensionsP] else [])
         @ (if workspace_route SETTINGS_ROUTES segs then [SettingsP] else [])
         @ (if path = ''/experimental/engine-v2-preview'' then [SettingsP] else [])
         @ (if last segs = ''opencode-config'' \<and> 2 \<le> length segs then [EngineConfigP] else [])))"

section \<open>Lemmas\<close>

text \<open>The greedy matcher is the pattern semantics when the command has no star.\<close>

lemma wildcard_snoc_free:
  "CHR ''*'' \<notin> set m \<Longrightarrow> length u = length m \<Longrightarrow> wildcard False (m @ r) (u @ s) = (wildcard False m u \<and> wildcard False r s)"
  by (induction m u rule: list_induct2') (auto split: if_splits)

lemma wildcard_free_length: "CHR ''*'' \<notin> set m \<Longrightarrow> wildcard False (m @ r) s \<Longrightarrow> length m \<le> length s"
proof (induction m arbitrary: s)
  case Nil
  then show ?case by simp
next
  case (Cons p m)
  then show ?case by (cases s) auto
qed

lemma wildcard_star_iff: "wildcard False (CHR ''*'' # r) s \<longleftrightarrow> (\<exists>a b. s = a @ b \<and> wildcard False r b)"
proof (induction s)
  case Nil
  then show ?case by auto
next
  case (Cons c s)
  have "(\<exists>a b. c # s = a @ b \<and> wildcard False r b) \<longleftrightarrow> wildcard False r (c # s) \<or> (\<exists>a b. s = a @ b \<and> wildcard False r b)"
    by (auto simp: Cons_eq_append_conv)
  then show ?case using Cons by simp
qed

lemma wildcard_stars: "list_all (\<lambda>c. c = CHR ''*'') r \<longleftrightarrow> wildcard False r []"
  by (induction r) auto

text \<open>One equation per branch of the loop.\<close>

lemma glob_loop_match:
  "rule \<noteq> [] \<and> (hd rule = CHR ''?'' \<or> hd rule = c) \<Longrightarrow> glob_loop rule (c # command) star = glob_loop (tl rule) command star"
  by (simp only: glob_loop.simps(2) [of rule c command star] simp_thms if_True)

lemma glob_loop_star:
  "\<not> (rule \<noteq> [] \<and> (hd rule = CHR ''?'' \<or> hd rule = c)) \<Longrightarrow> rule \<noteq> [] \<and> hd rule = CHR ''*'' \<Longrightarrow>
     glob_loop rule (c # command) star = glob_loop (tl rule) (c # command) (Some (tl rule, c # command))"
  by (simp only: glob_loop.simps(2) [of rule c command star] simp_thms if_True if_False)

lemma glob_loop_restart:
  "\<not> (rule \<noteq> [] \<and> (hd rule = CHR ''?'' \<or> hd rule = c)) \<Longrightarrow> \<not> (rule \<noteq> [] \<and> hd rule = CHR ''*'') \<Longrightarrow>
     glob_loop rule (c # command) star =
       (case star of Some (after, retry) \<Rightarrow> glob_loop after (tl retry) (Some (after, tl retry)) | None \<Rightarrow> False)"
  by (simp only: glob_loop.simps(2) [of rule c command star] simp_thms if_True if_False)

text \<open>What the loop keeps: the rule since the last star has matched the text since \<open>retry\<close>.\<close>

definition glob_inv :: "string \<Rightarrow> string \<Rightarrow> (string \<times> string) option \<Rightarrow> bool" where
  "glob_inv r c st = (case st of None \<Rightarrow> True
     | Some (a, rt) \<Rightarrow> CHR ''*'' \<notin> set rt \<and>
         (\<exists>m u. a = m @ r \<and> CHR ''*'' \<notin> set m \<and> length u = length m \<and> rt = u @ c \<and> wildcard False m u))"

definition glob_later :: "(string \<times> string) option \<Rightarrow> bool" where
  "glob_later st = (case st of None \<Rightarrow> False | Some (a, rt) \<Rightarrow> (\<exists>x b. x \<noteq> [] \<and> rt = x @ b \<and> wildcard False a b))"

lemma glob_later_exhausted: "glob_inv r [] st \<Longrightarrow> \<not> glob_later st"
proof
  assume inv: "glob_inv r [] st" and later: "glob_later st"
  obtain a rt where st: "st = Some (a, rt)" using later by (auto simp: glob_later_def split: option.splits)
  obtain m u where mu: "a = m @ r" "CHR ''*'' \<notin> set m" "length u = length m" "rt = u"
    using inv st by (auto simp: glob_inv_def)
  obtain x b where xb: "x \<noteq> []" "rt = x @ b" "wildcard False (m @ r) b" using later st mu(1) by (auto simp: glob_later_def)
  have "length m \<le> length b" by (rule wildcard_free_length [OF mu(2) xb(3)])
  moreover have "length x + length b = length m" using mu(3,4) xb(2) by (metis length_append)
  moreover have "0 < length x" using xb(1) by simp
  ultimately show False by linarith
qed

lemma glob_later_star:
  assumes "glob_inv (CHR ''*'' # r) c st" and "glob_later st"
  shows "wildcard False (CHR ''*'' # r) c"
proof -
  obtain a rt where st: "st = Some (a, rt)" using assms(2) by (auto simp: glob_later_def split: option.splits)
  obtain m u where mu: "a = m @ CHR ''*'' # r" "CHR ''*'' \<notin> set m" "length u = length m" "rt = u @ c"
    using assms(1) st by (auto simp: glob_inv_def)
  obtain x b where xb: "x \<noteq> []" "rt = x @ b" "wildcard False a b" using assms(2) st by (auto simp: glob_later_def)
  have "length m \<le> length b" using wildcard_free_length [OF mu(2)] xb(3) mu(1) by blast
  then obtain u2 b2 where b: "b = u2 @ b2" "length u2 = length m" by (metis append_take_drop_id length_take min.absorb2)
  then have "wildcard False (CHR ''*'' # r) b2" using xb(3) wildcard_snoc_free [OF mu(2), of u2] mu(1) by simp
  then obtain y z where yz: "b2 = y @ z" "wildcard False r z" by (auto simp: wildcard_star_iff)
  have "u @ c = (x @ u2 @ y) @ z" "length u \<le> length (x @ u2 @ y)" using mu xb b yz by simp_all
  then have "\<exists>w. c = w @ z" by (metis append_eq_append_conv2 append_eq_append_conv_if append_assoc)
  then show ?thesis using yz(2) by (auto simp: wildcard_star_iff)
qed

lemma glob_later_Cons: "glob_later (Some (a, y # t)) \<longleftrightarrow> wildcard False a t \<or> glob_later (Some (a, t))"
proof
  assume "glob_later (Some (a, y # t))"
  then obtain x b where "x \<noteq> []" "y # t = x @ b" "wildcard False a b" by (auto simp: glob_later_def)
  then show "wildcard False a t \<or> glob_later (Some (a, t))"
    by (cases x; cases "tl x = []") (auto simp: glob_later_def)
next
  assume "wildcard False a t \<or> glob_later (Some (a, t))"
  then show "glob_later (Some (a, y # t))"
  proof
    assume "wildcard False a t"
    then show ?thesis unfolding glob_later_def option.case prod.case by (intro exI [of _ "[y]"] exI [of _ t]) simp
  next
    assume "glob_later (Some (a, t))"
    then obtain x b where "t = x @ b" "wildcard False a b" by (auto simp: glob_later_def)
    then show ?thesis unfolding glob_later_def option.case prod.case by (intro exI [of _ "y # x"] exI [of _ b]) simp
  qed
qed

lemma glob_loop_wildcard:
  "CHR ''*'' \<notin> set c \<Longrightarrow> glob_inv r c st \<Longrightarrow> glob_loop r c st = (wildcard False r c \<or> glob_later st)"
proof (induction r c st rule: glob_loop.induct)
  case (1 rule star)
  then show ?case using glob_later_exhausted by (simp add: wildcard_stars)
next
  case (2 rule c command star)
  note IH = "2.IH"
  have free: "CHR ''*'' \<notin> set command" "c \<noteq> CHR ''*''" using "2.prems"(1) by auto
  consider
    (match) p rs where "rule = p # rs" "p = CHR ''?'' \<or> p = c"
  | (star) rs where "rule = CHR ''*'' # rs"
  | (restart) "\<not> (rule \<noteq> [] \<and> (hd rule = CHR ''?'' \<or> hd rule = c))" "\<not> (rule \<noteq> [] \<and> hd rule = CHR ''*'')"
    by (cases rule) auto
  then show ?case
  proof cases
    case match
    have "glob_inv rs command star"
    proof (cases star)
      case (Some ar)
      obtain a rt where ar: "ar = (a, rt)" by (cases ar)
      obtain m u where "a = m @ rule" "CHR ''*'' \<notin> set m" "length u = length m" "rt = u @ c # command" "wildcard False m u"
        "CHR ''*'' \<notin> set rt"
        using "2.prems"(2) Some ar by (auto simp: glob_inv_def)
      moreover have "p \<noteq> CHR ''*''" using match free by auto
      moreover have "wildcard False (m @ [p]) (u @ [c])"
        using calculation(2,3,5) match \<open>p \<noteq> CHR ''*''\<close> by (simp add: wildcard_snoc_free same_char_def)
      ultimately show ?thesis
        using match Some ar unfolding glob_inv_def
        by (auto intro!: exI [of _ "m @ [p]"] exI [of _ "u @ [c]"])
    qed (simp add: glob_inv_def)
    then show ?thesis
      using IH(1) match free glob_loop_match [of rule c command star] by (auto simp: same_char_def)
  next
    case star
    have inv: "glob_inv rs (c # command) (Some (rs, c # command))"
      using "2.prems"(1) by (auto simp: glob_inv_def intro!: exI [of _ "[]"])
    have "glob_later (Some (rs, c # command)) \<or> wildcard False rs (c # command) \<longleftrightarrow> wildcard False rule (c # command)"
      unfolding star wildcard_star_iff by (auto simp: glob_later_def) (metis append_Nil)
    moreover have "glob_later star \<Longrightarrow> wildcard False rule (c # command)"
      using glob_later_star "2.prems"(2) star by blast
    moreover have "glob_loop rule (c # command) star = glob_loop rs (c # command) (Some (rs, c # command))"
      using star free glob_loop_star [of rule c command star] by simp
    ultimately show ?thesis
      using IH(2) inv "2.prems"(1) star free by auto
  next
    case restart
    have no: "\<not> wildcard False rule (c # command)"
      using restart by (cases rule) (auto simp: same_char_def)
    show ?thesis
    proof (cases star)
      case None
      then show ?thesis using no glob_loop_restart [OF restart, of command star] by (simp add: glob_later_def)
    next
      case (Some ar)
      obtain a rt where ar: "ar = (a, rt)" by (cases ar)
      have rt: "CHR ''*'' \<notin> set rt" "rt \<noteq> []" using "2.prems"(2) Some ar by (auto simp: glob_inv_def)
      then have "CHR ''*'' \<notin> set (tl rt)" by (cases rt) auto
      moreover have "glob_inv a (tl rt) (Some (a, tl rt))"
        using \<open>CHR ''*'' \<notin> set (tl rt)\<close> by (auto simp: glob_inv_def intro!: exI [of _ "[]"])
      moreover have "glob_loop rule (c # command) star = glob_loop a (tl rt) (Some (a, tl rt))"
        using glob_loop_restart [OF restart, of command star] Some ar by simp
      moreover have "wildcard False a (tl rt) \<or> glob_later (Some (a, tl rt)) \<longleftrightarrow> glob_later star"
        using rt(2) Some ar by (cases rt) (auto simp: glob_later_Cons)
      ultimately show ?thesis using IH(3) [OF restart Some ar [symmetric]] no by blast
    qed
  qed
qed

lemma js_lower_star: "CHR ''*'' \<in> set (js_lower s) \<longleftrightarrow> CHR ''*'' \<in> set s"
proof -
  have star: "(of_char CHR ''*'' :: nat) = 42" by simp
  have "lower_char c = CHR ''*'' \<longleftrightarrow> c = CHR ''*''" for c
    unfolding char_code_eq [of _ "CHR ''*''"] lower_char_code Let_def star by (simp split: if_splits)
  then show ?thesis unfolding js_lower_def set_map by (metis image_iff)
qed

lemma jm_delete_absent: "jm_get k m = None \<Longrightarrow> jm_delete k m = m"
  by (auto simp: jm_delete_def jm_get_None_iff filter_id_conv image_iff)

lemma reinsert_append: "reinsert k v m = jm_delete k m @ [(k, v)]"
  unfolding reinsert_def by (rule jm_set_fresh) simp

text \<open>The denied patterns stand behind every other entry of the table.\<close>

definition deny_tail :: "(string, permission_action) jsmap \<Rightarrow> string set \<Rightarrow> bool" where
  "deny_tail t S = (\<exists>front rear. t = front @ rear \<and> fst ` set rear = S \<and> (\<forall>e \<in> set rear. snd e = DenyA))"

lemma deny_tail_reinsert: "deny_tail t S \<Longrightarrow> deny_tail (reinsert k DenyA t) (insert k S)"
proof -
  assume "deny_tail t S"
  then obtain front rear where t: "t = front @ rear" "fst ` set rear = S" "\<forall>e \<in> set rear. snd e = DenyA"
    by (auto simp: deny_tail_def)
  have "reinsert k DenyA t = jm_delete k front @ (jm_delete k rear @ [(k, DenyA)])"
    by (simp add: reinsert_append t(1) jm_delete_def)
  moreover have "fst ` set (jm_delete k rear @ [(k, DenyA)]) = insert k S"
    using t(2) by (auto simp: jm_delete_def)
  moreover have "\<forall>e \<in> set (jm_delete k rear @ [(k, DenyA)]). snd e = DenyA"
    using t(3) by (auto simp: jm_delete_def)
  ultimately show ?thesis unfolding deny_tail_def by blast
qed

lemma bash_table_apply:
  "bash_table (apply_execution_rule rule permissions) =
     (if er_action rule = ''shell'' then reinsert (er_resource rule) (er_effect rule) (bash_table permissions)
      else bash_table permissions)"
  by (auto simp: apply_execution_rule_def bash_table_def)

definition shell_resources :: "engine_rule list \<Rightarrow> string set" where
  "shell_resources rules = er_resource ` {r \<in> set rules. er_action r = ''shell''}"

lemma deny_tail_rules:
  "deny_tail (bash_table block) S \<Longrightarrow> (\<And>r. r \<in> set rules \<Longrightarrow> er_effect r = DenyA) \<Longrightarrow>
     deny_tail (bash_table (fold apply_execution_rule rules block)) (S \<union> shell_resources rules)"
proof (induction rules arbitrary: block S)
  case Nil
  then show ?case by (simp add: shell_resources_def)
next
  case (Cons r rules)
  have "deny_tail (bash_table (apply_execution_rule r block)) (if er_action r = ''shell'' then insert (er_resource r) S else S)"
    using Cons.prems by (auto simp: bash_table_apply deny_tail_reinsert)
  then have "deny_tail (bash_table (fold apply_execution_rule (r # rules) block))
      ((if er_action r = ''shell'' then insert (er_resource r) S else S) \<union> shell_resources rules)"
    using Cons.IH Cons.prems(2) by simp
  moreover have "(if er_action r = ''shell'' then insert (er_resource r) S else S) \<union> shell_resources rules = S \<union> shell_resources (r # rules)"
    by (auto simp: shell_resources_def)
  ultimately show ?case by simp
qed

lemma executionRules_deny: "r \<in> set (executionRules policy) \<Longrightarrow> er_effect r = DenyA"
  by (auto simp: executionRules_def split: option.splits if_splits)

lemma shell_resources_simps:
  "shell_resources [] = {}" "shell_resources (xs @ ys) = shell_resources xs \<union> shell_resources ys"
  "shell_resources (r # rs) = (if er_action r = ''shell'' then {er_resource r} else {}) \<union> shell_resources rs"
  by (auto simp: shell_resources_def)

lemma shell_resources_map: "shell_resources (map (\<lambda>r. \<lparr>er_action = ''shell'', er_resource = r, er_effect = e\<rparr>) rs) = set rs"
  by (induction rs) (simp_all add: shell_resources_simps)

lemma executionRules_shell:
  "shell_resources (executionRules (Some p)) = (if commands_deny p then {''*''} else {}) \<union> set (blockedCommands p)"
  by (simp add: executionRules_def shell_resources_simps shell_resources_map)

lemma deny_tail_winner:
  assumes "deny_tail t S" and "p \<in> S" and "matchesPermissionPattern win command p"
  shows "decided_action (winningRule win (bash_rules t) (''bash'', command)) = DenyA"
proof -
  obtain front rear where t: "t = front @ rear" "fst ` set rear = S" "\<forall>e \<in> set rear. snd e = DenyA"
    using assms(1) by (auto simp: deny_tail_def)
  obtain a where a: "(p, a) \<in> set rear" using assms(2) t(2) by (auto simp: image_iff)
  have bash: "matchesPermissionPattern win ''bash'' ''bash''"
    by (simp add: matchesPermissionPattern_def same_char_def slashes_def replace_char_def)
  have "\<not> (\<forall>r \<in> set (bash_rules rear). \<not> rule_applies win r (''bash'', command))"
    using a bash assms(3) by (force simp: bash_rules_def rule_applies_def)
  then obtain r where r: "winningRule win (bash_rules rear) (''bash'', command) = Some r"
    by (cases "winningRule win (bash_rules rear) (''bash'', command)") (auto simp: wr.winner_None_iff)
  then have "r \<in> set (bash_rules rear)" unfolding wr.winner_Some_iff by auto
  then have "rule_action r = DenyA" using t(3) by (auto simp: bash_rules_def)
  moreover have "bash_rules t = bash_rules front @ bash_rules rear" by (simp add: t(1) bash_rules_def)
  ultimately show ?thesis using r by (simp add: wr.winner_append decided_action_def)
qed

section \<open>Properties\<close>



text \<open>C34. The blocked-command matcher agrees with the pattern semantics, without case, on every command
  that has no star: its greedy backtracking to the last star loses no match.\<close>

theorem blocked_pattern_semantics:
  assumes "CHR ''*'' \<notin> set command"
  shows "glob_matches pattern command \<longleftrightarrow> js_lower command \<in> pattern_texts False (js_lower pattern)"
  using glob_loop_wildcard [of "js_lower command" "js_lower pattern" None] assms
  by (simp add: glob_matches_def glob_inv_def glob_later_def js_lower_star wildcard_texts)

theorem blocked_pattern_semantics_witness:
  "glob_matches ''RM *.t?t'' ''rm a.tx b.txt'' \<longleftrightarrow> js_lower ''rm a.tx b.txt'' \<in> pattern_texts False (js_lower ''RM *.t?t'')"
  by (rule blocked_pattern_semantics) simp

text \<open>On a command that has a star the matcher can fail: a star of the command is matched with the
  star of the pattern as an ordinary character, so the pattern \<open>rm *\<close> does not
  block \<open>rm *.txt\<close>, and the server's answer lets the command through.\<close>

theorem starred_command_not_blocked:
  "js_lower ''rm *.txt'' \<in> pattern_texts False (js_lower ''rm *'') \<and> \<not> glob_matches ''rm *'' ''rm *.txt'' \<and>
   policyDenial parse_url
     \<lparr>execution = Some \<lparr>commands_deny = False, blockedCommands = [''rm *''], browserOrigins = None, blockBrowserUploads = False\<rparr>,
      allowCustomProviders = None, allowZenModel = None, allowMultipleWorkspaces = None, allowControlSettings = None,
      allowManageExtensions = None, allowBuiltInExtensions = None\<rparr>
     ShellP (JObj [(''command'', JStr ''rm *.txt'')]) = None"
proof (intro conjI)
  show "js_lower ''rm *.txt'' \<in> pattern_texts False (js_lower ''rm *'')"
    unfolding wildcard_texts [symmetric] by code_simp
  show no: "\<not> glob_matches ''rm *'' ''rm *.txt''" by code_simp
  show "policyDenial parse_url
     \<lparr>execution = Some \<lparr>commands_deny = False, blockedCommands = [''rm *''], browserOrigins = None, blockBrowserUploads = False\<rparr>,
      allowCustomProviders = None, allowZenModel = None, allowMultipleWorkspaces = None, allowControlSettings = None,
      allowManageExtensions = None, allowBuiltInExtensions = None\<rparr>
     ShellP (JObj [(''command'', JStr ''rm *.txt'')]) = None"
    using no by (simp add: policyDenial_def Let_def input_string_def)
qed

text \<open>An origin passes a policy that does not list origins, or that lists it.\<close>

definition origin_passes :: "execution_policy \<Rightarrow> string \<Rightarrow> bool" where
  "origin_passes p origin = (case browserOrigins p of None \<Rightarrow> True | Some os \<Rightarrow> origin \<in> set os)"

lemma merge_execution_simps:
  "commands_deny (merge_execution p r) = (commands_deny r \<or> commands_deny p)"
  "set (blockedCommands (merge_execution p r)) = set (blockedCommands r) \<union> set (blockedCommands p)"
  "blockBrowserUploads (merge_execution p r) = (blockBrowserUploads r \<or> blockBrowserUploads p)"
  "origin_passes (merge_execution p r) x = (origin_passes r x \<and> origin_passes p x)"
  by (auto simp: merge_execution_def origin_passes_def split: option.splits)

lemma merge_documents:
  "fold (\<lambda>d result. case d of None \<Rightarrow> result | Some policy \<Rightarrow> merge_execution policy result) ds r
     = fold merge_execution (List.map_filter id ds) r"
  by (induction ds arbitrary: r) (auto simp: map_filter_simps split: option.splits)

lemma merge_all:
  "commands_deny (fold merge_execution ps r) = (commands_deny r \<or> list_ex commands_deny ps)"
  "set (blockedCommands (fold merge_execution ps r)) = set (blockedCommands r) \<union> \<Union> ((\<lambda>p. set (blockedCommands p)) ` set ps)"
  "blockBrowserUploads (fold merge_execution ps r) = (blockBrowserUploads r \<or> list_ex blockBrowserUploads ps)"
  "origin_passes (fold merge_execution ps r) x = (origin_passes r x \<and> list_all (\<lambda>p. origin_passes p x) ps)"
  by (induction ps arbitrary: r) (auto simp: merge_execution_simps)

text \<open>Execution policies intersect: the merged policy denies commands if one of them does, blocks
  every pattern one of them blocks, blocks uploads if one does, and lets an origin
  pass only if every policy does. So the order of the policies does not matter,
  and adding one never permits more.\<close>

theorem execution_policies_intersect:
  "commands_deny (resolveDesktopExecutionPolicy documents) = list_ex commands_deny (List.map_filter id documents) \<and>
   set (blockedCommands (resolveDesktopExecutionPolicy documents))
     = \<Union> ((\<lambda>p. set (blockedCommands p)) ` set (List.map_filter id documents)) \<and>
   blockBrowserUploads (resolveDesktopExecutionPolicy documents) = list_ex blockBrowserUploads (List.map_filter id documents) \<and>
   origin_passes (resolveDesktopExecutionPolicy documents) x = list_all (\<lambda>p. origin_passes p x) (List.map_filter id documents)"
  unfolding resolveDesktopExecutionPolicy_def merge_documents merge_all by (simp add: origin_passes_def)

end
