(* ===== verification/Approvals.thy ===== *)
theory Approvals
  imports ManagedPolicy
begin

text \<open>
  \<open>apps/server/src/approvals.ts\<close>, the approval questions of the server, and
  \<open>approval-mode.ts\<close>, the approval mode of the engine.

  A promise is resolved by an entry in \<open>resolutions\<close>; the timer of a question is
  an entry in \<open>timers\<close> until it fires or is cleared. \<open>shortId()\<close>, the clock and the
  reply are arguments of the steps.
\<close>

section \<open>Approval questions\<close>

record 'a approval_request =
  ar_id :: string
  ar_input :: 'a
  ar_createdAt :: int

record approval_result =
  result_id :: string
  result_allowed :: bool
  result_reason :: "string option"

record 'a approval_service =
  auto_mode :: bool
  asked_requests :: "(string, 'a approval_request) jsmap"
  timers :: "string list"
  resolutions :: "approval_result list"

definition list_requests :: "'a approval_service \<Rightarrow> 'a approval_request list" where
  "list_requests st = jm_values (asked_requests st)"

text \<open>\<open>requestApproval\<close>: the immediate answer in auto mode, else a pending question with its timer.\<close>

definition requestApproval :: "string \<Rightarrow> int \<Rightarrow> 'a \<Rightarrow> 'a approval_service \<Rightarrow> approval_result option \<times> 'a approval_service" where
  "requestApproval rid now input st =
     (if auto_mode st then (Some \<lparr>result_id = ''auto'', result_allowed = True, result_reason = None\<rparr>, st)
      else
        (None, st\<lparr>asked_requests := jm_set rid \<lparr>ar_id = rid, ar_input = input, ar_createdAt = now\<rparr> (asked_requests st),
                  timers := timers st @ [rid]\<rparr>))"

definition timeout_fires :: "string \<Rightarrow> 'a approval_service \<Rightarrow> 'a approval_service" where
  "timeout_fires rid st =
     st\<lparr>asked_requests := jm_delete rid (asked_requests st), timers := filter (\<lambda>t. t \<noteq> rid) (timers st),
        resolutions := resolutions st @ [\<lparr>result_id = rid, result_allowed = False, result_reason = Some ''timeout''\<rparr>]\<rparr>"

definition respond :: "string \<Rightarrow> bool \<Rightarrow> 'a approval_service \<Rightarrow> approval_result option \<times> 'a approval_service" where
  "respond rid allow st =
     (case jm_get rid (asked_requests st) of
        None \<Rightarrow> (None, st)
      | Some _ \<Rightarrow>
          (let result = \<lparr>result_id = rid, result_allowed = allow, result_reason = (if allow then None else Some ''denied'')\<rparr>
           in (Some result,
               st\<lparr>asked_requests := jm_delete rid (asked_requests st), timers := filter (\<lambda>t. t \<noteq> rid) (timers st),
                  resolutions := resolutions st @ [result]\<rparr>)))"

text \<open>
  The runs of a service. \<open>shortId\<close> yields a new id each time (it is a random UUID).
  \<open>asked\<close> collects the ids of the questions, \<open>allowed\<close> the ids a reply allowed.
\<close>

inductive approval_run :: "'a approval_service \<Rightarrow> string list \<Rightarrow> string set \<Rightarrow> bool" where
  run_start: "approval_run \<lparr>auto_mode = m, asked_requests = [], timers = [], resolutions = []\<rparr> [] {}"
| run_request: "approval_run st asked allowed \<Longrightarrow> rid \<notin> set asked \<Longrightarrow>
    approval_run (snd (requestApproval rid now input st)) (if auto_mode st then asked else rid # asked) allowed"
| run_timeout: "approval_run st asked allowed \<Longrightarrow> rid \<in> set (timers st) \<Longrightarrow> approval_run (timeout_fires rid st) asked allowed"
| run_respond: "approval_run st asked allowed \<Longrightarrow>
    approval_run (snd (respond rid allow st)) asked (if allow then insert rid allowed else allowed)"

definition approval_inv :: "'a approval_service \<Rightarrow> string list \<Rightarrow> string set \<Rightarrow> bool" where
  "approval_inv st asked allowed =
     (distinct asked \<and> jm_wf (asked_requests st) \<and> set (timers st) = fst ` set (asked_requests st) \<and>
      distinct (map result_id (resolutions st)) \<and>
      set asked = fst ` set (asked_requests st) \<union> result_id ` set (resolutions st) \<and>
      fst ` set (asked_requests st) \<inter> result_id ` set (resolutions st) = {} \<and>
      (\<forall>r \<in> set (resolutions st). (result_allowed r \<longrightarrow> result_id r \<in> allowed) \<and>
         result_reason r = (if result_allowed r then None else result_reason r) \<and>
         (\<not> result_allowed r \<longrightarrow> result_reason r \<in> {Some ''timeout'', Some ''denied''})))"

lemma jm_delete_keys: "fst ` set (jm_delete k m) = fst ` set m - {k}"
  by (auto simp: jm_delete_def)

lemma approval_inv_resolve:
  assumes "approval_inv st asked allowed" and "rid \<in> fst ` set (asked_requests st)"
    and "result_id r = rid" and "result_allowed r \<Longrightarrow> rid \<in> allowed' \<and> result_reason r = None"
    and "\<not> result_allowed r \<Longrightarrow> result_reason r \<in> {Some ''timeout'', Some ''denied''}" and "allowed \<subseteq> allowed'"
  shows "approval_inv (st\<lparr>asked_requests := jm_delete rid (asked_requests st), timers := filter (\<lambda>t. t \<noteq> rid) (timers st),
        resolutions := resolutions st @ [r]\<rparr>) asked allowed'"
  using assms unfolding approval_inv_def by (auto simp: jm_delete_keys)

lemma approval_invariant: "approval_run st asked allowed \<Longrightarrow> approval_inv st asked allowed"
proof (induction rule: approval_run.induct)
  case (run_start m)
  then show ?case by (simp add: approval_inv_def)
next
  case (run_request st asked allowed rid now input)
  have "fst ` set (jm_set rid v (asked_requests st)) = insert rid (fst ` set (asked_requests st))" for v
    using jm_keys_set [of rid v "asked_requests st"] by simp
  then show ?case
    using run_request unfolding approval_inv_def by (auto simp: requestApproval_def)
next
  case (run_timeout st asked allowed rid)
  then have "rid \<in> fst ` set (asked_requests st)" by (simp add: approval_inv_def)
  then show ?case
    using approval_inv_resolve [OF run_timeout.IH, of rid "\<lparr>result_id = rid, result_allowed = False, result_reason = Some ''timeout''\<rparr>" allowed]
    by (simp add: timeout_fires_def)
next
  case (run_respond st asked allowed rid allow)
  show ?case
  proof (cases "jm_get rid (asked_requests st)")
    case None
    have "approval_inv st asked (if allow then insert rid allowed else allowed)"
      using run_respond.IH unfolding approval_inv_def by auto
    then show ?thesis using None by (simp add: respond_def)
  next
    case (Some q)
    then have "rid \<in> fst ` set (asked_requests st)" by (metis fst_conv image_eqI jm_get_mem)
    moreover have "allowed \<subseteq> (if allow then insert rid allowed else allowed)" by auto
    ultimately show ?thesis
      using approval_inv_resolve [OF run_respond.IH, of rid
          "\<lparr>result_id = rid, result_allowed = allow, result_reason = (if allow then None else Some ''denied'')\<rparr>"
          "if allow then insert rid allowed else allowed"] Some
      by (cases allow) (simp_all add: respond_def Let_def)
  qed
qed

text \<open>A question is answered at most once, and only a reply allows it: in every run the ids of the
  questions are those still pending and those resolved, no id is both or resolved
  twice, every pending question still has its timer, and an allowed resolution was
  allowed by a reply to that id (a timeout never allows).\<close>

theorem approvals_resolve_once:
  assumes "approval_run st asked allowed"
  shows "set asked = fst ` set (asked_requests st) \<union> result_id ` set (resolutions st) \<and>
    fst ` set (asked_requests st) \<inter> result_id ` set (resolutions st) = {} \<and>
    distinct (map result_id (resolutions st)) \<and> set (timers st) = fst ` set (asked_requests st) \<and>
    list_all (\<lambda>r. result_allowed r = (result_reason r = None)) (resolutions st) \<and>
    result_id ` set (filter result_allowed (resolutions st)) \<subseteq> allowed"
  using approval_invariant [OF assms] unfolding approval_inv_def list_all_iff by auto

theorem approvals_resolve_once_witness:
  "\<exists>st. approval_run (st :: string approval_service) [''b'', ''a''] {''a''} \<and>
     result_id ` set (filter result_allowed (resolutions st)) \<subseteq> {''a''} \<and> list_requests st = []"
proof -
  let ?s0 = "\<lparr>auto_mode = False, asked_requests = [], timers = [], resolutions = []\<rparr> :: string approval_service"
  let ?s1 = "snd (requestApproval ''a'' 1 ''x'' ?s0)"
  let ?s2 = "snd (requestApproval ''b'' 2 ''y'' ?s1)"
  let ?s3 = "snd (respond ''a'' True ?s2)"
  let ?s4 = "timeout_fires ''b'' ?s3"
  have "approval_run ?s1 [''a''] {}" using run_request [OF run_start, of "''a''" 1 "''x''" False] by simp
  then have "approval_run ?s2 [''b'', ''a''] {}"
    using run_request [of ?s1 "[''a'']" "{}" "''b''" 2 "''y''"] by (simp add: requestApproval_def)
  then have "approval_run ?s3 [''b'', ''a''] {''a''}" using run_respond [of ?s2 _ _ "''a''" True] by simp
  then have run: "approval_run ?s4 [''b'', ''a''] {''a''}"
    by (rule run_timeout) (simp add: requestApproval_def respond_def Let_def jm_delete_def)
  have "list_requests ?s4 = []"
    by (simp add: list_requests_def requestApproval_def respond_def timeout_fires_def Let_def jm_delete_def jm_values_def)
  moreover have "result_id ` set (filter result_allowed (resolutions ?s4)) \<subseteq> {''a''}"
    using approvals_resolve_once [OF run] by (elim conjE)
  ultimately show ?thesis using run by (intro exI [of _ ?s4] conjI)
qed

section \<open>Approval mode\<close>

datatype mode_source = EnvironmentSource | SettingsSource | DefaultSource

record resolved_mode =
  rm_mode :: approval_mode
  rm_source :: mode_source
  rm_setting :: "approval_mode option"

definition DEFAULT_APPROVAL_MODE :: approval_mode where
  "DEFAULT_APPROVAL_MODE = GuardedMode"

definition parseApprovalMode :: "string option \<Rightarrow> approval_mode option" where
  "parseApprovalMode value =
     (case value of
        None \<Rightarrow> None
      | Some text \<Rightarrow>
          (let mode = js_lower (js_trim text) in
           if mode = ''careful'' then Some CarefulMode
           else if mode = ''guarded'' then Some GuardedMode
           else if mode = ''full'' then Some FullMode
           else if mode = ''normal'' then Some GuardedMode
           else if mode = ''auto'' then Some FullMode
           else None))"

definition resolveApprovalMode :: "approval_mode option \<Rightarrow> string option \<Rightarrow> resolved_mode" where
  "resolveApprovalMode setting env =
     (case parseApprovalMode env of
        Some m \<Rightarrow> \<lparr>rm_mode = m, rm_source = EnvironmentSource, rm_setting = setting\<rparr>
      | None \<Rightarrow>
          (case setting of
             Some m \<Rightarrow> \<lparr>rm_mode = m, rm_source = SettingsSource, rm_setting = setting\<rparr>
           | None \<Rightarrow> \<lparr>rm_mode = DEFAULT_APPROVAL_MODE, rm_source = DefaultSource, rm_setting = setting\<rparr>))"

definition permissionSetupSettings :: "approval_mode option \<Rightarrow> (string \<times> string) list" where
  "permissionSetupSettings mode =
     (if mode = Some CarefulMode then [(''permission_mode'', ''careful'')]
      else if mode = Some GuardedMode then [(''permission_mode'', ''normal'')]
      else [])"

end
