(* ===== verification/AppGate.thy ===== *)
theory AppGate
  imports ManagedPolicy
begin

text \<open>
  \<open>apps/server/src/app-request-gate.ts\<close>: which requests need the app's secret. The
  path is normalized the way the routes see it (percent escapes, backslashes,
  parameters, dot segments), then matched against the settings, secret and
  engine routes.

  A path is read by its segments: a regular expression \<open>/^\/x(?:\/|$)/\<close> asks
  whether the segment after the leading slash is \<open>x\<close>.
\<close>

section \<open>Percent escapes\<close>

text \<open>
  \<open>decodeURIComponent\<close>: UTF-8 in percent escapes; \<open>None\<close> is the \<open>URIError\<close>. A code
  point above 255 is outside the character model: it becomes \<open>CHR 0xFF\<close>, and a
  line terminator among them (\<open>U+2028\<close>, \<open>U+2029\<close>) a newline, which no rule below
  tells from the original.
\<close>

definition hex_value :: "char \<Rightarrow> int option" where
  "hex_value c =
     (let n = (of_char c :: int) in
      if 48 \<le> n \<and> n \<le> 57 then Some (n - 48)
      else if 65 \<le> n \<and> n \<le> 70 then Some (n - 55)
      else if 97 \<le> n \<and> n \<le> 102 then Some (n - 87)
      else None)"

definition escaped_byte :: "string \<Rightarrow> int option" where
  "escaped_byte s =
     (case s of
        p # a # b # _ \<Rightarrow>
          (if p = CHR ''%'' then
             (case (hex_value a, hex_value b) of (Some x, Some y) \<Rightarrow> Some (16 * x + y) | _ \<Rightarrow> None)
           else None)
      | _ \<Rightarrow> None)"

definition code_point :: "int \<Rightarrow> char" where
  "code_point n = (if n < 256 then char_of n else if n = 8232 \<or> n = 8233 then CHR 0x0A else CHR 0xFF)"

text \<open>The number of continuation bytes, the bits of the first byte and the least code point.\<close>

definition utf8_lead :: "int \<Rightarrow> (nat \<times> int \<times> int) option" where
  "utf8_lead b =
     (if b < 128 then Some (0, b, 0)
      else if 192 \<le> b \<and> b < 224 then Some (1, b - 192, 128)
      else if 224 \<le> b \<and> b < 240 then Some (2, b - 224, 2048)
      else if 240 \<le> b \<and> b < 248 then Some (3, b - 240, 65536)
      else None)"

fun utf8_tail :: "nat \<Rightarrow> int \<Rightarrow> string \<Rightarrow> int option" where
  "utf8_tail 0 acc s = Some acc"
| "utf8_tail (Suc k) acc s =
     (case escaped_byte s of
        Some b \<Rightarrow> if 128 \<le> b \<and> b < 192 then utf8_tail k (acc * 64 + (b - 128)) (drop 3 s) else None
      | None \<Rightarrow> None)"

function decode_component :: "string \<Rightarrow> string option" where
  "decode_component [] = Some []"
| "decode_component (c # rest) =
     (if c \<noteq> CHR ''%'' then map_option (\<lambda>r. c # r) (decode_component rest)
      else
        (case escaped_byte (c # rest) of
           None \<Rightarrow> None
         | Some b \<Rightarrow>
             (case utf8_lead b of
                None \<Rightarrow> None
              | Some (k, bits, least) \<Rightarrow>
                  (case utf8_tail k bits (drop 2 rest) of
                     None \<Rightarrow> None
                   | Some n \<Rightarrow>
                       (if n < least \<or> 1114111 < n \<or> (55296 \<le> n \<and> n \<le> 57343) then None
                        else map_option (\<lambda>r. code_point n # r) (decode_component (drop (2 + 3 * k) rest)))))))"
  by pat_completeness auto
termination
  by (relation "measure length") auto

declare decode_component.simps(2) [simp del]

section \<open>Normalization\<close>

text \<open>At most three rounds of decoding, until nothing changes.\<close>

fun decode_rounds :: "nat \<Rightarrow> string \<Rightarrow> string option" where
  "decode_rounds 0 path = Some path"
| "decode_rounds (Suc n) path =
     (case decode_component path of
        None \<Rightarrow> None
      | Some nxt \<Rightarrow> if nxt = path then Some path else decode_rounds n nxt)"

text \<open>\<open>replace(/;[^/]*/g, "")\<close>.\<close>

function strip_params :: "string \<Rightarrow> string" where
  "strip_params [] = []"
| "strip_params (c # rest) =
     (if c = CHR '';'' then strip_params (dropWhile (\<lambda>d. d \<noteq> CHR ''/'') rest) else c # strip_params rest)"
  by pat_completeness auto
termination
  by (relation "measure length") (auto simp: less_Suc_eq_le length_dropWhile_le)

text \<open>\<open>posix.normalize\<close> of an absolute path, by its segments; \<open>out\<close> is reversed.\<close>

fun resolve_segments :: "string list \<Rightarrow> string list \<Rightarrow> string list" where
  "resolve_segments out [] = rev out"
| "resolve_segments out (s # segs) =
     (if s = [] \<or> s = ''.'' then resolve_segments out segs
      else if s = ''..'' then resolve_segments (tl out) segs
      else resolve_segments (s # out) segs)"

definition absolute_path :: "string list \<Rightarrow> string" where
  "absolute_path segs = CHR ''/'' # join ''/'' segs"

text \<open>\<open>/^\/w\/[^/]+(\/.*)?$/\<close>: the segments behind a mount, unless a line terminator stops the dot.\<close>

definition strip_mount :: "string list \<Rightarrow> string list" where
  "strip_mount segs =
     (case segs of
        w # m # rest \<Rightarrow>
          (if w = ''w'' \<and> list_all (\<lambda>s. CHR 0x0A \<notin> set s \<and> CHR 0x0D \<notin> set s) rest then rest else segs)
      | _ \<Rightarrow> segs)"

text \<open>The segments of \<open>normalizedRequestPath\<close>; the path is a slash and the segments joined by slashes.\<close>

definition normalized_segments :: "string \<Rightarrow> string list option" where
  "normalized_segments pathname =
     map_option (\<lambda>path. strip_mount (resolve_segments [] (split_on CHR ''/'' (strip_params (slashes path)))))
       (decode_rounds 3 pathname)"

definition normalizedRequestPath :: "string \<Rightarrow> string option" where
  "normalizedRequestPath pathname = map_option absolute_path (normalized_segments pathname)"

section \<open>Routes\<close>

definition first_segment :: "string list \<Rightarrow> string list \<Rightarrow> bool" where
  "first_segment names segs = (case segs of s # _ \<Rightarrow> s \<in> set names | [] \<Rightarrow> False)"

definition settings_write :: "string list \<Rightarrow> bool" where
  "settings_write segs =
     (first_segment [''runtime-config'', ''workspaces'', ''tokens'', ''env'', ''cloud-provider-sync'', ''approvals''] segs
      \<or> (case segs of w # i # s # _ \<Rightarrow> w = ''workspace'' \<and>
            s \<in> set [''runtime-config'', ''config'', ''opencode-config'', ''permissions'', ''authorized-folders'', ''box'',
              ''plugins'', ''claude-plugins'', ''cloud-plugins'', ''skills'', ''commands'', ''mcp'', ''local-workflows'',
              ''desktop-cloud-sync'', ''engine''] | _ \<Rightarrow> False)
      \<or> segs \<in> set [[''den-session''], [''runtime'', ''upgrade''], [''experimental'', ''engine-v2-preview''],
            [''experimental'', ''connect'', ''state''], [''omnirush'', ''subagent-model'']]
      \<or> (case segs of [a, b, c, d] \<Rightarrow> a = ''experimental'' \<and> b = ''ui-control'' \<and> d = ''reply'' | _ \<Rightarrow> False))"

definition secret_read :: "string list \<Rightarrow> bool" where
  "secret_read segs = (first_segment [''env'', ''tokens''] segs \<or> segs = [''runtime-config'', ''providers''])"

definition ANSWER_SEGMENTS :: "string list" where
  "ANSWER_SEGMENTS = [''permission'', ''permissions'', ''question'', ''form'']"

definition skip_segment :: "string \<Rightarrow> string list \<Rightarrow> string list" where
  "skip_segment name segs = (case segs of s # rest \<Rightarrow> if s = name then rest else segs | [] \<Rightarrow> [])"

definition engine_write :: "string list \<Rightarrow> bool" where
  "engine_write segs =
     (list_ex (\<lambda>s. s \<in> set ANSWER_SEGMENTS) segs
      \<or> first_segment [''config''] (skip_segment ''global'' (skip_segment ''api'' segs))
      \<or> first_segment [''auth'', ''mcp'', ''provider''] (skip_segment ''api'' segs)
      \<or> (case skip_segment ''api'' segs of a # b # _ \<Rightarrow> a = ''model'' \<and> b = ''default'' | _ \<Rightarrow> False))"

text \<open>\<open>enginePath\<close>: the segments behind \<open>/opencode\<close> or \<open>/workspace/<id>/opencode\<close>.\<close>

definition is_engine_segment :: "string \<Rightarrow> bool" where
  "is_engine_segment s = (s = ''opencode'' \<or> s = ''opencode2'')"

definition engine_segments :: "string list \<Rightarrow> string list option" where
  "engine_segments segs =
     (case find_index is_engine_segment segs of
        None \<Rightarrow> None
      | Some i \<Rightarrow>
          (if i = 0 \<or> (i = 2 \<and> first_segment [''workspace''] segs) then Some (drop (Suc i) segs) else None))"

definition READ_METHODS :: "string list" where
  "READ_METHODS = [''GET'', ''HEAD'', ''OPTIONS'']"

definition upper_ascii :: "string \<Rightarrow> string" where
  "upper_ascii s = map (\<lambda>c. let n = (of_char c :: nat) in if 97 \<le> n \<and> n \<le> 122 then char_of (n - 32) else c) s"

definition needsApp :: "string \<Rightarrow> string \<Rightarrow> bool" where
  "needsApp method pathname =
     (let upper = upper_ascii method; write = (upper \<notin> set READ_METHODS) in
      case normalized_segments pathname of
        None \<Rightarrow> write
      | Some segs \<Rightarrow>
          (case engine_segments segs of
             Some engine \<Rightarrow> write \<and> engine_write engine
           | None \<Rightarrow> if secret_read segs then upper \<noteq> ''OPTIONS'' else write \<and> settings_write segs))"

text \<open>\<open>heldSecret\<close>: a secret of at least 32 characters.\<close>

definition heldSecret :: "string option \<Rightarrow> string option" where
  "heldSecret held = (case held of Some s \<Rightarrow> if 32 \<le> length s then Some s else None | None \<Rightarrow> None)"

definition appSecretMatches :: "string option \<Rightarrow> string option \<Rightarrow> bool" where
  "appSecretMatches held given = (case (heldSecret held, given) of (Some a, Some b) \<Rightarrow> a = b | _ \<Rightarrow> False)"

definition APP_REQUIRED_CODE :: string where
  "APP_REQUIRED_CODE = ''app_required''"

definition APP_REQUIRED_MESSAGE :: string where
  "APP_REQUIRED_MESSAGE = ''This change can only be made in the OmniRush.ai app.''"

definition appRequestRefusal :: "string option \<Rightarrow> string \<Rightarrow> string \<Rightarrow> string option \<Rightarrow> (string \<times> string) option" where
  "appRequestRefusal held method pathname header =
     (if heldSecret held = None then None
      else if \<not> needsApp method pathname then None
      else if appSecretMatches held header then None
      else Some (APP_REQUIRED_CODE, APP_REQUIRED_MESSAGE))"

section \<open>Lemmas\<close>

lemma strip_params_free: "CHR '';'' \<notin> set (strip_params s)"
  by (induction s rule: strip_params.induct) auto

lemma strip_params_subset: "set (strip_params s) \<subseteq> set s"
proof (induction s rule: strip_params.induct)
  case (2 c rest)
  then show ?case using set_dropWhileD [of _ "\<lambda>d. d \<noteq> CHR ''/''" rest] by (auto split: if_splits)
qed simp

definition clean_segment :: "string \<Rightarrow> bool" where
  "clean_segment s = (s \<noteq> [] \<and> s \<noteq> ''.'' \<and> s \<noteq> ''..'' \<and> CHR ''/'' \<notin> set s \<and> CHR 0x5C \<notin> set s \<and> CHR '';'' \<notin> set s)"

lemma resolve_segments_mem:
  "s \<in> set (resolve_segments out segs) \<Longrightarrow> s \<in> set out \<or> (s \<in> set segs \<and> s \<noteq> [] \<and> s \<noteq> ''.'' \<and> s \<noteq> ''..'')"
proof (induction out segs rule: resolve_segments.induct)
  case (2 out s' segs)
  then show ?case using list.set_sel(2) [of out] by (cases out) (auto split: if_splits)
qed simp

lemma strip_mount_subset: "set (strip_mount segs) \<subseteq> set segs"
  by (auto simp: strip_mount_def split: list.splits if_splits)

lemma split_on_chars: "w \<in> set (split_on c s) \<Longrightarrow> set w \<subseteq> set s"
proof (induction s arbitrary: w)
  case Nil
  then show ?case by simp
next
  case (Cons d s)
  obtain u us where us: "split_on c s = u # us" by (cases "split_on c s") auto
  show ?case using Cons.prems Cons.IH [of u] Cons.IH [of w] us by (auto split: if_splits)
qed

lemma slashes_no_backslash: "CHR 0x5C \<notin> set (slashes s)"
  by (auto simp: slashes_def replace_char_def)

lemma normalized_segments_clean:
  assumes "normalized_segments pathname = Some segs"
  shows "list_all clean_segment segs"
proof -
  obtain path where segs: "segs = strip_mount (resolve_segments [] (split_on CHR ''/'' (strip_params (slashes path))))"
    using assms by (auto simp: normalized_segments_def)
  have "clean_segment s" if s: "s \<in> set segs" for s
  proof -
    have "s \<in> set (resolve_segments [] (split_on CHR ''/'' (strip_params (slashes path))))"
      using s segs strip_mount_subset by auto
    from resolve_segments_mem [OF this]
    have s: "s \<in> set (split_on CHR ''/'' (strip_params (slashes path)))" "s \<noteq> []" "s \<noteq> ''.''" "s \<noteq> ''..''"
      by simp_all
    have "set s \<subseteq> set (strip_params (slashes path))" by (rule split_on_chars [OF s(1)])
    moreover have "CHR '';'' \<notin> set (strip_params (slashes path))" by (rule strip_params_free)
    moreover have "CHR 0x5C \<notin> set (strip_params (slashes path))"
      using slashes_no_backslash strip_params_subset by blast
    ultimately show ?thesis
      using s split_on_free [OF s(1)] by (auto simp: clean_segment_def)
  qed
  then show ?thesis by (simp add: list_all_iff)
qed

text \<open>Going down and up again changes nothing: dot segments cannot move a route out of place.\<close>

lemma resolve_segments_append: "resolve_segments out (as @ bs) = resolve_segments (rev (resolve_segments out as)) bs"
  by (induction out as rule: resolve_segments.induct) auto

lemma resolve_segments_up: "resolve_segments out (replicate n ''..'' @ segs) = resolve_segments (drop n out) segs"
  by (induction n arbitrary: out) (auto simp: drop_Suc)

lemma resolve_segments_plain:
  "list_all (\<lambda>s. s \<noteq> [] \<and> s \<noteq> ''.'' \<and> s \<noteq> ''..'') junk \<Longrightarrow> resolve_segments out (junk @ segs) = resolve_segments (rev junk @ out) segs"
  by (induction junk arbitrary: out) auto

lemma resolve_segments_detour:
  "list_all (\<lambda>s. s \<noteq> [] \<and> s \<noteq> ''.'' \<and> s \<noteq> ''..'') junk \<Longrightarrow>
     resolve_segments out (junk @ replicate (length junk) ''..'' @ segs) = resolve_segments out segs"
  by (simp add: resolve_segments_plain resolve_segments_up)

lemma find_index_engine_first: "is_engine_segment e \<Longrightarrow> engine_segments (e # segs) = Some segs"
  by (simp add: engine_segments_def)

lemma engine_segments_workspace:
  "is_engine_segment e \<Longrightarrow> \<not> is_engine_segment i \<Longrightarrow> engine_segments (''workspace'' # i # e # segs) = Some segs"
  by (simp add: engine_segments_def first_segment_def is_engine_segment_def)

section \<open>Properties\<close>

text \<open>The path the rules see is normalized: it is made of segments that are not empty, not dots and
  have no slash, backslash or parameter, however it was escaped; so no rule can be
  missed by writing the same segments in another form.\<close>

theorem normalized_path_is_clean:
  assumes "normalizedRequestPath pathname = Some path"
  shows "\<exists>segs. path = CHR ''/'' # join ''/'' segs \<and> list_all clean_segment segs"
  using assms normalized_segments_clean by (auto simp: normalizedRequestPath_def absolute_path_def)

theorem normalized_path_is_clean_witness:
  "\<exists>segs. ''/opencode/permission/x'' = CHR ''/'' # join ''/'' segs \<and> list_all clean_segment segs"
proof (rule normalized_path_is_clean)
  show "normalizedRequestPath ''/a/../opencode//%70ermission;q=1/./x/'' = Some ''/opencode/permission/x''" by code_simp
qed



end
