(* ===== verification/EventLogs.thy ===== *)
theory EventLogs
  imports Prelude
begin

text \<open>
  The numbered event logs clients poll with a cursor: the reload events of
  \<open>apps/server/src/events.ts\<close> and the workspace events of
  \<open>file-sessions.ts\<close>, with the file sessions themselves. Both logs keep the last
  events only; what a poll promises is stated once, as a locale over the
  operations of a log, and interpreted on both.

  \<open>shortId()\<close> and \<open>Date.now()\<close> are arguments of the operations.
\<close>

section \<open>The contract of a numbered log\<close>

text \<open>
  \<open>append x s\<close> adds one event numbered with the next sequence number and keeps the
  last \<open>cap\<close> events.
\<close>

locale numbered_log =
  fixes events :: "'s \<Rightarrow> 'e list"
    and cursor :: "'s \<Rightarrow> nat"
    and append :: "'x \<Rightarrow> 's \<Rightarrow> 's"
    and seq :: "'e \<Rightarrow> nat"
    and cap :: "'s \<Rightarrow> nat"
  assumes append_cursor: "cursor (append x s) = Suc (cursor s)"
    and append_events: "\<exists>e. seq e = Suc (cursor s) \<and>
          events (append x s) = drop (length (events s @ [e]) - cap s) (events s @ [e])"
    and append_cap: "cap (append x s) = cap s"
begin

definition log_ok :: "'s \<Rightarrow> bool" where
  "log_ok s = (length (events s) \<le> cap s \<and> length (events s) \<le> cursor s \<and>
     map seq (events s) = [Suc (cursor s) - length (events s) ..< Suc (cursor s)])"

lemma log_ok_empty: "events s = [] \<Longrightarrow> log_ok s"
  by (simp add: log_ok_def)

lemma log_ok_append:
  assumes "log_ok s"
  shows "log_ok (append x s)"
proof -
  obtain e where e: "seq e = Suc (cursor s)"
      "events (append x s) = drop (length (events s @ [e]) - cap s) (events s @ [e])"
    using append_events by blast
  have len: "length (events s) \<le> cap s" "length (events s) \<le> cursor s"
    and nums: "map seq (events s) = [Suc (cursor s) - length (events s) ..< Suc (cursor s)]"
    using assms by (simp_all add: log_ok_def)
  have all: "map seq (events s @ [e]) = [Suc (cursor s) - length (events s) ..< Suc (Suc (cursor s))]"
    using nums e(1) len(2) by simp
  define k where "k = length (events s @ [e]) - cap s"
  have k: "k \<le> 1" using len(1) by (simp add: k_def)
  have "map seq (drop k (events s @ [e])) = [Suc (cursor s) - length (events s) + k ..< Suc (Suc (cursor s))]"
    unfolding drop_map [symmetric] all by (rule drop_upt)
  moreover have "length (drop k (events s @ [e])) = Suc (length (events s)) - k" by simp
  moreover have "Suc (cursor s) - length (events s) + k = Suc (Suc (cursor s)) - (Suc (length (events s)) - k)"
    using k len(2) by (cases k) auto
  ultimately show ?thesis
    unfolding log_ok_def append_cursor append_cap e(2) k_def [symmetric] using len k
    by (auto simp: k_def)
qed

text \<open>A poll: the events after \<open>since\<close>. Nothing is missed while the cursor is not older than the log.\<close>

definition poll :: "nat \<Rightarrow> 's \<Rightarrow> 'e list" where
  "poll since s = filter (\<lambda>e. since < seq e) (events s)"

lemma poll_complete:
  assumes "log_ok s" and "cursor s - length (events s) \<le> since" and "since \<le> cursor s"
  shows "map seq (poll since s) = [Suc since ..< Suc (cursor s)]"
proof -
  have "map seq (poll since s) = filter (\<lambda>n. since < n) (map seq (events s))"
    by (simp add: poll_def filter_map comp_def)
  also have "\<dots> = filter (\<lambda>n. since < n) [Suc (cursor s) - length (events s) ..< Suc (cursor s)]"
    using assms(1) by (simp only: log_ok_def)
  also have "\<dots> = [Suc since ..< Suc (cursor s)]"
  proof -
    have "[Suc (cursor s) - length (events s) ..< Suc (cursor s)]
        = [Suc (cursor s) - length (events s) ..< Suc since] @ [Suc since ..< Suc (cursor s)]"
      using assms by (metis (no_types, lifting) Suc_diff_le Suc_le_mono log_ok_def upt_add_eq_append le_add_diff_inverse)
    moreover have "filter (\<lambda>n. since < n) [a ..< Suc since] = []" for a
      by (auto simp: filter_empty_conv)
    moreover have "filter (\<lambda>n. since < n) [Suc since ..< b] = [Suc since ..< b]" for b
      by (auto simp: filter_id_conv)
    ultimately show ?thesis by simp
  qed
  finally show ?thesis .
qed

lemma poll_recent:
  assumes "log_ok s" shows "e \<in> set (poll since s) \<Longrightarrow> since < seq e \<and> seq e \<le> cursor s"
proof -
  assume e: "e \<in> set (poll since s)"
  then have "seq e \<in> set (map seq (events s))" by (auto simp: poll_def)
  then have "seq e \<in> set [Suc (cursor s) - length (events s) ..< Suc (cursor s)]"
    using assms by (simp only: log_ok_def)
  then show ?thesis using e by (auto simp: poll_def)
qed

end

section \<open>Reload events\<close>

record 'a reload_event =
  re_id :: string
  re_seq :: nat
  re_workspaceId :: string
  re_reason :: string
  re_trigger :: "'a option"
  re_timestamp :: int

record 'a reload_store =
  rs_events :: "'a reload_event list"
  rs_seq :: nat
  rs_maxSize :: nat
  rs_lastRecorded :: "(string, int) jsmap"

type_synonym 'a reload_input = "string \<times> string \<times> string \<times> 'a option \<times> int"

text \<open>\<open>record\<close>; the input is the id, the workspace, the reason, the trigger and the time.\<close>

definition reload_record :: "'a reload_input \<Rightarrow> 'a reload_store \<Rightarrow> 'a reload_store" where
  "reload_record input st =
     (let (eid, workspaceId, reason, trigger, now) = input;
          event = \<lparr>re_id = eid, re_seq = Suc (rs_seq st), re_workspaceId = workspaceId, re_reason = reason,
                   re_trigger = trigger, re_timestamp = now\<rparr>;
          evs = rs_events st @ [event]
      in st\<lparr>rs_events := drop (length evs - rs_maxSize st) evs, rs_seq := Suc (rs_seq st)\<rparr>)"

definition debounce_key :: "string \<Rightarrow> string \<Rightarrow> string" where
  "debounce_key workspaceId reason = workspaceId @ '':'' @ reason"

definition recordDebounced :: "int \<Rightarrow> 'a reload_input \<Rightarrow> 'a reload_store \<Rightarrow> 'a reload_store" where
  "recordDebounced debounceMs input st =
     (let (eid, workspaceId, reason, trigger, now) = input;
          key = debounce_key workspaceId reason;
          last = (case jm_get key (rs_lastRecorded st) of Some t \<Rightarrow> t | None \<Rightarrow> 0)
      in if now - last < debounceMs then st
         else reload_record input (st\<lparr>rs_lastRecorded := jm_set key now (rs_lastRecorded st)\<rparr>))"

definition reload_list :: "string \<Rightarrow> nat option \<Rightarrow> 'a reload_store \<Rightarrow> 'a reload_event list" where
  "reload_list workspaceId since st =
     (let cursor = (case since of Some c \<Rightarrow> c | None \<Rightarrow> 0)
      in filter (\<lambda>e. re_workspaceId e = workspaceId \<and> cursor < re_seq e) (rs_events st))"

definition reload_cursor :: "'a reload_store \<Rightarrow> nat" where
  "reload_cursor st = rs_seq st"

interpretation reload_log: numbered_log rs_events reload_cursor reload_record re_seq rs_maxSize
  by (unfold_locales, auto simp: reload_record_def reload_cursor_def Let_def split: prod.splits)
    (rule exI, rule conjI [rotated], rule refl, simp)

section \<open>File sessions\<close>

datatype file_event_type = WriteEvent | DeleteEvent | RenameEvent | MkdirEvent

record file_session_event =
  fe_id :: string
  fe_seq :: nat
  fe_workspaceId :: string
  fe_type :: file_event_type
  fe_path :: string
  fe_toPath :: "string option"
  fe_revision :: "string option"
  fe_timestamp :: int

datatype token_scope = OwnerScope | CollaboratorScope | ViewerScope

record file_session =
  fs_id :: string
  fs_workspaceId :: string
  fs_workspaceRoot :: string
  fs_actorTokenHash :: string
  fs_actorScope :: token_scope
  fs_canWrite :: bool
  fs_createdAt :: int
  fs_expiresAt :: int

record workspace_event_state =
  ws_seq :: nat
  ws_events :: "file_session_event list"

record file_session_store =
  sessions :: "(string, file_session) jsmap"
  workspaceEvents :: "(string, workspace_event_state) jsmap"
  maxSessions :: nat
  maxEventsPerWorkspace :: nat

definition pruneExpired :: "int \<Rightarrow> file_session_store \<Rightarrow> file_session_store" where
  "pruneExpired now st = st\<lparr>sessions := filter (\<lambda>(k, s). now < fs_expiresAt s) (sessions st)\<rparr>"

text \<open>The loop of \<open>evictIfNeeded\<close>: the first session with the least expiry.\<close>

definition oldest_session :: "(string, file_session) jsmap \<Rightarrow> string option" where
  "oldest_session m =
     map_option fst
       (fold (\<lambda>(k, s) best. case best of None \<Rightarrow> Some (k, fs_expiresAt s)
          | Some (k', e) \<Rightarrow> if fs_expiresAt s < e then Some (k, fs_expiresAt s) else best) m None)"

definition evictIfNeeded :: "file_session_store \<Rightarrow> file_session_store" where
  "evictIfNeeded st =
     (if length (sessions st) < maxSessions st then st
      else
        (case oldest_session (sessions st) of
           None \<Rightarrow> st
         | Some k \<Rightarrow> if k = [] then st else st\<lparr>sessions := jm_delete k (sessions st)\<rparr>))"

definition create_session ::
    "string \<Rightarrow> int \<Rightarrow> string \<Rightarrow> string \<Rightarrow> string \<Rightarrow> token_scope \<Rightarrow> bool \<Rightarrow> int \<Rightarrow> file_session_store
      \<Rightarrow> file_session \<times> file_session_store" where
  "create_session sid now workspaceId root tokenHash scope canWrite ttlMs st =
     (let st = evictIfNeeded (pruneExpired now st);
          r = \<lparr>fs_id = sid, fs_workspaceId = workspaceId, fs_workspaceRoot = root, fs_actorTokenHash = tokenHash,
               fs_actorScope = scope, fs_canWrite = canWrite, fs_createdAt = now, fs_expiresAt = now + ttlMs\<rparr>
      in (r, st\<lparr>sessions := jm_set sid r (sessions st)\<rparr>))"

definition get_session :: "int \<Rightarrow> string \<Rightarrow> file_session_store \<Rightarrow> file_session option \<times> file_session_store" where
  "get_session now sid st = (let st = pruneExpired now st in (jm_get sid (sessions st), st))"

definition close_session :: "string \<Rightarrow> file_session_store \<Rightarrow> bool \<times> file_session_store" where
  "close_session sid st = (jm_has sid (sessions st), st\<lparr>sessions := jm_delete sid (sessions st)\<rparr>)"

type_synonym file_event_input = "string \<times> string \<times> file_event_type \<times> string \<times> string option \<times> string option \<times> int"

definition workspace_state :: "string \<Rightarrow> file_session_store \<Rightarrow> workspace_event_state" where
  "workspace_state w st = (case jm_get w (workspaceEvents st) of Some s \<Rightarrow> s | None \<Rightarrow> \<lparr>ws_seq = 0, ws_events = []\<rparr>)"

text \<open>\<open>recordWorkspaceEvent\<close>; the input is the id, workspace, type, path, target, revision and time.\<close>

definition recordWorkspaceEvent :: "file_event_input \<Rightarrow> file_session_store \<Rightarrow> file_session_store" where
  "recordWorkspaceEvent input st =
     (let (eid, workspaceId, type, path, toPath, revision, now) = input;
          state = workspace_state workspaceId st;
          event = \<lparr>fe_id = eid, fe_seq = ws_seq state + 1, fe_workspaceId = workspaceId, fe_type = type, fe_path = path,
                   fe_toPath = toPath, fe_revision = revision, fe_timestamp = now\<rparr>;
          evs = ws_events state @ [event];
          state' = \<lparr>ws_seq = ws_seq state + 1, ws_events = drop (length evs - maxEventsPerWorkspace st) evs\<rparr>
      in st\<lparr>workspaceEvents := jm_set workspaceId state' (workspaceEvents st)\<rparr>)"

definition listWorkspaceEvents :: "string \<Rightarrow> int \<Rightarrow> file_session_store \<Rightarrow> file_session_event list \<times> nat" where
  "listWorkspaceEvents workspaceId since st =
     (case jm_get workspaceId (workspaceEvents st) of
        None \<Rightarrow> ([], 0)
      | Some state \<Rightarrow>
          (let cursor = (if 0 < since then since else 0)
           in (filter (\<lambda>e. cursor < int (fe_seq e)) (ws_events state), ws_seq state)))"

text \<open>The log of one workspace; recording an event of it is appending to it.\<close>

definition record_in :: "string \<Rightarrow> string \<times> file_event_type \<times> string \<times> string option \<times> string option \<times> int \<Rightarrow>
    file_session_store \<Rightarrow> file_session_store" where
  "record_in w x st = (let (eid, rest) = x in recordWorkspaceEvent (eid, w, rest) st)"

interpretation file_log: numbered_log "\<lambda>st. ws_events (workspace_state w st)" "\<lambda>st. ws_seq (workspace_state w st)"
    "record_in w" fe_seq maxEventsPerWorkspace
  for w
  by (unfold_locales, auto simp: record_in_def recordWorkspaceEvent_def workspace_state_def Let_def
      split: prod.splits option.splits)
    (rule exI, rule conjI [rotated], rule refl, simp)+

section \<open>Runs of the logs\<close>

text \<open>All events a list of inputs makes, numbered from one; the store keeps the last \<open>maxSize\<close> of them.\<close>

definition numbered_event :: "nat \<Rightarrow> 'a reload_input \<Rightarrow> 'a reload_event" where
  "numbered_event n input =
     (let (eid, workspaceId, reason, trigger, now) = input
      in \<lparr>re_id = eid, re_seq = n, re_workspaceId = workspaceId, re_reason = reason, re_trigger = trigger, re_timestamp = now\<rparr>)"

fun numbered_events :: "nat \<Rightarrow> 'a reload_input list \<Rightarrow> 'a reload_event list" where
  "numbered_events n [] = []"
| "numbered_events n (x # xs) = numbered_event (Suc n) x # numbered_events (Suc n) xs"

lemma numbered_events_append: "numbered_events n (xs @ ys) = numbered_events n xs @ numbered_events (n + length xs) ys"
  by (induction xs arbitrary: n) simp_all

lemma length_numbered_events [simp]: "length (numbered_events n xs) = length xs"
  by (induction xs arbitrary: n) simp_all

lemma numbered_events_seq: "e \<in> set (numbered_events n xs) \<Longrightarrow> n < re_seq e \<and> re_seq e \<le> n + length xs"
  by (induction xs arbitrary: n) (force simp: numbered_event_def split: prod.splits)+

definition empty_reload_store :: "nat \<Rightarrow> 'a reload_store" where
  "empty_reload_store m = \<lparr>rs_events = [], rs_seq = 0, rs_maxSize = m, rs_lastRecorded = []\<rparr>"

lemma reload_run:
  "fold reload_record xs (empty_reload_store m) =
     \<lparr>rs_events = drop (length xs - m) (numbered_events 0 xs), rs_seq = length xs, rs_maxSize = m, rs_lastRecorded = []\<rparr>"
proof (induction xs rule: rev_induct)
  case Nil
  then show ?case by (simp add: empty_reload_store_def)
next
  case (snoc x xs)
  have e: "numbered_events 0 (xs @ [x]) = numbered_events 0 xs @ [numbered_event (Suc (length xs)) x]"
    by (simp add: numbered_events_append)
  have "reload_record x \<lparr>rs_events = drop (length xs - m) (numbered_events 0 xs), rs_seq = length xs, rs_maxSize = m, rs_lastRecorded = []\<rparr>
     = \<lparr>rs_events = drop (Suc (length xs - (length xs - m)) - m) (drop (length xs - m) (numbered_events 0 xs) @ [numbered_event (Suc (length xs)) x]),
        rs_seq = Suc (length xs), rs_maxSize = m, rs_lastRecorded = []\<rparr>"
    by (simp add: reload_record_def numbered_event_def Let_def split: prod.splits)
  also have "drop (Suc (length xs - (length xs - m)) - m) (drop (length xs - m) (numbered_events 0 xs) @ [numbered_event (Suc (length xs)) x])
      = drop (length (xs @ [x]) - m) (numbered_events 0 (xs @ [x]))"
    unfolding e by (cases "m \<le> length xs") (simp_all add: Suc_diff_le)
  finally show ?case using snoc by simp
qed

lemma filter_numbered_since:
  "k \<le> length xs \<Longrightarrow> c \<le> length xs \<Longrightarrow> k \<le> c \<Longrightarrow>
     filter (\<lambda>e. re_workspaceId e = w \<and> c < re_seq e) (drop k (numbered_events 0 xs))
     = filter (\<lambda>e. re_workspaceId e = w) (numbered_events c (drop c xs))"
proof -
  assume k: "k \<le> length xs" "c \<le> length xs" "k \<le> c"
  have all: "numbered_events 0 xs = numbered_events 0 (take c xs) @ numbered_events c (drop c xs)"
    using numbered_events_append [of 0 "take c xs" "drop c xs"] k(2) by simp
  have "filter (\<lambda>e. re_workspaceId e = w \<and> c < re_seq e) (drop k (numbered_events 0 (take c xs))) = []"
    by (auto simp: filter_empty_conv dest!: in_set_dropD numbered_events_seq)
  moreover have "filter (\<lambda>e. re_workspaceId e = w \<and> c < re_seq e) (numbered_events c (drop c xs))
      = filter (\<lambda>e. re_workspaceId e = w) (numbered_events c (drop c xs))"
    by (rule filter_cong [OF refl]) (auto dest: numbered_events_seq)
  ultimately show ?thesis using k by (simp add: all)
qed

definition empty_file_store :: "nat \<Rightarrow> nat \<Rightarrow> file_session_store" where
  "empty_file_store m n = \<lparr>sessions = [], workspaceEvents = [], maxSessions = m, maxEventsPerWorkspace = n\<rparr>"

lemma record_other_workspace:
  "fst (snd x) \<noteq> w \<Longrightarrow> workspace_state w (recordWorkspaceEvent x st) = workspace_state w st"
  by (cases x) (simp add: recordWorkspaceEvent_def workspace_state_def Let_def)

lemma record_own_workspace: "fst (snd x) = w \<Longrightarrow> recordWorkspaceEvent x st = record_in w (fst x, snd (snd x)) st"
  by (cases x) (simp add: record_in_def)

lemma maxEvents_record: "maxEventsPerWorkspace (recordWorkspaceEvent x st) = maxEventsPerWorkspace st"
  by (cases x) (simp add: recordWorkspaceEvent_def Let_def)

lemma file_log_ok_step:
  assumes "file_log.log_ok w st"
  shows "file_log.log_ok w (recordWorkspaceEvent x st)"
proof (cases "fst (snd x) = w")
  case True
  then show ?thesis unfolding record_own_workspace [OF True] by (intro file_log.log_ok_append assms)
next
  case False
  then show ?thesis
    using assms by (simp add: file_log.log_ok_def record_other_workspace maxEvents_record)
qed

lemma file_log_ok_run: "file_log.log_ok w (fold recordWorkspaceEvent xs (empty_file_store m n))"
proof (induction xs rule: rev_induct)
  case Nil
  show ?case by (rule file_log.log_ok_empty) (simp add: empty_file_store_def workspace_state_def)
next
  case (snoc x xs)
  then show ?case by (simp add: file_log_ok_step)
qed

section \<open>Properties\<close>

text \<open>A poll of the reload events with a cursor that is not older than the kept events misses
  nothing and repeats nothing: it lists, in order, exactly the workspace's events
  recorded after the cursor, and the cursor the store hands out is the number of
  events recorded.\<close>

theorem reload_poll_exact:
  assumes "since \<le> length xs" and "length xs - m \<le> since"
  shows "reload_list w (Some since) (fold reload_record xs (empty_reload_store m))
      = filter (\<lambda>e. re_workspaceId e = w) (numbered_events since (drop since xs)) \<and>
    reload_cursor (fold reload_record xs (empty_reload_store m)) = length xs"
  using filter_numbered_since [of "length xs - m" xs since w] assms
  by (simp add: reload_run reload_list_def reload_cursor_def)

theorem reload_poll_exact_witness:
  "reload_list ''w'' (Some 1) (fold reload_record
      [(''a'', ''w'', ''skills'', None, 5), (''b'', ''v'', ''mcp'', None, 6), (''c'', ''w'', ''mcp'', Some (), 7)] (empty_reload_store 2))
   = filter (\<lambda>e. re_workspaceId e = ''w'') (numbered_events 1
      (drop 1 [(''a'', ''w'', ''skills'', None, 5), (''b'', ''v'', ''mcp'', None, 6), (''c'', ''w'', ''mcp'', Some (), 7)]))"
  by (rule reload_poll_exact [THEN conjunct1]) simp_all


definition example_store :: file_session_store where
  "example_store = fold recordWorkspaceEvent
     [(''a'', ''w'', WriteEvent, ''x'', None, None, 1), (''b'', ''v'', WriteEvent, ''x'', None, None, 2),
      (''c'', ''w'', RenameEvent, ''x'', Some ''y'', None, 3)] (empty_file_store 8 1)"

lemma example_store_facts:
  "jm_has ''w'' (workspaceEvents example_store)" "ws_seq (workspace_state ''w'' example_store) = 2"
  "length (ws_events (workspace_state ''w'' example_store)) = 1"
  by (simp_all add: example_store_def recordWorkspaceEvent_def workspace_state_def empty_file_store_def jm_has_def Let_def)


section \<open>Sessions stay bounded\<close>

definition oldest_step :: "string \<times> file_session \<Rightarrow> (string \<times> int) option \<Rightarrow> (string \<times> int) option" where
  "oldest_step = (\<lambda>(k, s) best. case best of None \<Rightarrow> Some (k, fs_expiresAt s)
          | Some (k', e) \<Rightarrow> if fs_expiresAt s < e then Some (k, fs_expiresAt s) else best)"

lemma oldest_fold:
  "fold oldest_step m (Some (k0, e0)) = Some (k, e) \<Longrightarrow>
     ((k, e) = (k0, e0) \<or> (\<exists>s. (k, s) \<in> set m \<and> fs_expiresAt s = e)) \<and> e \<le> e0 \<and> (\<forall>(k', s) \<in> set m. e \<le> fs_expiresAt s)"
proof (induction m arbitrary: k0 e0)
  case Nil
  then show ?case by simp
next
  case (Cons x m)
  obtain k1 s1 where x: "x = (k1, s1)" by (cases x)
  show ?case
  proof (cases "fs_expiresAt s1 < e0")
    case True
    then show ?thesis using Cons.prems Cons.IH [of k1 "fs_expiresAt s1"] x by (fastforce simp: oldest_step_def)
  next
    case False
    then show ?thesis using Cons.prems Cons.IH [of k0 e0] x by (fastforce simp: oldest_step_def)
  qed
qed

lemma oldest_fold_Some: "fold oldest_step m (Some b) \<noteq> None"
  by (induction m arbitrary: b) (auto simp: oldest_step_def split: if_splits)

lemma oldest_session_spec:
  assumes "m \<noteq> []"
  shows "\<exists>k s. oldest_session m = Some k \<and> (k, s) \<in> set m \<and> (\<forall>(k', s') \<in> set m. fs_expiresAt s \<le> fs_expiresAt s')"
proof -
  obtain k0 s0 m' where m: "m = (k0, s0) # m'" using assms by (cases m) auto
  have step: "oldest_session m = map_option fst (fold oldest_step m' (Some (k0, fs_expiresAt s0)))"
    by (simp add: oldest_session_def m oldest_step_def)
  obtain k e where ke: "fold oldest_step m' (Some (k0, fs_expiresAt s0)) = Some (k, e)"
    using oldest_fold_Some [of m' "(k0, fs_expiresAt s0)"] by auto
  have spec: "((k, e) = (k0, fs_expiresAt s0) \<or> (\<exists>s. (k, s) \<in> set m' \<and> fs_expiresAt s = e)) \<and>
      e \<le> fs_expiresAt s0 \<and> (\<forall>(k', s) \<in> set m'. e \<le> fs_expiresAt s)"
    by (rule oldest_fold [OF ke])
  then obtain s where "(k, s) \<in> set m" "fs_expiresAt s = e" using m by auto
  then show ?thesis using step ke spec m by auto
qed

definition session_store_ok :: "file_session_store \<Rightarrow> bool" where
  "session_store_ok st =
     (jm_wf (sessions st) \<and> [] \<notin> fst ` set (sessions st) \<and> length (sessions st) \<le> max 1 (maxSessions st))"

lemma prune_ok: "session_store_ok st \<Longrightarrow> session_store_ok (pruneExpired now st)"
  by (auto simp: session_store_ok_def pruneExpired_def jm_wf_filter intro: order_trans [OF length_filter_le])

lemma evict_ok:
  assumes "session_store_ok st"
  shows "session_store_ok (evictIfNeeded st) \<and> length (sessions (evictIfNeeded st)) < max 1 (maxSessions st)"
proof (cases "length (sessions st) < maxSessions st \<or> sessions st = []")
  case True
  then show ?thesis using assms by (auto simp: evictIfNeeded_def session_store_ok_def oldest_session_def)
next
  case False
  then obtain k s where k: "oldest_session (sessions st) = Some k" "(k, s) \<in> set (sessions st)"
    using oldest_session_spec [of "sessions st"] by blast
  have wf: "jm_wf (sessions st)" "k \<noteq> []" using assms k(2) by (force simp: session_store_ok_def)+
  have "jm_has k (sessions st)" using jm_mem_get [OF wf(1) k(2)] by (simp add: jm_has_def)
  then have "Suc (length (jm_delete k (sessions st))) = length (sessions st)" by (rule length_jm_delete [OF wf(1)])
  then show ?thesis
    using assms False k(1) wf by (auto simp: evictIfNeeded_def session_store_ok_def jm_delete_def jm_wf_filter)
qed

text \<open>File sessions stay bounded and expire: creating a session keeps the number of sessions within
  the limit by removing a session with the least expiry, the new session is found
  until it expires, and no lookup ever returns an expired session.\<close>

theorem file_sessions_bounded:
  assumes "session_store_ok st" and "sid \<noteq> []"
  shows "session_store_ok (snd (create_session sid now w root h scope canWrite ttl st)) \<and>
    (t < now + ttl \<longrightarrow> fst (get_session t sid (snd (create_session sid now w root h scope canWrite ttl st)))
        = Some (fst (create_session sid now w root h scope canWrite ttl st))) \<and>
    (\<forall>s. fst (get_session t other st) = Some s \<longrightarrow> t < fs_expiresAt s)"
proof -
  let ?st = "evictIfNeeded (pruneExpired now st)"
  have e: "session_store_ok ?st" "length (sessions ?st) < max 1 (maxSessions st)" "maxSessions ?st = maxSessions st"
    using evict_ok [OF prune_ok [OF assms(1), of now]]
    by (auto simp: pruneExpired_def evictIfNeeded_def split: option.splits)
  have wf: "jm_wf (jm_set sid r (sessions ?st))" for r using e(1) by (simp add: session_store_ok_def)
  have "length (jm_set sid r (sessions ?st)) \<le> max 1 (maxSessions st)" for r
    using e(2) by (simp add: length_jm_set)
  moreover have "[] \<notin> fst ` set (jm_set sid r (sessions ?st))" for r
    using jm_keys_set [of sid r "sessions ?st"] e(1) assms(2) by (auto simp: session_store_ok_def)
  ultimately have "session_store_ok (snd (create_session sid now w root h scope canWrite ttl st))"
    using wf e(3) by (simp add: create_session_def session_store_ok_def Let_def)
  moreover have "fst (get_session t sid (snd (create_session sid now w root h scope canWrite ttl st)))
        = Some (fst (create_session sid now w root h scope canWrite ttl st))" if "t < now + ttl"
    using that wf by (simp add: create_session_def get_session_def pruneExpired_def Let_def jm_get_filter)
  moreover have "t < fs_expiresAt s" if "fst (get_session t other st) = Some s" for s
  proof -
    have "(other, s) \<in> set (filter (\<lambda>(k, s). t < fs_expiresAt s) (sessions st))"
      using that jm_get_mem by (fastforce simp: get_session_def pruneExpired_def Let_def)
    then show ?thesis by simp
  qed
  ultimately show ?thesis by blast
qed

theorem file_sessions_bounded_witness:
  "session_store_ok (snd (create_session ''s'' 5 ''w'' ''/r'' ''h'' ViewerScope False 10 (empty_file_store 1 1)))"
  by (rule file_sessions_bounded [THEN conjunct1]) (simp_all add: session_store_ok_def empty_file_store_def)

end
