(* ===== verification/LocalStores.thy ===== *)
theory LocalStores
  imports EventLogs
begin

text \<open>
  The small stores of the server: API tokens (\<open>tokens.ts\<close>) and environment
  variables (\<open>env-file.ts\<close>), under \<open>apps/server/src\<close>.

  A file is the JSON value written to it (\<open>None\<close> when it does not exist or, for
  the tokens, cannot be read). The hash, the ids, the clock, the path resolver and
  the collation of \<open>localeCompare\<close> are arguments.
\<close>

section \<open>JSON access\<close>

definition jfield :: "string \<Rightarrow> json \<Rightarrow> json option" where
  "jfield k v = (case v of JObj es \<Rightarrow> jm_get k es | _ \<Rightarrow> None)"

definition jstring :: "json option \<Rightarrow> string option" where
  "jstring v = (case v of Some (JStr s) \<Rightarrow> Some s | _ \<Rightarrow> None)"

definition jnumber :: "json option \<Rightarrow> int option" where
  "jnumber v = (case v of Some (JNum n) \<Rightarrow> Some n | _ \<Rightarrow> None)"

definition opt_default :: "'a \<Rightarrow> 'a option \<Rightarrow> 'a" where
  "opt_default d x = (case x of None \<Rightarrow> d | Some y \<Rightarrow> y)"

lemma opt_default_simps [simp]: "opt_default d None = d" "opt_default d (Some y) = y"
  by (simp_all add: opt_default_def)

section \<open>Tokens\<close>

text \<open>
  Reading the property of a \<open>null\<close> entry throws inside the \<open>try\<close> of
  \<open>readTokenStore\<close>, whose handler answers with an empty list.
\<close>

record token_record =
  tr_id :: string
  tr_hash :: string
  tr_scope :: token_scope
  tr_createdAt :: int
  tr_label :: "string option"

definition normalizeScope :: "json option \<Rightarrow> token_scope option" where
  "normalizeScope v =
     (case jstring v of
        None \<Rightarrow> None
      | Some s \<Rightarrow>
          (if s = ''owner'' then Some OwnerScope
           else if s = ''collaborator'' then Some CollaboratorScope
           else if s = ''viewer'' then Some ViewerScope
           else None))"

definition scope_text :: "token_scope \<Rightarrow> string" where
  "scope_text s = (case s of OwnerScope \<Rightarrow> ''owner'' | CollaboratorScope \<Rightarrow> ''collaborator'' | ViewerScope \<Rightarrow> ''viewer'')"

definition parse_token :: "int \<Rightarrow> json \<Rightarrow> token_record option" where
  "parse_token now v =
     (let tid = opt_default [] (jstring (jfield ''id'' v));
          hash = opt_default [] (jstring (jfield ''hash'' v));
          label = jstring (jfield ''label'' v)
      in
      (case normalizeScope (jfield ''scope'' v) of
         None \<Rightarrow> None
       | Some scope \<Rightarrow>
           (if tid = [] \<or> hash = [] then None
            else Some \<lparr>tr_id = tid, tr_hash = hash, tr_scope = scope,
                       tr_createdAt = opt_default now (jnumber (jfield ''createdAt'' v)),
                       tr_label = (if label = Some [] then None else label)\<rparr>)))"

definition readTokenStore :: "int \<Rightarrow> json option \<Rightarrow> token_record list" where
  "readTokenStore now file =
     (case file of
        None \<Rightarrow> []
      | Some v \<Rightarrow> (case jfield ''tokens'' v of
                     Some (JArr ts) \<Rightarrow> (if JNull \<in> set ts then [] else List.map_filter (parse_token now) ts)
                   | _ \<Rightarrow> []))"

definition token_json :: "token_record \<Rightarrow> json" where
  "token_json t =
     JObj ([(''id'', JStr (tr_id t)), (''hash'', JStr (tr_hash t)), (''scope'', JStr (scope_text (tr_scope t))),
            (''createdAt'', JNum (tr_createdAt t))]
           @ (case tr_label t of None \<Rightarrow> [] | Some l \<Rightarrow> [(''label'', JStr l)]))"

definition writeTokenStore :: "int \<Rightarrow> token_record list \<Rightarrow> json" where
  "writeTokenStore now tokens =
     JObj [(''schemaVersion'', JNum 1), (''updatedAt'', JNum now), (''tokens'', JArr (map token_json tokens))]"

record token_service =
  config_token :: string
  ts_file :: "json option"
  ts_loaded :: bool
  ts_tokens :: "token_record list"
  ts_byHash :: "(string, token_record) jsmap"

definition load_tokens :: "int \<Rightarrow> token_service \<Rightarrow> token_service" where
  "load_tokens now st =
     (if ts_loaded st then st
      else
        (let tokens = readTokenStore now (ts_file st)
         in st\<lparr>ts_loaded := True, ts_tokens := tokens,
               ts_byHash := fold (\<lambda>t m. jm_set (tr_hash t) t m) tokens []\<rparr>))"

definition create_token ::
    "(string \<Rightarrow> string) \<Rightarrow> string \<Rightarrow> string \<Rightarrow> int \<Rightarrow> token_scope \<Rightarrow> string option \<Rightarrow> token_service
      \<Rightarrow> token_record \<times> token_service" where
  "create_token hash tid token now scope label st =
     (let st = load_tokens now st;
          lbl = (case label of None \<Rightarrow> None | Some l \<Rightarrow> if js_trim l = [] then None else Some (js_trim l));
          r = \<lparr>tr_id = tid, tr_hash = hash token, tr_scope = scope, tr_createdAt = now, tr_label = lbl\<rparr>;
          tokens = r # ts_tokens st
      in (r, st\<lparr>ts_tokens := tokens, ts_byHash := jm_set (tr_hash r) r (ts_byHash st),
               ts_file := Some (writeTokenStore now tokens)\<rparr>))"

definition revoke_token :: "int \<Rightarrow> string \<Rightarrow> token_service \<Rightarrow> bool \<times> token_service" where
  "revoke_token now tid st =
     (let st = load_tokens now st in
      case find_index (\<lambda>t. tr_id t = tid) (ts_tokens st) of
        None \<Rightarrow> (False, st)
      | Some i \<Rightarrow>
          (let removed = ts_tokens st ! i; tokens = take i (ts_tokens st) @ drop (Suc i) (ts_tokens st)
           in (True, st\<lparr>ts_tokens := tokens, ts_byHash := jm_delete (tr_hash removed) (ts_byHash st),
                        ts_file := Some (writeTokenStore now tokens)\<rparr>)))"

definition scopeForToken :: "(string \<Rightarrow> string) \<Rightarrow> int \<Rightarrow> string \<Rightarrow> token_service \<Rightarrow> token_scope option \<times> token_service" where
  "scopeForToken hash now token st =
     (let trimmed = js_trim token in
      if trimmed = [] then (None, st)
      else if trimmed = config_token st then (Some CollaboratorScope, st)
      else
        (let st = load_tokens now st
         in (map_option tr_scope (jm_get (hash trimmed) (ts_byHash st)), st)))"

lemma normalizeScope_text: "normalizeScope (Some (JStr (scope_text s))) = Some s"
  by (cases s) (simp_all add: normalizeScope_def scope_text_def jstring_def)

definition token_valid :: "token_record \<Rightarrow> bool" where
  "token_valid t = (tr_id t \<noteq> [] \<and> tr_hash t \<noteq> [] \<and> tr_label t \<noteq> Some [])"

lemma parse_token_json: "token_valid t \<Longrightarrow> parse_token now (token_json t) = Some t"
  by (cases "tr_label t")
    (simp_all add: parse_token_def token_json_def token_valid_def jfield_def jstring_def jnumber_def
      normalizeScope_text [unfolded jstring_def] Let_def)

lemma map_filter_all: "(\<And>x. x \<in> set xs \<Longrightarrow> f (g x) = Some x) \<Longrightarrow> List.map_filter f (map g xs) = xs"
  by (induction xs) (simp_all add: map_filter_simps)

lemma token_json_not_null: "JNull \<notin> set (map token_json ts)"
  by (auto simp: token_json_def)

lemma read_write_tokens: "list_all token_valid ts \<Longrightarrow> readTokenStore now (Some (writeTokenStore now' ts)) = ts"
  unfolding readTokenStore_def writeTokenStore_def
  using token_json_not_null [of ts]
  by (simp add: jfield_def map_filter_all parse_token_json list_all_iff)

text \<open>The state of a service that has been used: its map and its file say what its list says.\<close>

definition tokens_ok :: "token_service \<Rightarrow> bool" where
  "tokens_ok st =
     (ts_loaded st \<and> list_all token_valid (ts_tokens st) \<and> distinct (map tr_hash (ts_tokens st)) \<and>
      distinct (map tr_id (ts_tokens st)) \<and>
      (\<forall>h. jm_get h (ts_byHash st) = find (\<lambda>t. tr_hash t = h) (ts_tokens st)) \<and>
      (\<forall>now. readTokenStore now (ts_file st) = ts_tokens st))"

lemma find_distinct_hash: "distinct (map f ts) \<Longrightarrow> t \<in> set ts \<Longrightarrow> find (\<lambda>u. f u = f t) ts = Some t"
  by (induction ts) auto

lemma create_token_ok:
  assumes "tokens_ok st" and "tid \<noteq> []" and "hash token \<noteq> []" and "hash token \<notin> set (map tr_hash (ts_tokens st))"
    and "tid \<notin> set (map tr_id (ts_tokens st))"
  shows "tokens_ok (snd (create_token hash tid token now scope label st))"
proof -
  have valid: "token_valid (fst (create_token hash tid token now scope label st))"
    using assms(2,3) by (auto simp: create_token_def token_valid_def Let_def split: option.splits)
  have tokens: "ts_tokens (snd (create_token hash tid token now scope label st))
      = fst (create_token hash tid token now scope label st) # ts_tokens st"
    using assms(1) by (simp add: create_token_def load_tokens_def tokens_ok_def Let_def)
  have stored: "ts_file (snd (create_token hash tid token now scope label st))
      = Some (writeTokenStore now (fst (create_token hash tid token now scope label st) # ts_tokens st))"
    using assms(1) by (simp add: create_token_def load_tokens_def tokens_ok_def Let_def)
  have rest: "tr_hash (fst (create_token hash tid token now scope label st)) = hash token"
    "tr_id (fst (create_token hash tid token now scope label st)) = tid"
    by (simp_all add: create_token_def Let_def)
  have mapped: "ts_byHash (snd (create_token hash tid token now scope label st))
      = jm_set (hash token) (fst (create_token hash tid token now scope label st)) (ts_byHash st)"
    using assms(1) by (simp add: create_token_def load_tokens_def tokens_ok_def Let_def)
  have loaded: "ts_loaded (snd (create_token hash tid token now scope label st))"
    using assms(1) by (simp add: create_token_def load_tokens_def tokens_ok_def Let_def)
  show ?thesis
    unfolding tokens_ok_def tokens stored mapped
    using assms valid loaded rest read_write_tokens
    by (auto simp: tokens_ok_def)
qed

lemma remove_at: "find_index P xs = Some i \<Longrightarrow> distinct (map f xs) \<Longrightarrow>
    take i xs @ drop (Suc i) xs = filter (\<lambda>x. f x \<noteq> f (xs ! i)) xs"
proof (induction xs arbitrary: i)
  case Nil
  then show ?case by simp
next
  case (Cons x xs)
  show ?case
  proof (cases "P x")
    case True
    then have "i = 0" using Cons.prems(1) by simp
    moreover have "filter (\<lambda>y. f y \<noteq> f x) xs = xs" using Cons.prems(2) by (auto simp: filter_id_conv image_iff)
    ultimately show ?thesis by simp
  next
    case False
    then obtain j where j: "find_index P xs = Some j" "i = Suc j" using Cons.prems(1) by auto
    then have "f x \<noteq> f (xs ! j)" using Cons.prems(2) find_index_Some [OF j(1)] by auto
    then show ?thesis using Cons.IH [OF j(1)] Cons.prems(2) j(2) by simp
  qed
qed

lemma find_filter_other:
  "find (\<lambda>t. f t = h) (filter (\<lambda>t. f t \<noteq> k) ts) = (if h = k then None else find (\<lambda>t. f t = h) ts)"
  by (induction ts) auto

lemma revoke_token_tokens:
  assumes "tokens_ok st"
  shows "ts_tokens (snd (revoke_token now tid st)) = filter (\<lambda>t. tr_id t \<noteq> tid) (ts_tokens st)"
    and "fst (revoke_token now tid st) = (tid \<in> set (map tr_id (ts_tokens st)))"
proof -
  have loaded: "load_tokens now st = st" and ids: "distinct (map tr_id (ts_tokens st))"
    using assms by (simp_all add: load_tokens_def tokens_ok_def)
  have "ts_tokens (snd (revoke_token now tid st)) = filter (\<lambda>t. tr_id t \<noteq> tid) (ts_tokens st) \<and>
      fst (revoke_token now tid st) = (tid \<in> set (map tr_id (ts_tokens st)))"
  proof (cases "find_index (\<lambda>t. tr_id t = tid) (ts_tokens st)")
    case None
    then have "tid \<notin> set (map tr_id (ts_tokens st))"
      by (auto simp: find_index_None_iff)
    moreover have "filter (\<lambda>t. tr_id t \<noteq> tid) (ts_tokens st) = ts_tokens st"
      using None by (auto simp: find_index_None_iff filter_id_conv)
    ultimately show ?thesis using None loaded by (simp add: revoke_token_def Let_def)
  next
    case (Some i)
    note at = find_index_Some [OF Some]
    then have "tid \<in> set (map tr_id (ts_tokens st))"
      by (metis length_map nth_map nth_mem)
    then show ?thesis
      using Some loaded at remove_at [OF Some ids] by (simp add: revoke_token_def Let_def)
  qed
  then show "ts_tokens (snd (revoke_token now tid st)) = filter (\<lambda>t. tr_id t \<noteq> tid) (ts_tokens st)"
    and "fst (revoke_token now tid st) = (tid \<in> set (map tr_id (ts_tokens st)))" by simp_all
qed

lemma revoke_token_ok:
  assumes "tokens_ok st"
  shows "tokens_ok (snd (revoke_token now tid st))"
proof (cases "find_index (\<lambda>t. tr_id t = tid) (ts_tokens st)")
  case None
  then show ?thesis using assms by (simp add: revoke_token_def load_tokens_def tokens_ok_def Let_def)
next
  case (Some i)
  define u where "u = ts_tokens st ! i"
  have u: "u \<in> set (ts_tokens st)" "tr_id u = tid"
    using find_index_Some [OF Some] by (auto simp: u_def)
  have hashes: "distinct (map tr_hash (ts_tokens st))" and ids: "distinct (map tr_id (ts_tokens st))"
    using assms by (simp_all add: tokens_ok_def)
  let ?ts = "filter (\<lambda>t. tr_hash t \<noteq> tr_hash u) (ts_tokens st)"
  have cut: "take i (ts_tokens st) @ drop (Suc i) (ts_tokens st) = ?ts"
    using remove_at [OF Some hashes] by (simp add: u_def)
  have st': "snd (revoke_token now tid st) =
      st\<lparr>ts_tokens := ?ts, ts_byHash := jm_delete (tr_hash u) (ts_byHash st), ts_file := Some (writeTokenStore now ?ts)\<rparr>"
    using Some assms cut by (simp add: revoke_token_def load_tokens_def tokens_ok_def u_def Let_def)
  have valid: "list_all token_valid ?ts"
    using assms by (auto simp: tokens_ok_def list_all_iff)
  show ?thesis
    using assms valid hashes unfolding tokens_ok_def st'
    by (auto simp: read_write_tokens distinct_map_filter find_filter_other)
qed

text \<open>The service a new process builds on the file that is left behind.\<close>

definition restarted :: "token_service \<Rightarrow> token_service" where
  "restarted st = st\<lparr>ts_loaded := False, ts_tokens := [], ts_byHash := []\<rparr>"

lemma get_fold_set:
  "distinct (map f ts) \<Longrightarrow> jm_get h (fold (\<lambda>t m. jm_set (f t) t m) ts m0) =
     (case find (\<lambda>t. f t = h) ts of Some t \<Rightarrow> Some t | None \<Rightarrow> jm_get h m0)"
proof (induction ts arbitrary: m0)
  case Nil
  show ?case by simp
next
  case (Cons t ts)
  have "find (\<lambda>u. f u = f t) ts = None"
    using Cons.prems by (auto simp: find_None_iff) (metis image_eqI)
  then show ?case using Cons by (auto split: option.splits)
qed

lemma restart_keeps_scopes:
  assumes "tokens_ok st"
  shows "fst (scopeForToken hash now t (restarted st)) = fst (scopeForToken hash now' t st)"
proof -
  have "ts_byHash (load_tokens now (restarted st)) = fold (\<lambda>t m. jm_set (tr_hash t) t m) (ts_tokens st) []"
    using assms by (simp add: restarted_def load_tokens_def tokens_ok_def Let_def)
  then have "jm_get h (ts_byHash (load_tokens now (restarted st))) = find (\<lambda>t. tr_hash t = h) (ts_tokens st)" for h
    using assms get_fold_set [of tr_hash "ts_tokens st" h "[]"] by (simp add: tokens_ok_def split: option.splits)
  moreover have "jm_get h (ts_byHash (load_tokens now' st)) = find (\<lambda>t. tr_hash t = h) (ts_tokens st)" for h
    using assms by (simp add: load_tokens_def tokens_ok_def)
  ultimately show ?thesis
    by (simp add: scopeForToken_def Let_def restarted_def)
qed

lemma scope_of_token:
  assumes "tokens_ok st" and "js_trim t = t" and "t \<noteq> []" and "t \<noteq> config_token st"
  shows "fst (scopeForToken hash now t st) = map_option tr_scope (find (\<lambda>r. tr_hash r = hash t) (ts_tokens st))"
  using assms by (simp add: scopeForToken_def load_tokens_def tokens_ok_def Let_def)

lemma revoke_token_config [simp]: "config_token (snd (revoke_token now tid st)) = config_token st"
  by (simp add: revoke_token_def load_tokens_def Let_def split: option.splits)

lemma create_token_config [simp]: "config_token (snd (create_token hash tid t now scope label st)) = config_token st"
  by (simp add: create_token_def load_tokens_def Let_def)

lemma create_token_tokens:
  "tokens_ok st \<Longrightarrow> \<exists>r. ts_tokens (snd (create_token hash tid t now scope label st)) = r # ts_tokens st \<and>
     tr_hash r = hash t \<and> tr_id r = tid \<and> tr_scope r = scope"
  by (simp add: create_token_def load_tokens_def tokens_ok_def Let_def)

text \<open>A token is good from its creation to its revocation, across restarts.

  In a service whose map, list and file agree (\<open>tokens_ok\<close>, kept by \<open>create\<close> and
  \<open>revoke\<close>), a token created with a fresh id and a fresh hash has the scope it was
  created with, also for a process started afterwards on the written file; every
  other token keeps its scope; and once revoked by its id it has no scope, after a
  restart as well, while every other token still has the scope it had.\<close>

theorem token_scope_lifecycle:
  assumes "tokens_ok st" and "tid \<noteq> []" and "hash t \<noteq> []" and "hash t \<notin> set (map tr_hash (ts_tokens st))"
    and "tid \<notin> set (map tr_id (ts_tokens st))" and "js_trim t = t" and "t \<noteq> []" and "t \<noteq> config_token st"
    and "created = snd (create_token hash tid t now scope label st)"
    and "revoked = snd (revoke_token now' tid created)"
  shows "tokens_ok created \<and> tokens_ok revoked \<and>
    fst (scopeForToken hash n t (restarted created)) = Some scope \<and>
    fst (scopeForToken hash n t (restarted revoked)) = None \<and>
    (\<forall>u. js_trim u = u \<and> u \<noteq> [] \<and> u \<noteq> config_token st \<and> hash u \<noteq> hash t \<longrightarrow>
      fst (scopeForToken hash n u (restarted created)) = fst (scopeForToken hash n u st) \<and>
      fst (scopeForToken hash n u (restarted revoked)) = fst (scopeForToken hash n u st))"
proof (intro conjI allI impI)
  obtain r where r: "ts_tokens created = r # ts_tokens st" "tr_hash r = hash t" "tr_id r = tid" "tr_scope r = scope"
    using create_token_tokens [OF assms(1)] unfolding assms(9) by blast
  show okc: "tokens_ok created"
    unfolding assms(9) using assms(1-5) by (rule create_token_ok)
  show okr: "tokens_ok revoked"
    unfolding assms(10) by (rule revoke_token_ok [OF okc])
  have left: "ts_tokens revoked = ts_tokens st"
    using revoke_token_tokens(1) [OF okc, of now' tid] r(1,3) assms(5)
    unfolding assms(10) by (auto simp: filter_id_conv) (metis image_eqI)
  have config: "config_token created = config_token st" "config_token revoked = config_token st"
    unfolding assms(10) by (simp_all add: assms(9))
  show "fst (scopeForToken hash n t (restarted created)) = Some scope"
    using scope_of_token [OF okc assms(6,7), of hash n] assms(8) config r restart_keeps_scopes [OF okc, of hash n t n]
    by simp
  have "find (\<lambda>r. tr_hash r = hash t) (ts_tokens st) = None"
    using assms(4) by (auto simp: find_None_iff) (metis image_eqI)
  then show "fst (scopeForToken hash n t (restarted revoked)) = None"
    using scope_of_token [OF okr assms(6,7), of hash n] assms(8) config left restart_keeps_scopes [OF okr, of hash n t n]
    by simp
  fix u
  assume u: "js_trim u = u \<and> u \<noteq> [] \<and> u \<noteq> config_token st \<and> hash u \<noteq> hash t"
  then have other: "fst (scopeForToken hash n u st') = map_option tr_scope (find (\<lambda>r. tr_hash r = hash u) (ts_tokens st'))"
    if "tokens_ok st'" "config_token st' = config_token st" for st'
    using scope_of_token [OF that(1), of u] that(2) by simp
  have ne: "hash t \<noteq> hash u" using u by metis
  show "fst (scopeForToken hash n u (restarted created)) = fst (scopeForToken hash n u st)"
    using other [OF okc config(1)] other [OF assms(1) refl] r(1,2) ne restart_keeps_scopes [OF okc, of hash n u n] by simp
  show "fst (scopeForToken hash n u (restarted revoked)) = fst (scopeForToken hash n u st)"
    using other [OF okr config(2)] other [OF assms(1) refl] left restart_keeps_scopes [OF okr, of hash n u n] by simp
qed

definition fresh_service :: token_service where
  "fresh_service = \<lparr>config_token = ''c'', ts_file = None, ts_loaded = True, ts_tokens = [], ts_byHash = []\<rparr>"

lemma fresh_service_ok: "tokens_ok fresh_service"
  by (simp add: tokens_ok_def fresh_service_def readTokenStore_def)

lemma token_scope_lifecycle_witness:
  "fst (scopeForToken rev 9 ''owt_1'' (restarted (snd (create_token rev ''i1'' ''owt_1'' 5 OwnerScope (Some ''  '') fresh_service))))
     = Some OwnerScope"
  using token_scope_lifecycle [OF fresh_service_ok, of "''i1''" rev "''owt_1''" _ 5 OwnerScope "Some ''  ''" _ 6 9]
  by (simp add: fresh_service_def js_trim_def trim_end_def trim_start_def js_space_def)

section \<open>Environment variables\<close>

text \<open>\<open>/^[A-Za-z_][A-Za-z0-9_]*$/\<close>: without the \<open>m\<close> flag, \<open>$\<close> is the end of the string.\<close>

definition isValidEnvKey :: "string \<Rightarrow> bool" where
  "isValidEnvKey key =
     (case key of
        [] \<Rightarrow> False
      | c # cs \<Rightarrow> (is_letter c \<or> c = CHR ''_'') \<and> list_all (\<lambda>d. is_alnum d \<or> d = CHR ''_'') cs)"

definition RESERVED_PREFIXES :: "string list" where
  "RESERVED_PREFIXES = [''OMNIRUSH_'', ''OPENCODE_'']"

definition PERSISTABLE_INTERNAL_KEYS :: "string list" where
  "PERSISTABLE_INTERNAL_KEYS =
     [''OMNIRUSH_API_KEY'', ''OMNIRUSH_MODELS_API_KEY'', ''OMNIRUSH_INFERENCE_BASE_URL'', ''OMNIRUSH_MODELS_BASE_URL'']"

definition isInternalEnvKey :: "string \<Rightarrow> bool" where
  "isInternalEnvKey key = (\<exists>p \<in> set RESERVED_PREFIXES. starts_with p key)"

definition isReservedEnvKey :: "string \<Rightarrow> bool" where
  "isReservedEnvKey key = (isInternalEnvKey key \<and> key \<notin> set PERSISTABLE_INTERNAL_KEYS)"

record env_record =
  er_key :: string
  er_value :: string
  er_updatedAt :: int

definition parseRecord :: "int \<Rightarrow> json \<Rightarrow> env_record option" where
  "parseRecord now raw =
     (let key = opt_default [] (jstring (jfield ''key'' raw));
          val = opt_default [] (jstring (jfield ''value'' raw))
      in if \<not> isValidEnvKey key then None
         else Some \<lparr>er_key = key, er_value = val, er_updatedAt = opt_default now (jnumber (jfield ''updatedAt'' raw))\<rparr>)"

datatype env_error = EnvStoreReadError | InvalidEnvKey string | ReservedEnvKey string

text \<open>What is found at the store's path: nothing, bytes that cannot be read or parsed, or a JSON value.\<close>

datatype env_file = Absent | Unreadable | Content json

definition env_json :: "env_record \<Rightarrow> json" where
  "env_json r = JObj [(''key'', JStr (er_key r)), (''value'', JStr (er_value r)), (''updatedAt'', JNum (er_updatedAt r))]"

definition readStore :: "int \<Rightarrow> bool \<Rightarrow> env_file \<Rightarrow> env_error + env_record list" where
  "readStore now tolerateInvalid f =
     (case f of
        Absent \<Rightarrow> Inr []
      | Unreadable \<Rightarrow> (if tolerateInvalid then Inr [] else Inl EnvStoreReadError)
      | Content parsed \<Rightarrow>
          (case jfield ''variables'' parsed of
             Some (JArr vs) \<Rightarrow> Inr (List.map_filter (parseRecord now) vs)
           | _ \<Rightarrow> (if tolerateInvalid then Inr [] else Inl EnvStoreReadError)))"

definition writeStore :: "int \<Rightarrow> env_record list \<Rightarrow> env_file" where
  "writeStore now vs =
     Content (JObj [(''schemaVersion'', JNum 1), (''updatedAt'', JNum now), (''variables'', JArr (map env_json vs))])"

record env_service =
  env_store :: env_file
  env_loaded :: bool
  variables :: "env_record list"
  notified :: nat

definition load_env :: "int \<Rightarrow> env_service \<Rightarrow> env_error + env_service" where
  "load_env now st =
     (if env_loaded st then Inr st
      else (case readStore now False (env_store st) of
              Inl e \<Rightarrow> Inl e
            | Inr vs \<Rightarrow> Inr (st\<lparr>env_loaded := True, variables := vs\<rparr>)))"

text \<open>
  The loop over the entries of one request, on the \<open>Map\<close> built from the stored
  variables; the first refused key ends it.
\<close>

fun upsert_entries ::
    "int \<Rightarrow> (string \<times> string) list \<Rightarrow> (string, env_record) jsmap \<Rightarrow> env_error + (string, env_record) jsmap" where
  "upsert_entries now [] m = Inr m"
| "upsert_entries now ((k, v) # es) m =
     (if \<not> isValidEnvKey k then Inl (InvalidEnvKey k)
      else if isReservedEnvKey k then Inl (ReservedEnvKey k)
      else upsert_entries now es (jm_set k \<lparr>er_key = k, er_value = v, er_updatedAt = now\<rparr> m))"

text \<open>\<open>key\<close> orders keys the way \<open>localeCompare\<close> does; the sort is stable.\<close>

definition upsertMany ::
    "(string \<Rightarrow> 'k::linorder) \<Rightarrow> int \<Rightarrow> (string \<times> string) list \<Rightarrow> env_service \<Rightarrow> env_error option \<times> env_service" where
  "upsertMany key now entries st =
     (case load_env now st of
        Inl e \<Rightarrow> (Some e, st)
      | Inr st \<Rightarrow>
          (case upsert_entries now entries (fold (\<lambda>r m. jm_set (er_key r) r m) (variables st) []) of
             Inl e \<Rightarrow> (Some e, st)
           | Inr m \<Rightarrow>
               (let nextVariables = sort_key (\<lambda>r. key (er_key r)) (jm_values m)
                in (None, st\<lparr>env_store := writeStore now nextVariables, variables := nextVariables,
                             notified := Suc (notified st)\<rparr>))))"

definition delete_env :: "int \<Rightarrow> string \<Rightarrow> env_service \<Rightarrow> (env_error + bool) \<times> env_service" where
  "delete_env now k st =
     (case load_env now st of
        Inl e \<Rightarrow> (Inl e, st)
      | Inr st \<Rightarrow>
          (let nextVariables = filter (\<lambda>r. er_key r \<noteq> k) (variables st)
           in if length nextVariables = length (variables st) then (Inr False, st)
              else (Inr True, st\<lparr>env_store := writeStore now nextVariables, variables := nextVariables,
                                 notified := Suc (notified st)\<rparr>)))"

definition readForInjection :: "int \<Rightarrow> env_file \<Rightarrow> (string, string) jsmap" where
  "readForInjection now f =
     (case readStore now True f of
        Inl e \<Rightarrow> []
      | Inr vs \<Rightarrow> fold (\<lambda>r out. if isInternalEnvKey (er_key r) then out else jm_set (er_key r) (er_value r) out) vs [])"

lemma parse_env_json: "isValidEnvKey (er_key r) \<Longrightarrow> parseRecord now (env_json r) = Some r"
  by (simp add: parseRecord_def env_json_def jfield_def jstring_def jnumber_def Let_def)

lemma read_write_env: "\<forall>r \<in> set vs. isValidEnvKey (er_key r) \<Longrightarrow> readStore now b (writeStore now' vs) = Inr vs"
  by (simp add: readStore_def writeStore_def jfield_def map_filter_all parse_env_json)

lemma parseRecord_valid: "parseRecord now raw = Some r \<Longrightarrow> isValidEnvKey (er_key r)"
  by (auto simp: parseRecord_def Let_def split: if_splits)

lemma set_map_filter: "y \<in> set (List.map_filter f xs) \<longleftrightarrow> (\<exists>x \<in> set xs. f x = Some y)"
  by (induction xs) (auto simp: map_filter_simps split: option.splits)

lemma readStore_valid: "readStore now b f = Inr vs \<Longrightarrow> r \<in> set vs \<Longrightarrow> isValidEnvKey (er_key r)"
  by (auto simp: readStore_def set_map_filter dest: parseRecord_valid split: env_file.splits option.splits json.splits if_splits)

text \<open>A map whose entries are filed under the key they carry.\<close>

definition keyed :: "(string, env_record) jsmap \<Rightarrow> bool" where
  "keyed m = (jm_wf m \<and> (\<forall>(k, r) \<in> set m. er_key r = k \<and> isValidEnvKey k))"

lemma jm_set_mem: "e \<in> set (jm_set k v m) \<Longrightarrow> e = (k, v) \<or> e \<in> set m"
  by (induction k v m rule: jm_set.induct) (auto split: if_splits)

lemma keyed_set: "keyed m \<Longrightarrow> er_key r = k \<Longrightarrow> isValidEnvKey k \<Longrightarrow> keyed (jm_set k r m)"
  unfolding keyed_def using jm_set_mem [of _ k r m] by fastforce

lemma keyed_fold: "keyed m \<Longrightarrow> \<forall>r \<in> set vs. isValidEnvKey (er_key r) \<Longrightarrow> keyed (fold (\<lambda>r m. jm_set (er_key r) r m) vs m)"
  by (induction vs arbitrary: m) (simp_all add: keyed_set)

lemma keyed_upsert: "upsert_entries now es m = Inr m' \<Longrightarrow> keyed m \<Longrightarrow> keyed m'"
  by (induction now es m rule: upsert_entries.induct) (simp_all add: keyed_set split: if_splits)

lemma keyed_values:
  assumes "keyed m"
  shows "distinct (map er_key (jm_values m))" and "r \<in> set (jm_values m) \<Longrightarrow> isValidEnvKey (er_key r)"
proof -
  have "map er_key (jm_values m) = map fst m"
    using assms by (auto simp: keyed_def jm_values_def)
  then show "distinct (map er_key (jm_values m))"
    using assms by (simp add: keyed_def jm_wf_def)
  show "r \<in> set (jm_values m) \<Longrightarrow> isValidEnvKey (er_key r)"
    using assms by (auto simp: keyed_def jm_values_def)
qed

lemma keyed_find: "keyed m \<Longrightarrow> find (\<lambda>r. er_key r = k) (jm_values m) = jm_get k m"
  by (induction m) (auto simp: keyed_def jm_values_def jm_wf_def)

text \<open>What the service knows: valid keys, no key twice, and the file that gives it back.\<close>

definition env_ok :: "env_service \<Rightarrow> bool" where
  "env_ok st =
     (env_loaded st \<and> distinct (map er_key (variables st)) \<and> (\<forall>r \<in> set (variables st). isValidEnvKey (er_key r)) \<and>
      (\<forall>now b. readStore now b (env_store st) = Inr (variables st)))"

definition env_value :: "string \<Rightarrow> env_service \<Rightarrow> string option" where
  "env_value k st = map_option er_value (find (\<lambda>r. er_key r = k) (variables st))"

definition refused :: "string \<times> string \<Rightarrow> bool" where
  "refused e = (\<not> isValidEnvKey (fst e) \<or> isReservedEnvKey (fst e))"

definition refusal :: "string \<times> string \<Rightarrow> env_error" where
  "refusal e = (if isValidEnvKey (fst e) then ReservedEnvKey (fst e) else InvalidEnvKey (fst e))"

lemma upsert_entries_Inr:
  "upsert_entries now es m = Inr m' \<Longrightarrow>
     \<not> list_ex refused es \<and>
     (\<forall>k. jm_get k m' = (case map_of (rev es) k of
         None \<Rightarrow> jm_get k m | Some v \<Rightarrow> Some \<lparr>er_key = k, er_value = v, er_updatedAt = now\<rparr>))"
  by (induction now es m rule: upsert_entries.induct)
    (auto simp: map_add_def refused_def split: if_splits option.splits)

lemma upsert_entries_Inl: "upsert_entries now es m = Inl e \<Longrightarrow> map_option refusal (find refused es) = Some e"
  by (induction now es m rule: upsert_entries.induct) (auto simp: refused_def refusal_def split: if_splits)

lemma distinct_sort_key: "distinct (map f (sort_key g xs)) = distinct (map f xs)"
  by (simp add: distinct_map)

lemma find_sort_key:
  "distinct (map er_key vs) \<Longrightarrow> find (\<lambda>r. er_key r = k) (sort_key f vs) = find (\<lambda>r. er_key r = k) vs"
proof (cases "find (\<lambda>r. er_key r = k) vs")
  case None
  then have "find (\<lambda>r. er_key r = k) (sort_key f vs) = None"
    by (simp add: find_None_iff)
  then show ?thesis using None by simp
next
  case (Some r)
  assume d: "distinct (map er_key vs)"
  have "\<exists>i<length vs. er_key (vs ! i) = k \<and> r = vs ! i"
    using Some by (auto simp: find_Some_iff)
  then have r: "r \<in> set (sort_key f vs)" "er_key r = k"
    by auto
  have "distinct (map er_key (sort_key f vs))"
    using d by (simp add: distinct_sort_key)
  then show ?thesis using r Some find_distinct_hash [of er_key "sort_key f vs" r] by auto
qed

lemma upsertMany_ok:
  assumes "env_ok st"
  shows "env_ok (snd (upsertMany key now es st))"
proof (cases "upsert_entries now es (fold (\<lambda>r m. jm_set (er_key r) r m) (variables st) [])")
  case (Inl e)
  then show ?thesis using assms by (simp add: upsertMany_def load_env_def env_ok_def)
next
  case (Inr m)
  have "keyed m"
    using keyed_upsert [OF Inr keyed_fold] assms by (auto simp: env_ok_def keyed_def)
  let ?vs = "sort_key (\<lambda>r. key (er_key r)) (jm_values m)"
  have valid: "\<forall>r \<in> set ?vs. isValidEnvKey (er_key r)" and "distinct (map er_key ?vs)"
    using keyed_values [OF \<open>keyed m\<close>] by (auto simp: distinct_sort_key)
  then show ?thesis
    using Inr assms valid read_write_env [OF valid]
    by (simp add: upsertMany_def load_env_def env_ok_def Let_def)
qed

lemma delete_env_ok:
  assumes "env_ok st"
  shows "env_ok (snd (delete_env now k st))"
proof -
  let ?vs = "filter (\<lambda>r. er_key r \<noteq> k) (variables st)"
  have valid: "\<forall>r \<in> set ?vs. isValidEnvKey (er_key r)" and "distinct (map er_key ?vs)"
    using assms by (auto simp: env_ok_def distinct_map_filter)
  then show ?thesis
    using assms read_write_env [OF valid]
    by (simp add: delete_env_def load_env_def env_ok_def Let_def)
qed

lemma env_keyed_start: "env_ok st \<Longrightarrow> jm_get k (fold (\<lambda>r m. jm_set (er_key r) r m) (variables st) []) =
    find (\<lambda>r. er_key r = k) (variables st)"
  using get_fold_set [of er_key "variables st" k "[]"] by (simp add: env_ok_def split: option.splits)

text \<open>C37. Environment variables are written all or nothing.

  In a service whose list agrees with its file (\<open>env_ok\<close>), a request with an invalid
  or a reserved name changes nothing and reports the first such name; any other request gives
  every name the last value the request has for it, leaves the other variables as
  they are, and the written file is read back as exactly that list, whatever the
  collation.\<close>

theorem env_upsert_all_or_nothing:
  assumes "env_ok st" and "upsertMany key now es st = (err, st')"
  shows "env_ok st' \<and>
    (case err of
       None \<Rightarrow> \<not> list_ex refused es \<and>
         (\<forall>k. env_value k st' = (case map_of (rev es) k of Some v \<Rightarrow> Some v | None \<Rightarrow> env_value k st)) \<and>
         readStore now True (env_store st') = Inr (variables st')
     | Some e \<Rightarrow> st' = st \<and> map_option refusal (find refused es) = Some e)"
proof -
  let ?m0 = "fold (\<lambda>r m. jm_set (er_key r) r m) (variables st) []"
  have ok: "env_ok st'"
    using upsertMany_ok [OF assms(1), of key now es] assms(2) by simp
  have loaded: "load_env now st = Inr st"
    using assms(1) by (simp add: load_env_def env_ok_def)
  show ?thesis
  proof (cases "upsert_entries now es ?m0")
    case (Inl e)
    then have "err = Some e" "st' = st"
      using assms(2) loaded by (simp_all add: upsertMany_def)
    then show ?thesis using ok upsert_entries_Inl [OF Inl] by simp
  next
    case (Inr m)
    have m: "keyed m"
      using keyed_upsert [OF Inr keyed_fold] assms(1) by (auto simp: env_ok_def keyed_def)
    have res: "err = None" "variables st' = sort_key (\<lambda>r. key (er_key r)) (jm_values m)"
      using assms(2) loaded Inr by (auto simp: upsertMany_def Let_def)
    have "env_value k st' = map_option er_value (jm_get k m)" for k
      using res(2) keyed_values(1) [OF m] keyed_find [OF m] by (simp add: env_value_def find_sort_key)
    moreover have "env_value k st = map_option er_value (jm_get k ?m0)" for k
      using env_keyed_start [OF assms(1)] by (simp add: env_value_def)
    ultimately have "env_value k st' = (case map_of (rev es) k of Some v \<Rightarrow> Some v | None \<Rightarrow> env_value k st)" for k
      using upsert_entries_Inr [OF Inr] by (simp split: option.splits)
    then show ?thesis
      using ok res(1) upsert_entries_Inr [OF Inr] by (simp add: env_ok_def)
  qed
qed

definition empty_env :: env_service where
  "empty_env = \<lparr>env_store = Absent, env_loaded = True, variables = [], notified = 0\<rparr>"

lemma env_upsert_all_or_nothing_witness:
  "env_value ''A'' (snd (upsertMany (\<lambda>k. length k) 5 [(''A'', ''1''), (''A'', ''2'')] empty_env)) = Some ''2''"
proof -
  have "env_ok empty_env"
    by (simp add: env_ok_def empty_env_def readStore_def)
  moreover have "fst (upsertMany (\<lambda>k. length k) 5 [(''A'', ''1''), (''A'', ''2'')] empty_env) = None"
    by code_simp
  ultimately show ?thesis
    using env_upsert_all_or_nothing [of empty_env "\<lambda>k. length k" 5 "[(''A'', ''1''), (''A'', ''2'')]"]
    by (cases "upsertMany (\<lambda>k. length k) 5 [(''A'', ''1''), (''A'', ''2'')] empty_env") auto
qed

lemma injection_fold:
  "jm_get k (fold (\<lambda>r out. if isInternalEnvKey (er_key r) then out else jm_set (er_key r) (er_value r) out) vs m) =
     (if isInternalEnvKey k then jm_get k m
      else case find (\<lambda>r. er_key r = k) (rev vs) of Some r \<Rightarrow> Some (er_value r) | None \<Rightarrow> jm_get k m)"
proof (induction vs rule: rev_induct)
  case Nil
  show ?case by simp
next
  case (snoc r vs)
  then show ?case by (auto split: option.splits)
qed

lemma readStore_tolerant: "\<exists>vs. readStore now True f = Inr vs"
  by (auto simp: readStore_def split: env_file.splits option.splits json.splits)

text \<open>No internal variable is injected, whatever the file holds.

  Every name handed to a spawned process is a valid name that starts with neither
  \<open>OMNIRUSH_\<close> nor \<open>OPENCODE_\<close> (the four such names the service lets be stored included),
  and the name has the value of the last entry for it in the file; a file that cannot be
  read or has another format injects nothing.\<close>

theorem injection_never_internal:
  "(\<forall>k v. jm_get k (readForInjection now f) = Some v \<longrightarrow>
      isValidEnvKey k \<and> \<not> starts_with ''OMNIRUSH_'' k \<and> \<not> starts_with ''OPENCODE_'' k) \<and>
   (case readStore now False f of
      Inl e \<Rightarrow> readForInjection now f = []
    | Inr vs \<Rightarrow> (\<forall>k. \<not> isInternalEnvKey k \<longrightarrow>
        jm_get k (readForInjection now f) = map_option er_value (find (\<lambda>r. er_key r = k) (rev vs))))"
proof (intro conjI allI impI)
  obtain vs where vs: "readStore now True f = Inr vs"
    using readStore_tolerant by blast
  have get: "jm_get k (readForInjection now f) =
      (if isInternalEnvKey k then None else map_option er_value (find (\<lambda>r. er_key r = k) (rev vs)))" for k
    using injection_fold [of k vs "[]"] vs by (simp add: readForInjection_def split: option.splits)
  fix k v
  assume "jm_get k (readForInjection now f) = Some v"
  then have ext: "\<not> isInternalEnvKey k" and "find (\<lambda>r. er_key r = k) (rev vs) \<noteq> None"
    using get [of k] by (auto split: if_splits)
  then obtain r where "r \<in> set vs" "er_key r = k"
    by (auto simp: find_None_iff)
  then show "isValidEnvKey k" using readStore_valid [OF vs] by blast
  show "\<not> starts_with ''OMNIRUSH_'' k" "\<not> starts_with ''OPENCODE_'' k"
    using ext by (simp_all add: isInternalEnvKey_def RESERVED_PREFIXES_def)
next
  obtain vs where vs: "readStore now True f = Inr vs"
    using readStore_tolerant by blast
  show "case readStore now False f of
      Inl e \<Rightarrow> readForInjection now f = []
    | Inr vs \<Rightarrow> (\<forall>k. \<not> isInternalEnvKey k \<longrightarrow>
        jm_get k (readForInjection now f) = map_option er_value (find (\<lambda>r. er_key r = k) (rev vs)))"
  proof (cases "readStore now False f")
    case (Inl e)
    then have "readStore now True f = Inr []"
      by (auto simp: readStore_def split: env_file.splits option.splits json.splits)
    then show ?thesis using Inl by (simp add: readForInjection_def)
  next
    case (Inr ws)
    then have "readStore now True f = Inr ws"
      by (auto simp: readStore_def split: env_file.splits option.splits json.splits)
    then show ?thesis
      using Inr injection_fold [of _ ws "[]"] by (simp add: readForInjection_def split: option.splits)
  qed
qed

definition tampered_file :: env_file where
  "tampered_file = Content (JObj [(''variables'', JArr
     [JObj [(''key'', JStr ''OMNIRUSH_API_KEY''), (''value'', JStr ''k'')],
      JObj [(''key'', JStr ''A''), (''value'', JStr ''1'')]])])"

lemma injection_never_internal_witness:
  "readForInjection 0 tampered_file = [(''A'', ''1'')] \<and> \<not> starts_with ''OMNIRUSH_'' ''A''"
proof -
  have "readForInjection 0 tampered_file = [(''A'', ''1'')]"
    by code_simp
  then show ?thesis
    using injection_never_internal [of 0 tampered_file] by simp
qed

end
