(* ===== verification/EditorSaves.thy ===== *)
theory EditorSaves
  imports LocalStores
begin

text \<open>
  The files the person saved in the desktop editor and what an undo request does
  with them (\<open>apps/server/src/editor-saves.ts\<close>).

  \<open>resolve(root)\<close> and \<open>resolve(root, path)\<close> of \<open>node:path\<close> depend on the
  process's directory and are arguments, as is the engine's answer to when a
  message was created. A request body is the JSON value it holds, \<open>None\<close> when there is none
  or it does not parse.
\<close>

definition EDITOR_SAVES_MAX_FILES :: nat where "EDITOR_SAVES_MAX_FILES = 2000"

definition REVERT_KEEP_MAX :: nat where "REVERT_KEEP_MAX = 2000"

type_synonym save_log = "(string, (string, int) jsmap) jsmap"

text \<open>The \<open>while\<close> loop: the map's first keys go until the size fits.\<close>

fun let_oldest_go :: "nat \<Rightarrow> (string, int) jsmap \<Rightarrow> (string, int) jsmap" where
  "let_oldest_go limit [] = []"
| "let_oldest_go limit (e # m) = (if length (e # m) > limit then let_oldest_go limit m else e # m)"

definition record_save ::
    "(string \<Rightarrow> string) \<Rightarrow> (string \<Rightarrow> string \<Rightarrow> string) \<Rightarrow> string \<Rightarrow> string \<Rightarrow> int \<Rightarrow> save_log \<Rightarrow> save_log" where
  "record_save resolve resolve_in root relativePath at_ms byRoot =
     (let key = resolve root;
          files = opt_default [] (jm_get key byRoot);
          absolute = resolve_in key relativePath;
          files = jm_set absolute at_ms (jm_delete absolute files)
      in jm_set key (let_oldest_go EDITOR_SAVES_MAX_FILES files) byRoot)"

definition has_saves :: "(string \<Rightarrow> string) \<Rightarrow> string \<Rightarrow> save_log \<Rightarrow> bool" where
  "has_saves resolve root byRoot = (length (opt_default [] (jm_get (resolve root) byRoot)) > 0)"

definition savedSince :: "(string \<Rightarrow> string) \<Rightarrow> string \<Rightarrow> int \<Rightarrow> save_log \<Rightarrow> string list" where
  "savedSince resolve root since byRoot =
     (case jm_get (resolve root) byRoot of
        None \<Rightarrow> []
      | Some files \<Rightarrow> map fst (filter (\<lambda>(path, at_ms). at_ms \<ge> since) files))"

definition decode :: "json option \<Rightarrow> (string \<times> json) list option" where
  "decode body = (case body of Some (JObj es) \<Rightarrow> Some es | _ \<Rightarrow> None)"

definition revertMessageId :: "json option \<Rightarrow> string option" where
  "revertMessageId body =
     (case decode body of
        None \<Rightarrow> None
      | Some es \<Rightarrow> (case jm_get ''messageID'' es of
            Some (JStr m) \<Rightarrow> (if m = [] then None else Some m)
          | _ \<Rightarrow> None))"

definition existing_keep :: "(string \<times> json) list \<Rightarrow> string list" where
  "existing_keep es =
     (case jm_get ''keep'' es of
        Some (JArr items) \<Rightarrow> List.map_filter (\<lambda>i. jstring (Some i)) items
      | _ \<Rightarrow> [])"

definition withRevertKeep :: "json option \<Rightarrow> string list \<Rightarrow> json option" where
  "withRevertKeep body saved =
     (if saved = [] then None
      else (case decode body of
              None \<Rightarrow> None
            | Some parsed \<Rightarrow>
                (let existing = existing_keep parsed;
                     keep = take (max REVERT_KEEP_MAX (length existing)) (js_uniq (existing @ saved))
                 in if length keep = length existing then None
                    else Some (JObj (jm_set ''keep'' (JArr (map JStr keep)) parsed)))))"

definition revertBodyWithEditorSaves ::
    "(string \<Rightarrow> string) \<Rightarrow> save_log \<Rightarrow> string \<Rightarrow> json option \<Rightarrow> (string \<Rightarrow> int option) \<Rightarrow> json option" where
  "revertBodyWithEditorSaves resolve saves root body messageCreated =
     (if \<not> has_saves resolve root saves then body
      else (case revertMessageId body of
              None \<Rightarrow> body
            | Some messageId \<Rightarrow>
                (case messageCreated messageId of
                   None \<Rightarrow> body
                 | Some created \<Rightarrow>
                     (case withRevertKeep body (savedSince resolve root created saves) of
                        None \<Rightarrow> body
                      | Some b \<Rightarrow> Some b))))"

section \<open>The log keeps the latest saves\<close>

text \<open>The last \<open>n\<close> elements, and the entries that are the last ones for their key.\<close>

definition last_n :: "nat \<Rightarrow> 'a list \<Rightarrow> 'a list" where
  "last_n n xs = drop (length xs - n) xs"

definition latest_entries :: "('k \<times> 'v) list \<Rightarrow> ('k \<times> 'v) list" where
  "latest_entries xs = fold (\<lambda>e m. filter (\<lambda>e'. fst e' \<noteq> fst e) m @ [e]) xs []"

lemma let_oldest_go_last: "let_oldest_go n m = last_n n m"
proof (induction n m rule: let_oldest_go.induct)
  case (2 limit e m)
  then show ?case
    by (cases "length (e # m) > limit") (auto simp: last_n_def Suc_diff_le)
qed (simp add: last_n_def)

lemma jm_set_delete: "jm_set k v (jm_delete k m) = jm_delete k m @ [(k, v)]"
  by (rule jm_set_fresh) simp

lemma latest_entries_snoc: "latest_entries (xs @ [e]) = filter (\<lambda>e'. fst e' \<noteq> fst e) (latest_entries xs) @ [e]"
  by (simp add: latest_entries_def)

lemma latest_entries_distinct: "distinct (map fst (latest_entries xs))"
  by (induction xs rule: rev_induct) (auto simp: latest_entries_snoc distinct_map_filter latest_entries_def)

lemma latest_entries_mem:
  "(k, v) \<in> set (latest_entries xs) \<longleftrightarrow> map_of (rev xs) k = Some v"
proof (induction xs rule: rev_induct)
  case Nil
  show ?case by (simp add: latest_entries_def)
next
  case (snoc e xs)
  show ?case using snoc by (cases e) (auto simp: latest_entries_snoc)
qed

lemma filter_key_length:
  "distinct (map fst m) \<Longrightarrow> length (filter (\<lambda>e. fst e \<noteq> k) m) = length m - (if k \<in> fst ` set m then 1 else 0)"
proof (induction m)
  case (Cons e m)
  then show ?case
    by (cases "k = fst e") (auto simp: filter_id_conv Suc_diff_le dest: length_pos_if_in_set)
qed simp

lemma last_n_step:
  assumes "distinct (map fst xs)" and "0 < n"
  shows "last_n n (filter (\<lambda>e'. fst e' \<noteq> fst e) (last_n n xs) @ [e]) = last_n n (filter (\<lambda>e'. fst e' \<noteq> fst e) xs @ [e])"
proof -
  let ?P = "\<lambda>e'. fst e' \<noteq> fst e"
  define as where "as = take (length xs - n) xs"
  define bs where "bs = last_n n xs"
  have xs: "xs = as @ bs" by (simp add: as_def bs_def last_n_def)
  have short: "length bs = min n (length xs)" by (simp add: bs_def last_n_def)
  have drop_left: "last_n n (us @ vs @ [e]) = last_n n (vs @ [e])" if "n \<le> Suc (length vs)" for us vs :: "('a \<times> 'b) list"
    using that by (simp add: last_n_def)
  show ?thesis
  proof (cases "n \<le> length xs")
    case False
    then show ?thesis by (simp add: last_n_def)
  next
    case True
    then have n: "length bs = n" using short by simp
    show ?thesis
    proof (cases "n \<le> Suc (length (filter ?P bs))")
      case True
      have "filter ?P xs = filter ?P as @ filter ?P bs" by (simp add: xs)
      then show ?thesis using drop_left [OF True, of "filter ?P as"] by (simp add: bs_def [symmetric])
    next
      case False
      have "distinct (map fst bs)" using assms(1) xs by simp
      then have "length (filter ?P bs) \<ge> n - 1"
        using filter_key_length [of bs "fst e"] n by simp
      then show ?thesis using False by simp
    qed
  qed
qed

text \<open>The saves to one root, with the absolute paths they are filed under.\<close>

definition saves_in ::
    "(string \<Rightarrow> string) \<Rightarrow> (string \<Rightarrow> string \<Rightarrow> string) \<Rightarrow> string \<Rightarrow> (string \<times> string \<times> int) list \<Rightarrow> (string \<times> int) list" where
  "saves_in resolve resolve_in root xs =
     map (\<lambda>(r, path, at_ms). (resolve_in (resolve r) path, at_ms)) (filter (\<lambda>(r, _). resolve r = resolve root) xs)"

definition record_all ::
    "(string \<Rightarrow> string) \<Rightarrow> (string \<Rightarrow> string \<Rightarrow> string) \<Rightarrow> (string \<times> string \<times> int) list \<Rightarrow> save_log" where
  "record_all resolve resolve_in xs = fold (\<lambda>(r, path, at_ms). record_save resolve resolve_in r path at_ms) xs []"

lemma recorded_files:
  "opt_default [] (jm_get (resolve root) (record_all resolve resolve_in xs)) =
     last_n EDITOR_SAVES_MAX_FILES (latest_entries (saves_in resolve resolve_in root xs))"
proof (induction xs rule: rev_induct)
  case Nil
  show ?case by (simp add: record_all_def saves_in_def latest_entries_def last_n_def)
next
  case (snoc x xs)
  obtain r path at_ms where x: "x = (r, path, at_ms)" by (cases x)
  let ?old = "opt_default [] (jm_get (resolve r) (record_all resolve resolve_in xs))"
  let ?k = "resolve_in (resolve r) path"
  have step: "record_all resolve resolve_in (xs @ [x]) =
      jm_set (resolve r) (last_n EDITOR_SAVES_MAX_FILES (filter (\<lambda>e. fst e \<noteq> ?k) ?old @ [(?k, at_ms)])) (record_all resolve resolve_in xs)"
    by (simp add: record_all_def x record_save_def Let_def let_oldest_go_last jm_set_delete) (simp add: jm_delete_def)
  show ?case
  proof (cases "resolve r = resolve root")
    case True
    have "saves_in resolve resolve_in root (xs @ [x]) = saves_in resolve resolve_in root xs @ [(?k, at_ms)]"
      using True by (simp add: saves_in_def x)
    then show ?thesis
      using step snoc.IH True
        last_n_step [OF latest_entries_distinct, of EDITOR_SAVES_MAX_FILES "(?k, at_ms)" "saves_in resolve resolve_in root xs"]
      by (simp add: latest_entries_snoc EDITOR_SAVES_MAX_FILES_def)
  next
    case False
    then have "saves_in resolve resolve_in root (xs @ [x]) = saves_in resolve resolve_in root xs"
      by (simp add: saves_in_def x)
    then show ?thesis using step snoc.IH False by auto
  qed
qed

text \<open>The log of the editor's saves is exact up to its bound.

  After any sequence of saves, the files \<open>savedSince\<close> reports for a root are the
  files saved there, each with the time of its last save, among the 2000 whose last
  saves are the most recent ones, that were saved at or after the time asked for; at most
  2000 are held, and none are forgotten while there are no more than that.\<close>

theorem editor_saves_exact:
  assumes "log = record_all resolve resolve_in xs" and "saved = latest_entries (saves_in resolve resolve_in root xs)"
  shows "savedSince resolve root since log = map fst (filter (\<lambda>(path, at_ms). at_ms \<ge> since) (last_n 2000 saved)) \<and>
    length (savedSince resolve root since log) \<le> 2000 \<and>
    (has_saves resolve root log \<longleftrightarrow> saves_in resolve resolve_in root xs \<noteq> []) \<and>
    (length saved \<le> 2000 \<longrightarrow> set (savedSince resolve root since log) =
      {path. \<exists>at_ms \<ge> since. map_of (rev (saves_in resolve resolve_in root xs)) path = Some at_ms})"
proof -
  have files: "opt_default [] (jm_get (resolve root) log) = last_n 2000 saved"
    using recorded_files [of resolve root resolve_in xs] assms by (simp add: EDITOR_SAVES_MAX_FILES_def)
  have eq: "savedSince resolve root since log = map fst (filter (\<lambda>(path, at_ms). at_ms \<ge> since) (last_n 2000 saved))"
    using files by (auto simp: savedSince_def opt_default_def split: option.splits)
  have short: "length (last_n 2000 saved) \<le> 2000"
    by (simp add: last_n_def)
  then have len: "length (savedSince resolve root since log) \<le> 2000"
    unfolding eq length_map by (rule le_trans [OF length_filter_le])
  have some: "has_saves resolve root log \<longleftrightarrow> saves_in resolve resolve_in root xs \<noteq> []"
  proof (cases "saves_in resolve resolve_in root xs" rule: rev_cases)
    case Nil
    then show ?thesis using files assms(2) by (simp add: has_saves_def latest_entries_def last_n_def)
  next
    case (snoc ys y)
    then show ?thesis using files assms(2) by (simp add: has_saves_def latest_entries_snoc last_n_def)
  qed
  have "set (savedSince resolve root since log) =
      {path. \<exists>at_ms \<ge> since. map_of (rev (saves_in resolve resolve_in root xs)) path = Some at_ms}" if "length saved \<le> 2000"
  proof -
    have "last_n 2000 saved = saved" using that by (simp add: last_n_def)
    then show ?thesis
      unfolding eq using latest_entries_mem assms(2) by (force simp: image_iff)
  qed
  then show ?thesis using eq len some by blast
qed

lemma editor_saves_exact_witness:
  "savedSince id ''/w'' 5 (record_all id (\<lambda>r p. r @ CHR ''/'' # p) [(''/w'', ''a'', 6), (''/w'', ''b'', 4), (''/w'', ''b'', 7)])
     = [''/w/a'', ''/w/b'']"
  using editor_saves_exact [OF refl refl, of id "''/w''" 5 "\<lambda>r p. r @ CHR ''/'' # p"
      "[(''/w'', ''a'', 6), (''/w'', ''b'', 4), (''/w'', ''b'', 7)]"]
  by (simp add: saves_in_def latest_entries_def last_n_def)

section \<open>What an undo keeps\<close>

lemma js_uniq_append_length: "length (js_uniq (xs @ ys)) \<ge> length (js_uniq xs)"
  by (simp add: length_js_uniq card_mono)

lemma card_le_length_append: "distinct xs \<Longrightarrow> card (set (xs @ ys)) = length xs \<longleftrightarrow> set ys \<subseteq> set xs"
proof
  assume d: "distinct xs" and c: "card (set (xs @ ys)) = length xs"
  have "set xs = set (xs @ ys)"
    by (rule card_subset_eq) (use d c in \<open>auto simp: distinct_card\<close>)
  then show "set ys \<subseteq> set xs" by auto
next
  assume "distinct xs" and "set ys \<subseteq> set xs"
  then show "card (set (xs @ ys)) = length xs"
    by (simp add: distinct_card sup.absorb1)
qed

lemma keep_of_json: "existing_keep (jm_set ''keep'' (JArr (map JStr ks)) es) = ks"
  by (simp add: existing_keep_def map_filter_all jstring_def)

text \<open>The files a body sent to the engine asks to keep.\<close>

definition kept_files :: "json option \<Rightarrow> string set" where
  "kept_files body = (case decode body of None \<Rightarrow> {} | Some es \<Rightarrow> set (existing_keep es))"

text \<open>An undo keeps the person's saves.

  When a body whose \<open>keep\<close> list (if any) has no file twice names a message the engine
  knows, and there is room for the saves in the bound of 2000, the body sent to the
  engine keeps the files it already kept and every file saved in the root since that
  message, and no others; every other field is unchanged.\<close>

theorem undo_keeps_saved_files:
  assumes "body = Some (JObj es)" and "jm_get ''messageID'' es = Some (JStr m)" and "m \<noteq> []"
    and "messageCreated m = Some created" and "distinct (existing_keep es)"
    and "saved = savedSince resolve root created log"
    and "card (set (existing_keep es) \<union> set saved) \<le> REVERT_KEEP_MAX"
  shows "kept_files (revertBodyWithEditorSaves resolve log root body messageCreated) = kept_files body \<union> set saved \<and>
    (\<exists>es'. revertBodyWithEditorSaves resolve log root body messageCreated = Some (JObj es') \<and>
      (\<forall>k. k \<noteq> ''keep'' \<longrightarrow> jm_get k es' = jm_get k es))"
proof -
  have empty: "saved = []" if "\<not> has_saves resolve root log"
    using that assms(6) by (auto simp: has_saves_def savedSince_def opt_default_def split: option.splits)
  show ?thesis
  proof (cases "set saved \<subseteq> set (existing_keep es)")
    case True
    have "withRevertKeep body saved = None"
    proof (cases "saved = []")
      case False
      have "length (take (max REVERT_KEEP_MAX (length (existing_keep es))) (js_uniq (existing_keep es @ saved))) = length (existing_keep es)"
        using card_le_length_append [OF assms(5), of saved] True by (simp add: length_js_uniq)
      then show ?thesis using assms(1) by (simp add: withRevertKeep_def decode_def)
    qed (simp add: withRevertKeep_def)
    then have "revertBodyWithEditorSaves resolve log root body messageCreated = body"
      using assms(1-4,6) by (simp add: revertBodyWithEditorSaves_def revertMessageId_def decode_def)
    then show ?thesis using assms(1) True by (auto simp: kept_files_def decode_def)
  next
    case False
    let ?all = "js_uniq (existing_keep es @ saved)"
    have card: "length ?all \<le> REVERT_KEEP_MAX"
      using assms(7) by (simp add: length_js_uniq)
    then have all: "take (max REVERT_KEEP_MAX (length (existing_keep es))) ?all = ?all"
      by simp
    have "length ?all \<noteq> length (existing_keep es)"
      using card_le_length_append [OF assms(5), of saved] False by (simp add: length_js_uniq)
    then have "withRevertKeep body saved = Some (JObj (jm_set ''keep'' (JArr (map JStr ?all)) es))"
      using False assms(1) all by (auto simp: withRevertKeep_def decode_def Let_def)
    moreover have "has_saves resolve root log" using False empty by auto
    ultimately have "revertBodyWithEditorSaves resolve log root body messageCreated
        = Some (JObj (jm_set ''keep'' (JArr (map JStr ?all)) es))"
      using assms(1-4,6) by (simp add: revertBodyWithEditorSaves_def revertMessageId_def decode_def)
    then show ?thesis using assms(1) by (simp add: kept_files_def decode_def keep_of_json)
  qed
qed

definition two_saves :: save_log where
  "two_saves = [(''/w'', [(''/w/a'', 6), (''/w/b'', 7)])]"

lemma undo_keeps_saved_files_witness:
  "kept_files (revertBodyWithEditorSaves id two_saves ''/w'' (Some (JObj [(''messageID'', JStr ''m'')])) (\<lambda>_. Some 7)) = {''/w/b''}"
  using undo_keeps_saved_files [OF refl, of "[(''messageID'', JStr ''m'')]" "''m''" "\<lambda>_. Some 7" 7 _ id "''/w''" two_saves]
  by (simp add: two_saves_def savedSince_def kept_files_def decode_def existing_keep_def REVERT_KEEP_MAX_def map_filter_simps)

text \<open>A repeated file in \<open>keep\<close> can lose a save.

  The comparison of the new list's length with the old one's takes the request's body as
  complete when as many repetitions are dropped as saves are added: then the body is
  sent unchanged and the saved files are not kept.\<close>

theorem repeated_keep_loses_saves:
  assumes "card (set (existing_keep es) \<union> set saved) = length (existing_keep es)"
  shows "withRevertKeep (Some (JObj es)) saved = None"
  using assms by (simp add: withRevertKeep_def decode_def length_js_uniq)

lemma repeated_keep_loses_saves_witness:
  "withRevertKeep (Some (JObj [(''keep'', JArr [JStr ''/w/a'', JStr ''/w/a''])])) [''/w/b''] = None"
  by (rule repeated_keep_loses_saves) (simp add: existing_keep_def jstring_def map_filter_simps)

end
