(* ===== verification/WorkQueues.thy ===== *)
theory WorkQueues
  imports Prelude
begin

text \<open>
  The two serializers of the server (\<open>apps/server/src\<close>):
  \<open>latest-trailing-work-queue.ts\<close>, which runs one pass per key at a time and merges
  the arrivals during a pass into one trailing pass with the latest value, and
  \<open>engine-directory-fence.ts\<close>, which chains operations on a directory.

  Code between two \<open>await\<close>s runs alone, so each such piece is one step. The outcome of
  the awaited work is part of the step that resumes after it. Each call of
  \<open>enqueue\<close> and of the fence is named by a number; the state of the queue carries the
  list of what happened, oldest first.
\<close>

section \<open>The latest-value trailing queue\<close>

record 'v work_batch =
  batch_value :: 'v
  batch_waiters :: "nat list"

record 'v active_work =
  running :: "'v work_batch"
  trailing :: "'v work_batch option"

datatype ('k, 'v) work_event =
    Enqueued 'k 'v nat
  | Started 'k 'v
  | Finished 'k bool
  | Settled 'k nat bool

record ('k, 'v) work_queue =
  activeByKey :: "('k, 'v active_work) jsmap"
  work_log :: "('k, 'v) work_event list"

text \<open>\<open>enqueue\<close>, up to the first \<open>await\<close> of \<open>drain\<close> when the key is idle.\<close>

definition enqueue :: "'k \<Rightarrow> 'v \<Rightarrow> nat \<Rightarrow> ('k, 'v) work_queue \<Rightarrow> ('k, 'v) work_queue" where
  "enqueue key val waiter q =
     (case jm_get key (activeByKey q) of
        Some active \<Rightarrow>
          (let batch = (case trailing active of
                 Some t \<Rightarrow> t\<lparr>batch_value := val, batch_waiters := batch_waiters t @ [waiter]\<rparr>
               | None \<Rightarrow> \<lparr>batch_value = val, batch_waiters = [waiter]\<rparr>)
           in q\<lparr>activeByKey := jm_set key (active\<lparr>trailing := Some batch\<rparr>) (activeByKey q),
                work_log := work_log q @ [Enqueued key val waiter]\<rparr>)
      | None \<Rightarrow>
          q\<lparr>activeByKey := jm_set key \<lparr>running = \<lparr>batch_value = val, batch_waiters = [waiter]\<rparr>, trailing = None\<rparr> (activeByKey q),
            work_log := work_log q @ [Enqueued key val waiter, Started key val]\<rparr>)"

text \<open>
  \<open>drain\<close> from the end of a \<open>run\<close> (\<open>ok\<close> when it did not throw) to the next
  \<open>await\<close> or the end of the loop.
\<close>

definition drain_step :: "'k \<Rightarrow> bool \<Rightarrow> ('k, 'v) work_queue \<Rightarrow> ('k, 'v) work_queue" where
  "drain_step key ok q =
     (case jm_get key (activeByKey q) of
        None \<Rightarrow> q
      | Some active \<Rightarrow>
          (let settled = Finished key ok # map (\<lambda>w. Settled key w ok) (batch_waiters (running active))
           in (case trailing active of
                 None \<Rightarrow> q\<lparr>activeByKey := jm_delete key (activeByKey q), work_log := work_log q @ settled\<rparr>
               | Some batch \<Rightarrow>
                   q\<lparr>activeByKey := jm_set key \<lparr>running = batch, trailing = None\<rparr> (activeByKey q),
                     work_log := work_log q @ settled @ [Started key (batch_value batch)]\<rparr>)))"

definition empty_work_queue :: "('k, 'v) work_queue" where
  "empty_work_queue = \<lparr>activeByKey = [], work_log = []\<rparr>"

text \<open>The calls named in a log.\<close>

definition enqueued :: "('k, 'v) work_event list \<Rightarrow> nat set" where
  "enqueued log = {w. \<exists>k v. Enqueued k v w \<in> set log}"

inductive work_reach :: "('k, 'v) work_queue \<Rightarrow> bool" where
  work_start: "work_reach empty_work_queue"
| work_enqueue: "work_reach q \<Longrightarrow> w \<notin> enqueued (work_log q) \<Longrightarrow> work_reach (enqueue k v w q)"
| work_drain: "work_reach q \<Longrightarrow> work_reach (drain_step k ok q)"

section \<open>Who is served by which pass\<close>

text \<open>The value enqueued last for a key.\<close>

definition latest_value :: "'k \<Rightarrow> ('k, 'v) work_event list \<Rightarrow> 'v option" where
  "latest_value k log =
     fold (\<lambda>e r. case e of Enqueued k' v w \<Rightarrow> if k' = k then Some v else r | _ \<Rightarrow> r) log None"

text \<open>\<open>awaits k w log\<close>: the call \<open>w\<close> for \<open>k\<close> is in the log and no pass for the key has started since.\<close>

definition awaits :: "'k \<Rightarrow> nat \<Rightarrow> ('k, 'v) work_event list \<Rightarrow> bool" where
  "awaits k w log = (\<exists>xs v ys. log = xs @ Enqueued k v w # ys \<and> (\<forall>v'. Started k v' \<notin> set ys))"

text \<open>
  \<open>in_pass k w v log\<close>: a pass for \<open>k\<close> with value \<open>v\<close> is running at the end of the log, it
  is the first to start after the call \<open>w\<close>, and \<open>v\<close> was the latest value when it started.
\<close>

definition in_pass :: "'k \<Rightarrow> nat \<Rightarrow> 'v \<Rightarrow> ('k, 'v) work_event list \<Rightarrow> bool" where
  "in_pass k w v log =
     (\<exists>pre post. log = pre @ Started k v # post \<and> awaits k w pre \<and> latest_value k pre = Some v \<and>
        (\<forall>ok. Finished k ok \<notin> set post))"

text \<open>
  \<open>served k w ok log\<close>: the pass that was the first to start after the call \<open>w\<close>, with
  the value that was the latest one then, has finished with outcome \<open>ok\<close>.
\<close>

definition served :: "'k \<Rightarrow> nat \<Rightarrow> bool \<Rightarrow> ('k, 'v) work_event list \<Rightarrow> bool" where
  "served k w ok log = (\<exists>v pre post. log = pre @ Finished k ok # post \<and> in_pass k w v pre)"

lemma latest_value_snoc [simp]:
  "latest_value k (log @ [e]) = (case e of Enqueued k' v w \<Rightarrow> if k' = k then Some v else latest_value k log | _ \<Rightarrow> latest_value k log)"
  by (simp add: latest_value_def split: work_event.split)

lemma awaits_new: "awaits k w (log @ [Enqueued k v w])"
  unfolding awaits_def by (intro exI [of _ log] exI [of _ v] exI [of _ "[]"]) simp

lemma awaits_snoc: "awaits k w log \<Longrightarrow> (\<And>v. e \<noteq> Started k v) \<Longrightarrow> awaits k w (log @ [e])"
  unfolding awaits_def by force

lemma in_pass_snoc: "in_pass k w v log \<Longrightarrow> (\<And>ok. e \<noteq> Finished k ok) \<Longrightarrow> in_pass k w v (log @ [e])"
  unfolding in_pass_def by force

lemma in_pass_start: "awaits k w log \<Longrightarrow> latest_value k log = Some v \<Longrightarrow> in_pass k w v (log @ [Started k v])"
  unfolding in_pass_def by force

lemma served_snoc: "served k w ok log \<Longrightarrow> served k w ok (log @ [e])"
  unfolding served_def by force

lemma served_finish: "in_pass k w v log \<Longrightarrow> served k w ok (log @ [Finished k ok])"
  unfolding served_def by force

lemma append_settled:
  assumes "\<And>log e. P log \<Longrightarrow> (\<exists>w. e = Settled k w ok) \<Longrightarrow> P (log @ [e])" and "P log"
  shows "P (log @ map (\<lambda>w. Settled k w ok) ws)"
proof (induction ws rule: rev_induct)
  case Nil
  show ?case using assms(2) by simp
next
  case (snoc w ws)
  show ?case using assms(1) [OF snoc, of "Settled k w ok"] by simp
qed

lemmas awaits_settled = append_settled [where P = "awaits j w" for j w, OF awaits_snoc]
lemmas in_pass_settled = append_settled [where P = "in_pass j w v" for j w v, OF in_pass_snoc]
lemmas served_settled = append_settled [where P = "served j w b" for j w b, OF served_snoc]

lemma latest_value_settled [simp]: "latest_value j (log @ map (\<lambda>w. Settled k w ok) ws) = latest_value j log"
proof (induction ws rule: rev_induct)
  case (snoc w ws)
  then show ?case by (metis (no_types, lifting) append_assoc latest_value_snoc list.simps(8,9) map_append work_event.simps(20))
qed simp

text \<open>
  \<open>pass_state k log\<close> is whether a pass for \<open>k\<close> is running after the log, \<open>None\<close> when
  one started during another or finished without having started.
\<close>

definition pass_step :: "'k \<Rightarrow> ('k, 'v) work_event \<Rightarrow> bool option \<Rightarrow> bool option" where
  "pass_step k e s =
     (case e of
        Started k' v \<Rightarrow> (if k' \<noteq> k then s else if s = Some False then Some True else None)
      | Finished k' ok \<Rightarrow> (if k' \<noteq> k then s else if s = Some True then Some False else None)
      | _ \<Rightarrow> s)"

definition pass_state :: "'k \<Rightarrow> ('k, 'v) work_event list \<Rightarrow> bool option" where
  "pass_state k log = fold (pass_step k) log (Some False)"

definition settled_calls :: "'k \<Rightarrow> ('k, 'v) work_event list \<Rightarrow> nat list" where
  "settled_calls k log = List.map_filter (\<lambda>e. case e of Settled k' w ok \<Rightarrow> if k' = k then Some w else None | _ \<Rightarrow> None) log"

definition enqueued_calls :: "'k \<Rightarrow> ('k, 'v) work_event list \<Rightarrow> nat set" where
  "enqueued_calls k log = {w. \<exists>v. Enqueued k v w \<in> set log}"

definition waiting :: "'v active_work option \<Rightarrow> nat list" where
  "waiting a = (case a of None \<Rightarrow> []
     | Some a \<Rightarrow> batch_waiters (running a) @ (case trailing a of None \<Rightarrow> [] | Some b \<Rightarrow> batch_waiters b))"

definition all_served :: "'k \<Rightarrow> ('k, 'v) work_event list \<Rightarrow> bool" where
  "all_served k log = (\<forall>w ok. Settled k w ok \<in> set log \<longrightarrow> served k w ok log)"

lemma all_served_snoc: "all_served k log \<Longrightarrow> (\<And>w ok. e = Settled k w ok \<Longrightarrow> served k w ok log) \<Longrightarrow> all_served k (log @ [e])"
  by (auto simp: all_served_def intro: served_snoc)

text \<open>The invariant of one key.\<close>

definition key_ok :: "'k \<Rightarrow> 'v active_work option \<Rightarrow> ('k, 'v) work_event list \<Rightarrow> bool" where
  "key_ok k a log =
     (pass_state k log = Some (a \<noteq> None) \<and>
      distinct (settled_calls k log @ waiting a) \<and>
      enqueued_calls k log = set (settled_calls k log @ waiting a) \<and>
      all_served k log \<and>
      (\<forall>b. a = Some b \<longrightarrow>
         (\<forall>w \<in> set (batch_waiters (running b)). in_pass k w (batch_value (running b)) log) \<and>
         (\<forall>t. trailing b = Some t \<longrightarrow>
            latest_value k log = Some (batch_value t) \<and> (\<forall>w \<in> set (batch_waiters t). awaits k w log))))"

definition about :: "('k, 'v) work_event \<Rightarrow> 'k" where
  "about e = (case e of Enqueued k v w \<Rightarrow> k | Started k v \<Rightarrow> k | Finished k ok \<Rightarrow> k | Settled k w ok \<Rightarrow> k)"

lemma pass_state_snoc [simp]: "pass_state k (log @ [e]) = pass_step k e (pass_state k log)"
  by (simp add: pass_state_def)

lemma settled_calls_snoc [simp]:
  "settled_calls k (log @ [e]) = settled_calls k log @ (case e of Settled k' w ok \<Rightarrow> if k' = k then [w] else [] | _ \<Rightarrow> [])"
  by (induction log) (auto simp: settled_calls_def map_filter_simps split: work_event.split option.split)

lemma enqueued_calls_snoc [simp]:
  "enqueued_calls k (log @ [e]) = (case e of Enqueued k' v w \<Rightarrow> if k' = k then insert w (enqueued_calls k log) else enqueued_calls k log
     | _ \<Rightarrow> enqueued_calls k log)"
  by (auto simp: enqueued_calls_def split: work_event.split)

lemma key_ok_other:
  assumes "key_ok k a log" and "about e \<noteq> k"
  shows "key_ok k a (log @ [e])"
proof -
  have "e \<noteq> Started k v" "e \<noteq> Finished k b" "e \<noteq> Settled k w b" for v b w
    using assms(2) by (auto simp: about_def)
  moreover have "pass_step k e s = s" "latest_value k (log @ [e]) = latest_value k log" for s
    using assms(2) by (auto simp: about_def pass_step_def split: work_event.split)
  moreover have "settled_calls k (log @ [e]) = settled_calls k log" "enqueued_calls k (log @ [e]) = enqueued_calls k log"
    using assms(2) by (auto simp: about_def split: work_event.split)
  moreover have "in_pass k w v log \<Longrightarrow> in_pass k w v (log @ [e])" "awaits k w log \<Longrightarrow> awaits k w (log @ [e])" for w v
    using assms(2) by (auto simp: about_def intro!: in_pass_snoc awaits_snoc)
  moreover have "all_served k log \<Longrightarrow> all_served k (log @ [e])"
    using assms(2) by (auto simp: about_def intro!: all_served_snoc)
  ultimately show ?thesis
    using assms(1) unfolding key_ok_def by simp
qed

lemma key_ok_others: "key_ok k a log \<Longrightarrow> \<forall>e \<in> set es. about e \<noteq> k \<Longrightarrow> key_ok k a (log @ es)"
proof (induction es rule: rev_induct)
  case (snoc e es)
  then show ?case using key_ok_other [of k a "log @ es" e] by simp
qed simp

lemma key_ok_enqueue_idle:
  assumes "key_ok k None log" and "w \<notin> enqueued_calls k log"
  shows "key_ok k (Some \<lparr>running = \<lparr>batch_value = v, batch_waiters = [w]\<rparr>, trailing = None\<rparr>) ((log @ [Enqueued k v w]) @ [Started k v])"
proof -
  have "in_pass k w v ((log @ [Enqueued k v w]) @ [Started k v])"
    by (rule in_pass_start [OF awaits_new]) simp
  moreover have "all_served k ((log @ [Enqueued k v w]) @ [Started k v])"
    using assms(1) by (intro all_served_snoc) (simp_all add: key_ok_def)
  ultimately show ?thesis
    using assms unfolding key_ok_def by (simp add: waiting_def pass_step_def del: append_assoc)
qed

lemma key_ok_enqueue_busy:
  assumes "key_ok k (Some a) log" and "w \<notin> enqueued_calls k log"
    and "t = (case trailing a of Some t \<Rightarrow> t\<lparr>batch_value := v, batch_waiters := batch_waiters t @ [w]\<rparr>
                | None \<Rightarrow> \<lparr>batch_value = v, batch_waiters = [w]\<rparr>)"
  shows "key_ok k (Some (a\<lparr>trailing := Some t\<rparr>)) (log @ [Enqueued k v w])"
proof -
  let ?log = "log @ [Enqueued k v w]"
  have "all_served k ?log"
    using assms(1) by (intro all_served_snoc) (simp_all add: key_ok_def)
  moreover have "in_pass k u x log \<Longrightarrow> in_pass k u x ?log" "awaits k u log \<Longrightarrow> awaits k u ?log" for u x
    by (auto intro!: in_pass_snoc awaits_snoc)
  moreover have "awaits k w ?log" by (rule awaits_new)
  ultimately show ?thesis
    using assms unfolding key_ok_def
    by (auto simp: waiting_def pass_step_def split: option.splits)
qed

text \<open>Settling the waiters of a pass leaves everything but the settled calls as it is.\<close>

abbreviation settle :: "'k \<Rightarrow> bool \<Rightarrow> nat list \<Rightarrow> ('k, 'v) work_event list" where
  "settle k ok ws \<equiv> map (\<lambda>w. Settled k w ok) ws"

lemma settle_facts:
  "pass_state j (log @ settle k ok ws) = pass_state j log \<and>
   enqueued_calls j (log @ settle k ok ws) = enqueued_calls j log \<and>
   settled_calls k (log @ settle k ok ws) = settled_calls k log @ ws"
proof (induction ws rule: rev_induct)
  case (snoc w ws)
  then show ?case
    using pass_state_snoc [of j "log @ settle k ok ws" "Settled k w ok"]
      enqueued_calls_snoc [of j "log @ settle k ok ws" "Settled k w ok"]
      settled_calls_snoc [of k "log @ settle k ok ws" "Settled k w ok"]
    by (simp add: pass_step_def)
qed simp

lemma all_served_settle:
  "all_served k log \<Longrightarrow> \<forall>w \<in> set ws. served k w ok log \<Longrightarrow> all_served k (log @ settle k ok ws)"
proof (induction ws rule: rev_induct)
  case (snoc w ws)
  have "served k w ok (log @ settle k ok ws)"
    by (rule served_settled) (use snoc.prems in auto)
  then show ?case
    using snoc all_served_snoc [of k "log @ settle k ok ws" "Settled k w ok"] by auto
qed simp

lemma key_ok_finish:
  fixes ok :: bool
  assumes "key_ok k (Some a) log"
  defines "log' \<equiv> (log @ [Finished k ok]) @ settle k ok (batch_waiters (running a))"
  shows "trailing a = None \<Longrightarrow> key_ok k None log'"
    and "trailing a = Some b \<Longrightarrow> key_ok k (Some \<lparr>running = b, trailing = None\<rparr>) (log' @ [Started k (batch_value b)])"
proof -
  let ?ws = "batch_waiters (running a)"
  let ?log1 = "log @ [Finished k ok]"
  have "all_served k ?log1"
    using assms(1) by (intro all_served_snoc) (simp_all add: key_ok_def)
  moreover have "\<forall>w \<in> set ?ws. served k w ok ?log1"
    using assms(1) by (auto simp: key_ok_def intro: served_finish)
  ultimately have served: "all_served k log'"
    unfolding log'_def by (rule all_served_settle)
  have facts: "pass_state k log' = Some False" "enqueued_calls k log' = enqueued_calls k log"
    "settled_calls k log' = settled_calls k log @ ?ws" "latest_value k log' = latest_value k log"
    using assms(1) settle_facts [of k ?log1 k ok ?ws] unfolding log'_def
    by (simp_all add: key_ok_def pass_step_def del: append_assoc)
  show "key_ok k None log'" if "trailing a = None"
    using assms(1) served facts that by (simp add: key_ok_def waiting_def)
  show "key_ok k (Some \<lparr>running = b, trailing = None\<rparr>) (log' @ [Started k (batch_value b)])" if t: "trailing a = Some b"
  proof -
    have "awaits k w log'" if "w \<in> set (batch_waiters b)" for w
      unfolding log'_def by (intro awaits_settled awaits_snoc) (use assms(1) t that in \<open>auto simp: key_ok_def\<close>)
    then have "in_pass k w (batch_value b) (log' @ [Started k (batch_value b)])" if "w \<in> set (batch_waiters b)" for w
      using assms(1) t facts(4) that by (intro in_pass_start) (auto simp: key_ok_def)
    moreover have "all_served k (log' @ [Started k (batch_value b)])"
      by (rule all_served_snoc [OF served]) simp
    ultimately show ?thesis
      using assms(1) facts t by (simp add: key_ok_def waiting_def pass_step_def)
  qed
qed

definition queue_ok :: "('k, 'v) work_queue \<Rightarrow> bool" where
  "queue_ok q = (\<forall>k. key_ok k (jm_get k (activeByKey q)) (work_log q))"

lemma queue_ok_empty: "queue_ok empty_work_queue"
  by (simp add: queue_ok_def empty_work_queue_def key_ok_def pass_state_def settled_calls_def enqueued_calls_def
      waiting_def all_served_def map_filter_simps)

lemma queue_ok_enqueue:
  assumes "queue_ok q" and "w \<notin> enqueued (work_log q)"
  shows "queue_ok (enqueue k v w q)"
  unfolding queue_ok_def
proof
  fix j
  have key: "key_ok j (jm_get j (activeByKey q)) (work_log q)"
    using assms(1) by (simp add: queue_ok_def)
  have fresh: "w \<notin> enqueued_calls k (work_log q)"
    using assms(2) by (auto simp: enqueued_def enqueued_calls_def)
  show "key_ok j (jm_get j (activeByKey (enqueue k v w q))) (work_log (enqueue k v w q))"
  proof (cases "j = k")
    case False
    then show ?thesis
      using key_ok_others [OF key, of "[Enqueued k v w]"] key_ok_others [OF key, of "[Enqueued k v w, Started k v]"]
      by (auto simp: enqueue_def about_def Let_def split: option.splits)
  next
    case True
    show ?thesis
    proof (cases "jm_get k (activeByKey q)")
      case None
      then show ?thesis
        using key_ok_enqueue_idle [of k "work_log q" w v] key fresh True by (simp add: enqueue_def)
    next
      case (Some a)
      then show ?thesis
        using key_ok_enqueue_busy [of k a "work_log q" w _ v, OF _ fresh refl] key True
        by (simp add: enqueue_def Let_def)
    qed
  qed
qed

lemma queue_ok_drain:
  assumes "queue_ok q" and "jm_wf (activeByKey q)"
  shows "queue_ok (drain_step k ok q)"
  unfolding queue_ok_def
proof
  fix j
  have key: "key_ok j (jm_get j (activeByKey q)) (work_log q)"
    using assms(1) by (simp add: queue_ok_def)
  show "key_ok j (jm_get j (activeByKey (drain_step k ok q))) (work_log (drain_step k ok q))"
  proof (cases "jm_get k (activeByKey q)")
    case None
    then show ?thesis using key by (simp add: drain_step_def)
  next
    case (Some a)
    show ?thesis
    proof (cases "j = k")
      case False
      then show ?thesis
        using Some key_ok_others [OF key, of "Finished k ok # settle k ok (batch_waiters (running a))"]
          key_ok_others [OF key, of "Finished k ok # settle k ok (batch_waiters (running a)) @ [Started k v]" for v]
        by (auto simp: drain_step_def about_def Let_def split: option.splits)
    next
      case True
      then show ?thesis
        using Some key_ok_finish [where k = k and a = a and log = "work_log q" and ok = ok] key
        by (auto simp: drain_step_def Let_def split: option.splits)
    qed
  qed
qed

lemma work_reach_ok: "work_reach q \<Longrightarrow> queue_ok q \<and> jm_wf (activeByKey q)"
proof (induction rule: work_reach.induct)
  case work_start
  show ?case using queue_ok_empty by (simp add: empty_work_queue_def)
next
  case (work_enqueue q w k v)
  then show ?case using queue_ok_enqueue [of q w k v] by (auto simp: enqueue_def Let_def split: option.splits)
next
  case (work_drain q k ok)
  then show ?case using queue_ok_drain [of q k ok] by (auto simp: drain_step_def Let_def split: option.splits)
qed

text \<open>Passes for a key never overlap, and each call is answered by the first pass that
  starts after it, which runs the latest value.

  In every history, the passes for a key start and finish in turn; a call that has
  been settled was settled once, with the outcome of the pass that was the first to
  start after the call, run with the value that was the latest for the key at
  that start; and a call that has not been settled is waiting in the running or the
  trailing batch of its key.\<close>

theorem work_queue_serves_latest:
  assumes "work_reach q"
  shows "pass_state k (work_log q) = Some (jm_has k (activeByKey q)) \<and>
    (\<forall>w ok. Settled k w ok \<in> set (work_log q) \<longrightarrow> served k w ok (work_log q)) \<and>
    distinct (settled_calls k (work_log q)) \<and>
    (\<forall>v w. Enqueued k v w \<in> set (work_log q) \<and> w \<notin> set (settled_calls k (work_log q)) \<longrightarrow>
      w \<in> set (waiting (jm_get k (activeByKey q))))"
proof -
  have "key_ok k (jm_get k (activeByKey q)) (work_log q)"
    using work_reach_ok [OF assms] by (simp add: queue_ok_def)
  then show ?thesis
    by (auto simp: key_ok_def all_served_def jm_has_def enqueued_calls_def)
qed

definition sample_queue :: "(string, nat) work_queue" where
  "sample_queue = drain_step ''k'' True (enqueue ''k'' 3 2 (enqueue ''k'' 2 1 (enqueue ''k'' 1 0 empty_work_queue)))"

lemma sample_queue_reach: "work_reach sample_queue"
  unfolding sample_queue_def
  by (intro work_reach.intros) (simp_all add: enqueued_def enqueue_def empty_work_queue_def Let_def)

lemma work_queue_serves_latest_witness:
  "served ''k'' 0 True (work_log sample_queue) \<and> waiting (jm_get ''k'' (activeByKey sample_queue)) = [1, 2]"
  using work_queue_serves_latest [OF sample_queue_reach, of "''k''"]
  by (auto simp: sample_queue_def drain_step_def enqueue_def empty_work_queue_def waiting_def Let_def)

text \<open>Two completions settle everything that waits.

  However many calls have arrived for a key, the end of the running pass and of the
  trailing one (when there is one) settles them all, whatever the passes' outcomes, and
  the key is forgotten; the passes of other keys are untouched.\<close>

theorem work_queue_drains:
  assumes "work_reach q" and "q' = drain_step k ok' (drain_step k ok q)"
  shows "jm_get k (activeByKey q') = None \<and>
    enqueued_calls k (work_log q') = set (settled_calls k (work_log q')) \<and>
    enqueued_calls k (work_log q') = enqueued_calls k (work_log q) \<and>
    (\<forall>j. j \<noteq> k \<longrightarrow> jm_get j (activeByKey q') = jm_get j (activeByKey q))"
proof -
  have reach: "work_reach q'"
    unfolding assms(2) using assms(1) by (intro work_reach.intros)
  have calls: "enqueued_calls k (work_log (drain_step k b p)) = enqueued_calls k (work_log p)" for b p
    by (auto simp: drain_step_def enqueued_calls_def Let_def split: option.splits)
  have gone: "jm_get k (activeByKey q') = None"
    unfolding assms(2) by (auto simp: drain_step_def Let_def split: option.splits)
  moreover have "key_ok k (jm_get k (activeByKey q')) (work_log q')"
    using work_reach_ok [OF reach] by (simp add: queue_ok_def)
  moreover have "\<forall>j. j \<noteq> k \<longrightarrow> jm_get j (activeByKey q') = jm_get j (activeByKey q)"
    unfolding assms(2) by (auto simp: drain_step_def Let_def split: option.splits)
  ultimately show ?thesis
    using calls [of ok' "drain_step k ok q"] calls [of ok q] unfolding assms(2)
    by (simp add: key_ok_def waiting_def)
qed

lemma work_queue_drains_witness:
  "jm_get ''k'' (activeByKey (drain_step ''k'' True (drain_step ''k'' False sample_queue))) = None"
  using work_queue_drains [OF sample_queue_reach refl] by blast

section \<open>The directory fence\<close>

text \<open>
  \<open>directoryKey\<close>: on Windows the prefixes of long paths are removed and case is ignored.
\<close>

definition drop_prefix :: "string \<Rightarrow> string \<Rightarrow> string" where
  "drop_prefix p s = (if starts_with p s then drop (length p) s else s)"

definition directoryKey :: "bool \<Rightarrow> string option \<Rightarrow> string \<Rightarrow> string" where
  "directoryKey win32 dir path =
     (let directory = (case dir of None \<Rightarrow> js_trim path | Some d \<Rightarrow> if js_trim d = [] then js_trim path else js_trim d)
      in if win32
         then js_lower (drop_prefix ''//?/'' (drop_prefix [CHR 0x5C, CHR 0x5C, CHR ''?'', CHR 0x5C] directory))
         else directory)"

text \<open>
  A call to the fence is named by a number. \<open>fence_queue\<close> holds for each directory the
  promise of the last call, \<open>previous\<close> the promise each call that has not begun waits
  for, \<open>begun\<close> the calls whose operation runs and \<open>released\<close> the resolved promises.
\<close>

record fence =
  fence_queue :: "(string, nat) jsmap"
  previous :: "(nat, nat option) jsmap"
  begun :: "nat list"
  released :: "nat list"
  fence_key :: "(nat, string) jsmap"

text \<open>The call up to \<open>await previous\<close>, the start of the operation, and the \<open>finally\<close> block.\<close>

definition fence_enter :: "nat \<Rightarrow> string \<Rightarrow> fence \<Rightarrow> fence" where
  "fence_enter c key f =
     f\<lparr>fence_queue := jm_set key c (fence_queue f),
       previous := jm_set c (jm_get key (fence_queue f)) (previous f),
       fence_key := jm_set c key (fence_key f)\<rparr>"

definition may_begin :: "nat \<Rightarrow> fence \<Rightarrow> bool" where
  "may_begin c f =
     (case jm_get c (previous f) of
        None \<Rightarrow> False
      | Some None \<Rightarrow> True
      | Some (Some p) \<Rightarrow> p \<in> set (released f))"

definition fence_begin :: "nat \<Rightarrow> fence \<Rightarrow> fence" where
  "fence_begin c f = f\<lparr>previous := jm_delete c (previous f), begun := begun f @ [c]\<rparr>"

definition fence_end :: "nat \<Rightarrow> fence \<Rightarrow> fence" where
  "fence_end c f =
     (case jm_get c (fence_key f) of
        None \<Rightarrow> f
      | Some key \<Rightarrow>
          f\<lparr>fence_queue := (if jm_get key (fence_queue f) = Some c then jm_delete key (fence_queue f) else fence_queue f),
            begun := removeAll c (begun f), released := released f @ [c]\<rparr>)"

definition no_fence :: fence where
  "no_fence = \<lparr>fence_queue = [], previous = [], begun = [], released = [], fence_key = []\<rparr>"

inductive fence_reach :: "fence \<Rightarrow> bool" where
  fence_start: "fence_reach no_fence"
| fence_call: "fence_reach f \<Longrightarrow> jm_get c (fence_key f) = None \<Longrightarrow> fence_reach (fence_enter c key f)"
| fence_run: "fence_reach f \<Longrightarrow> may_begin c f \<Longrightarrow> fence_reach (fence_begin c f)"
| fence_done: "fence_reach f \<Longrightarrow> c \<in> set (begun f) \<Longrightarrow> fence_reach (fence_end c f)"

text \<open>The calls for a directory whose operation has not ended, oldest first.\<close>

definition unfinished :: "string \<Rightarrow> fence \<Rightarrow> nat list" where
  "unfinished key f = map fst (filter (\<lambda>(c, k). k = key \<and> c \<notin> set (released f)) (fence_key f))"

definition head_ready :: "fence \<Rightarrow> nat \<Rightarrow> bool" where
  "head_ready f c = (if c \<in> set (begun f) then jm_get c (previous f) = None else may_begin c f)"

definition chain_ok :: "fence \<Rightarrow> string \<Rightarrow> bool" where
  "chain_ok f key =
     (jm_get key (fence_queue f) = (if unfinished key f = [] then None else Some (last (unfinished key f))) \<and>
      (unfinished key f \<noteq> [] \<longrightarrow> head_ready f (hd (unfinished key f))) \<and>
      (\<forall>i. Suc i < length (unfinished key f) \<longrightarrow>
         jm_get (unfinished key f ! Suc i) (previous f) = Some (Some (unfinished key f ! i))))"

definition fence_ok :: "fence \<Rightarrow> bool" where
  "fence_ok f =
     (jm_wf (fence_key f) \<and>
      (\<forall>c \<in> set (released f). jm_get c (fence_key f) \<noteq> None) \<and>
      (\<forall>c. jm_get c (previous f) \<noteq> None \<longrightarrow> jm_get c (fence_key f) \<noteq> None \<and> c \<notin> set (released f)) \<and>
      (\<forall>c \<in> set (begun f). \<exists>key. unfinished key f \<noteq> [] \<and> hd (unfinished key f) = c) \<and>
      (\<forall>key. chain_ok f key))"

lemma unfinished_mem:
  "jm_wf (fence_key f) \<Longrightarrow> c \<in> set (unfinished key f) \<longleftrightarrow> jm_get c (fence_key f) = Some key \<and> c \<notin> set (released f)"
  by (force simp: unfinished_def dest: jm_mem_get jm_get_mem)

lemma unfinished_distinct: "jm_wf (fence_key f) \<Longrightarrow> distinct (unfinished key f)"
  by (simp add: unfinished_def jm_wf_def distinct_map_filter)

lemma unfinished_enter:
  "jm_get c (fence_key f) = None \<Longrightarrow> c \<notin> set (released f) \<Longrightarrow>
     unfinished key (fence_enter c key' f) = (if key = key' then unfinished key f @ [c] else unfinished key f)"
  by (simp add: unfinished_def fence_enter_def jm_set_fresh)

lemma unfinished_begin [simp]: "unfinished key (fence_begin c f) = unfinished key f"
  by (simp add: unfinished_def fence_begin_def)

lemma unfinished_end:
  "jm_get c (fence_key f) \<noteq> None \<Longrightarrow> unfinished key (fence_end c f) = filter (\<lambda>d. d \<noteq> c) (unfinished key f)"
  by (auto simp: unfinished_def fence_end_def filter_map o_def intro!: filter_cong split: option.splits)
    (auto intro!: arg_cong [where f = "map fst"] filter_cong)

lemma fence_known:
  assumes "fence_ok f" and "jm_get c (fence_key f) = None"
  shows "c \<notin> set (released f)" and "jm_get c (previous f) = None" and "c \<notin> set (begun f)" and "c \<notin> set (unfinished key f)"
proof -
  show un: "c \<notin> set (unfinished key f)" for key
    using assms unfinished_mem [of f c key] by (simp add: fence_ok_def)
  show "c \<notin> set (released f)" and "jm_get c (previous f) = None"
    using assms by (auto simp: fence_ok_def)
  show "c \<notin> set (begun f)"
    using assms un by (metis fence_ok_def hd_in_set)
qed

lemma nth_append_snoc: "i < length (xs @ [x]) \<Longrightarrow> (xs @ [x]) ! i = (if i < length xs then xs ! i else x)"
  by (simp add: nth_append)

lemma fence_ok_enter:
  assumes "fence_ok f" and "jm_get c (fence_key f) = None"
  shows "fence_ok (fence_enter c key f)"
proof -
  note new = fence_known [OF assms]
  have wf: "jm_wf (fence_key f)" and chains: "chain_ok f k" for k
    using assms(1) by (simp_all add: fence_ok_def)
  note un = unfinished_enter [OF assms(2) new(1)]
  have ready: "head_ready (fence_enter c key f) d" if "head_ready f d" "d \<noteq> c" for d
    using that by (auto simp: head_ready_def may_begin_def fence_enter_def split: option.splits if_splits)
  have ready_c: "head_ready (fence_enter c key f) c" if "unfinished key f = []"
    using that chains [of key] new(3) by (simp add: head_ready_def may_begin_def fence_enter_def chain_ok_def)
  have prev: "jm_get d (previous (fence_enter c key f)) = (if d = c then Some (jm_get key (fence_queue f)) else jm_get d (previous f))" for d
    by (simp add: fence_enter_def)
  have "chain_ok (fence_enter c key f) k" for k
  proof (cases "k = key")
    case False
    have "hd (unfinished k f) \<noteq> c" if "unfinished k f \<noteq> []"
      using that new(4) hd_in_set by metis
    moreover have "unfinished k f ! i \<noteq> c" if "i < length (unfinished k f)" for i
      using that new(4) nth_mem by metis
    ultimately show ?thesis
      using chains [of k] False un ready unfolding chain_ok_def prev by (simp add: fence_enter_def)
  next
    case True
    let ?us = "unfinished key f"
    have us: "unfinished key (fence_enter c key f) = ?us @ [c]" using un by simp
    have links: "jm_get ((?us @ [c]) ! Suc i) (previous (fence_enter c key f)) = Some (Some ((?us @ [c]) ! i))"
      if "Suc i < length (?us @ [c])" for i
    proof (cases "Suc i < length ?us")
      case True
      then have "?us ! Suc i \<noteq> c" using new(4) nth_mem by metis
      then show ?thesis using chains [of key] True unfolding chain_ok_def prev by (simp add: nth_append)
    next
      case False
      then have "i = length ?us - 1" "?us \<noteq> []" using that by auto
      then show ?thesis using chains [of key] unfolding chain_ok_def prev by (simp add: nth_append last_conv_nth)
    qed
    have "head_ready (fence_enter c key f) (hd (?us @ [c]))"
    proof (cases "?us = []")
      case False
      then have "hd ?us \<noteq> c" using new(4) hd_in_set by metis
      then show ?thesis using False chains [of key] ready by (simp add: chain_ok_def)
    qed (simp add: ready_c)
    then show ?thesis using links True unfolding chain_ok_def us by (simp add: us) (simp add: fence_enter_def)
  qed
  moreover have "\<exists>k. unfinished k (fence_enter c key f) \<noteq> [] \<and> hd (unfinished k (fence_enter c key f)) = d" if d: "d \<in> set (begun f)" for d
  proof -
    have "\<forall>c \<in> set (begun f). \<exists>k. unfinished k f \<noteq> [] \<and> hd (unfinished k f) = c"
      using assms(1) unfolding fence_ok_def by (elim conjE)
    then obtain k where "unfinished k f \<noteq> []" "hd (unfinished k f) = d"
      using d by blast
    then show ?thesis using un by (intro exI [of _ k]) auto
  qed
  ultimately show ?thesis
    using assms(1) new(1) unfolding fence_ok_def by (simp add: fence_enter_def) (rule allI)
qed

lemma chain_waiting:
  assumes "fence_ok f" and "d \<in> set (unfinished k f)" and "d \<noteq> hd (unfinished k f)"
  shows "\<not> may_begin d f" and "d \<notin> set (begun f)"
proof -
  let ?us = "unfinished k f"
  have wf: "jm_wf (fence_key f)" and chain: "chain_ok f k" using assms(1) by (simp_all add: fence_ok_def)
  obtain i where i: "i < length ?us" "d = ?us ! i" using assms(2) by (metis in_set_conv_nth)
  have "i \<noteq> 0" using i assms(3) by (metis hd_conv_nth length_greater_0_conv less_nat_zero_code list.size(3))
  then obtain j where j: "i = Suc j" by (cases i) auto
  have "?us ! j \<notin> set (released f)"
    using i(1) j unfinished_mem [OF wf] nth_mem [of j ?us] by auto
  then show "\<not> may_begin d f"
    using chain i j by (simp add: chain_ok_def may_begin_def)
  show "d \<notin> set (begun f)"
  proof
    assume "d \<in> set (begun f)"
    then obtain k' where "unfinished k' f \<noteq> []" "hd (unfinished k' f) = d"
      using assms(1) by (auto simp: fence_ok_def)
    then have "k' = k"
      using assms(2) unfinished_mem [OF wf] hd_in_set by (metis option.inject)
    then show False using assms(3) \<open>hd (unfinished k' f) = d\<close> by simp
  qed
qed

lemma fence_ok_begin:
  assumes "fence_ok f" and "may_begin c f"
  shows "fence_ok (fence_begin c f)"
proof -
  have wf: "jm_wf (fence_key f)" using assms(1) by (simp add: fence_ok_def)
  have "jm_get c (previous f) \<noteq> None" using assms(2) by (auto simp: may_begin_def split: option.splits)
  then obtain key where key: "jm_get c (fence_key f) = Some key" "c \<notin> set (released f)"
    using assms(1) by (auto simp: fence_ok_def)
  then have mem: "c \<in> set (unfinished key f)" using unfinished_mem [OF wf] by simp
  have head: "c = hd (unfinished key f)"
    using chain_waiting(1) [OF assms(1) mem] assms(2) by blast
  have only: "k = key" if "c \<in> set (unfinished k f)" for k
    using that key(1) unfinished_mem [OF wf] by simp
  have idx: "Suc i < length (unfinished k f) \<Longrightarrow> unfinished k f ! Suc i \<noteq> c" for i k
  proof
    assume a: "Suc i < length (unfinished k f)" "unfinished k f ! Suc i = c"
    then have "k = key" using only nth_mem by metis
    then have "unfinished key f ! 0 = unfinished key f ! Suc i" "Suc i < length (unfinished key f)"
      using a head mem by (simp_all add: hd_conv_nth length_pos_if_in_set [THEN length_greater_0_conv [THEN iffD1]])
    then show False
      using nth_eq_iff_index_eq [OF unfinished_distinct [OF wf, of key], of 0 "Suc i"] mem by (cases "unfinished key f") auto
  qed
  have ready: "head_ready (fence_begin c f) d" if "head_ready f d" for d
    using that by (auto simp: head_ready_def may_begin_def fence_begin_def split: option.splits if_splits)
  have "chain_ok (fence_begin c f) k" for k
    using assms(1) ready idx [of _ k] unfolding fence_ok_def chain_ok_def unfinished_begin
    by (simp add: fence_begin_def)
  moreover have "\<exists>k. unfinished k f \<noteq> [] \<and> hd (unfinished k f) = c"
    using mem head by (intro exI [of _ key]) auto
  ultimately show ?thesis
    using assms(1) unfolding fence_ok_def unfinished_begin
    by (simp add: fence_begin_def) (rule allI)
qed

lemma fence_ok_end:
  assumes "fence_ok f" and "c \<in> set (begun f)"
  shows "fence_ok (fence_end c f)"
proof -
  have wf: "jm_wf (fence_key f)" and chains: "chain_ok f k" for k
    using assms(1) by (simp_all add: fence_ok_def)
  obtain key where key: "unfinished key f \<noteq> []" "hd (unfinished key f) = c"
    using assms by (auto simp: fence_ok_def)
  then have mem: "c \<in> set (unfinished key f)" using hd_in_set by metis
  then have known: "jm_get c (fence_key f) = Some key" using unfinished_mem [OF wf] by simp
  let ?us = "unfinished key f"
  have end_eq: "fence_queue (fence_end c f) = (if jm_get key (fence_queue f) = Some c then jm_delete key (fence_queue f) else fence_queue f)"
    "begun (fence_end c f) = removeAll c (begun f)" "released (fence_end c f) = released f @ [c]"
    "previous (fence_end c f) = previous f" "fence_key (fence_end c f) = fence_key f"
    using known by (simp_all add: fence_end_def)
  have us: "?us = c # tl ?us" using key by (metis list.collapse)
  have "c \<notin> set (tl ?us)" using unfinished_distinct [OF wf, of key] us by (metis distinct.simps(2))
  then have own: "unfinished key (fence_end c f) = tl ?us"
    using unfinished_end [of c f key] known us by (metis (mono_tags, lifting) filter.simps(2) filter_True option.distinct(1))
  have other: "unfinished k (fence_end c f) = unfinished k f" if "k \<noteq> key" for k
    using unfinished_end [of c f k] known unfinished_mem [OF wf, of c k] that by (auto simp: filter_id_conv)
  have begun_head: "hd (unfinished k f) = d" "unfinished k f \<noteq> []" if "d \<in> set (begun f)" "d \<in> set (unfinished k f)" for d k
    using chain_waiting(2) [OF assms(1) that(2)] that by auto
  have ready: "head_ready (fence_end c f) d" if "head_ready f d" "d \<noteq> c" for d
    using that end_eq by (auto simp: head_ready_def may_begin_def split: option.splits if_splits)
  have "chain_ok (fence_end c f) k" for k
  proof (cases "k = key")
    case False
    have "hd (unfinished k f) \<noteq> c" if "unfinished k f \<noteq> []"
      using that False known unfinished_mem [OF wf, of c k] hd_in_set [OF that] by auto
    then show ?thesis
      using chains [of k] ready False unfolding chain_ok_def other [OF False] end_eq by auto
  next
    case True
    have queue: "jm_get key (fence_queue (fence_end c f)) = (if tl ?us = [] then None else Some (last (tl ?us)))"
    proof (cases "tl ?us = []")
      case False
      then have "last ?us = last (tl ?us)" "last (tl ?us) \<noteq> c"
        using us \<open>c \<notin> set (tl ?us)\<close> by (metis last_ConsR, metis last_in_set)
      then show ?thesis using False chains [of key] key(1) by (simp add: end_eq chain_ok_def)
    next
      case True
      then have "last ?us = c" using us by (metis last_ConsL)
      then show ?thesis using True chains [of key] key(1) by (simp add: end_eq chain_ok_def)
    qed
    have links: "jm_get (?us ! Suc i) (previous f) = Some (Some (?us ! i))" if "Suc i < length ?us" for i
      using chains [of key] that by (simp add: chain_ok_def)
    have "head_ready (fence_end c f) (hd (tl ?us))" if "tl ?us \<noteq> []"
    proof -
      have h: "hd (tl ?us) = ?us ! Suc 0" "?us ! 0 = c" "Suc 0 < length ?us"
        using that key by (cases ?us; cases "tl ?us"; simp)+
      then have "hd (tl ?us) \<in> set ?us" "hd (tl ?us) \<noteq> c"
        using \<open>c \<notin> set (tl ?us)\<close> that by (metis nth_mem, metis hd_in_set)
      then have "hd (tl ?us) \<notin> set (begun f)"
        using chain_waiting(2) [OF assms(1), of _ key] key(2) by metis
      then show ?thesis using links [of 0] h by (simp add: head_ready_def may_begin_def end_eq)
    qed
    moreover have "jm_get (tl ?us ! Suc i) (previous f) = Some (Some (tl ?us ! i))" if "Suc i < length (tl ?us)" for i
      using links [of "Suc i"] that by (simp add: nth_tl)
    ultimately show ?thesis
      using True queue unfolding chain_ok_def by (simp add: own end_eq)
  qed
  moreover have "\<exists>k. unfinished k (fence_end c f) \<noteq> [] \<and> hd (unfinished k (fence_end c f)) = d"
    if d: "d \<in> set (begun (fence_end c f))" for d
  proof -
    obtain k where k: "unfinished k f \<noteq> []" "hd (unfinished k f) = d"
      using assms(1) d end_eq by (auto simp: fence_ok_def)
    then have "k \<noteq> key" using key(2) d end_eq by auto
    then show ?thesis using k other by (intro exI [of _ k]) simp
  qed
  moreover have "jm_get c (previous f) = None"
    using chains [of key] key assms(2) by (simp add: chain_ok_def head_ready_def)
  ultimately show ?thesis
    using assms(1) known unfolding fence_ok_def end_eq by auto
qed

lemma fence_reach_ok: "fence_reach f \<Longrightarrow> fence_ok f"
proof (induction rule: fence_reach.induct)
  case fence_start
  show ?case
    by (simp add: fence_ok_def no_fence_def chain_ok_def unfinished_def)
qed (simp_all add: fence_ok_enter fence_ok_begin fence_ok_end)

text \<open>Operations on a directory run one at a time, in the order of their calls.

  In every reachable state, of the calls for a directory that have not ended only the
  oldest one can be running; when it is not, it and no other one may begin, so nothing
  waits for ever behind finished operations, failed ones included; and a directory is in
  the queue exactly while it has such calls, under the promise of the latest of them.\<close>

theorem fence_serializes:
  assumes "fence_reach f"
  shows "(\<forall>c \<in> set (unfinished key f). (c \<in> set (begun f) \<or> may_begin c f) \<longleftrightarrow> c = hd (unfinished key f)) \<and>
    (\<forall>c \<in> set (begun f). \<exists>k. c \<in> set (unfinished k f) \<and> \<not> may_begin c f) \<and>
    jm_get key (fence_queue f) = (if unfinished key f = [] then None else Some (last (unfinished key f)))"
proof (intro conjI ballI)
  note ok = fence_reach_ok [OF assms]
  have chains: "chain_ok f k" for k using ok by (simp add: fence_ok_def)
  show "(c \<in> set (begun f) \<or> may_begin c f) \<longleftrightarrow> c = hd (unfinished key f)" if c: "c \<in> set (unfinished key f)" for c
  proof
    show "c \<in> set (begun f) \<or> may_begin c f \<Longrightarrow> c = hd (unfinished key f)"
      using chain_waiting [OF ok c] by blast
    show "c = hd (unfinished key f) \<Longrightarrow> c \<in> set (begun f) \<or> may_begin c f"
      using chains [of key] c by (auto simp: chain_ok_def head_ready_def split: if_splits)
  qed
  show "\<exists>k. c \<in> set (unfinished k f) \<and> \<not> may_begin c f" if b: "c \<in> set (begun f)" for c
  proof -
    obtain k where k: "unfinished k f \<noteq> []" "hd (unfinished k f) = c"
      using ok b by (auto simp: fence_ok_def)
    then have "jm_get c (previous f) = None"
      using chains [of k] b by (simp add: chain_ok_def head_ready_def)
    then show ?thesis using k by (intro exI [of _ k]) (auto simp: may_begin_def)
  qed
  show "jm_get key (fence_queue f) = (if unfinished key f = [] then None else Some (last (unfinished key f)))"
    using chains [of key] by (simp add: chain_ok_def)
qed

definition sample_fence :: fence where
  "sample_fence = fence_end 0 (fence_enter 1 ''/w'' (fence_begin 0 (fence_enter 0 ''/w'' no_fence)))"

lemma sample_fence_reach: "fence_reach sample_fence"
  unfolding sample_fence_def
  by (intro fence_reach.intros) (simp_all add: fence_enter_def fence_begin_def no_fence_def may_begin_def)

lemma fence_serializes_witness: "jm_get ''/w'' (fence_queue sample_fence) = Some 1 \<and> may_begin 1 sample_fence"
  using fence_serializes [OF sample_fence_reach, of "''/w''"]
  by (simp add: sample_fence_def fence_end_def fence_enter_def fence_begin_def no_fence_def unfinished_def may_begin_def)

end
