(* ===== verification/Automations.thy ===== *)
theory Automations
  imports LocalStores "HOL-Library.Word" "HOL-Library.Product_Lexorder" "HOL-Library.Multiset"
begin

unbundle bit_operations_syntax

text \<open>
  The policy core of the Automations (\<open>packages/automations/src\<close>): the states of an
  Automation (\<open>state.ts\<close>), which ones are due (\<open>tick.ts\<close>), how long a desktop may
  claim an occurrence (\<open>runner.ts\<close>) and the identities of occurrences and revisions
  (\<open>contracts.ts\<close>).

  The collation of \<open>localeCompare\<close> is the argument \<open>key\<close>, as in \<open>LocalStores\<close>. Times are
  milliseconds.
\<close>

section \<open>States\<close>

datatype automation_state = ActiveS | InactiveS | NeedsAttentionS | ArchivedS

datatype automation_run_status = Queued | Claimed | Running | Succeeded | Failed | Cancelled | Skipped

fun transitions :: "automation_state \<Rightarrow> automation_state list" where
  "transitions ActiveS = [InactiveS, NeedsAttentionS, ArchivedS]"
| "transitions InactiveS = [ActiveS, NeedsAttentionS, ArchivedS]"
| "transitions NeedsAttentionS = [ActiveS, InactiveS, ArchivedS]"
| "transitions ArchivedS = []"

definition canTransitionAutomation :: "automation_state \<Rightarrow> automation_state \<Rightarrow> bool" where
  "canTransitionAutomation src dst = (src = dst \<or> dst \<in> set (transitions src))"

datatype transition_error = InvalidTransition automation_state automation_state

definition assertAutomationTransition :: "automation_state \<Rightarrow> automation_state \<Rightarrow> transition_error + unit" where
  "assertAutomationTransition src dst =
     (if canTransitionAutomation src dst then Inr () else Inl (InvalidTransition src dst))"

definition isTerminalAutomationRunStatus :: "automation_run_status \<Rightarrow> bool" where
  "isTerminalAutomationRunStatus s = (s \<in> set [Succeeded, Failed, Cancelled, Skipped])"

section \<open>The tick\<close>

record automation =
  au_id :: string
  au_state :: automation_state
  au_nextDueAt :: "int option"
  au_latestRunAt :: "int option"
  au_updatedAt :: int

definition due_at :: "int \<Rightarrow> automation \<Rightarrow> bool" where
  "due_at now a = (au_state a = ActiveS \<and> (case au_nextDueAt a of None \<Rightarrow> False | Some t \<Rightarrow> t \<le> now))"

definition due_time :: "automation \<Rightarrow> int" where
  "due_time a = opt_default 0 (au_nextDueAt a)"

definition due_limit :: "int \<Rightarrow> nat" where
  "due_limit limit = nat (max 1 (min limit 500))"

definition selectDueAutomations ::
    "(string \<Rightarrow> 'k::linorder) \<Rightarrow> automation list \<Rightarrow> int \<Rightarrow> int \<Rightarrow> automation list" where
  "selectDueAutomations key candidates now limit =
     take (due_limit limit) (sort_key (\<lambda>a. (due_time a, key (au_id a))) (filter (due_at now) candidates))"

definition hasActiveRun :: "automation_run_status list \<Rightarrow> bool" where
  "hasActiveRun runs = list_ex (\<lambda>s. s = Claimed \<or> s = Running) runs"

definition nextAutomationAfterClaim :: "automation \<Rightarrow> int option \<Rightarrow> int \<Rightarrow> automation" where
  "nextAutomationAfterClaim a nextDueAt now =
     a\<lparr>au_nextDueAt := nextDueAt, au_latestRunAt := Some now, au_updatedAt := now\<rparr>"

lemma sorted_take_drop: "sorted xs \<Longrightarrow> x \<in> set (take n xs) \<Longrightarrow> y \<in> set (drop n xs) \<Longrightarrow> x \<le> y"
  by (metis append_take_drop_id sorted_append)

lemma sorted_first_component: "sorted (map (\<lambda>x. (f x, g x)) xs) \<Longrightarrow> sorted (map f xs)"
  by (induction xs) auto

text \<open>A tick takes the Automations that have been due longest.

  The selection holds only active Automations that are due, between one and five hundred
  at most, longest due first; one that is due and left out is not due before a selected one,
  and nothing is left out while there is room. Claiming the occurrence of a selected
  Automation with a later due time takes it out of the next selection at that time.\<close>

theorem tick_takes_longest_due:
  "set (selectDueAutomations key cs now limit) \<subseteq> {a \<in> set cs. due_at now a} \<and>
   length (selectDueAutomations key cs now limit) = min (due_limit limit) (length (filter (due_at now) cs)) \<and>
   1 \<le> due_limit limit \<and> due_limit limit \<le> 500 \<and>
   sorted (map due_time (selectDueAutomations key cs now limit)) \<and>
   (\<forall>a \<in> set (selectDueAutomations key cs now limit).
      \<forall>b \<in> set cs. due_at now b \<and> b \<notin> set (selectDueAutomations key cs now limit) \<longrightarrow> due_time a \<le> due_time b) \<and>
   (\<forall>a nextDue. (case nextDue of None \<Rightarrow> True | Some t \<Rightarrow> now < t) \<longrightarrow>
      \<not> due_at now (nextAutomationAfterClaim a nextDue now))"
proof (intro conjI ballI allI impI)
  let ?f = "\<lambda>a. (due_time a, key (au_id a))"
  let ?sorted = "sort_key ?f (filter (due_at now) cs)"
  let ?sel = "selectDueAutomations key cs now limit"
  have sel: "?sel = take (due_limit limit) ?sorted" by (simp add: selectDueAutomations_def)
  show "set ?sel \<subseteq> {a \<in> set cs. due_at now a}"
    unfolding sel using set_take_subset [of "due_limit limit" ?sorted] by auto
  show "length ?sel = min (due_limit limit) (length (filter (due_at now) cs))"
    unfolding sel by simp
  show "1 \<le> due_limit limit" "due_limit limit \<le> 500"
    by (simp_all add: due_limit_def)
  have "sorted (map ?f ?sorted)" by simp
  then have times: "sorted (map due_time ?sorted)" by (rule sorted_first_component)
  show "sorted (map due_time ?sel)"
    unfolding sel using times by (simp add: take_map [symmetric] sorted_wrt_take)
  fix a b
  assume a: "a \<in> set ?sel" and b: "b \<in> set cs" "due_at now b \<and> b \<notin> set ?sel"
  then have "b \<in> set ?sorted" by simp
  then have "b \<in> set (drop (due_limit limit) ?sorted)"
    using b(2) unfolding sel by (metis Un_iff append_take_drop_id set_append)
  then show "due_time a \<le> due_time b"
    using sorted_take_drop [OF times, of "due_time a" "due_limit limit" "due_time b"] a
    unfolding sel by (simp add: take_map drop_map)
next
  fix a and nextDue :: "int option"
  assume "case nextDue of None \<Rightarrow> True | Some t \<Rightarrow> now < t"
  then show "\<not> due_at now (nextAutomationAfterClaim a nextDue now)"
    by (auto simp: due_at_def nextAutomationAfterClaim_def split: option.splits)
qed

definition sample_automation :: "string \<Rightarrow> int \<Rightarrow> automation" where
  "sample_automation i due = \<lparr>au_id = i, au_state = ActiveS, au_nextDueAt = Some due, au_latestRunAt = None, au_updatedAt = 0\<rparr>"

lemma tick_takes_longest_due_witness:
  "due_time (hd (selectDueAutomations length [sample_automation ''a'' 7, sample_automation ''b'' 5] 9 1)) \<le> 7 \<and>
   \<not> due_at 9 (nextAutomationAfterClaim (sample_automation ''b'' 5) (Some 20) 9)"
proof -
  let ?cs = "[sample_automation ''a'' 7, sample_automation ''b'' 5]"
  have sel: "selectDueAutomations length ?cs 9 1 = [sample_automation ''b'' 5]"
    by (simp add: selectDueAutomations_def due_limit_def due_at_def sample_automation_def due_time_def)
  have "\<not> due_at 9 (nextAutomationAfterClaim (sample_automation ''b'' 5) (Some 20) 9)"
    using tick_takes_longest_due [of length ?cs 9 1] by simp
  then show ?thesis unfolding sel by (simp add: sample_automation_def due_time_def)
qed

section \<open>Claim windows of desktop occurrences\<close>

definition AUTOMATION_MIN_CLAIM_WINDOW_MS :: int where
  "AUTOMATION_MIN_CLAIM_WINDOW_MS = 60000"

definition AUTOMATION_DESKTOP_RUNNER_PRESENCE_WINDOW_MS :: int where
  "AUTOMATION_DESKTOP_RUNNER_PRESENCE_WINDOW_MS = 10 * 60000"

definition desktopClaimDeadline :: "int \<Rightarrow> int \<Rightarrow> int option \<Rightarrow> int" where
  "desktopClaimDeadline now windowMs nextDueAt =
     (let requested = now + windowMs;
          bounded = (case nextDueAt of None \<Rightarrow> requested | Some due \<Rightarrow> min requested due);
          floor = now + min windowMs AUTOMATION_MIN_CLAIM_WINDOW_MS
      in max floor bounded)"

definition desktopRunnerConnected :: "int option \<Rightarrow> int \<Rightarrow> bool" where
  "desktopRunnerConnected lastSeenAt now =
     (case lastSeenAt of None \<Rightarrow> False | Some t \<Rightarrow> now - t \<le> AUTOMATION_DESKTOP_RUNNER_PRESENCE_WINDOW_MS)"

datatype missed_message = MissedBusy | MissedSilent | MissedAbsent

definition missedDesktopRunMessage :: "bool \<Rightarrow> int option \<Rightarrow> int \<Rightarrow> missed_message" where
  "missedDesktopRunMessage busy lastSeenAt now =
     (if busy then MissedBusy
      else if desktopRunnerConnected lastSeenAt now then MissedSilent else MissedAbsent)"

text \<open>The claim window of a desktop occurrence.

  The deadline is never later than the window asks for, and an occurrence is claimable
  for at least the smaller of the window and one minute. It stays at or before the next
  occurrence exactly when that one is not due within the minimum; otherwise the
  deadline passes it.\<close>

theorem claim_deadline_bounds:
  "desktopClaimDeadline now windowMs nextDueAt \<le> now + windowMs \<and>
   now + min windowMs 60000 \<le> desktopClaimDeadline now windowMs nextDueAt \<and>
   (nextDueAt = None \<longrightarrow> desktopClaimDeadline now windowMs nextDueAt = now + windowMs) \<and>
   (\<forall>due. nextDueAt = Some due \<longrightarrow>
      (desktopClaimDeadline now windowMs nextDueAt \<le> due \<longleftrightarrow> now + min windowMs 60000 \<le> due))"
  by (cases nextDueAt) (auto simp: desktopClaimDeadline_def AUTOMATION_MIN_CLAIM_WINDOW_MS_def Let_def)

lemma claim_deadline_bounds_witness:
  "desktopClaimDeadline 1000 600000 (Some 31000) = 61000 \<and> \<not> desktopClaimDeadline 1000 600000 (Some 31000) \<le> 31000"
  using claim_deadline_bounds [of 1000 600000 "Some 31000"]
  by (simp add: desktopClaimDeadline_def AUTOMATION_MIN_CLAIM_WINDOW_MS_def)

section \<open>Identities\<close>

text \<open>\<open>String(n)\<close> of an integer, and \<open>n.toString(16)\<close> of a natural number.\<close>

fun digits_in :: "nat \<Rightarrow> nat \<Rightarrow> nat list" where
  "digits_in b n = (if n < b \<or> b < 2 then [n] else digits_in b (n div b) @ [n mod b])"

declare digits_in.simps [simp del]

definition digit_char :: "nat \<Rightarrow> char" where
  "digit_char d = (if d < 10 then char_of (48 + d) else char_of (87 + d))"

definition js_number_text :: "int \<Rightarrow> string" where
  "js_number_text n = (if n < 0 then [CHR ''-''] else []) @ map digit_char (digits_in 10 (nat \<bar>n\<bar>))"

definition hex_text :: "nat \<Rightarrow> string" where
  "hex_text n = map digit_char (digits_in 16 n)"

definition pad_start :: "nat \<Rightarrow> char \<Rightarrow> string \<Rightarrow> string" where
  "pad_start k c s = replicate (k - length s) c @ s"

text \<open>\<open>encodeURIComponent\<close>: a code unit from 128 on is two bytes of UTF-8.\<close>

definition upper_digit :: "nat \<Rightarrow> char" where
  "upper_digit d = (if d < 10 then char_of (48 + d) else char_of (55 + d))"

definition hex_byte :: "nat \<Rightarrow> string" where
  "hex_byte n = [CHR ''%'', upper_digit (n div 16 mod 16), upper_digit (n mod 16)]"

definition uri_plain :: "char \<Rightarrow> bool" where
  "uri_plain c = (is_alnum c \<or> c \<in> set ''-_.!~*'' \<or> c = CHR 0x27 \<or> c = CHR ''('' \<or> c = CHR '')'')"

definition encode_char :: "char \<Rightarrow> string" where
  "encode_char c =
     (let n = (of_char c :: nat) in
      if uri_plain c then [c]
      else if n < 128 then hex_byte n
      else hex_byte (192 + n div 64) @ hex_byte (128 + n mod 64))"

definition encodeURIComponent :: "string \<Rightarrow> string" where
  "encodeURIComponent s = concat (map encode_char s)"

datatype occurrence_error = ManualNeedsNonce

definition occurrence_text :: "int option \<Rightarrow> string \<Rightarrow> string" where
  "occurrence_text scheduledFor nonce =
     (case scheduledFor of None \<Rightarrow> ''manual:'' @ nonce | Some t \<Rightarrow> js_number_text t)"

definition automationOccurrenceIdentity ::
    "string \<Rightarrow> int option \<Rightarrow> string option \<Rightarrow> occurrence_error + string \<times> string" where
  "automationOccurrenceIdentity automationId scheduledFor nonce =
     (if scheduledFor = None \<and> opt_default [] nonce = [] then Inl ManualNeedsNonce
      else
        (let occurrence = occurrence_text scheduledFor (opt_default [] nonce);
             stable = join '':'' (map encodeURIComponent [automationId, occurrence])
         in Inr (''automation-occurrence:'' @ stable, ''automation:'' @ stable)))"

lemma upper_digit_table:
  "list_all (\<lambda>d. upper_digit d \<noteq> CHR '':'' \<and> list_all (\<lambda>e. upper_digit d = upper_digit e \<longrightarrow> d = e) [0..<16]) [0..<16]"
  by code_simp

lemma upper_digit_inj: "d < 16 \<Longrightarrow> e < 16 \<Longrightarrow> upper_digit d = upper_digit e \<Longrightarrow> d = e"
  and upper_digit_colon: "d < 16 \<Longrightarrow> upper_digit d \<noteq> CHR '':''"
  using upper_digit_table by (simp_all add: list_all_iff)

lemma digit_char_table:
  "list_all (\<lambda>d. digit_char d \<noteq> CHR ''-'' \<and> digit_char d \<noteq> CHR ''m'' \<and>
     list_all (\<lambda>e. digit_char d = digit_char e \<longrightarrow> d = e) [0..<16]) [0..<16]"
  by code_simp

lemma digit_char_inj: "d < 16 \<Longrightarrow> e < 16 \<Longrightarrow> digit_char d = digit_char e \<Longrightarrow> d = e"
  and digit_char_other: "d < 16 \<Longrightarrow> digit_char d \<noteq> CHR ''-''" "d < 16 \<Longrightarrow> digit_char d \<noteq> CHR ''m''"
  using digit_char_table by (simp_all add: list_all_iff)

lemma digits_in_less: "2 \<le> b \<Longrightarrow> d \<in> set (digits_in b n) \<Longrightarrow> d < b"
proof (induction b n rule: digits_in.induct)
  case (1 b n)
  then show ?case using digits_in.simps [of b n] by (auto split: if_splits)
qed

lemma digits_in_value: "2 \<le> b \<Longrightarrow> foldl (\<lambda>a d. a * b + d) 0 (digits_in b n) = n"
proof (induction b n rule: digits_in.induct)
  case (1 b n)
  then show ?case by (subst digits_in.simps) auto
qed

lemma digits_in_nonempty: "digits_in b n \<noteq> []"
  by (subst digits_in.simps) simp

lemma map_digits_inj:
  assumes "map digit_char (digits_in b n) = map digit_char (digits_in b m)" and "2 \<le> b" and "b \<le> 16"
  shows "n = m"
proof -
  have "inj_on digit_char (set (digits_in b n) \<union> set (digits_in b m))"
  proof (rule inj_onI)
    fix x y assume "x \<in> set (digits_in b n) \<union> set (digits_in b m)" "y \<in> set (digits_in b n) \<union> set (digits_in b m)"
      and eq: "digit_char x = digit_char y"
    then have "x < 16" "y < 16" using digits_in_less [OF assms(2)] assms(3) by (auto dest: less_le_trans)
    then show "x = y" using digit_char_inj eq by blast
  qed
  then have "digits_in b n = digits_in b m"
    using assms(1) map_inj_on by blast
  then show ?thesis using digits_in_value [OF assms(2)] by metis
qed

lemma number_text_hd: "hd (js_number_text n) \<noteq> CHR ''m''" "js_number_text n \<noteq> []"
proof -
  obtain d ds where ds: "digits_in 10 (nat \<bar>n\<bar>) = d # ds"
    using digits_in_nonempty by (metis list.exhaust)
  then have "d < 16" using digits_in_less [of 10 d "nat \<bar>n\<bar>"] by simp
  then show "hd (js_number_text n) \<noteq> CHR ''m''" "js_number_text n \<noteq> []"
    using ds digit_char_other by (simp_all add: js_number_text_def)
qed

lemma number_text_sign: "js_number_text n = CHR ''-'' # t \<Longrightarrow> n < 0"
proof (rule ccontr)
  assume t: "js_number_text n = CHR ''-'' # t" and "\<not> n < 0"
  moreover obtain d ds where ds: "digits_in 10 (nat \<bar>n\<bar>) = d # ds"
    using digits_in_nonempty by (metis list.exhaust)
  moreover have "d < 16" using digits_in_less [of 10 d "nat \<bar>n\<bar>"] ds by simp
  ultimately show False using digit_char_other(1) by (simp add: js_number_text_def)
qed

lemma number_text_inj: "js_number_text n = js_number_text m \<Longrightarrow> n = m"
proof -
  assume eq: "js_number_text n = js_number_text m"
  have signed: "js_number_text k = CHR ''-'' # map digit_char (digits_in 10 (nat \<bar>k\<bar>))" if "k < 0" for k
    using that by (simp add: js_number_text_def)
  have neg: "n < 0 \<longleftrightarrow> m < 0"
    using eq signed number_text_sign by metis
  then have "map digit_char (digits_in 10 (nat \<bar>n\<bar>)) = map digit_char (digits_in 10 (nat \<bar>m\<bar>))"
    using eq by (simp add: js_number_text_def split: if_splits)
  then have "nat \<bar>n\<bar> = nat \<bar>m\<bar>" by (rule map_digits_inj) simp_all
  then show ?thesis using neg by linarith
qed

lemma hex_byte_inj: "hex_byte n = hex_byte m \<Longrightarrow> n < 256 \<Longrightarrow> m < 256 \<Longrightarrow> n = m"
proof -
  assume "hex_byte n = hex_byte m" and b: "n < 256" "m < 256"
  then have "n div 16 mod 16 = m div 16 mod 16" "n mod 16 = m mod 16"
    by (simp_all add: hex_byte_def upper_digit_inj)
  then have "n div 16 = m div 16" "n mod 16 = m mod 16" using b by simp_all
  then show ?thesis by (metis div_mult_mod_eq)
qed

lemma uri_plain_percent: "\<not> uri_plain CHR ''%''" and uri_plain_colon: "\<not> uri_plain CHR '':''"
  by code_simp+

lemma encode_char_split:
  assumes "encode_char c @ u = encode_char c' @ u'"
  shows "c = c' \<and> u = u'"
proof -
  let ?n = "of_char c :: nat" and ?m = "of_char c' :: nat"
  have bound: "?n < 256" "?m < 256" by (simp_all add: of_char_less)
  have len: "length (hex_byte k) = 3" "hd (hex_byte k) = CHR ''%''" for k
    by (simp_all add: hex_byte_def)
  have split3: "hex_byte a @ x = hex_byte b @ y \<Longrightarrow> hex_byte a = hex_byte b \<and> x = y" for a b x y
    using append_eq_append_conv [of "hex_byte a" "hex_byte b" x y] len by simp
  consider (plain) "uri_plain c" "uri_plain c'" | (left) "uri_plain c" "\<not> uri_plain c'"
    | (right) "\<not> uri_plain c" "uri_plain c'" | (none) "\<not> uri_plain c" "\<not> uri_plain c'"
    by blast
  then show ?thesis
  proof cases
    case plain
    then show ?thesis using assms by (simp add: encode_char_def)
  next
    case left
    then have "c = CHR ''%''" using assms by (auto simp: encode_char_def hex_byte_def Let_def split: if_splits)
    then show ?thesis using left uri_plain_percent by simp
  next
    case right
    then have "c' = CHR ''%''" using assms by (auto simp: encode_char_def hex_byte_def Let_def split: if_splits)
    then show ?thesis using right uri_plain_percent by simp
  next
    case none
    have quarter: "k < 256 \<Longrightarrow> k div 64 < 64" for k :: nat by (simp add: less_mult_imp_div_less)
    have low: "encode_char d = hex_byte (of_char d)" if "\<not> uri_plain d" "(of_char d :: nat) < 128" for d
      using that by (simp add: encode_char_def)
    have high: "encode_char d @ t = hex_byte (192 + of_char d div 64) @ hex_byte (128 + of_char d mod 64) @ t"
      if "\<not> uri_plain d" "\<not> (of_char d :: nat) < 128" for d t
      using that by (simp add: encode_char_def Let_def)
    consider (ll) "?n < 128" "?m < 128" | (lh) "?n < 128" "\<not> ?m < 128" | (hl) "\<not> ?n < 128" "?m < 128"
      | (hh) "\<not> ?n < 128" "\<not> ?m < 128"
      by blast
    then show ?thesis
    proof cases
      case ll
      have eq: "hex_byte ?n @ u = hex_byte ?m @ u'"
        using assms unfolding low [OF none(1) ll(1)] low [OF none(2) ll(2)] .
      have "?n = ?m" by (rule hex_byte_inj [OF conjunct1 [OF split3 [OF eq]] bound])
      then show ?thesis using conjunct2 [OF split3 [OF eq]] by simp
    next
      case lh
      have eq: "hex_byte ?n @ u = hex_byte (192 + ?m div 64) @ hex_byte (128 + ?m mod 64) @ u'"
        using assms unfolding low [OF none(1) lh(1)] high [OF none(2) lh(2)] .
      have "?n = 192 + ?m div 64" by (rule hex_byte_inj [OF conjunct1 [OF split3 [OF eq]]]) (use bound quarter in auto)
      then show ?thesis using lh by simp
    next
      case hl
      have eq: "hex_byte (192 + ?n div 64) @ hex_byte (128 + ?n mod 64) @ u = hex_byte ?m @ u'"
        using assms unfolding high [OF none(1) hl(1)] low [OF none(2) hl(2)] .
      have "192 + ?n div 64 = ?m" by (rule hex_byte_inj [OF conjunct1 [OF split3 [OF eq]]]) (use bound quarter in auto)
      then show ?thesis using hl by simp
    next
      case hh
      have eq: "hex_byte (192 + ?n div 64) @ hex_byte (128 + ?n mod 64) @ u =
          hex_byte (192 + ?m div 64) @ hex_byte (128 + ?m mod 64) @ u'"
        using assms unfolding high [OF none(1) hh(1)] high [OF none(2) hh(2)] .
      note first = split3 [OF eq]
      note second = split3 [OF conjunct2 [OF first]]
      have "192 + ?n div 64 = 192 + ?m div 64"
        by (rule hex_byte_inj [OF conjunct1 [OF first]]) (use bound quarter in auto)
      moreover have "128 + ?n mod 64 = 128 + ?m mod 64"
        by (rule hex_byte_inj [OF conjunct1 [OF second]]) auto
      ultimately have "?n = ?m" by (metis add_left_cancel div_mult_mod_eq)
      then show ?thesis using second by simp
    qed
  qed
qed

lemma encode_inj: "encodeURIComponent s = encodeURIComponent t \<Longrightarrow> s = t"
proof (induction s arbitrary: t)
  case Nil
  have "encode_char c \<noteq> []" for c by (simp add: encode_char_def hex_byte_def Let_def)
  then show ?case using Nil by (cases t) (auto simp: encodeURIComponent_def)
next
  case (Cons c s)
  have "encode_char c \<noteq> []" by (simp add: encode_char_def hex_byte_def Let_def)
  then obtain d t' where t: "t = d # t'" using Cons.prems by (cases t) (auto simp: encodeURIComponent_def)
  then have "encode_char c @ encodeURIComponent s = encode_char d @ encodeURIComponent t'"
    using Cons.prems by (simp add: encodeURIComponent_def)
  then show ?case using encode_char_split Cons.IH t by blast
qed

lemma encode_no_colon: "CHR '':'' \<notin> set (encodeURIComponent s)"
proof -
  have "CHR '':'' \<notin> set (hex_byte n)" for n
    using upper_digit_colon [of "n div 16 mod 16"] upper_digit_colon [of "n mod 16"] by (auto simp: hex_byte_def)
  then have "CHR '':'' \<notin> set (encode_char c)" for c
    using uri_plain_colon by (auto simp: encode_char_def Let_def)
  then show ?thesis by (simp add: encodeURIComponent_def)
qed

lemma split_at_first: "a @ x # b = a' @ x # b' \<Longrightarrow> x \<notin> set a \<Longrightarrow> x \<notin> set a' \<Longrightarrow> a = a' \<and> b = b'"
proof (induction a arbitrary: a')
  case Nil
  then show ?case by (cases a') auto
next
  case (Cons y ys)
  then show ?case by (cases a') auto
qed

text \<open>C39. An occurrence has one identity.

  Two requests whose occurrence ids or idempotency keys are equal are about the same
  Automation and the same occurrence: the same scheduled time, or both manual with the
  same nonce. Only a manual request without a nonce is refused.\<close>

theorem occurrence_identity_injective:
  assumes "automationOccurrenceIdentity a s n = Inr x" and "automationOccurrenceIdentity a' s' n' = Inr x'"
    and "fst x = fst x' \<or> snd x = snd x'"
  shows "a = a' \<and> s = s' \<and> (s = None \<longrightarrow> n = n')"
proof -
  let ?o = "occurrence_text s (opt_default [] n)" and ?o' = "occurrence_text s' (opt_default [] n')"
  have nonce: "s = None \<Longrightarrow> opt_default [] n \<noteq> []" "s' = None \<Longrightarrow> opt_default [] n' \<noteq> []"
    using assms(1,2) by (auto simp: automationOccurrenceIdentity_def split: if_splits)
  have "encodeURIComponent a @ CHR '':'' # encodeURIComponent ?o = encodeURIComponent a' @ CHR '':'' # encodeURIComponent ?o'"
    using assms by (auto simp: automationOccurrenceIdentity_def Let_def split: if_splits)
  then have ids: "a = a'" and texts: "?o = ?o'"
    using split_at_first [OF _ encode_no_colon encode_no_colon] encode_inj by blast+
  have manual: "js_number_text t \<noteq> ''manual:'' @ u" for t u
    using number_text_hd(1) [of t] by auto
  have "s = s' \<and> (s = None \<longrightarrow> n = n')"
  proof (cases s; cases s')
    assume "s = None" "s' = None"
    then show ?thesis using texts nonce by (cases n; cases n') (auto simp: occurrence_text_def)
  next
    fix t assume "s = None" "s' = Some t"
    then show ?thesis using texts manual [of t "opt_default [] n"] by (metis occurrence_text_def option.simps(4,5))
  next
    fix t assume "s = Some t" "s' = None"
    then show ?thesis using texts manual [of t "opt_default [] n'"] by (metis occurrence_text_def option.simps(4,5))
  next
    fix t t' assume "s = Some t" "s' = Some t'"
    then show ?thesis using texts number_text_inj by (simp add: occurrence_text_def)
  qed
  then show ?thesis using ids by simp
qed

lemma occurrence_identity_injective_witness:
  "\<exists>x. automationOccurrenceIdentity ''a:b'' (Some 5) None = Inr x \<and> snd x = ''automation:a%3Ab:5'' \<and>
     (\<forall>s' n' x'. automationOccurrenceIdentity ''a:b'' s' n' = Inr x' \<and> snd x' = snd x \<longrightarrow> s' = Some 5)"
proof -
  have "automationOccurrenceIdentity ''a:b'' (Some 5) None = Inr (''automation-occurrence:a%3Ab:5'', ''automation:a%3Ab:5'')"
    by code_simp
  then show ?thesis
  proof (intro exI conjI allI impI)
    fix s' n' x'
    assume "automationOccurrenceIdentity ''a:b'' s' n' = Inr x' \<and>
        snd x' = snd (''automation-occurrence:a%3Ab:5'', ''automation:a%3Ab:5'')"
    then show "s' = Some 5"
      using occurrence_identity_injective [OF \<open>automationOccurrenceIdentity ''a:b'' (Some 5) None = _\<close>, of "''a:b''" s' n' x'] by metis
  qed (simp_all only: snd_conv)
qed

section \<open>The digest of a revision\<close>

text \<open>\<open>JSON.stringify\<close> of a string and of the primitive values.\<close>

definition json_escape :: "char \<Rightarrow> string" where
  "json_escape c =
     (let n = (of_char c :: nat); bs = CHR 0x5C in
      if c = CHR 0x22 \<or> c = bs then [bs, c]
      else if n = 8 then [bs, CHR ''b'']
      else if n = 9 then [bs, CHR ''t'']
      else if n = 10 then [bs, CHR ''n'']
      else if n = 12 then [bs, CHR ''f'']
      else if n = 13 then [bs, CHR ''r'']
      else if n < 32 then [bs, CHR ''u'', CHR ''0'', CHR ''0''] @ pad_start 2 CHR ''0'' (hex_text n)
      else [c])"

definition json_quote :: "string \<Rightarrow> string" where
  "json_quote s = [CHR 0x22] @ concat (map json_escape s) @ [CHR 0x22]"

fun canonical :: "(string \<Rightarrow> 'k::linorder) \<Rightarrow> json \<Rightarrow> string" where
  "canonical key (JArr xs) = ''['' @ join '','' (map (canonical key) xs) @ '']''"
| "canonical key (JObj es) =
     ''{'' @ join '','' (map (\<lambda>(k, v). json_quote k @ '':'' @ v)
        (sort_key (\<lambda>e. key (fst e)) (map (\<lambda>(k, v). (k, canonical key v)) es))) @ ''}''"
| "canonical key (JStr s) = json_quote s"
| "canonical key (JNum n) = js_number_text n"
| "canonical key (JBool b) = (if b then ''true'' else ''false'')"
| "canonical key JNull = ''null''"

text \<open>One of the two rolling hashes: \<open>Math.imul(acc ^ code, k)\<close> on 32-bit integers.\<close>

definition hash_step :: "32 word \<Rightarrow> char \<Rightarrow> 32 word \<Rightarrow> 32 word" where
  "hash_step k c acc = (acc XOR of_nat (of_char c)) * k"

definition automationRevisionDigest :: "(string \<Rightarrow> 'k::linorder) \<Rightarrow> json \<Rightarrow> string" where
  "automationRevisionDigest key revision =
     (let input = canonical key revision;
          left = fold (hash_step 0x01000193) input 0x811c9dc5;
          right = fold (hash_step 0x85ebca6b) input 0x9e3779b9
      in pad_start 8 CHR ''0'' (hex_text (unat left)) @ pad_start 8 CHR ''0'' (hex_text (unat right)))"

text \<open>
  Two values are the same when they differ only in the order of the properties of their
  objects, no two of which the collation takes for the same name.
\<close>

inductive json_same :: "(string \<Rightarrow> 'k::linorder) \<Rightarrow> json \<Rightarrow> json \<Rightarrow> bool"
  for key :: "string \<Rightarrow> 'k::linorder" where
  same_refl: "json_same key v v"
| same_arr: "list_all2 (json_same key) xs ys \<Longrightarrow> json_same key (JArr xs) (JArr ys)"
| same_obj: "mset es' = mset es \<Longrightarrow> distinct (map (\<lambda>e. key (fst e)) es) \<Longrightarrow>
    list_all2 (\<lambda>e f. fst e = fst f \<and> json_same key (snd e) (snd f)) es' fs \<Longrightarrow> json_same key (JObj es) (JObj fs)"

lemma sort_key_perm:
  assumes "mset xs = mset ys" and "distinct (map f xs)"
  shows "sort_key f xs = sort_key f ys"
proof (rule properties_for_sort_key)
  show "mset (sort_key f ys) = mset xs" using assms(1) by simp
  show "sorted (map f (sort_key f ys))" by simp
  fix k assume "k \<in> set (sort_key f ys)"
  then have k: "k \<in> set xs" "k \<in> set ys" using assms(1) by (auto dest: mset_eq_setD)
  have single: "filter (\<lambda>x. f k = f x) zs = [k]" if "distinct (map f zs)" "k \<in> set zs" for zs
    using that by (induction zs) (auto simp: filter_empty_conv, metis image_eqI)
  have "distinct (map f ys)"
    using assms by (metis mset_eq_imp_distinct_iff mset_map)
  then have "distinct (map f (sort_key f ys))" by (simp add: distinct_sort_key)
  then show "filter (\<lambda>x. f k = f x) (sort_key f ys) = filter (\<lambda>x. f k = f x) xs"
    using single [OF _ k(1)] single [of "sort_key f ys"] assms(2) k by simp
qed

lemma canonical_same: "json_same key v w \<Longrightarrow> canonical key v = canonical key w"
proof (induction rule: json_same.induct)
  case (same_refl v)
  show ?case by simp
next
  case (same_arr xs ys)
  have "map (canonical key) xs = map (canonical key) ys"
    using same_arr by (induction rule: list_all2_induct) simp_all
  then show ?case by simp
next
  case (same_obj es' es fs)
  let ?g = "\<lambda>(k, v). (k, canonical key v)"
  have "map ?g es' = map ?g fs"
    using same_obj(3) by (induction rule: list_all2_induct) auto
  moreover have "sort_key (\<lambda>e. key (fst e)) (map ?g es) = sort_key (\<lambda>e. key (fst e)) (map ?g es')"
  proof (rule sort_key_perm)
    show "mset (map ?g es) = mset (map ?g es')" using same_obj(1) by simp
    show "distinct (map (\<lambda>e. key (fst e)) (map ?g es))"
      using same_obj(2) by (simp add: o_def case_prod_unfold)
  qed
  ultimately show ?case by simp
qed

lemma digits_in_length: "2 \<le> b \<Longrightarrow> n < b ^ Suc k \<Longrightarrow> length (digits_in b n) \<le> Suc k"
proof (induction k arbitrary: n)
  case 0
  then show ?case by (subst digits_in.simps) simp
next
  case (Suc k)
  show ?case
  proof (cases "n < b")
    case True
    then show ?thesis by (subst digits_in.simps) simp
  next
    case False
    have "n div b < b ^ Suc k" using Suc.prems by (simp add: less_mult_imp_div_less mult.commute)
    then show ?thesis using Suc.IH [OF Suc.prems(1)] False by (subst digits_in.simps) auto
  qed
qed

lemma hex_word_text:
  fixes w :: "32 word"
  shows "length (pad_start 8 CHR ''0'' (hex_text (unat w))) = 8"
    and "set (pad_start 8 CHR ''0'' (hex_text (unat w))) \<subseteq> set ''0123456789abcdef''"
proof -
  have "unat w < 16 ^ Suc 7"
    using unsigned_less [of w] by simp
  then have len: "length (hex_text (unat w)) \<le> 8"
    using digits_in_length [of 16 "unat w" 7] by (simp add: hex_text_def)
  then show "length (pad_start 8 CHR ''0'' (hex_text (unat w))) = 8"
    by (simp add: pad_start_def)
  have "list_all (\<lambda>d. digit_char d \<in> set ''0123456789abcdef'') [0..<16]"
    by code_simp
  then have "set (hex_text (unat w)) \<subseteq> set ''0123456789abcdef''"
    using digits_in_less [of 16 _ "unat w"] by (auto simp: hex_text_def list_all_iff simp del: set_simps list.set)
  then show "set (pad_start 8 CHR ''0'' (hex_text (unat w))) \<subseteq> set ''0123456789abcdef''"
    by (auto simp: pad_start_def)
qed

text \<open>The digest of a revision.

  The digest does not depend on the order of the properties of the revision or of any
  object inside it, and it always is sixteen hexadecimal digits, the shortest digest the
  stored revision's schema accepts.\<close>

theorem revision_digest_canonical:
  assumes "json_same key v w"
  shows "automationRevisionDigest key v = automationRevisionDigest key w \<and>
    length (automationRevisionDigest key v) = 16 \<and>
    set (automationRevisionDigest key v) \<subseteq> set ''0123456789abcdef''"
  using canonical_same [OF assms] hex_word_text
  by (simp only: automationRevisionDigest_def Let_def length_append set_append Un_subset_iff) simp

lemma revision_digest_canonical_witness:
  "automationRevisionDigest length (JObj [(''a'', JNum 1), (''bc'', JNull)]) =
   automationRevisionDigest length (JObj [(''bc'', JNull), (''a'', JNum 1)])"
proof -
  have "json_same length (JObj [(''a'', JNum 1), (''bc'', JNull)]) (JObj [(''bc'', JNull), (''a'', JNum 1)])"
    by (rule same_obj [of "[(''bc'', JNull), (''a'', JNum 1)]"]) (simp_all add: json_same.same_refl)
  then show ?thesis using revision_digest_canonical by blast
qed

end
