(* ===== verification/AutomationSchedule.thy ===== *)
theory AutomationSchedule
  imports Automations
begin

text \<open>
  When an Automation is due (\<open>packages/automations/src/schedule.ts\<close>), over the
  schedules of \<open>packages/types/src/automations.ts\<close>.

  A time zone is what \<open>Intl.DateTimeFormat\<close> makes of it: \<open>None\<close> for a name the
  platform refuses, otherwise the difference between the wall clock and UTC, in
  milliseconds, at every instant. \<open>Date.UTC\<close> and the \<open>getUTC\<close> functions are the
  proleptic Gregorian calendar (years from 100 on).
\<close>

section \<open>The calendar\<close>

definition DAY_MS :: int where "DAY_MS = 24 * 60 * 60 * 1000"

record local_date =
  ld_year :: int
  ld_month :: int
  ld_day :: int

text \<open>Days since 1970-01-01 of a date; the day may lie outside its month.\<close>

definition days_from_civil :: "local_date \<Rightarrow> int" where
  "days_from_civil d =
     (let y = (if ld_month d \<le> 2 then ld_year d - 1 else ld_year d);
          era = y div 400; yoe = y mod 400;
          mp = (ld_month d + 9) mod 12;
          doy = (153 * mp + 2) div 5 + ld_day d - 1
      in era * 146097 + (yoe * 365 + yoe div 4 - yoe div 100 + doy) - 719468)"

definition civil_from_days :: "int \<Rightarrow> local_date" where
  "civil_from_days n =
     (let z = n + 719468; era = z div 146097; r = z mod 146097;
          c = min 3 (r div 36524); r2 = r - c * 36524;
          q = r2 div 1461; r3 = r2 mod 1461;
          a = min 3 (r3 div 365); doy = r3 - a * 365;
          yoe = 100 * c + 4 * q + a;
          mp = (5 * doy + 2) div 153;
          month = (if mp < 10 then mp + 3 else mp - 9)
      in \<lparr>ld_year = yoe + era * 400 + (if month \<le> 2 then 1 else 0), ld_month = month,
          ld_day = doy - (153 * mp + 2) div 5 + 1\<rparr>)"

text \<open>\<open>Date.UTC(year, month - 1, day, hour, minute)\<close> and \<open>getUTCDay\<close>.\<close>

definition date_utc :: "local_date \<Rightarrow> int \<Rightarrow> int \<Rightarrow> int" where
  "date_utc d hour minute = days_from_civil d * DAY_MS + hour * 3600000 + minute * 60000"

definition utc_weekday :: "local_date \<Rightarrow> int" where
  "utc_weekday d = (days_from_civil d + 4) mod 7"

lemma days_civil: "days_from_civil (civil_from_days n) = n"
proof -
  define z where "z = n + 719468"
  define r where "r = z mod 146097"
  define c where "c = min 3 (r div 36524)"
  define r2 where "r2 = r - c * 36524"
  define q where "q = r2 div 1461"
  define r3 where "r3 = r2 mod 1461"
  define a where "a = min 3 (r3 div 365)"
  define doy where "doy = r3 - a * 365"
  define yoe where "yoe = 100 * c + 4 * q + a"
  define mp where "mp = (5 * doy + 2) div 153"
  have r: "0 \<le> r" "r < 146097" by (simp_all add: r_def)
  have c: "0 \<le> c" "c \<le> 3" "0 \<le> r2" "r2 < 36525" using r unfolding c_def r2_def by linarith+
  have q: "0 \<le> q" "q \<le> 24" "0 \<le> r3" "r3 < 1461"
    using c unfolding q_def r3_def by linarith+
  have r2_split: "r2 = 1461 * q + r3" by (simp add: q_def r3_def)
  have a: "0 \<le> a" "a \<le> 3" "0 \<le> doy" "doy \<le> 365" using q unfolding a_def doy_def by linarith+
  have mp: "0 \<le> mp" "mp \<le> 11" using a unfolding mp_def by linarith+
  have year: "0 \<le> yoe" "yoe < 400" "yoe div 4 = 25 * c + q" "yoe div 100 = c"
    using a(1,2) c(1,2) q(1,2) unfolding yoe_def by linarith+
  have months: "((if mp < 10 then mp + 3 else mp - 9) + 9) mod 12 = mp"
    using mp by (simp add: mod_pos_pos_trivial)
  have yearback: "(yoe + z div 146097 * 400) div 400 = z div 146097" "(yoe + z div 146097 * 400) mod 400 = yoe"
    using year(1,2) by simp_all
  have "doy = r3 - a * 365" "r2 = r - c * 36524" by (simp_all add: doy_def r2_def)
  then have total: "yoe * 365 + yoe div 4 - yoe div 100 + doy = r"
    using r2_split year(3,4) unfolding yoe_def by simp
  have z: "z = z div 146097 * 146097 + r" by (simp add: r_def)
  have "civil_from_days n =
      \<lparr>ld_year = yoe + z div 146097 * 400 + (if (if mp < 10 then mp + 3 else mp - 9) \<le> 2 then 1 else 0),
       ld_month = (if mp < 10 then mp + 3 else mp - 9), ld_day = doy - (153 * mp + 2) div 5 + 1\<rparr>"
    by (simp only: civil_from_days_def Let_def z_def r_def c_def r2_def q_def r3_def a_def doy_def yoe_def mp_def)
  then have "days_from_civil (civil_from_days n) =
      z div 146097 * 146097 + (yoe * 365 + yoe div 4 - yoe div 100 + doy) - 719468"
    using months yearback by (simp add: days_from_civil_def Let_def)
  then show ?thesis using total z by (simp add: z_def)
qed

lemma civil_inj: "civil_from_days m = civil_from_days n \<Longrightarrow> m = n"
  by (metis days_civil)

section \<open>Schedules\<close>

datatype automation_schedule =
    Once int
  | Daily int int
  | Weekly "int list" int int

datatype schedule_error = InvalidSchedule | InvalidTimezone

definition clock_ok :: "int \<Rightarrow> int \<Rightarrow> bool" where
  "clock_ok hour minute = (0 \<le> hour \<and> hour \<le> 23 \<and> 0 \<le> minute \<and> minute \<le> 59)"

definition parse_schedule :: "automation_schedule \<Rightarrow> schedule_error + automation_schedule" where
  "parse_schedule s =
     (case s of
        Once t \<Rightarrow> (if 0 \<le> t then Inr s else Inl InvalidSchedule)
      | Daily h m \<Rightarrow> (if clock_ok h m then Inr s else Inl InvalidSchedule)
      | Weekly days h m \<Rightarrow>
          (if clock_ok h m \<and> 1 \<le> length days \<and> length days \<le> 7 \<and> list_all (\<lambda>d. 0 \<le> d \<and> d \<le> 6) days
           then Inr (Weekly (sort (js_uniq days)) h m)
           else Inl InvalidSchedule))"

record local_time =
  lt_date :: local_date
  lt_hour :: int
  lt_minute :: int
  lt_weekday :: int

type_synonym zone = "int \<Rightarrow> int"

definition localDateTime :: "zone \<Rightarrow> int \<Rightarrow> local_time" where
  "localDateTime offset timestamp =
     (let wall = timestamp + offset timestamp; day = wall div DAY_MS; ms = wall mod DAY_MS
      in \<lparr>lt_date = civil_from_days day, lt_hour = ms div 3600000, lt_minute = ms div 60000 mod 60,
          lt_weekday = (day + 4) mod 7\<rparr>)"

definition addLocalDays :: "local_date \<Rightarrow> int \<Rightarrow> local_date" where
  "addLocalDays date days = civil_from_days (days_from_civil (date\<lparr>ld_day := ld_day date + days\<rparr>))"

definition localKey :: "local_time \<Rightarrow> int" where
  "localKey t = date_utc (lt_date t) (lt_hour t) (lt_minute t)"

definition sameLocalDate :: "local_date \<Rightarrow> local_date \<Rightarrow> bool" where
  "sameLocalDate a b = (ld_year a = ld_year b \<and> ld_month a = ld_month b \<and> ld_day a = ld_day b)"

definition SEARCH_WINDOW_HOURS :: int where "SEARCH_WINDOW_HOURS = 18"

text \<open>The loop over the minutes of the window; \<open>shifted\<close> is the earliest later minute so far.\<close>

fun scan_minutes :: "zone \<Rightarrow> local_date \<Rightarrow> int \<Rightarrow> int option \<Rightarrow> int list \<Rightarrow> (int \<times> bool) option" where
  "scan_minutes offset date targetKey shifted [] = map_option (\<lambda>t. (t, True)) shifted"
| "scan_minutes offset date targetKey shifted (candidate # rest) =
     (let lcl = localDateTime offset candidate; k = localKey lcl in
      if \<not> sameLocalDate (lt_date lcl) date then scan_minutes offset date targetKey shifted rest
      else if k = targetKey then Some (candidate, False)
      else scan_minutes offset date targetKey
        (if targetKey < k \<and> (case shifted of None \<Rightarrow> True | Some t \<Rightarrow> candidate < t) then Some candidate else shifted) rest)"

definition window_minutes :: "int \<Rightarrow> int list" where
  "window_minutes nominal =
     map (\<lambda>i. nominal - SEARCH_WINDOW_HOURS * 60 * 60 * 1000 + 60000 * int i)
       [0..<nat (2 * SEARCH_WINDOW_HOURS * 60 + 1)]"

definition resolveLocalOccurrence :: "zone \<Rightarrow> local_date \<Rightarrow> int \<Rightarrow> int \<Rightarrow> (int \<times> bool) option" where
  "resolveLocalOccurrence offset date hour minute =
     (let nominal = date_utc date hour minute
      in scan_minutes offset date nominal None (window_minutes nominal))"

definition isScheduledDay :: "automation_schedule \<Rightarrow> int \<Rightarrow> bool" where
  "isScheduledDay s weekday =
     (case s of Once t \<Rightarrow> False | Daily h m \<Rightarrow> True | Weekly days h m \<Rightarrow> weekday \<in> set days)"

definition schedule_clock :: "automation_schedule \<Rightarrow> int \<times> int" where
  "schedule_clock s = (case s of Once t \<Rightarrow> (0, 0) | Daily h m \<Rightarrow> (h, m) | Weekly days h m \<Rightarrow> (h, m))"

text \<open>The loop over the days after \<open>start\<close>: occurrences (in order) and whether a warning was added.\<close>

fun occurrence_loop ::
    "automation_schedule \<Rightarrow> zone \<Rightarrow> int \<Rightarrow> nat \<Rightarrow> local_date \<Rightarrow> nat list \<Rightarrow> int list \<Rightarrow> bool \<Rightarrow> int list \<times> bool" where
  "occurrence_loop s offset after wanted start [] occurrences warned = (occurrences, warned)"
| "occurrence_loop s offset after wanted start (off # offs) occurrences warned =
     (if \<not> length occurrences < wanted then (occurrences, warned)
      else
        (let date = addLocalDays start (int off) in
         if \<not> isScheduledDay s (utc_weekday date) then occurrence_loop s offset after wanted start offs occurrences warned
         else
           (case resolveLocalOccurrence offset date (fst (schedule_clock s)) (snd (schedule_clock s)) of
              None \<Rightarrow> occurrence_loop s offset after wanted start offs occurrences warned
            | Some (t, shifted) \<Rightarrow>
                (if t \<le> after then occurrence_loop s offset after wanted start offs occurrences warned
                 else occurrence_loop s offset after wanted start offs (occurrences @ [t]) (warned \<or> shifted)))))"

text \<open>The days looked at, counted from the local date of \<open>after\<close>.\<close>

definition search_days :: "nat list" where
  "search_days = [0..<370]"

definition automationOccurrences ::
    "automation_schedule \<Rightarrow> zone option \<Rightarrow> int \<Rightarrow> int option \<Rightarrow> schedule_error + int list \<times> bool" where
  "automationOccurrences input zone after wanted =
     (case parse_schedule input of
        Inl e \<Rightarrow> Inl e
      | Inr s \<Rightarrow>
          (case zone of
             None \<Rightarrow> Inl InvalidTimezone
           | Some offset \<Rightarrow>
               (let n = nat (max 0 (min (opt_default 5 wanted) 5)) in
                if n = 0 then Inr ([], False)
                else (case s of
                        Once t \<Rightarrow> Inr (if after < t then [t] else [], False)
                      | _ \<Rightarrow> Inr (occurrence_loop s offset after n (lt_date (localDateTime offset after)) search_days [] False)))))"

definition nextAutomationOccurrence :: "automation_schedule \<Rightarrow> zone option \<Rightarrow> int \<Rightarrow> schedule_error + int option" where
  "nextAutomationOccurrence s zone after =
     (case automationOccurrences s zone after (Some 1) of
        Inl e \<Rightarrow> Inl e
      | Inr (occs, w) \<Rightarrow> Inr (case occs of [] \<Rightarrow> None | t # _ \<Rightarrow> Some t))"

definition previewAutomationSchedule ::
    "automation_schedule \<Rightarrow> zone option \<Rightarrow> int option \<Rightarrow> int \<Rightarrow> schedule_error + automation_schedule \<times> int \<times> int list \<times> bool" where
  "previewAutomationSchedule input zone after generatedAt =
     (case parse_schedule input of
        Inl e \<Rightarrow> Inl e
      | Inr s \<Rightarrow>
          (case automationOccurrences s zone (opt_default generatedAt after) (Some 5) of
             Inl e \<Rightarrow> Inl e
           | Inr (occs, w) \<Rightarrow> Inr (s, generatedAt, occs, w)))"

definition recoverableAutomationOccurrence ::
    "automation_schedule \<Rightarrow> zone option \<Rightarrow> int \<Rightarrow> int \<Rightarrow> schedule_error + int option" where
  "recoverableAutomationOccurrence s zone after now =
     (case automationOccurrences s zone after (Some 5) of
        Inl e \<Rightarrow> Inl e
      | Inr (occs, w) \<Rightarrow>
          (let missed = filter (\<lambda>t. t \<le> now) occs in Inr (if missed = [] then None else Some (last missed))))"

section \<open>What a resolved occurrence is\<close>

definition on_date :: "zone \<Rightarrow> local_date \<Rightarrow> int \<Rightarrow> bool" where
  "on_date offset date t = (lt_date (localDateTime offset t) = date)"

lemma sameLocalDate_iff: "sameLocalDate a b \<longleftrightarrow> a = b"
  by (cases a; cases b) (auto simp: sameLocalDate_def)

lemma scan_minutes_spec:
  assumes "sorted_wrt (<) (the_list @ ts)" and "the_list = (case shifted of None \<Rightarrow> [] | Some t \<Rightarrow> [t])"
  shows "scan_minutes offset date key shifted ts =
     (case find (\<lambda>t. on_date offset date t \<and> localKey (localDateTime offset t) = key) ts of
        Some t \<Rightarrow> Some (t, False)
      | None \<Rightarrow> (case shifted of Some t \<Rightarrow> Some (t, True)
          | None \<Rightarrow> map_option (\<lambda>t. (t, True))
              (find (\<lambda>t. on_date offset date t \<and> key < localKey (localDateTime offset t)) ts)))"
  using assms
proof (induction offset date key shifted ts arbitrary: the_list rule: scan_minutes.induct)
  case (1 offset date targetKey shifted)
  then show ?case by (cases shifted) simp_all
next
  case (2 offset date targetKey shifted c rest)
  let ?l = "localDateTime offset c"
  show ?case
  proof (cases "on_date offset date c")
    case False
    then have "\<not> sameLocalDate (lt_date ?l) date" by (simp add: on_date_def sameLocalDate_iff)
    moreover have "sorted_wrt (<) ((case shifted of None \<Rightarrow> [] | Some t \<Rightarrow> [t]) @ rest)"
      using "2.prems" by (cases shifted) auto
    ultimately show ?thesis using "2.IH"(1) [OF refl refl, of "case shifted of None \<Rightarrow> [] | Some t \<Rightarrow> [t]"] False
      by (simp add: Let_def split: option.split)
  next
    case True
    then have same: "sameLocalDate (lt_date ?l) date" by (simp add: on_date_def sameLocalDate_iff)
    show ?thesis
    proof (cases "localKey ?l = targetKey")
      case True
      then show ?thesis using same \<open>on_date offset date c\<close> by (simp add: Let_def)
    next
      case False
      let ?s = "if targetKey < localKey ?l \<and> (case shifted of None \<Rightarrow> True | Some t \<Rightarrow> c < t) then Some c else shifted"
      have "sorted_wrt (<) ((case ?s of None \<Rightarrow> [] | Some t \<Rightarrow> [t]) @ rest)"
        using "2.prems" by (cases shifted) auto
      moreover have "shifted = Some t \<Longrightarrow> \<not> c < t" for t using "2.prems" by auto
      ultimately show ?thesis
        using "2.IH"(2) [OF refl refl _ False, of "case ?s of None \<Rightarrow> [] | Some t \<Rightarrow> [t]"] same True False
        by (cases shifted) (auto simp: Let_def split: option.split)
    qed
  qed
qed

lemma window_sorted: "sorted_wrt (<) (window_minutes nominal)"
  by (simp add: window_minutes_def sorted_wrt_map sorted_wrt_upt [THEN sorted_wrt_mono_rel, rotated])

text \<open>\<open>resolveLocalOccurrence\<close> as a search: the first minute that shows the time, else the first later one.\<close>

definition shows_time :: "zone \<Rightarrow> local_date \<Rightarrow> int \<Rightarrow> int \<Rightarrow> int \<Rightarrow> bool" where
  "shows_time offset date h m t = (on_date offset date t \<and> localKey (localDateTime offset t) = date_utc date h m)"

definition shows_later :: "zone \<Rightarrow> local_date \<Rightarrow> int \<Rightarrow> int \<Rightarrow> int \<Rightarrow> bool" where
  "shows_later offset date h m t = (on_date offset date t \<and> date_utc date h m < localKey (localDateTime offset t))"

lemma resolve_spec:
  "resolveLocalOccurrence offset date h m =
     (case find (shows_time offset date h m) (window_minutes (date_utc date h m)) of
        Some t \<Rightarrow> Some (t, False)
      | None \<Rightarrow> map_option (\<lambda>t. (t, True)) (find (shows_later offset date h m) (window_minutes (date_utc date h m))))"
  using scan_minutes_spec [of "[]" "window_minutes (date_utc date h m)" None offset date "date_utc date h m"] window_sorted
  unfolding resolveLocalOccurrence_def shows_time_def [abs_def] shows_later_def [abs_def] Let_def
  by (simp split: option.split)

lemma resolve_Some:
  assumes "resolveLocalOccurrence offset date h m = Some (t, shifted)"
  shows "t \<in> set (window_minutes (date_utc date h m)) \<and> on_date offset date t \<and>
    (if shifted
     then shows_later offset date h m t \<and> (\<forall>u \<in> set (window_minutes (date_utc date h m)). \<not> shows_time offset date h m u \<and>
       (shows_later offset date h m u \<longrightarrow> t \<le> u))
     else shows_time offset date h m t \<and> (\<forall>u \<in> set (window_minutes (date_utc date h m)). shows_time offset date h m u \<longrightarrow> t \<le> u))"
proof -
  let ?w = "window_minutes (date_utc date h m)"
  have first: "find P ?w = Some u \<Longrightarrow> u \<in> set ?w \<and> P u \<and> (\<forall>v \<in> set ?w. P v \<longrightarrow> u \<le> v)" for P u
  proof -
    assume "find P ?w = Some u"
    then obtain i where i: "i < length ?w" "P (?w ! i)" "u = ?w ! i" "\<forall>j<i. \<not> P (?w ! j)"
      by (auto simp: find_Some_iff)
    have "u \<le> v" if v: "v \<in> set ?w" "P v" for v
    proof -
      obtain j where j: "j < length ?w" "v = ?w ! j" using v(1) by (metis in_set_conv_nth)
      then have "i \<le> j" using i(4) v(2) by (metis not_le)
      then show ?thesis using i(3) j sorted_wrt_nth_less [OF window_sorted, of i j] by (cases "i = j") (auto intro!: less_imp_le)
    qed
    then show ?thesis using i nth_mem by blast
  qed
  show ?thesis
  proof (cases "find (shows_time offset date h m) ?w")
    case None
    then obtain u where u: "find (shows_later offset date h m) ?w = Some u" "t = u" "shifted"
      using assms by (auto simp: resolve_spec)
    then show ?thesis using first [OF u(1)] None by (auto simp: find_None_iff shows_later_def)
  next
    case (Some u)
    then have "t = u" "\<not> shifted" using assms by (auto simp: resolve_spec)
    then show ?thesis using first [OF Some] by (auto simp: shows_time_def)
  qed
qed

section \<open>The occurrences of a schedule\<close>

text \<open>\<open>occurrence_ok\<close>: the time is the resolution of a day the schedule names, after the instant asked for.\<close>

definition occurrence_ok :: "automation_schedule \<Rightarrow> zone \<Rightarrow> int \<Rightarrow> int \<times> bool \<Rightarrow> bool" where
  "occurrence_ok s offset after occ =
     (after < fst occ \<and>
      (\<exists>day. isScheduledDay s ((day + 4) mod 7) \<and>
         resolveLocalOccurrence offset (civil_from_days day) (fst (schedule_clock s)) (snd (schedule_clock s)) = Some occ))"

lemma occurrence_loop_ok:
  assumes "occurrence_loop s offset after n start offs occs warned = (res, w)"
    and "length occs \<le> n" and "\<forall>t \<in> set occs. \<exists>sh. occurrence_ok s offset after (t, sh) \<and> (sh \<longrightarrow> warned)"
  shows "length res \<le> n \<and> (\<forall>t \<in> set res. \<exists>sh. occurrence_ok s offset after (t, sh) \<and> (sh \<longrightarrow> w))"
  using assms
proof (induction s offset after n start offs occs warned arbitrary: res w rule: occurrence_loop.induct)
  case (1 s offset after wanted start occurrences warned)
  then show ?case by simp
next
  case (2 s offset after n start off offs occs warned)
  define date where "date = addLocalDays start (int off)"
  define day where "day = days_from_civil (start\<lparr>ld_day := ld_day start + int off\<rparr>)"
  have date: "date = civil_from_days day" "utc_weekday date = (day + 4) mod 7"
    by (simp_all add: date_def day_def addLocalDays_def utc_weekday_def days_civil)
  show ?case
  proof (cases "length occs < n \<and> isScheduledDay s (utc_weekday date)")
    case False
    then show ?thesis
      using "2.prems" "2.IH"(1) [OF _ date_def, of res w] by (auto simp: Let_def date_def [symmetric] split: if_splits)
  next
    case True
    show ?thesis
    proof (cases "resolveLocalOccurrence offset date (fst (schedule_clock s)) (snd (schedule_clock s))")
      case None
      then show ?thesis
        using "2.prems" True "2.IH"(2) [OF _ date_def, of res w] by (auto simp: Let_def date_def [symmetric])
    next
      case (Some occ)
      obtain t sh where occ: "occ = (t, sh)" by (cases occ)
      show ?thesis
      proof (cases "t \<le> after")
        case late: True
        then show ?thesis
          using "2.prems" True Some occ "2.IH"(3) [OF _ date_def _ Some occ [symmetric], of res w]
          by (auto simp: Let_def date_def [symmetric])
      next
        case False
        have "occurrence_ok s offset after (t, sh)"
          using True Some occ date False unfolding occurrence_ok_def by auto
        then have "\<forall>u \<in> set (occs @ [t]). \<exists>sh'. occurrence_ok s offset after (u, sh') \<and> (sh' \<longrightarrow> warned \<or> sh)"
          using "2.prems"(3) by auto
        then show ?thesis
          using "2.prems" True Some occ False "2.IH"(4) [OF _ date_def _ Some occ [symmetric], of res w]
          by (auto simp: Let_def date_def [symmetric])
      qed
    qed
  qed
qed

lemma clock_unique:
  fixes a b h m :: int
  assumes "a * 60 + b = h * 60 + m" and "0 \<le> b" and "b < 60" and "0 \<le> m" and "m \<le> 59"
  shows "a = h \<and> b = m"
proof -
  have "(a * 60 + b) mod 60 = b" "(h * 60 + m) mod 60 = m" using assms(2-5) by simp_all
  then have "b = m" using assms(1) by metis
  then show ?thesis using assms(1) by simp
qed

lemma shows_time_clock:
  assumes "shows_time offset date h m t" and "clock_ok h m"
  shows "lt_date (localDateTime offset t) = date \<and> lt_hour (localDateTime offset t) = h \<and> lt_minute (localDateTime offset t) = m"
proof -
  define l where "l = localDateTime offset t"
  have date: "lt_date l = date" and key: "date_utc date (lt_hour l) (lt_minute l) = date_utc date h m"
    using assms(1) unfolding shows_time_def on_date_def localKey_def l_def by metis+
  have "0 \<le> lt_minute l \<and> lt_minute l < 60" by (simp add: l_def localDateTime_def Let_def)
  moreover have "lt_hour l * 60 + lt_minute l = h * 60 + m" using key by (simp add: date_utc_def)
  ultimately have "lt_hour l = h \<and> lt_minute l = m" using assms(2) unfolding clock_ok_def by (intro clock_unique) simp_all
  then show ?thesis using date by (simp add: l_def)
qed

lemma parse_schedule_Inr:
  "parse_schedule input = Inr s \<Longrightarrow>
     (\<forall>weekday. isScheduledDay s weekday = isScheduledDay input weekday) \<and> schedule_clock s = schedule_clock input \<and>
     ((\<forall>t. input \<noteq> Once t) \<longrightarrow> (\<forall>t. s \<noteq> Once t) \<and> clock_ok (fst (schedule_clock s)) (snd (schedule_clock s)))"
  by (cases input) (auto simp: parse_schedule_def isScheduledDay_def schedule_clock_def split: if_splits)


section \<open>Zones with one offset\<close>

definition fixed_zone :: "int \<Rightarrow> zone" where
  "fixed_zone off = (\<lambda>t. off)"

definition zone_offset_ok :: "int \<Rightarrow> bool" where
  "zone_offset_ok off = (off mod 60000 = 0 \<and> \<bar>off\<bar> \<le> 18 * 3600000)"

definition clock_ms :: "int \<Rightarrow> int \<Rightarrow> int" where
  "clock_ms h m = h * 3600000 + m * 60000"

lemma window_mem: "t \<in> set (window_minutes nominal) \<longleftrightarrow> (t - nominal) mod 60000 = 0 \<and> \<bar>t - nominal\<bar> \<le> 18 * 3600000"
proof
  assume "t \<in> set (window_minutes nominal)"
  then obtain i where i: "i \<in> {0..<nat (2 * 18 * 60 + 1)}" "t = nominal - 18 * 60 * 60 * 1000 + 60000 * int i"
    unfolding window_minutes_def SEARCH_WINDOW_HOURS_def set_map set_upt by blast
  then have "t - nominal = 60000 * (int i - 1080)" "i < 2161" by simp_all
  then show "(t - nominal) mod 60000 = 0 \<and> \<bar>t - nominal\<bar> \<le> 18 * 3600000" by simp
next
  assume a: "(t - nominal) mod 60000 = 0 \<and> \<bar>t - nominal\<bar> \<le> 18 * 3600000"
  then obtain k where k: "t - nominal = 60000 * k" by (metis mod_eq_0_iff_dvd dvd_def)
  then have "0 \<le> k + 1080" "k + 1080 < 2161" using a by linarith+
  then have "t = nominal - 18 * 60 * 60 * 1000 + 60000 * int (nat (k + 1080))" "nat (k + 1080) \<in> {0..<nat (2 * 18 * 60 + 1)}"
    using k by simp_all
  then show "t \<in> set (window_minutes nominal)"
    unfolding window_minutes_def SEARCH_WINDOW_HOURS_def set_map set_upt by (rule image_eqI)
qed

lemma fixed_shows:
  assumes "zone_offset_ok off" and "clock_ok h m" and "t \<in> set (window_minutes (date_utc (civil_from_days day) h m))"
  shows "shows_time (fixed_zone off) (civil_from_days day) h m t \<longleftrightarrow> t = day * DAY_MS + clock_ms h m - off"
proof -
  define wall where "wall = t + off"
  have nominal: "date_utc (civil_from_days day) h m = day * 86400000 + clock_ms h m"
    by (simp add: date_utc_def days_civil DAY_MS_def clock_ms_def)
  have clock: "0 \<le> clock_ms h m" "clock_ms h m < 86400000" "clock_ms h m mod 60000 = 0"
    using assms(2) by (auto simp: clock_ok_def clock_ms_def)
  have "60000 dvd (t - (day * 86400000 + clock_ms h m)) + (day * 86400000 + clock_ms h m) + off"
  proof (intro dvd_add)
    show "60000 dvd t - (day * 86400000 + clock_ms h m)"
      using assms(3) unfolding window_mem nominal by (simp add: mod_eq_0_iff_dvd)
    show "(60000 :: int) dvd day * 86400000" by (rule dvd_mult) simp
    show "60000 dvd clock_ms h m" using clock(3) by (simp add: mod_eq_0_iff_dvd)
    show "60000 dvd off" using assms(1) by (simp add: zone_offset_ok_def mod_eq_0_iff_dvd)
  qed
  then have wall60: "60000 dvd wall" by (simp add: wall_def)
  have key: "localKey (localDateTime (fixed_zone off) t) =
      (wall div 86400000) * 86400000 + (wall mod 86400000 div 3600000) * 3600000 + (wall mod 86400000 div 60000 mod 60) * 60000"
    by (simp add: localKey_def localDateTime_def date_utc_def days_civil fixed_zone_def wall_def DAY_MS_def Let_def)
  have "60000 dvd wall mod 86400000" using wall60 by (simp add: dvd_mod)
  then obtain j where j: "wall mod 86400000 = 60000 * j" by (metis dvd_def)
  have j1: "60000 * j div 3600000 = j div 60" using div_mult_mult1 [of "60000 :: int" j 60] by simp
  have j2: "60000 * j div 60000 = j" by simp
  have j3: "j div 60 * 3600000 + j mod 60 * 60000 = 60000 * j"
    using div_mult_mod_eq [of j 60] by linarith
  have ms: "(wall mod 86400000 div 3600000) * 3600000 + (wall mod 86400000 div 60000 mod 60) * 60000 = wall mod 86400000"
    unfolding j j1 j2 by (rule j3)
  have key': "localKey (localDateTime (fixed_zone off) t) = wall"
    unfolding key add.assoc ms by (rule div_mult_mod_eq)
  have date: "on_date (fixed_zone off) (civil_from_days day) t \<longleftrightarrow> wall div 86400000 = day"
  proof -
    have "lt_date (localDateTime (fixed_zone off) t) = civil_from_days (wall div 86400000)"
      by (simp add: localDateTime_def fixed_zone_def wall_def DAY_MS_def Let_def)
    then show ?thesis unfolding on_date_def using civil_inj by metis
  qed
  show ?thesis
  proof
    assume "shows_time (fixed_zone off) (civil_from_days day) h m t"
    then show "t = day * DAY_MS + clock_ms h m - off"
      using key' nominal by (simp add: shows_time_def wall_def DAY_MS_def)
  next
    assume "t = day * DAY_MS + clock_ms h m - off"
    then have "wall = day * 86400000 + clock_ms h m" by (simp add: wall_def DAY_MS_def)
    then show "shows_time (fixed_zone off) (civil_from_days day) h m t"
      using date key' nominal clock by (simp add: shows_time_def)
  qed
qed

lemma fixed_resolve:
  assumes "zone_offset_ok off" and "clock_ok h m"
  shows "resolveLocalOccurrence (fixed_zone off) (civil_from_days day) h m = Some (day * DAY_MS + clock_ms h m - off, False)"
proof -
  let ?t = "day * DAY_MS + clock_ms h m - off" and ?nom = "date_utc (civil_from_days day) h m"
  have diff: "?t - ?nom = - off" by (simp add: date_utc_def days_civil clock_ms_def)
  have "(- off) mod 60000 = 0" using assms(1) by (simp add: zone_offset_ok_def zmod_zminus1_eq_if)
  then have mem: "?t \<in> set (window_minutes ?nom)"
    using assms(1) unfolding window_mem zone_offset_ok_def diff by simp
  then have "shows_time (fixed_zone off) (civil_from_days day) h m ?t"
    using fixed_shows [OF assms mem] by simp
  then have "find (shows_time (fixed_zone off) (civil_from_days day) h m) (window_minutes ?nom) \<noteq> None"
    using mem by (auto simp: find_None_iff)
  then obtain u where u: "find (shows_time (fixed_zone off) (civil_from_days day) h m) (window_minutes ?nom) = Some u" by auto
  then have "u \<in> set (window_minutes ?nom)" "shows_time (fixed_zone off) (civil_from_days day) h m u"
    by (auto simp: find_Some_iff)
  then have "u = ?t" using fixed_shows [OF assms] by blast
  then show ?thesis using u by (simp add: resolve_spec)
qed

text \<open>The \<open>i\<close>-th day's time of a daily schedule, counted from the day of \<open>after\<close>.\<close>

definition day_time :: "int \<Rightarrow> int \<Rightarrow> int \<Rightarrow> int \<Rightarrow> nat \<Rightarrow> int" where
  "day_time off h m after i = ((after + off) div DAY_MS + int i) * DAY_MS + clock_ms h m - off"

lemma fixed_day:
  "addLocalDays (lt_date (localDateTime (fixed_zone off) after)) (int i) = civil_from_days ((after + off) div DAY_MS + int i)"
proof -
  have "days_from_civil (d\<lparr>ld_day := ld_day d + k\<rparr>) = days_from_civil d + k" for d k
    by (simp add: days_from_civil_def Let_def)
  then show ?thesis
    by (simp add: addLocalDays_def localDateTime_def days_civil fixed_zone_def Let_def)
qed

lemma fixed_daily_loop:
  assumes "zone_offset_ok off" and "clock_ok h m" and "length occs \<le> n" and "i + (n - length occs) \<le> 370"
    and "\<forall>j \<ge> i. after < day_time off h m after j"
  shows "occurrence_loop (Daily h m) (fixed_zone off) after n (lt_date (localDateTime (fixed_zone off) after)) [i..<370] occs False =
    (occs @ map (day_time off h m after) [i..<i + (n - length occs)], False)"
  using assms(3-5)
proof (induction "n - length occs" arbitrary: i occs)
  case 0
  then have "\<not> length occs < n" "n - length occs = 0" by simp_all
  then show ?case by (cases "[i..<370]") simp_all
next
  case (Suc k)
  then have less: "length occs < n" and i: "i < 370" by simp_all
  have upt: "[i..<370] = i # [Suc i..<370]" using i by (simp add: upt_conv_Cons)
  have late: "after < day_time off h m after i" using Suc.prems(3) by simp
  have "k = n - length (occs @ [day_time off h m after i])" using Suc.hyps(2) by simp
  then have step: "occurrence_loop (Daily h m) (fixed_zone off) after n (lt_date (localDateTime (fixed_zone off) after))
      [Suc i..<370] (occs @ [day_time off h m after i]) False =
    ((occs @ [day_time off h m after i]) @ map (day_time off h m after) [Suc i..<Suc i + (n - length (occs @ [day_time off h m after i]))], False)"
    using Suc.hyps(1) [of "occs @ [day_time off h m after i]" "Suc i"] Suc.prems less by simp
  have more: "n - length occs = Suc (n - length (occs @ [day_time off h m after i]))" using less by simp
  have times: "[i..<i + (n - length occs)] = i # [Suc i..<Suc i + (n - length (occs @ [day_time off h m after i]))]"
    unfolding more add_Suc_right add_Suc by (rule upt_conv_Cons) simp
  show ?case
    unfolding upt times occurrence_loop.simps Let_def fixed_day
    using less late step fixed_resolve [OF assms(1,2)]
    by (simp add: isScheduledDay_def schedule_clock_def day_time_def)
qed

lemma day_time_step: "day_time off h m after (i + j) = day_time off h m after i + int j * DAY_MS"
  by (simp add: day_time_def algebra_simps)

text \<open>The first time after \<open>after\<close> at which the wall clock of the zone shows \<open>h:m\<close>.\<close>

definition next_daily :: "int \<Rightarrow> int \<Rightarrow> int \<Rightarrow> int \<Rightarrow> int" where
  "next_daily off h m after =
     (if after < day_time off h m after 0 then day_time off h m after 0 else day_time off h m after 1)"

lemma day_ms: "DAY_MS = 86400000"
  by (simp add: DAY_MS_def)

lemma day_time_after:
  assumes "clock_ok h m"
  shows "after < day_time off h m after (Suc i)"
proof -
  have "after + off < ((after + off) div DAY_MS + 1) * DAY_MS"
  proof -
    have "(after + off) mod 86400000 < 86400000" by simp
    then show ?thesis
      unfolding day_ms distrib_right using div_mult_mod_eq [of "after + off" 86400000] by linarith
  qed
  also have "\<dots> \<le> ((after + off) div DAY_MS + int (Suc i)) * DAY_MS"
    by (rule mult_right_mono) (simp_all add: DAY_MS_def)
  finally show ?thesis using assms by (simp add: day_time_def clock_ms_def clock_ok_def)
qed

lemma fixed_daily:
  assumes "zone_offset_ok off" and "clock_ok h m" and "1 \<le> n" and "n \<le> 5"
  shows "automationOccurrences (Daily h m) (Some (fixed_zone off)) after (Some n) =
    Inr (map (\<lambda>i. next_daily off h m after + int i * DAY_MS) [0..<nat n], False)"
proof -
  let ?T = "day_time off h m after" and ?D = "lt_date (localDateTime (fixed_zone off) after)"
  have eq: "automationOccurrences (Daily h m) (Some (fixed_zone off)) after (Some n) =
      Inr (occurrence_loop (Daily h m) (fixed_zone off) after (nat n) ?D search_days [] False)"
    using assms by (simp add: automationOccurrences_def parse_schedule_def Let_def)
  show ?thesis
  proof (cases "after < ?T 0")
    case True
    then have all: "\<forall>j \<ge> 0. after < ?T j" using day_time_after [OF assms(2)] by (metis not0_implies_Suc)
    have "occurrence_loop (Daily h m) (fixed_zone off) after (nat n) ?D search_days [] False = (map ?T [0..<nat n], False)"
      using fixed_daily_loop [OF assms(1,2), of "[]" "nat n" 0 after] all assms(4) unfolding search_days_def
      by (simp del: upt_rec_numeral)
    moreover have "map ?T [0..<nat n] = map (\<lambda>i. ?T 0 + int i * DAY_MS) [0..<nat n]"
      using day_time_step [of off h m after 0] by (intro map_cong [OF refl]) (metis add_0)
    ultimately show ?thesis using eq True by (simp only: next_daily_def if_True)
  next
    case False
    have all: "\<forall>j \<ge> 1. after < ?T j" using day_time_after [OF assms(2)] by (metis Suc_le_D One_nat_def)
    have upt: "search_days = 0 # [1..<370]" unfolding search_days_def by (subst upt_conv_Cons) (simp_all del: upt_rec_numeral)
    have "occurrence_loop (Daily h m) (fixed_zone off) after (nat n) ?D search_days [] False =
        occurrence_loop (Daily h m) (fixed_zone off) after (nat n) ?D [1..<370] [] False"
      unfolding upt occurrence_loop.simps Let_def fixed_day
      using False assms(3) fixed_resolve [OF assms(1,2)]
      by (simp add: isScheduledDay_def schedule_clock_def day_time_def del: upt_rec_numeral)
    also have "\<dots> = (map ?T [1..<1 + nat n], False)"
      using fixed_daily_loop [OF assms(1,2), of "[]" "nat n" 1 after] all assms(4) by (simp del: upt_rec_numeral)
    also have "[1..<1 + nat n] = map Suc [0..<nat n]"
      by (simp add: map_Suc_upt del: upt_Suc)
    also have "map ?T (map Suc [0..<nat n]) = map (\<lambda>i. ?T (1 + i)) [0..<nat n]"
      by simp
    also have "map (\<lambda>i. ?T (1 + i)) [0..<nat n] = map (\<lambda>i. ?T 1 + int i * DAY_MS) [0..<nat n]"
      using day_time_step [of off h m after 1] by (intro map_cong [OF refl])
    finally show ?thesis using eq False by (simp only: next_daily_def if_False)
  qed
qed

text \<open>Recovery of a daily schedule in a zone with one offset.

  The occurrences after an instant are the next wall-clock times, a day apart. With
  missed ones, the recovered occurrence is the latest missed one while at most five were
  missed; after more, it is the fifth, not the latest.\<close>

theorem recoverable_occurrence_daily:
  assumes "zone_offset_ok off" and "clock_ok h m" and "first = next_daily off h m after"
  shows "nextAutomationOccurrence (Daily h m) (Some (fixed_zone off)) after = Inr (Some first) \<and>
    recoverableAutomationOccurrence (Daily h m) (Some (fixed_zone off)) after now =
      Inr (if now < first then None else Some (first + min 4 ((now - first) div DAY_MS) * DAY_MS))"
proof
  show "nextAutomationOccurrence (Daily h m) (Some (fixed_zone off)) after = Inr (Some first)"
    using fixed_daily [OF assms(1,2), of 1 after] assms(3) by (simp add: nextAutomationOccurrence_def)
  define k where "k = (now - first) div DAY_MS"
  have five: "[0..<nat 5] = [0, 1, 2, 3, 4]" by code_simp
  have miss: "first + int i * DAY_MS \<le> now \<longleftrightarrow> int i \<le> k" for i
  proof -
    have "int i \<le> k \<longleftrightarrow> int i * DAY_MS \<le> now - first"
      unfolding k_def day_ms by linarith
    then show ?thesis by linarith
  qed
  have "now < first \<longleftrightarrow> k < 0" unfolding k_def day_ms by linarith
  moreover have "recoverableAutomationOccurrence (Daily h m) (Some (fixed_zone off)) after now =
      (let missed = filter (\<lambda>t. t \<le> now) (map (\<lambda>i. first + int i * DAY_MS) [0, 1, 2, 3, 4])
       in Inr (if missed = [] then None else Some (last missed)))"
    using fixed_daily [OF assms(1,2), of 5 after] assms(3) five by (simp add: recoverableAutomationOccurrence_def)
  moreover have "k < 0 \<or> k = 0 \<or> k = 1 \<or> k = 2 \<or> k = 3 \<or> 4 \<le> k" by linarith
  ultimately show "recoverableAutomationOccurrence (Daily h m) (Some (fixed_zone off)) after now =
      Inr (if now < first then None else Some (first + min 4 ((now - first) div DAY_MS) * DAY_MS))"
    unfolding k_def [symmetric] by (elim disjE) (simp_all add: miss [of 0, simplified] miss [of 1, simplified] miss [of 2, simplified] miss [of 3, simplified] miss [of 4, simplified])
qed

lemma recoverable_occurrence_daily_witness:
  "recoverableAutomationOccurrence (Daily 9 0) (Some (fixed_zone 0)) 0 (9 * DAY_MS) = Inr (Some (4 * DAY_MS + 9 * 3600000))"
  using recoverable_occurrence_daily [of 0 9 0 _ 0 "9 * DAY_MS"]
  by (simp add: zone_offset_ok_def clock_ok_def next_daily_def day_time_def clock_ms_def DAY_MS_def)


end
