(* ===== verification/AutomationEngine.thy ===== *)
theory AutomationEngine
  imports Automations
begin

text \<open>
  The engine an Automation run is admitted to (\<open>packages/automations/src\<close>): the
  protocol and the validator of its event stream (\<open>engine.ts\<close>) and the in-memory
  engine that the repository's conformance check runs (\<open>engine-testing.ts\<close>).

  Schemas are functions from what is given to an error or to what the code goes on with
  (identifiers are trimmed). The parts of an Automation, of its revision, of a run and of
  the capability access the engine only stores are one opaque value \<open>'w\<close>; payloads, usage
  and the error of a result are \<open>'p\<close>.
\<close>

section \<open>Schemas\<close>

datatype engine_error =
    SchemaError
  | WrongAutomation
  | ReceiptMismatch
  | NotContiguous
  | RepeatedKey
  | BadCursor
  | AfterTerminal
  | KeyReused
  | CorruptIndex
  | UnknownReceipt

definition parse_text :: "nat \<Rightarrow> string \<Rightarrow> engine_error + string" where
  "parse_text limit s =
     (let t = js_trim s in if 1 \<le> length t \<and> length t \<le> limit then Inr t else Inl SchemaError)"

definition engine_id :: "string \<Rightarrow> engine_error + string" where
  "engine_id s = parse_text 240 s"

definition engine_timestamp :: "int \<Rightarrow> engine_error + int" where
  "engine_timestamp t = (if 0 \<le> t then Inr t else Inl SchemaError)"

text \<open>Sequencing of fallible steps.\<close>

fun try_then :: "'e + 'a \<Rightarrow> ('a \<Rightarrow> 'e + 'b) \<Rightarrow> 'e + 'b" where
  "try_then (Inl e) f = Inl e"
| "try_then (Inr x) f = f x"

lemma try_then_Inr: "try_then m f = Inr y \<longleftrightarrow> (\<exists>x. m = Inr x \<and> f x = Inr y)"
  by (cases m) auto

datatype cancellation = Supported | BestEffort | Unsupported

datatype execution_state = Admitted | RunningX | SucceededX | FailedX | CancelledX

datatype result_status = ResSucceeded | ResFailed | ResCancelled

datatype event_type = UserE | AssistantE | CapabilitySearchE | CapabilityExecutionE | UsageE | WarningE | TerminalE

record 'w admission_request =
  rq_admissionKey :: string
  rq_automation :: string
  rq_revision :: string
  rq_revision_automation :: string
  rq_run :: string
  rq_run_automation :: string
  rq_run_revision :: string
  rq_work :: 'w
  rq_requestedAt :: int

definition parse_request :: "'w admission_request \<Rightarrow> engine_error + 'w admission_request" where
  "parse_request r =
     try_then (parse_text 512 (rq_admissionKey r)) (\<lambda>key.
     try_then (engine_timestamp (rq_requestedAt r)) (\<lambda>t.
       if rq_revision_automation r \<noteq> rq_automation r then Inl WrongAutomation
       else if rq_run_automation r \<noteq> rq_automation r \<or> rq_run_revision r \<noteq> rq_revision r then Inl WrongAutomation
       else Inr (r\<lparr>rq_admissionKey := key\<rparr>)))"

record admission_receipt =
  rc_adapterId :: string
  rc_executionId :: string
  rc_admissionKey :: string
  rc_runId :: string
  rc_admittedAt :: int
  rc_handle :: string

definition parse_receipt :: "admission_receipt \<Rightarrow> engine_error + admission_receipt" where
  "parse_receipt r =
     try_then (engine_id (rc_adapterId r)) (\<lambda>a.
     try_then (engine_id (rc_executionId r)) (\<lambda>x.
     try_then (parse_text 512 (rc_admissionKey r)) (\<lambda>k.
     try_then (engine_id (rc_runId r)) (\<lambda>n.
     try_then (engine_timestamp (rc_admittedAt r)) (\<lambda>t.
       Inr (r\<lparr>rc_adapterId := a, rc_executionId := x, rc_admissionKey := k, rc_runId := n\<rparr>))))))"

record 'p engine_event =
  ev_id :: string
  ev_idempotencyKey :: string
  ev_executionId :: string
  ev_runId :: string
  ev_sequence :: nat
  ev_type :: event_type
  ev_payload :: 'p
  ev_createdAt :: int

definition parse_event :: "'p engine_event \<Rightarrow> engine_error + 'p engine_event" where
  "parse_event e =
     try_then (engine_id (ev_id e)) (\<lambda>i.
     try_then (parse_text 512 (ev_idempotencyKey e)) (\<lambda>k.
     try_then (engine_id (ev_executionId e)) (\<lambda>x.
     try_then (engine_id (ev_runId e)) (\<lambda>n.
     try_then (if 0 < ev_sequence e then Inr () else Inl SchemaError) (\<lambda>_.
     try_then (engine_timestamp (ev_createdAt e)) (\<lambda>t.
       Inr (e\<lparr>ev_id := i, ev_idempotencyKey := k, ev_executionId := x, ev_runId := n\<rparr>)))))))"

record 'p engine_result =
  rs_executionId :: string
  rs_runId :: string
  rs_status :: result_status
  rs_threadId :: "string option"
  rs_resultSummary :: "string option"
  rs_usage :: 'p
  rs_error :: "'p option"
  rs_finalSequence :: nat
  rs_finishedAt :: int

definition parse_result :: "'p engine_result \<Rightarrow> engine_error + 'p engine_result" where
  "parse_result r =
     try_then (engine_id (rs_executionId r)) (\<lambda>x.
     try_then (engine_id (rs_runId r)) (\<lambda>n.
     try_then (case rs_threadId r of None \<Rightarrow> Inr None | Some t \<Rightarrow> try_then (engine_id t) (\<lambda>t. Inr (Some t))) (\<lambda>th.
     try_then (engine_timestamp (rs_finishedAt r)) (\<lambda>t.
       if (case rs_resultSummary r of None \<Rightarrow> False | Some s \<Rightarrow> 20000 < length s) then Inl SchemaError
       else if (rs_status r = ResSucceeded) \<noteq> (rs_error r = None) then Inl SchemaError
       else Inr (r\<lparr>rs_executionId := x, rs_runId := n, rs_threadId := th\<rparr>)))))"

section \<open>The validator of the event stream\<close>

record sequence_validator =
  sv_executionId :: string
  sv_runId :: string
  sv_cursor :: nat
  sv_eventKeys :: "string list"

text \<open>A cursor that is not a non-negative safe integer is refused.\<close>

definition createAutomationEngineEventSequenceValidator ::
    "admission_receipt \<Rightarrow> int \<Rightarrow> engine_error + sequence_validator" where
  "createAutomationEngineEventSequenceValidator rawReceipt afterSequence =
     try_then (parse_receipt rawReceipt) (\<lambda>receipt.
       if afterSequence < 0 \<or> 9007199254740991 < afterSequence then Inl BadCursor
       else Inr \<lparr>sv_executionId = rc_executionId receipt, sv_runId = rc_runId receipt,
                 sv_cursor = nat afterSequence, sv_eventKeys = []\<rparr>)"

definition accept_event :: "'p engine_event \<Rightarrow> sequence_validator \<Rightarrow> engine_error + sequence_validator" where
  "accept_event rawEvent v =
     try_then (parse_event rawEvent) (\<lambda>event.
       if ev_executionId event \<noteq> sv_executionId v \<or> ev_runId event \<noteq> sv_runId v then Inl ReceiptMismatch
       else if ev_sequence event \<noteq> sv_cursor v + 1 then Inl NotContiguous
       else if ev_idempotencyKey event \<in> set (sv_eventKeys v) then Inl RepeatedKey
       else Inr (v\<lparr>sv_cursor := ev_sequence event, sv_eventKeys := ev_idempotencyKey event # sv_eventKeys v\<rparr>))"

fun accept_all :: "'p engine_event list \<Rightarrow> sequence_validator \<Rightarrow> engine_error + sequence_validator" where
  "accept_all [] v = Inr v"
| "accept_all (e # es) v = try_then (accept_event e v) (accept_all es)"

section \<open>The in-memory engine\<close>

record ('w, 'p) stored_execution =
  st_request :: "'w admission_request"
  st_receipt :: admission_receipt
  st_events :: "'p engine_event list"
  st_state :: execution_state
  st_result :: "'p engine_result option"
  st_updatedAt :: int

record ('w, 'p) fake_engine =
  fe_adapterId :: string
  fe_cancellation :: cancellation
  fe_executions :: "(string, ('w, 'p) stored_execution) jsmap"
  fe_admissions :: "(string, string) jsmap"
  fe_nextExecution :: nat

text \<open>The parts of the declaration that are literals are left out.\<close>

definition fakeCapabilities :: "string option \<Rightarrow> cancellation option \<Rightarrow> engine_error + string \<times> cancellation" where
  "fakeCapabilities adapterId canc =
     try_then (engine_id (opt_default ''fake-automation-engine'' adapterId)) (\<lambda>a. Inr (a, opt_default Supported canc))"

definition createFakeAutomationEngineAdapter ::
    "string option \<Rightarrow> cancellation option \<Rightarrow> engine_error + ('w, 'p) fake_engine" where
  "createFakeAutomationEngineAdapter adapterId canc =
     try_then (fakeCapabilities adapterId canc) (\<lambda>(a, c).
       Inr \<lparr>fe_adapterId = a, fe_cancellation = c, fe_executions = [], fe_admissions = [], fe_nextExecution = 1\<rparr>)"

definition stored :: "admission_receipt \<Rightarrow> ('w, 'p) fake_engine \<Rightarrow> ('w, 'p) stored_execution option" where
  "stored receipt f =
     (if rc_adapterId receipt \<noteq> fe_adapterId f then None
      else (case jm_get (rc_executionId receipt) (fe_executions f) of
              None \<Rightarrow> None
            | Some x \<Rightarrow> (if rc_runId (st_receipt x) \<noteq> rc_runId receipt then None else Some x)))"

definition append_event ::
    "event_type \<Rightarrow> 'p \<Rightarrow> int \<Rightarrow> ('w, 'p) stored_execution \<Rightarrow> engine_error + 'p engine_event \<times> ('w, 'p) stored_execution" where
  "append_event typ payload createdAt x =
     (if st_result x \<noteq> None then Inl AfterTerminal
      else
        (let sequence = length (st_events x) + 1;
             suffix = '':event:'' @ js_number_text (int sequence)
         in try_then (parse_event
              \<lparr>ev_id = rc_executionId (st_receipt x) @ suffix, ev_idempotencyKey = rc_admissionKey (st_receipt x) @ suffix,
               ev_executionId = rc_executionId (st_receipt x), ev_runId = rc_runId (st_receipt x),
               ev_sequence = sequence, ev_type = typ, ev_payload = payload, ev_createdAt = createdAt\<rparr>) (\<lambda>event.
              Inr (event, x\<lparr>st_events := st_events x @ [event], st_state := RunningX, st_updatedAt := createdAt\<rparr>))))"

definition status_state :: "result_status \<Rightarrow> execution_state" where
  "status_state s = (case s of ResSucceeded \<Rightarrow> SucceededX | ResFailed \<Rightarrow> FailedX | ResCancelled \<Rightarrow> CancelledX)"

record 'p result_input =
  ri_status :: result_status
  ri_threadId :: "string option"
  ri_resultSummary :: "string option"
  ri_usage :: 'p
  ri_error :: "'p option"
  ri_finishedAt :: int

definition finish :: "'p result_input \<Rightarrow> ('w, 'p) stored_execution \<Rightarrow> engine_error + 'p engine_result \<times> ('w, 'p) stored_execution" where
  "finish input x =
     (case st_result x of
        Some r \<Rightarrow> Inr (r, x)
      | None \<Rightarrow>
          try_then (parse_result
            \<lparr>rs_executionId = rc_executionId (st_receipt x), rs_runId = rc_runId (st_receipt x), rs_status = ri_status input,
             rs_threadId = ri_threadId input, rs_resultSummary = ri_resultSummary input, rs_usage = ri_usage input,
             rs_error = ri_error input, rs_finalSequence = length (st_events x), rs_finishedAt = ri_finishedAt input\<rparr>) (\<lambda>r.
            Inr (r, x\<lparr>st_state := status_state (ri_status input), st_result := Some r, st_updatedAt := ri_finishedAt input\<rparr>)))"

text \<open>An operation that throws leaves the changes made before: only \<open>nextExecution\<close> in \<open>admit\<close>.\<close>

definition admit ::
    "'w admission_request \<Rightarrow> ('w, 'p) fake_engine \<Rightarrow> (engine_error + admission_receipt) \<times> ('w, 'p) fake_engine" where
  "admit rawRequest f =
     (case parse_request rawRequest of
        Inl e \<Rightarrow> (Inl e, f)
      | Inr request \<Rightarrow>
          (case jm_get (rq_admissionKey request) (fe_admissions f) of
             Some existingId \<Rightarrow>
               (case jm_get existingId (fe_executions f) of
                  None \<Rightarrow> (Inl CorruptIndex, f)
                | Some existing \<Rightarrow>
                    (if rq_run (st_request existing) \<noteq> rq_run request
                        \<or> rq_automation (st_request existing) \<noteq> rq_automation request
                        \<or> rq_revision (st_request existing) \<noteq> rq_revision request
                     then (Inl KeyReused, f)
                     else (parse_receipt (st_receipt existing), f)))
           | None \<Rightarrow>
               (let executionId = fe_adapterId f @ '':execution:'' @ js_number_text (int (fe_nextExecution f));
                    f = f\<lparr>fe_nextExecution := fe_nextExecution f + 1\<rparr>
                in (case parse_receipt
                      \<lparr>rc_adapterId = fe_adapterId f, rc_executionId = executionId, rc_admissionKey = rq_admissionKey request,
                       rc_runId = rq_run request, rc_admittedAt = rq_requestedAt request, rc_handle = executionId\<rparr> of
                      Inl e \<Rightarrow> (Inl e, f)
                    | Inr receipt \<Rightarrow>
                        (Inr receipt,
                         f\<lparr>fe_executions := jm_set executionId
                             \<lparr>st_request = request, st_receipt = receipt, st_events = [], st_state = Admitted,
                              st_result = None, st_updatedAt = rq_requestedAt request\<rparr> (fe_executions f),
                           fe_admissions := jm_set (rq_admissionKey request) executionId (fe_admissions f)\<rparr>)))))"

text \<open>\<open>observe\<close>, with the number of events that are yielded before the signal aborts. A stored event
  was parsed when it was written, so that parsing it again yields it (\<open>numbered_from\<close> below).\<close>

definition observe ::
    "admission_receipt \<Rightarrow> int option \<Rightarrow> nat option \<Rightarrow> ('w, 'p) fake_engine \<Rightarrow> engine_error + 'p engine_event list" where
  "observe rawReceipt afterSequence aborted f =
     try_then (parse_receipt rawReceipt) (\<lambda>receipt.
       let after = opt_default 0 afterSequence in
       if after < 0 \<or> 9007199254740991 < after then Inl BadCursor
       else
         (let events = (case stored receipt f of None \<Rightarrow> []
                | Some x \<Rightarrow> filter (\<lambda>e. after < int (ev_sequence e)) (st_events x))
          in Inr (case aborted of None \<Rightarrow> events | Some n \<Rightarrow> take n events)))"

record pending_result =
  pr_state :: execution_state
  pr_executionId :: string
  pr_runId :: string
  pr_latestSequence :: nat
  pr_updatedAt :: int

datatype 'p read_result = NotFound | Pending pending_result | Done "'p engine_result"

definition read_result :: "admission_receipt \<Rightarrow> ('w, 'p) fake_engine \<Rightarrow> engine_error + 'p read_result" where
  "read_result rawReceipt f =
     try_then (parse_receipt rawReceipt) (\<lambda>receipt.
       case stored receipt f of
         None \<Rightarrow> Inr NotFound
       | Some x \<Rightarrow>
           (case st_result x of
              Some r \<Rightarrow> Inr (Done r)
            | None \<Rightarrow> Inr (Pending
                \<lparr>pr_state = st_state x, pr_executionId = rc_executionId (st_receipt x), pr_runId = rc_runId (st_receipt x),
                 pr_latestSequence = length (st_events x), pr_updatedAt = st_updatedAt x\<rparr>)))"

datatype cancel_outcome = Requested | AlreadyTerminal | CancelUnsupported | CancelNotFound

text \<open>The event and the result a cancellation writes carry the values \<open>status\<close>, \<open>usage\<close> and \<open>error\<close>.\<close>

definition update_execution ::
    "('w, 'p) stored_execution \<Rightarrow> ('w, 'p) fake_engine \<Rightarrow> ('w, 'p) fake_engine" where
  "update_execution x f = f\<lparr>fe_executions := jm_set (rc_executionId (st_receipt x)) x (fe_executions f)\<rparr>"

definition cancel_reply :: "int \<Rightarrow> cancel_outcome \<Rightarrow> engine_error + cancel_outcome" where
  "cancel_reply requestedAt outcome = try_then (engine_timestamp requestedAt) (\<lambda>_. Inr outcome)"

definition cancel ::
    "'p \<Rightarrow> 'p \<Rightarrow> 'p \<Rightarrow> int \<Rightarrow> admission_receipt \<Rightarrow> ('w, 'p) fake_engine
      \<Rightarrow> (engine_error + cancel_outcome) \<times> ('w, 'p) fake_engine" where
  "cancel status usage err now rawReceipt f =
     (case parse_receipt rawReceipt of
        Inl e \<Rightarrow> (Inl e, f)
      | Inr receipt \<Rightarrow>
          (case stored receipt f of
             None \<Rightarrow> (cancel_reply now CancelNotFound, f)
           | Some x \<Rightarrow>
               (if st_result x \<noteq> None then (cancel_reply now AlreadyTerminal, f)
                else if fe_cancellation f = Unsupported then (cancel_reply now CancelUnsupported, f)
                else
                  (case append_event TerminalE status now x of
                     Inl e \<Rightarrow> (Inl e, f)
                   | Inr (event, x) \<Rightarrow>
                       (case finish \<lparr>ri_status = ResCancelled, ri_threadId = None, ri_resultSummary = None,
                               ri_usage = usage, ri_error = Some err, ri_finishedAt = now\<rparr> x of
                          Inl e \<Rightarrow> (Inl e, update_execution x f)
                        | Inr (r, x) \<Rightarrow> (cancel_reply now Requested, update_execution x f))))))"

definition emit ::
    "admission_receipt \<Rightarrow> event_type \<Rightarrow> 'p \<Rightarrow> int \<Rightarrow> ('w, 'p) fake_engine
      \<Rightarrow> (engine_error + 'p engine_event) \<times> ('w, 'p) fake_engine" where
  "emit receipt typ payload createdAt f =
     (case stored receipt f of
        None \<Rightarrow> (Inl UnknownReceipt, f)
      | Some x \<Rightarrow>
          (case append_event typ payload createdAt x of
             Inl e \<Rightarrow> (Inl e, f)
           | Inr (event, x) \<Rightarrow> (Inr event, update_execution x f)))"

definition complete_run ::
    "admission_receipt \<Rightarrow> 'p result_input \<Rightarrow> ('w, 'p) fake_engine
      \<Rightarrow> (engine_error + 'p engine_result) \<times> ('w, 'p) fake_engine" where
  "complete_run receipt input f =
     (case stored receipt f of
        None \<Rightarrow> (Inl UnknownReceipt, f)
      | Some x \<Rightarrow>
          (case finish input x of
             Inl e \<Rightarrow> (Inl e, f)
           | Inr (r, x) \<Rightarrow> (Inr r, update_execution x f)))"

section \<open>Parsed values\<close>

lemma number_text_last: "\<not> js_space (last (js_number_text n))"
proof -
  have "list_all (\<lambda>d. \<not> js_space (digit_char d)) [0..<10]" by code_simp
  moreover have "last (digits_in 10 (nat \<bar>n\<bar>)) < 10"
    using digits_in_less [of 10 "last (digits_in 10 (nat \<bar>n\<bar>))" "nat \<bar>n\<bar>"] last_in_set [OF digits_in_nonempty] by simp
  ultimately show ?thesis
    using digits_in_nonempty by (simp add: js_number_text_def last_map list_all_iff)
qed

lemma numbered_trim:
  assumes "js_trim a = a" and "a \<noteq> []"
  shows "js_trim (a @ b @ js_number_text n) = a @ b @ js_number_text n"
  by (rule js_trim_id) (use assms js_trim_hd [of a] number_text_hd(2) number_text_last in simp_all)

lemma parse_text_Inr: "parse_text n s = Inr t \<longleftrightarrow> t = js_trim s \<and> 1 \<le> length t \<and> length t \<le> n"
  by (auto simp: parse_text_def Let_def)

lemma parse_text_again: "parse_text n s = Inr t \<Longrightarrow> parse_text n t = Inr t"
  by (auto simp: parse_text_Inr)

lemma parse_text_trimmed: "parse_text n s = Inr t \<Longrightarrow> js_trim t = t \<and> t \<noteq> []"
  by (auto simp: parse_text_Inr)

lemma parse_receipt_Inr:
  "parse_receipt r = Inr r' \<longleftrightarrow>
     engine_id (rc_adapterId r) = Inr (rc_adapterId r') \<and> engine_id (rc_executionId r) = Inr (rc_executionId r') \<and>
     parse_text 512 (rc_admissionKey r) = Inr (rc_admissionKey r') \<and> engine_id (rc_runId r) = Inr (rc_runId r') \<and>
     engine_timestamp (rc_admittedAt r) = Inr (rc_admittedAt r') \<and> rc_handle r' = rc_handle r"
  by (cases r; cases r') (auto simp: parse_receipt_def try_then_Inr engine_timestamp_def split: if_splits)

lemma parse_receipt_again: "parse_receipt r = Inr r' \<Longrightarrow> parse_receipt r' = Inr r'"
  unfolding parse_receipt_Inr engine_id_def by (auto simp: parse_text_again engine_timestamp_def split: if_splits)

lemma parse_event_Inr:
  "parse_event e = Inr e' \<longleftrightarrow>
     engine_id (ev_id e) = Inr (ev_id e') \<and> parse_text 512 (ev_idempotencyKey e) = Inr (ev_idempotencyKey e') \<and>
     engine_id (ev_executionId e) = Inr (ev_executionId e') \<and> engine_id (ev_runId e) = Inr (ev_runId e') \<and>
     0 < ev_sequence e \<and> 0 \<le> ev_createdAt e \<and> ev_sequence e' = ev_sequence e \<and> ev_type e' = ev_type e \<and>
     ev_payload e' = ev_payload e \<and> ev_createdAt e' = ev_createdAt e"
  by (cases e; cases e') (auto simp: parse_event_def try_then_Inr engine_timestamp_def split: if_splits)

lemma parse_event_again: "parse_event e = Inr e' \<Longrightarrow> parse_event e' = Inr e'"
  unfolding parse_event_Inr engine_id_def by (auto simp: parse_text_again)

section \<open>The invariant of the engine\<close>

definition event_key :: "string \<Rightarrow> nat \<Rightarrow> string" where
  "event_key admissionKey n = admissionKey @ '':event:'' @ js_number_text (int n)"

lemma event_key_inj: "event_key k m = event_key k n \<Longrightarrow> m = n"
  by (auto simp: event_key_def dest: number_text_inj)

definition numbered_from :: "admission_receipt \<Rightarrow> nat \<Rightarrow> 'p engine_event list \<Rightarrow> bool" where
  "numbered_from rc n es =
     (\<forall>i < length es. let e = es ! i in
        ev_sequence e = n + i + 1 \<and> ev_executionId e = rc_executionId rc \<and> ev_runId e = rc_runId rc \<and>
        ev_idempotencyKey e = event_key (rc_admissionKey rc) (n + i + 1) \<and> parse_event e = Inr e)"

definition execution_ok :: "('w, 'p) fake_engine \<Rightarrow> string \<Rightarrow> ('w, 'p) stored_execution \<Rightarrow> bool" where
  "execution_ok f k x =
     (rc_executionId (st_receipt x) = k \<and> rc_adapterId (st_receipt x) = fe_adapterId f \<and>
      parse_receipt (st_receipt x) = Inr (st_receipt x) \<and> numbered_from (st_receipt x) 0 (st_events x) \<and>
      jm_get (rc_admissionKey (st_receipt x)) (fe_admissions f) = Some k \<and>
      (\<exists>n < fe_nextExecution f. k = fe_adapterId f @ '':execution:'' @ js_number_text (int n)))"

definition engine_ok :: "('w, 'p) fake_engine \<Rightarrow> bool" where
  "engine_ok f =
     (js_trim (fe_adapterId f) = fe_adapterId f \<and> fe_adapterId f \<noteq> [] \<and>
      (\<forall>k x. jm_get k (fe_executions f) = Some x \<longrightarrow> execution_ok f k x) \<and>
      (\<forall>k e. jm_get k (fe_admissions f) = Some e \<longrightarrow>
         (\<exists>x. jm_get e (fe_executions f) = Some x \<and> rc_admissionKey (st_receipt x) = k)))"

inductive engine_step :: "('w, 'p) fake_engine \<Rightarrow> ('w, 'p) fake_engine \<Rightarrow> bool" where
  step_admit: "engine_step f (snd (admit r f))"
| step_emit: "engine_step f (snd (emit rc t p now f))"
| step_complete: "engine_step f (snd (complete_run rc i f))"
| step_cancel: "engine_step f (snd (cancel st us er now rc f))"

inductive_cases engine_stepE: "engine_step f f'"

inductive engine_reach :: "('w, 'p) fake_engine \<Rightarrow> bool" where
  reach_start: "createFakeAutomationEngineAdapter a c = Inr f \<Longrightarrow> engine_reach f"
| reach_step: "engine_reach f \<Longrightarrow> engine_step f f' \<Longrightarrow> engine_reach f'"

lemma stored_Some:
  "stored rc f = Some x \<Longrightarrow> rc_adapterId rc = fe_adapterId f \<and> jm_get (rc_executionId rc) (fe_executions f) = Some x \<and>
     rc_runId (st_receipt x) = rc_runId rc"
  by (auto simp: stored_def split: if_splits option.splits)

text \<open>What adding events and results does to an execution.\<close>

definition execution_extends :: "('w, 'p) stored_execution \<Rightarrow> ('w, 'p) stored_execution \<Rightarrow> bool" where
  "execution_extends x x' =
     (st_receipt x' = st_receipt x \<and> st_request x' = st_request x \<and>
      numbered_from (st_receipt x) 0 (st_events x') \<and> (\<exists>es. st_events x' = st_events x @ es) \<and>
      (st_result x \<noteq> None \<longrightarrow> x' = x))"

lemma numbered_snoc:
  "numbered_from rc 0 (es @ [e]) \<longleftrightarrow> numbered_from rc 0 es \<and> ev_sequence e = length es + 1 \<and> ev_executionId e = rc_executionId rc \<and>
     ev_runId e = rc_runId rc \<and> ev_idempotencyKey e = event_key (rc_admissionKey rc) (length es + 1) \<and> parse_event e = Inr e"
  by (auto simp: numbered_from_def Let_def nth_append less_Suc_eq)

lemma append_event_extends:
  assumes "append_event typ payload now x = Inr (e, x')" and "execution_ok f k x"
  shows "execution_extends x x'"
proof -
  let ?rc = "st_receipt x" and ?n = "length (st_events x) + 1"
  have fresh: "st_result x = None" and x': "x' = x\<lparr>st_events := st_events x @ [e], st_state := RunningX, st_updatedAt := now\<rparr>"
    and e: "parse_event \<lparr>ev_id = rc_executionId ?rc @ '':event:'' @ js_number_text (int ?n),
        ev_idempotencyKey = rc_admissionKey ?rc @ '':event:'' @ js_number_text (int ?n),
        ev_executionId = rc_executionId ?rc, ev_runId = rc_runId ?rc,
        ev_sequence = ?n, ev_type = typ, ev_payload = payload, ev_createdAt = now\<rparr> = Inr e"
    using assms(1) by (auto simp: append_event_def Let_def try_then_Inr split: if_splits)
  have rc: "parse_receipt ?rc = Inr ?rc" using assms(2) by (simp add: execution_ok_def)
  then have "js_trim (rc_admissionKey ?rc) = rc_admissionKey ?rc" "rc_admissionKey ?rc \<noteq> []"
    using parse_text_trimmed unfolding parse_receipt_Inr by blast+
  then have "ev_idempotencyKey e = event_key (rc_admissionKey ?rc) ?n"
    using e numbered_trim [of "rc_admissionKey ?rc" "'':event:''" "int ?n"]
    unfolding parse_event_Inr event_key_def by (simp add: parse_text_Inr)
  moreover have "ev_executionId e = rc_executionId ?rc" "ev_runId e = rc_runId ?rc" "ev_sequence e = ?n"
    using e rc unfolding parse_event_Inr parse_receipt_Inr by auto
  moreover have "parse_event e = Inr e" using e by (rule parse_event_again)
  ultimately show ?thesis
    using assms(2) fresh unfolding x' by (simp add: execution_extends_def execution_ok_def numbered_snoc)
qed

lemma finish_extends:
  assumes "finish input x = Inr (r, x')" and "execution_ok f k x"
  shows "execution_extends x x'"
  using assms by (auto simp: finish_def try_then_Inr execution_extends_def execution_ok_def split: option.splits)

lemma execution_extends_ok: "execution_ok f k x \<Longrightarrow> execution_extends x x' \<Longrightarrow> execution_ok f k x'"
  by (simp add: execution_ok_def execution_extends_def)

lemma execution_extends_trans: "execution_extends x y \<Longrightarrow> execution_extends y z \<Longrightarrow> execution_extends x z"
  by (auto simp: execution_extends_def)

lemma execution_ok_update [simp]: "execution_ok (update_execution y f) = execution_ok f"
  by (intro ext) (simp add: execution_ok_def update_execution_def)

lemma engine_okD: "engine_ok f \<Longrightarrow> jm_get k (fe_executions f) = Some x \<Longrightarrow> execution_ok f k x"
  by (simp add: engine_ok_def)

lemma update_get:
  assumes "execution_ok f k x" and "execution_extends x x'"
  shows "jm_get i (fe_executions (update_execution x' f)) = (if i = k then Some x' else jm_get i (fe_executions f))"
  using assms by (simp add: execution_ok_def execution_extends_def update_execution_def)

lemma update_ok:
  assumes "engine_ok f" and "jm_get k (fe_executions f) = Some x" and "execution_extends x x'"
  shows "engine_ok (update_execution x' f)"
  unfolding engine_ok_def
proof (intro conjI allI impI)
  note x = engine_okD [OF assms(1,2)]
  note get = update_get [OF x assms(3)]
  show "js_trim (fe_adapterId (update_execution x' f)) = fe_adapterId (update_execution x' f)"
    "fe_adapterId (update_execution x' f) \<noteq> []"
    using assms(1) by (simp_all add: engine_ok_def update_execution_def)
  show "execution_ok (update_execution x' f) i y" if "jm_get i (fe_executions (update_execution x' f)) = Some y" for i y
    using that engine_okD [OF assms(1)] execution_extends_ok [OF x assms(3)] by (simp add: get split: if_splits)
  show "\<exists>y. jm_get e (fe_executions (update_execution x' f)) = Some y \<and> rc_admissionKey (st_receipt y) = i"
    if "jm_get i (fe_admissions (update_execution x' f)) = Some e" for i e
  proof -
    have "jm_get i (fe_admissions f) = Some e" using that by (simp add: update_execution_def)
    then obtain y where "jm_get e (fe_executions f) = Some y" "rc_admissionKey (st_receipt y) = i"
      using assms(1) unfolding engine_ok_def by blast
    then show ?thesis using assms(2,3) by (auto simp: get execution_extends_def)
  qed
qed

text \<open>One step: nothing that was admitted is lost or changed, except for new events and a first result.\<close>

definition execution_kept :: "('w, 'p) stored_execution \<Rightarrow> ('w, 'p) stored_execution \<Rightarrow> bool" where
  "execution_kept x x' =
     (st_receipt x' = st_receipt x \<and> st_request x' = st_request x \<and> (\<exists>es. st_events x' = st_events x @ es) \<and>
      (st_result x \<noteq> None \<longrightarrow> x' = x))"

definition engine_keeps :: "('w, 'p) fake_engine \<Rightarrow> ('w, 'p) fake_engine \<Rightarrow> bool" where
  "engine_keeps f f' =
     (fe_adapterId f' = fe_adapterId f \<and> fe_cancellation f' = fe_cancellation f \<and>
      (\<forall>k e. jm_get k (fe_admissions f) = Some e \<longrightarrow> jm_get k (fe_admissions f') = Some e) \<and>
      (\<forall>k x. jm_get k (fe_executions f) = Some x \<longrightarrow>
         (\<exists>x'. jm_get k (fe_executions f') = Some x' \<and> execution_kept x x')))"

lemma execution_kept_refl: "execution_kept x x"
  by (simp add: execution_kept_def)

lemma execution_kept_trans: "execution_kept x y \<Longrightarrow> execution_kept y z \<Longrightarrow> execution_kept x z"
  by (auto simp: execution_kept_def)

lemma extends_kept: "execution_extends x y \<Longrightarrow> execution_kept x y"
  by (simp add: execution_kept_def execution_extends_def)

lemma engine_keeps_refl: "engine_keeps f f"
  by (auto simp: engine_keeps_def intro: execution_kept_refl)

lemma engine_keeps_trans: "engine_keeps f g \<Longrightarrow> engine_keeps g h \<Longrightarrow> engine_keeps f h"
  by (fastforce simp: engine_keeps_def intro: execution_kept_trans)

lemma update_keeps:
  assumes "engine_ok f" and "jm_get k (fe_executions f) = Some x" and "execution_extends x x'"
  shows "engine_keeps f (update_execution x' f)"
proof -
  note get = update_get [OF engine_okD [OF assms(1,2)] assms(3)]
  have "\<exists>y'. jm_get i (fe_executions (update_execution x' f)) = Some y' \<and> execution_kept y y'"
    if "jm_get i (fe_executions f) = Some y" for i y
  proof (cases "i = k")
    case True
    then have "y = x" using that assms(2) by simp
    then show ?thesis using True extends_kept [OF assms(3)] by (simp add: get)
  next
    case False
    then show ?thesis using that execution_kept_refl by (simp add: get)
  qed
  then show ?thesis by (simp add: engine_keeps_def) (simp add: update_execution_def)
qed

text \<open>What every step of the engine has to leave: the invariant, and what was there.\<close>

definition engine_good :: "('w, 'p) fake_engine \<Rightarrow> ('w, 'p) fake_engine \<Rightarrow> bool" where
  "engine_good f f' = (engine_ok f' \<and> engine_keeps f f')"

lemma engine_good_refl: "engine_ok f \<Longrightarrow> engine_good f f"
  by (simp add: engine_good_def engine_keeps_refl)

lemma update_good:
  assumes "engine_ok f" and "stored rc f = Some x" and "execution_extends x x'"
  shows "engine_good f (update_execution x' f)"
proof -
  have get: "jm_get (rc_executionId rc) (fe_executions f) = Some x" using stored_Some [OF assms(2)] by simp
  show ?thesis
    using update_ok [OF assms(1) get assms(3)] update_keeps [OF assms(1) get assms(3)] by (simp add: engine_good_def)
qed

lemma stored_ok: "engine_ok f \<Longrightarrow> stored rc f = Some x \<Longrightarrow> execution_ok f (rc_executionId rc) x"
  using stored_Some engine_okD by blast

lemma admit_new:
  assumes "engine_ok f" and "parse_request r = Inr q" and "jm_get (rq_admissionKey q) (fe_admissions f) = None"
    and "admit r f = (res, f')"
  shows "engine_good f f'"
proof -
  let ?k = "fe_adapterId f @ '':execution:'' @ js_number_text (int (fe_nextExecution f))"
  let ?raw = "\<lparr>rc_adapterId = fe_adapterId f, rc_executionId = ?k, rc_admissionKey = rq_admissionKey q,
      rc_runId = rq_run q, rc_admittedAt = rq_requestedAt q, rc_handle = ?k\<rparr>"
  have fresh: "jm_get ?k (fe_executions f) = None"
  proof (rule ccontr)
    assume "jm_get ?k (fe_executions f) \<noteq> None"
    then obtain x where "execution_ok f ?k x" using assms(1) by (auto simp: engine_ok_def)
    then obtain n where "n < fe_nextExecution f" "js_number_text (int (fe_nextExecution f)) = js_number_text (int n)"
      by (auto simp: execution_ok_def)
    then show False using number_text_inj by force
  qed
  have later: "execution_ok (f\<lparr>fe_nextExecution := fe_nextExecution f + 1\<rparr>) k x" if "execution_ok f k x" for k x
    using that by (auto simp: execution_ok_def intro: less_SucI)
  show ?thesis
  proof (cases "parse_receipt ?raw")
    case (Inl e)
    then have "f' = f\<lparr>fe_nextExecution := fe_nextExecution f + 1\<rparr>"
      using assms(2-4) by (simp add: admit_def Let_def)
    then show ?thesis using assms(1) later by (simp add: engine_good_def engine_ok_def engine_keeps_def execution_kept_refl)
  next
    case (Inr rc)
    let ?x = "\<lparr>st_request = q, st_receipt = rc, st_events = [], st_state = Admitted, st_result = None,
        st_updatedAt = rq_requestedAt q\<rparr>"
    have f': "f' = f\<lparr>fe_nextExecution := fe_nextExecution f + 1, fe_executions := jm_set ?k ?x (fe_executions f),
        fe_admissions := jm_set (rq_admissionKey q) ?k (fe_admissions f)\<rparr>"
      using assms(2-4) Inr by (simp add: admit_def Let_def)
    have adapter: "js_trim (fe_adapterId f) = fe_adapterId f" "fe_adapterId f \<noteq> []"
      using assms(1) by (simp_all add: engine_ok_def)
    have "js_trim (rq_admissionKey q) = rq_admissionKey q"
      using assms(2) by (auto simp: parse_request_def try_then_Inr parse_text_Inr engine_timestamp_def split: if_splits)
    then have rc: "rc_executionId rc = ?k" "rc_adapterId rc = fe_adapterId f" "rc_admissionKey rc = rq_admissionKey q"
      using Inr numbered_trim [OF adapter, of "'':execution:''" "int (fe_nextExecution f)"] adapter unfolding parse_receipt_Inr engine_id_def parse_text_Inr by auto
    have new: "execution_ok f' ?k ?x"
      using rc parse_receipt_again [OF Inr] unfolding f' by (auto simp: execution_ok_def numbered_from_def)
    have old: "execution_ok f' k x" if "jm_get k (fe_executions f) = Some x" for k x
    proof -
      have ok: "execution_ok f k x" using assms(1) that by (simp add: engine_ok_def)
      moreover have "rc_admissionKey (st_receipt x) \<noteq> rq_admissionKey q"
        using ok assms(3) by (auto simp: execution_ok_def)
      ultimately show ?thesis unfolding f' by (auto simp: execution_ok_def intro: less_SucI)
    qed
    have "engine_ok f'"
      unfolding engine_ok_def
    proof (intro conjI allI impI)
      show "js_trim (fe_adapterId f') = fe_adapterId f'" "fe_adapterId f' \<noteq> []" using adapter by (simp_all add: f')
      fix k x assume "jm_get k (fe_executions f') = Some x"
      then show "execution_ok f' k x" using new old by (auto simp: f' split: if_splits)
    next
      fix k e assume e: "jm_get k (fe_admissions f') = Some e"
      show "\<exists>x. jm_get e (fe_executions f') = Some x \<and> rc_admissionKey (st_receipt x) = k"
      proof (cases "k = rq_admissionKey q")
        case True
        then show ?thesis using e rc by (simp add: f')
      next
        case False
        then have "jm_get k (fe_admissions f) = Some e" using e by (simp add: f')
        then obtain x where x: "jm_get e (fe_executions f) = Some x" "rc_admissionKey (st_receipt x) = k"
          using assms(1) unfolding engine_ok_def by blast
        then have "e \<noteq> ?k" using fresh by auto
        then show ?thesis using x by (simp add: f')
      qed
    qed
    moreover have "engine_keeps f f'"
      using fresh assms(3) execution_kept_refl unfolding engine_keeps_def f' by auto
    ultimately show ?thesis by (simp add: engine_good_def)
  qed
qed

lemma admit_good:
  assumes "engine_ok f"
  shows "engine_good f (snd (admit r f))"
proof (cases "parse_request r")
  case (Inl e)
  then show ?thesis using engine_good_refl [OF assms] by (simp add: admit_def)
next
  case (Inr q)
  show ?thesis
  proof (cases "jm_get (rq_admissionKey q) (fe_admissions f)")
    case None
    then show ?thesis using admit_new [OF assms Inr None] by (metis surjective_pairing)
  next
    case (Some e)
    then have "snd (admit r f) = f" using Inr by (simp add: admit_def split: option.split)
    then show ?thesis using engine_good_refl [OF assms] by simp
  qed
qed

lemma emit_good:
  assumes "engine_ok f"
  shows "engine_good f (snd (emit rc t p now f))"
proof (cases "\<exists>x e y. stored rc f = Some x \<and> append_event t p now x = Inr (e, y)")
  case True
  then obtain x e y where x: "stored rc f = Some x" and y: "append_event t p now x = Inr (e, y)" by blast
  then have "snd (emit rc t p now f) = update_execution y f" by (simp add: emit_def)
  then show ?thesis
    using update_good [OF assms x] append_event_extends [OF y stored_ok [OF assms x]] by simp
next
  case False
  then have "snd (emit rc t p now f) = f" by (auto simp: emit_def split: option.split sum.split)
  then show ?thesis using engine_good_refl [OF assms] by simp
qed

lemma complete_good:
  assumes "engine_ok f"
  shows "engine_good f (snd (complete_run rc i f))"
proof (cases "\<exists>x r y. stored rc f = Some x \<and> finish i x = Inr (r, y)")
  case True
  then obtain x r y where x: "stored rc f = Some x" and y: "finish i x = Inr (r, y)" by blast
  then have "snd (complete_run rc i f) = update_execution y f" by (simp add: complete_run_def)
  then show ?thesis
    using update_good [OF assms x] finish_extends [OF y stored_ok [OF assms x]] by simp
next
  case False
  then have "snd (complete_run rc i f) = f" by (auto simp: complete_run_def split: option.split sum.split)
  then show ?thesis using engine_good_refl [OF assms] by simp
qed

lemma cancel_good:
  assumes "engine_ok f"
  shows "engine_good f (snd (cancel st us er now rc f))"
proof (cases "\<exists>q x e y. parse_receipt rc = Inr q \<and> stored q f = Some x \<and> st_result x = None \<and>
    fe_cancellation f \<noteq> Unsupported \<and> append_event TerminalE st now x = Inr (e, y)")
  case True
  then obtain q x e y where q: "parse_receipt rc = Inr q" and x: "stored q f = Some x"
    and x': "st_result x = None" "fe_cancellation f \<noteq> Unsupported"
    and y: "append_event TerminalE st now x = Inr (e, y)" by blast
  note xy = append_event_extends [OF y stored_ok [OF assms x]]
  define i where "i = \<lparr>ri_status = ResCancelled, ri_threadId = None, ri_resultSummary = None,
      ri_usage = us, ri_error = Some er, ri_finishedAt = now\<rparr>"
  show ?thesis
  proof (cases "finish i y")
    case (Inl e')
    then have "snd (cancel st us er now rc f) = update_execution y f"
      using q x x' y by (simp add: cancel_def i_def)
    then show ?thesis using update_good [OF assms x xy] by simp
  next
    case (Inr rz)
    obtain r z where z: "rz = (r, z)" by (cases rz) simp
    then have "snd (cancel st us er now rc f) = update_execution z f"
      using q x x' y Inr by (simp add: cancel_def i_def)
    moreover have "execution_extends y z"
      using finish_extends Inr z execution_extends_ok [OF stored_ok [OF assms x] xy] by blast
    ultimately show ?thesis using update_good [OF assms x execution_extends_trans [OF xy]] by simp
  qed
next
  case False
  then have "snd (cancel st us er now rc f) = f" by (auto simp: cancel_def split: option.split sum.split)
  then show ?thesis using engine_good_refl [OF assms] by simp
qed

lemma engine_step_good: "engine_step f f' \<Longrightarrow> engine_ok f \<Longrightarrow> engine_good f f'"
  by (auto elim!: engine_stepE intro: admit_good emit_good complete_good cancel_good)

lemma engine_reach_ok: "engine_reach f \<Longrightarrow> engine_ok f"
proof (induction rule: engine_reach.induct)
  case (reach_start a c f)
  then show ?case
    by (auto simp: createFakeAutomationEngineAdapter_def fakeCapabilities_def try_then_Inr engine_id_def parse_text_Inr engine_ok_def)
next
  case (reach_step f f')
  then show ?case using engine_step_good [of f f'] by (simp add: engine_good_def)
qed

lemma engine_steps_keep: "engine_step\<^sup>*\<^sup>* f f' \<Longrightarrow> engine_ok f \<Longrightarrow> engine_good f f'"
proof (induction rule: rtranclp_induct)
  case base
  then show ?case by (rule engine_good_refl)
next
  case (step g h)
  then show ?case using engine_step_good [of g h] engine_keeps_trans [of f g h] by (simp add: engine_good_def)
qed

section \<open>Observing\<close>

lemma numbered_from_Cons:
  "numbered_from rc n (e # es) \<longleftrightarrow>
     ev_sequence e = n + 1 \<and> ev_executionId e = rc_executionId rc \<and> ev_runId e = rc_runId rc \<and>
     ev_idempotencyKey e = event_key (rc_admissionKey rc) (n + 1) \<and> parse_event e = Inr e \<and>
     numbered_from rc (n + 1) es"
  unfolding numbered_from_def Let_def by (auto simp: less_Suc_eq_0_disj)

lemma numbered_after: "numbered_from rc n es \<Longrightarrow> filter (\<lambda>e. int (n + c) < int (ev_sequence e)) es = drop c es"
proof (induction es arbitrary: n c)
  case Nil
  then show ?case by simp
next
  case (Cons e es)
  then have e: "ev_sequence e = n + 1" and es: "numbered_from rc (n + 1) es" by (auto simp: numbered_from_Cons)
  show ?case
  proof (cases c)
    case 0
    have after: "filter (\<lambda>e. int (n + 1) < int (ev_sequence e)) es = es" using Cons.IH [OF es, of 0] by simp
    have "filter (\<lambda>e. int n < int (ev_sequence e)) es = es"
      unfolding filter_id_conv
    proof
      fix d assume "d \<in> set es"
      then have "int (n + 1) < int (ev_sequence d)" using after unfolding filter_id_conv by blast
      then show "int n < int (ev_sequence d)" by simp
    qed
    then show ?thesis using 0 e by simp
  next
    case (Suc d)
    then show ?thesis using Cons.IH [OF es, of d] e by simp
  qed
qed

lemma numbered_drop: "numbered_from rc 0 es \<Longrightarrow> numbered_from rc c (drop c es)"
  unfolding numbered_from_def Let_def by (auto simp: add.commute)

lemma accept_numbered:
  assumes "numbered_from rc n es" and "sv_executionId v = rc_executionId rc" and "sv_runId v = rc_runId rc"
    and "sv_cursor v = n" and "\<forall>k \<in> set (sv_eventKeys v). \<exists>i \<le> n. k = event_key (rc_admissionKey rc) i"
  shows "\<exists>v'. accept_all es v = Inr v' \<and> sv_cursor v' = n + length es"
  using assms
proof (induction es arbitrary: n v)
  case Nil
  then show ?case by simp
next
  case (Cons e es)
  let ?v = "v\<lparr>sv_cursor := ev_sequence e, sv_eventKeys := ev_idempotencyKey e # sv_eventKeys v\<rparr>"
  have "ev_idempotencyKey e \<notin> set (sv_eventKeys v)"
  proof
    assume "ev_idempotencyKey e \<in> set (sv_eventKeys v)"
    then obtain i where "i \<le> n" "event_key (rc_admissionKey rc) (n + 1) = event_key (rc_admissionKey rc) i"
      using Cons.prems(1,5) by (auto simp: numbered_from_Cons)
    then show False using event_key_inj by fastforce
  qed
  then have "accept_event e v = Inr ?v"
    using Cons.prems(1-4) by (simp add: numbered_from_Cons accept_event_def)
  moreover have "\<exists>v'. accept_all es ?v = Inr v' \<and> sv_cursor v' = (n + 1) + length es"
    using Cons.prems by (intro Cons.IH) (auto simp: numbered_from_Cons intro: le_SucI)
  ultimately show ?case by simp
qed

lemma observed_events:
  assumes "engine_ok f" and "parse_receipt rc = Inr rc" and "stored rc f = Some x"
    and "c \<le> length (st_events x)" and "length (st_events x) \<le> 9007199254740991"
  shows "observe rc (Some (int c)) a f =
    Inr (case a of None \<Rightarrow> drop c (st_events x) | Some n \<Rightarrow> take n (drop c (st_events x)))"
proof -
  have "numbered_from (st_receipt x) 0 (st_events x)" using stored_ok [OF assms(1,3)] by (simp add: execution_ok_def)
  then have "filter (\<lambda>e. int c < int (ev_sequence e)) (st_events x) = drop c (st_events x)"
    using numbered_after [of _ 0 "st_events x" c] by simp
  then show ?thesis using assms by (auto simp: observe_def opt_default_def Let_def split: option.split)
qed

lemma last_sequence:
  assumes "numbered_from rc 0 es" and "c \<le> length es"
  shows "(if take n (drop c es) = [] then c else ev_sequence (last (take n (drop c es)))) = c + min n (length es - c)"
proof (cases "take n (drop c es) = []")
  case True
  then show ?thesis by auto
next
  case False
  define i where "i = c + min n (length es - c) - 1"
  have i: "i < length es" "i + 1 = c + min n (length es - c)" using False by (auto simp: i_def)
  have "last (take n (drop c es)) = es ! i"
    using False by (auto simp: last_conv_nth min_def i_def)
  moreover have "ev_sequence (es ! i) = i + 1" using assms(1) i(1) unfolding numbered_from_def Let_def by simp
  ultimately show ?thesis using False i(2) by simp
qed

lemma observation_accepted:
  assumes "engine_ok f" and "parse_receipt rc = Inr rc" and "stored rc f = Some x"
    and "c \<le> length (st_events x)" and "length (st_events x) \<le> 9007199254740991"
  shows "\<exists>es v v'. observe rc (Some (int c)) None f = Inr es \<and>
           createAutomationEngineEventSequenceValidator rc (int c) = Inr v \<and>
           accept_all es v = Inr v' \<and> sv_cursor v' = length (st_events x)"
proof -
  have num: "numbered_from (st_receipt x) 0 (st_events x)"
    and ids: "rc_executionId (st_receipt x) = rc_executionId rc" "rc_runId (st_receipt x) = rc_runId rc"
    using stored_ok [OF assms(1,3)] stored_Some [OF assms(3)] by (simp_all add: execution_ok_def)
  show ?thesis
    using accept_numbered [OF numbered_drop [OF num, of c], of "\<lparr>sv_executionId = rc_executionId rc, sv_runId = rc_runId rc,
        sv_cursor = c, sv_eventKeys = []\<rparr>"] observed_events [OF assms, of None] ids assms(2,4,5)
    by (simp add: createAutomationEngineEventSequenceValidator_def)
qed

lemma take_drop_resume: "take n (drop c xs) @ drop (c + n) xs = drop c xs"
  by (metis append_take_drop_id drop_drop add.commute)

lemma engine_steps_events:
  assumes "engine_good f f'" and "stored rc f = Some x"
  shows "\<exists>x'. stored rc f' = Some x' \<and> execution_kept x x'"
  using assms stored_Some [OF assms(2)]
  unfolding engine_good_def engine_keeps_def stored_def by (fastforce simp: execution_kept_def)

text \<open>C22. An observer of an admitted execution that starts at a cursor among the events written so
  far is given the events after it, in order; the validator of the stream accepts every one of
  them and ends at the number of events written. When the observation is aborted after some
  events, and is taken up later - after any further steps of the engine - from the sequence of
  the last event seen, both parts together are the events after the first cursor: no event is
  lost and none is given twice.\<close>

theorem observation_resumes_exactly:
  assumes "engine_reach f" and "parse_receipt rc = Inr rc" and "stored rc f = Some x"
    and "c \<le> length (st_events x)" and "engine_step\<^sup>*\<^sup>* f f'" and "stored rc f' = Some x'"
    and "length (st_events x') \<le> 9007199254740991"
  shows "(\<exists>es v v'. observe rc (Some (int c)) None f = Inr es \<and>
           createAutomationEngineEventSequenceValidator rc (int c) = Inr v \<and>
           accept_all es v = Inr v' \<and> sv_cursor v' = length (st_events x)) \<and>
         (\<exists>seen rest. observe rc (Some (int c)) (Some n) f = Inr seen \<and>
           observe rc (Some (int (if seen = [] then c else ev_sequence (last seen)))) None f' = Inr rest \<and>
           seen @ rest = drop c (st_events x') \<and> length seen = min n (length (st_events x) - c))"
proof -
  have ok: "engine_ok f" using assms(1) by (rule engine_reach_ok)
  have good: "engine_good f f'" using engine_steps_keep [OF assms(5) ok] .
  then have ok': "engine_ok f'" by (simp add: engine_good_def)
  obtain more where more: "st_events x' = st_events x @ more"
    using engine_steps_events [OF good assms(3)] assms(6) by (auto simp: execution_kept_def)
  have len: "length (st_events x) \<le> 9007199254740991" using assms(7) more by simp
  have num: "numbered_from (st_receipt x) 0 (st_events x)"
    using stored_ok [OF ok assms(3)] by (simp add: execution_ok_def)
  let ?m = "min n (length (st_events x) - c)" and ?seen = "take n (drop c (st_events x))"
  have "?seen @ drop (c + ?m) (st_events x') = drop c (st_events x')"
    using assms(4) more by (auto simp: min_def take_drop_resume)
  moreover have "observe rc (Some (int (c + ?m))) None f' = Inr (drop (c + ?m) (st_events x'))"
    using observed_events [OF ok' assms(2,6) _ assms(7), of "c + ?m" None] assms(4) more by simp
  ultimately show ?thesis
    using observation_accepted [OF ok assms(2,3,4) len] observed_events [OF ok assms(2,3,4) len, of "Some n"]
      last_sequence [OF num assms(4), of n]
    by (simp add: min.commute)
qed

section \<open>Admission and results last\<close>

definition same_work :: "'w admission_request \<Rightarrow> 'w admission_request \<Rightarrow> bool" where
  "same_work q r = (rq_run q = rq_run r \<and> rq_automation q = rq_automation r \<and> rq_revision q = rq_revision r)"

lemma parse_request_same: "parse_request r = Inr q \<Longrightarrow> q = r\<lparr>rq_admissionKey := js_trim (rq_admissionKey r)\<rparr>"
  by (auto simp: parse_request_def try_then_Inr parse_text_Inr split: if_splits)

text \<open>After an admission the execution of its key is on record, with the receipt that was returned.\<close>

lemma admit_records:
  assumes "engine_ok f" and "admit r f = (Inr rc, f')" and "parse_request r = Inr q"
  shows "\<exists>k x. jm_get (rq_admissionKey q) (fe_admissions f') = Some k \<and> jm_get k (fe_executions f') = Some x \<and>
           parse_receipt (st_receipt x) = Inr rc \<and> same_work (st_request x) r"
proof -
  have q: "same_work q r" using parse_request_same [OF assms(3)] by (simp add: same_work_def)
  show ?thesis
  proof (cases "jm_get (rq_admissionKey q) (fe_admissions f)")
    case None
    then show ?thesis using assms(2,3) q
      by (auto simp: admit_def Let_def dest: parse_receipt_again split: sum.splits)
  next
    case (Some k)
    then show ?thesis using assms(2,3) q
      by (auto simp: admit_def same_work_def split: option.splits if_splits)
  qed
qed

lemma admit_known:
  assumes "parse_request r = Inr q" and "jm_get (rq_admissionKey q) (fe_admissions f) = Some k"
    and "jm_get k (fe_executions f) = Some x" and "parse_receipt (st_receipt x) = Inr rc"
  shows "admit r f = (if same_work (st_request x) r then (Inr rc, f) else (Inl KeyReused, f))"
  using assms parse_request_same [OF assms(1)] by (simp add: admit_def same_work_def)


text \<open>C23. A terminal result is durable. Once a result can be read for a receipt, then after any
  further steps of the engine the same result and the same events are read; a cancellation
  reports that the run is already terminal, no event can be added, completing the run again
  returns the first result, and none of them changes the engine.\<close>

theorem result_durable:
  assumes "engine_reach f" and "parse_receipt rc = Inr rc" and "read_result rc f = Inr (Done r)"
    and "engine_step\<^sup>*\<^sup>* f f'"
  shows "read_result rc f' = Inr (Done r) \<and> observe rc c a f' = observe rc c a f \<and>
         cancel st us er now rc f' = (cancel_reply now AlreadyTerminal, f') \<and> emit rc t p now f' = (Inl AfterTerminal, f') \<and>
         fst (complete_run rc i f') = Inr r"
proof -
  obtain x where x: "stored rc f = Some x" "st_result x = Some r"
    using assms(2,3) by (auto simp: read_result_def split: option.splits)
  have good: "engine_good f f'" using engine_steps_keep [OF assms(4) engine_reach_ok [OF assms(1)]] .
  then have x': "stored rc f' = Some x"
    using engine_steps_events [OF good x(1)] x(2) by (auto simp: execution_kept_def)
  show ?thesis
    using x x' assms(2)
    by (simp add: read_result_def observe_def cancel_def emit_def complete_run_def append_event_def finish_def Let_def)
qed

text \<open>A concrete run: an engine, a request, and the execution it opens.\<close>

definition engine0 :: "(unit, string) fake_engine" where
  "engine0 = \<lparr>fe_adapterId = ''fake'', fe_cancellation = Supported, fe_executions = [], fe_admissions = [], fe_nextExecution = 1\<rparr>"

definition request0 :: "unit admission_request" where
  "request0 = \<lparr>rq_admissionKey = '' key '', rq_automation = ''a'', rq_revision = ''v'', rq_revision_automation = ''a'',
     rq_run = ''r'', rq_run_automation = ''a'', rq_run_revision = ''v'', rq_work = (), rq_requestedAt = 5\<rparr>"

definition receipt0 :: admission_receipt where
  "receipt0 = \<lparr>rc_adapterId = ''fake'', rc_executionId = ''fake:execution:1'', rc_admissionKey = ''key'', rc_runId = ''r'',
     rc_admittedAt = 5, rc_handle = ''fake:execution:1''\<rparr>"

definition engine1 :: "(unit, string) fake_engine" where
  "engine1 = snd (admit request0 engine0)"

definition engine2 :: "(unit, string) fake_engine" where
  "engine2 = snd (emit receipt0 AssistantE ''one'' 6 engine1)"

definition engine3 :: "(unit, string) fake_engine" where
  "engine3 = snd (emit receipt0 UsageE ''two'' 7 engine2)"

lemma engine0_reach: "engine_reach engine0"
proof (rule reach_start)
  show "createFakeAutomationEngineAdapter (Some '' fake '') None = Inr engine0" by code_simp
qed

lemma engine12_steps: "engine_step engine0 engine1" "engine_step engine1 engine2" "engine_step engine2 engine3"
  unfolding engine1_def engine2_def engine3_def by (rule step_admit step_emit)+

lemma engine2_reach: "engine_reach engine2"
  using engine0_reach engine12_steps reach_step by blast

theorem observation_resumes_exactly_witness:
  "\<exists>seen rest. observe receipt0 (Some 0) (Some 1) engine2 = Inr seen \<and>
     observe receipt0 (Some 1) None engine3 = Inr rest \<and>
     seen @ rest = st_events (the (stored receipt0 engine3)) \<and> length seen = 1 \<and> length rest = 1"
proof -
  have a: "parse_receipt receipt0 = Inr receipt0" by code_simp
  have b: "stored receipt0 engine2 = Some (the (stored receipt0 engine2))" by code_simp
  have c: "stored receipt0 engine3 = Some (the (stored receipt0 engine3))" by code_simp
  have d: "length (st_events (the (stored receipt0 engine2))) = 1" "length (st_events (the (stored receipt0 engine3))) = 2"
    by code_simp+
  have e: "observe receipt0 (Some 0) (Some 1) engine2 = Inr (st_events (the (stored receipt0 engine2)))" by code_simp
  have g: "map ev_sequence (st_events (the (stored receipt0 engine2))) = [1]" by code_simp
  have one: "ev_sequence (last (st_events (the (stored receipt0 engine2)))) = 1" "st_events (the (stored receipt0 engine2)) \<noteq> []"
    using g d(1) by (cases "st_events (the (stored receipt0 engine2))"; simp)+
  have step: "engine_step\<^sup>*\<^sup>* engine2 engine3" using engine12_steps(3) by (rule r_into_rtranclp)
  obtain seen rest where seen: "observe receipt0 (Some (int 0)) (Some 1) engine2 = Inr seen"
    and rest: "observe receipt0 (Some (int (if seen = [] then 0 else ev_sequence (last seen)))) None engine3 = Inr rest"
    and all: "seen @ rest = drop 0 (st_events (the (stored receipt0 engine3)))"
    using observation_resumes_exactly [OF engine2_reach a b _ step c, of 0 1] d by auto
  have "seen = st_events (the (stored receipt0 engine2))" using seen e by simp
  then have "observe receipt0 (Some 1) None engine3 = Inr rest" "length seen = 1" using rest one d by simp_all
  moreover have "length (seen @ rest) = 2" using all d by simp
  ultimately show ?thesis using all e \<open>seen = _\<close> by auto
qed


definition engine4 :: "(unit, string) fake_engine" where
  "engine4 = snd (cancel ''s'' ''u'' ''e'' 8 receipt0 engine3)"

theorem result_durable_witness:
  "cancel ''s'' ''u'' ''e'' 9 receipt0 engine4 = (Inr AlreadyTerminal, engine4) \<and>
   (\<exists>r. read_result receipt0 engine4 = Inr (Done r) \<and> rs_finalSequence r = 3)"
proof -
  define r where "r = the (st_result (the (stored receipt0 engine4)))"
  have a: "parse_receipt receipt0 = Inr receipt0" by code_simp
  have b: "read_result receipt0 engine4 = Inr (Done r)" unfolding r_def by code_simp
  have c: "rs_finalSequence r = 3" unfolding r_def by code_simp
  have "engine_step engine3 engine4" unfolding engine4_def by (rule step_cancel)
  then have reach: "engine_reach engine4" using engine2_reach engine12_steps(3) reach_step by blast
  have "cancel ''s'' ''u'' ''e'' 9 receipt0 engine4 = (cancel_reply 9 AlreadyTerminal, engine4)"
    by (rule result_durable [OF reach a b rtranclp.rtrancl_refl, THEN conjunct2, THEN conjunct2, THEN conjunct1])
  then show ?thesis using b c by (auto simp: cancel_reply_def engine_timestamp_def)
qed

end
