(* ===== verification/UrlGuard.thy ===== *)
theory UrlGuard
  imports Automations AppGate
begin

text \<open>
  The egress guard of managed MCP connections
  (\<open>apps/server/src/local-managed-mcp-url-guard.ts\<close>): which addresses are private or
  reserved, which URLs are refused, what a name lookup hands to the socket, and the fetch
  loop that follows redirects under the guard.

  The URL parser, \<open>isIP\<close>, name resolution and the transport are arguments: \<open>parse_url\<close> and
  \<open>resolve\<close> stand for \<open>new URL(text)\<close> and \<open>new URL(location, base)\<close>, \<open>ip\<close> for the version
  \<open>node:net\<close> reports, \<open>serve n\<close> for the answer to the request after \<open>n\<close> redirects. \<open>allow\<close> is
  the value of \<open>allowPrivateUrls()\<close>.
\<close>

unbundle bit_operations_syntax

section \<open>Addresses\<close>

text \<open>\<open>Number(part)\<close> where it is an integer from 0 to 255. Only decimal digits are read here:
  \<open>isIP\<close> has accepted the address before its parts are read.\<close>

definition decimal_value :: "string \<Rightarrow> nat" where
  "decimal_value s = foldl (\<lambda>n c. n * 10 + (of_char c - 48)) 0 s"

definition octet_of :: "string \<Rightarrow> nat option" where
  "octet_of part =
     (let s = js_trim part in
      if list_all is_digit s \<and> decimal_value s \<le> 255 then Some (decimal_value s) else None)"

definition parseIpv4 :: "string \<Rightarrow> nat list option" where
  "parseIpv4 address =
     (let parts = split_on CHR ''.'' address
      in if length parts \<noteq> 4 then None else those (map octet_of parts))"

definition private_octets :: "nat list \<Rightarrow> bool" where
  "private_octets octets =
     (let a = octets ! 0; b = octets ! 1; c = octets ! 2 in
      a = 0 \<or> a = 10 \<or> a = 127 \<or> (a = 100 \<and> 64 \<le> b \<and> b \<le> 127) \<or> (a = 169 \<and> b = 254) \<or>
      (a = 172 \<and> 16 \<le> b \<and> b \<le> 31) \<or> (a = 192 \<and> b = 0 \<and> (c = 0 \<or> c = 2)) \<or> (a = 192 \<and> b = 88 \<and> c = 99) \<or>
      (a = 192 \<and> b = 168) \<or> (a = 198 \<and> (b = 18 \<or> b = 19)) \<or> (a = 198 \<and> b = 51 \<and> c = 100) \<or>
      (a = 203 \<and> b = 0 \<and> c = 113) \<or> 224 \<le> a)"

definition isPrivateIpv4 :: "string \<Rightarrow> bool" where
  "isPrivateIpv4 address = (case parseIpv4 address of None \<Rightarrow> True | Some octets \<Rightarrow> private_octets octets)"

text \<open>\<open>text.lastIndexOf(c)\<close> and \<open>text.split("::")\<close>.\<close>

definition last_index_of :: "'a \<Rightarrow> 'a list \<Rightarrow> nat option" where
  "last_index_of c s = map_option (\<lambda>i. length s - 1 - i) (index_of c (rev s))"

fun split_pairs :: "'a \<Rightarrow> 'a list \<Rightarrow> 'a list list" where
  "split_pairs c [] = [[]]"
| "split_pairs c [d] = [[d]]"
| "split_pairs c (d # e # s) =
     (if d = c \<and> e = c then [] # split_pairs c s
      else (case split_pairs c (e # s) of [] \<Rightarrow> [[d]] | w # ws \<Rightarrow> (d # w) # ws))"

definition hex_letter :: "char \<Rightarrow> bool" where
  "hex_letter c = (let n = (of_char c :: nat) in (48 \<le> n \<and> n \<le> 57) \<or> (97 \<le> n \<and> n \<le> 102))"

definition hex_number :: "string \<Rightarrow> nat" where
  "hex_number s = foldl (\<lambda>n c. n * 16 + (if is_digit c then of_char c - 48 else of_char c - 87)) 0 s"

definition parse_half :: "string \<Rightarrow> nat list option" where
  "parse_half s =
     (if s = [] then Some []
      else
        (let parts = split_on CHR '':'' s in
         if list_all (\<lambda>p. 1 \<le> length p \<and> length p \<le> 4 \<and> list_all hex_letter p) parts
         then Some (map hex_number parts) else None))"

definition dotted_tail :: "string \<Rightarrow> string option" where
  "dotted_tail s =
     (if CHR ''.'' \<notin> set s then Some s
      else
        (case last_index_of CHR '':'' s of
           None \<Rightarrow> None
         | Some i \<Rightarrow>
             (case parseIpv4 (drop (i + 1) s) of
                None \<Rightarrow> None
              | Some octets \<Rightarrow>
                  Some (take (i + 1) s @ hex_text (octets ! 0 * 256 + octets ! 1) @ '':'' @ hex_text (octets ! 2 * 256 + octets ! 3)))))"

definition parseIpv6Words :: "string \<Rightarrow> nat list option" where
  "parseIpv6Words address =
     (let normalized = js_lower address in
      if CHR ''%'' \<in> set normalized then None
      else
        (case dotted_tail normalized of
           None \<Rightarrow> None
         | Some normalized \<Rightarrow>
             (let halves = split_pairs CHR '':'' normalized in
              if 2 < length halves then None
              else
                (case (parse_half (halves ! 0), parse_half (opt_default [] (js_at halves 1))) of
                   (Some h, Some t) \<Rightarrow>
                     (if length halves = 1 then (if length h = 8 then Some h else None)
                      else if length h + length t < 8 then Some (h @ replicate (8 - length h - length t) 0 @ t)
                      else None)
                 | _ \<Rightarrow> None))))"

definition embeddedIpv4 :: "nat list \<Rightarrow> nat \<Rightarrow> string" where
  "embeddedIpv4 words i =
     join ''.'' (map (\<lambda>n. js_number_text (int n))
       [words ! i div 256, words ! i AND 0xff, words ! (i + 1) div 256, words ! (i + 1) AND 0xff])"

definition isPrivateIpv6 :: "string \<Rightarrow> bool" where
  "isPrivateIpv6 address =
     (case parseIpv6Words address of
        None \<Rightarrow> True
      | Some words \<Rightarrow>
          (let zero = list_all (\<lambda>word. word = 0);
               first = words ! 0; second = words ! 1; third = words ! 2; fifth = words ! 4; sixth = words ! 5
           in if zero (Prelude.slice words 0 7) \<and> (words ! 7 = 0 \<or> words ! 7 = 1) then True
              else if zero (Prelude.slice words 0 5) \<and> sixth = 0xffff then isPrivateIpv4 (embeddedIpv4 words 6)
              else if zero (Prelude.slice words 0 4) \<and> fifth = 0xffff \<and> sixth = 0 then isPrivateIpv4 (embeddedIpv4 words 6)
              else if zero (Prelude.slice words 0 6) then True
              else if first = 0x0064 \<and> second = 0xff9b \<and> zero (Prelude.slice words 2 6) then isPrivateIpv4 (embeddedIpv4 words 6)
              else if first AND 0xfe00 = 0xfc00 \<or> first AND 0xffc0 = 0xfe80 \<or> first AND 0xffc0 = 0xfec0 then True
              else if first AND 0xff00 = 0xff00 then True
              else if first = 0x0100 \<and> zero (Prelude.slice words 1 4) then True
              else if first = 0x2001 \<and> (second = 0x0db8 \<or> (second = 0x0002 \<and> third = 0)) then True
              else if first = 0x2001 \<and> (second AND 0xfff0 = 0x0010 \<or> second AND 0xfff0 = 0x0020) then True
              else first = 0x2002 \<and> isPrivateIpv4 (embeddedIpv4 words 1)))"

definition isLocalManagedMcpPrivateAddress :: "(string \<Rightarrow> nat) \<Rightarrow> string \<Rightarrow> bool" where
  "isLocalManagedMcpPrivateAddress ip address =
     (if ip address = 4 then isPrivateIpv4 address
      else if ip address = 6 then isPrivateIpv6 address
      else True)"

section \<open>URLs and lookups\<close>

record url =
  url_href :: string
  url_protocol :: string
  url_username :: string
  url_password :: string
  url_hostname :: string
  url_origin :: string

datatype guard_error =
    NotAUrl
  | ProtocolNotAllowed
  | EmbeddedCredentials
  | DoesNotResolve
  | ResolvesPrivate string
  | RequiresHttps
  | PrivateAddress
  | LessSecureRedirect
  | BodyAcrossOrigins
  | RedirectLimit
  | BadLocation
  | TransportFailed

definition parseHttpUrl :: "(string \<Rightarrow> url option) \<Rightarrow> string \<Rightarrow> guard_error + url" where
  "parseHttpUrl parse_url rawUrl =
     (case parse_url rawUrl of
        None \<Rightarrow> Inl NotAUrl
      | Some url \<Rightarrow>
          (if url_protocol url \<noteq> ''http:'' \<and> url_protocol url \<noteq> ''https:'' then Inl ProtocolNotAllowed
           else if url_username url \<noteq> [] \<or> url_password url \<noteq> [] then Inl EmbeddedCredentials
           else Inr url))"

text \<open>\<open>allowPrivateUrls\<close> on the two environment variables.\<close>

definition allowPrivateUrls :: "string option \<Rightarrow> string option \<Rightarrow> bool" where
  "allowPrivateUrls dev_mode allow_private = (dev_mode = Some ''1'' \<or> allow_private = Some ''1'')"

record lookup_address =
  la_address :: string
  la_family :: nat

fun first_private :: "(string \<Rightarrow> nat) \<Rightarrow> lookup_address list \<Rightarrow> string option" where
  "first_private ip [] = None"
| "first_private ip (a # as) =
     (if isLocalManagedMcpPrivateAddress ip (la_address a) then Some (la_address a) else first_private ip as)"

definition validateResolvedAddresses :: "bool \<Rightarrow> (string \<Rightarrow> nat) \<Rightarrow> lookup_address list \<Rightarrow> guard_error + unit" where
  "validateResolvedAddresses allow ip addresses =
     (if addresses = [] then Inl DoesNotResolve
      else if allow then Inr ()
      else (case first_private ip addresses of Some a \<Rightarrow> Inl (ResolvesPrivate a) | None \<Rightarrow> Inr ()))"

text \<open>What the callback of a lookup is given: all addresses, or the first one. A failed
  resolution is \<open>None\<close>.\<close>

definition createLocalManagedMcpPublicLookup ::
    "bool \<Rightarrow> (string \<Rightarrow> nat) \<Rightarrow> (string \<Rightarrow> lookup_address list option) \<Rightarrow> string \<Rightarrow> bool \<Rightarrow> guard_error + lookup_address list" where
  "createLocalManagedMcpPublicLookup allow ip resolver hostname all_addresses =
     (case resolver hostname of
        None \<Rightarrow> Inl DoesNotResolve
      | Some addresses \<Rightarrow>
          (case validateResolvedAddresses allow ip addresses of
             Inl e \<Rightarrow> Inl e
           | Inr _ \<Rightarrow> Inr (if all_addresses then addresses else [hd addresses])))"

text \<open>\<open>hostname.replace(/^\[|\]$/g, "")\<close>.\<close>

definition strip_brackets :: "string \<Rightarrow> string" where
  "strip_brackets h =
     (let h = (case h of c # t \<Rightarrow> if c = CHR 0x5B then t else h | [] \<Rightarrow> h)
      in if h \<noteq> [] \<and> last h = CHR 0x5D then butlast h else h)"

definition assertLocalManagedMcpUrl ::
    "bool \<Rightarrow> (string \<Rightarrow> url option) \<Rightarrow> (string \<Rightarrow> nat) \<Rightarrow> (string \<Rightarrow> lookup_address list option) \<Rightarrow> string \<Rightarrow> guard_error + unit" where
  "assertLocalManagedMcpUrl allow parse_url ip resolver rawUrl =
     (case parseHttpUrl parse_url rawUrl of
        Inl e \<Rightarrow> Inl e
      | Inr url \<Rightarrow>
          (if allow then Inr ()
           else if url_protocol url \<noteq> ''https:'' then Inl RequiresHttps
           else
             (let hostname = strip_brackets (url_hostname url) in
              if ip hostname \<noteq> 0
              then (if isLocalManagedMcpPrivateAddress ip hostname then Inl PrivateAddress else Inr ())
              else
                (case resolver hostname of
                   None \<Rightarrow> Inl DoesNotResolve
                 | Some addresses \<Rightarrow> validateResolvedAddresses allow ip addresses))))"

section \<open>The guarded fetch\<close>

text \<open>A request: header names are in lower case, as \<open>Headers\<close> keeps them.\<close>

record 'b request_init =
  in_method :: "string option"
  in_body :: "'b option"
  in_headers :: "(string \<times> string) list"

record response =
  res_status :: nat
  res_location :: "string option"

definition REDIRECT_STATUSES :: "nat list" where
  "REDIRECT_STATUSES = [301, 302, 303, 307, 308]"

definition CREDENTIAL_HEADERS :: "string list" where
  "CREDENTIAL_HEADERS =
     [''authorization'', ''cookie'', ''proxy-authorization'', ''mcp-session-id'', ''last-event-id'', ''x-api-key'', ''x-auth-token'']"

definition without_headers :: "string list \<Rightarrow> (string \<times> string) list \<Rightarrow> (string \<times> string) list" where
  "without_headers names headers = filter (\<lambda>(n, v). n \<notin> set names) headers"

definition redirectedRequestInit ::
    "'b request_init \<Rightarrow> nat \<Rightarrow> url \<Rightarrow> url \<Rightarrow> guard_error + 'b request_init" where
  "redirectedRequestInit init status from to =
     (if url_protocol from = ''https:'' \<and> url_protocol to \<noteq> ''https:'' then Inl LessSecureRedirect
      else
        (let headers = in_headers init;
             verb = upper_ascii (opt_default ''GET'' (in_method init));
             crosses = url_origin from \<noteq> url_origin to
         in if crosses \<and> ((verb \<noteq> ''GET'' \<and> verb \<noteq> ''HEAD'') \<or> in_body init \<noteq> None) then Inl BodyAcrossOrigins
            else
              (let headers = (if crosses then without_headers CREDENTIAL_HEADERS headers else headers);
                   switchToGet = ((status = 303 \<and> verb \<noteq> ''HEAD'') \<or> ((status = 301 \<or> status = 302) \<and> verb = ''POST''))
               in if switchToGet
                  then Inr \<lparr>in_method = Some ''GET'', in_body = None,
                            in_headers = without_headers [''content-length'', ''content-type''] headers\<rparr>
                  else Inr (init\<lparr>in_headers := headers\<rparr>))))"

text \<open>The checks in front of every request.\<close>

definition guard_request :: "bool \<Rightarrow> (string \<Rightarrow> url option) \<Rightarrow> (string \<Rightarrow> nat) \<Rightarrow> url \<Rightarrow> guard_error + unit" where
  "guard_request allow parse_url ip current =
     (case parseHttpUrl parse_url (url_href current) of
        Inl e \<Rightarrow> Inl e
      | Inr parsed \<Rightarrow>
          (if \<not> allow \<and> url_protocol parsed \<noteq> ''https:'' then Inl RequiresHttps
           else
             (let hostname = strip_brackets (url_hostname parsed) in
              if \<not> allow \<and> ip hostname \<noteq> 0 \<and> isLocalManagedMcpPrivateAddress ip hostname then Inl PrivateAddress
              else Inr ())))"

text \<open>The loop, from a number of redirects: the requests that are sent, and the outcome.\<close>

function guarded_loop ::
    "bool \<Rightarrow> (string \<Rightarrow> url option) \<Rightarrow> (string \<Rightarrow> url \<Rightarrow> url option) \<Rightarrow> (string \<Rightarrow> nat)
      \<Rightarrow> (nat \<Rightarrow> url \<Rightarrow> 'b request_init \<Rightarrow> response option) \<Rightarrow> nat \<Rightarrow> url \<Rightarrow> 'b request_init
      \<Rightarrow> (url \<times> 'b request_init) list \<times> (guard_error + response)" where
  "guarded_loop allow parse_url resolve ip serve redirectCount current currentInit =
     (case guard_request allow parse_url ip current of
        Inl e \<Rightarrow> ([], Inl e)
      | Inr _ \<Rightarrow>
          (let sent = (current, currentInit) in
           case serve redirectCount current currentInit of
             None \<Rightarrow> ([sent], Inl TransportFailed)
           | Some response \<Rightarrow>
               (let location = opt_default [] (res_location response) in
                if res_status response \<notin> set REDIRECT_STATUSES \<or> location = [] then ([sent], Inr response)
                else if 5 \<le> redirectCount then ([sent], Inl RedirectLimit)
                else
                  (case resolve location current of
                     None \<Rightarrow> ([sent], Inl BadLocation)
                   | Some next \<Rightarrow>
                       (case redirectedRequestInit currentInit (res_status response) current next of
                          Inl e \<Rightarrow> ([sent], Inl e)
                        | Inr nextInit \<Rightarrow>
                            (let (requests, outcome) =
                                   guarded_loop allow parse_url resolve ip serve (redirectCount + 1) next nextInit
                             in (sent # requests, outcome)))))))"
  by pat_completeness auto
termination
  by (relation "measure (\<lambda>(_, _, _, _, _, n, _, _). 6 - n)") auto

declare guarded_loop.simps [simp del]

definition createLocalManagedMcpGuardedFetch ::
    "bool \<Rightarrow> (string \<Rightarrow> url option) \<Rightarrow> (string \<Rightarrow> url \<Rightarrow> url option) \<Rightarrow> (string \<Rightarrow> nat)
      \<Rightarrow> (nat \<Rightarrow> url \<Rightarrow> 'b request_init \<Rightarrow> response option) \<Rightarrow> string \<Rightarrow> 'b request_init
      \<Rightarrow> (url \<times> 'b request_init) list \<times> (guard_error + response)" where
  "createLocalManagedMcpGuardedFetch allow parse_url resolve ip serve input init =
     (case parse_url input of
        None \<Rightarrow> ([], Inl NotAUrl)
      | Some current \<Rightarrow> guarded_loop allow parse_url resolve ip serve 0 current init)"

section \<open>Texts of addresses\<close>

definition dotted :: "nat list \<Rightarrow> string" where
  "dotted octets = join ''.'' (map (\<lambda>n. js_number_text (int n)) octets)"

lemma decimal_digit: "d < 10 \<Longrightarrow> is_digit (digit_char d) \<and> of_char (digit_char d) = 48 + d \<and> \<not> js_space (digit_char d)"
proof -
  assume d: "d < 10"
  then have n: "of_char (digit_char d) = 48 + d" by (simp add: digit_char_def)
  then have "\<not> js_space (digit_char d)" using d by (auto simp: js_space_def)
  then show ?thesis using d n by (simp add: is_digit_def)
qed

lemma digits_text_less: "c \<in> set (map digit_char (digits_in b n)) \<Longrightarrow> 2 \<le> b \<Longrightarrow> \<exists>d < b. c = digit_char d"
  using digits_in_less [of b _ n] unfolding set_map by blast

lemma decimal_value_digits:
  assumes "\<forall>d \<in> set ds. d < 10"
  shows "foldl (\<lambda>n c. n * 10 + (of_char c - 48)) a (map digit_char ds) = foldl (\<lambda>a d. a * 10 + d) a ds"
  using assms by (induction ds arbitrary: a) (simp_all add: decimal_digit)

lemma octet_of_text: "n \<le> 255 \<Longrightarrow> octet_of (js_number_text (int n)) = Some n"
proof -
  assume n: "n \<le> 255"
  let ?s = "map digit_char (digits_in 10 n)"
  have s: "js_number_text (int n) = ?s" by (simp add: js_number_text_def)
  have ne: "?s \<noteq> []" using digits_in_nonempty by simp
  have chars: "is_digit c \<and> \<not> js_space c" if "c \<in> set ?s" for c
    using digits_text_less [OF that] decimal_digit by auto
  have "js_trim ?s = ?s"
    by (rule js_trim_id [OF ne]) (use chars hd_in_set [OF ne] last_in_set [OF ne] in blast)+
  moreover have "decimal_value ?s = n"
    using decimal_value_digits [of "digits_in 10 n" 0] digits_in_less [of 10 _ n] digits_in_value [of 10 n]
    by (simp add: decimal_value_def)
  ultimately show "octet_of (js_number_text (int n)) = Some n"
    using n chars unfolding s octet_of_def by (simp add: list_all_iff)
qed

lemma number_text_plain: "c \<in> set (js_number_text (int n)) \<Longrightarrow> is_digit c"
  using digits_text_less [of c 10 n] decimal_digit by (auto simp: js_number_text_def)

lemma those_map_Some: "\<forall>x \<in> set xs. f (g x) = Some x \<Longrightarrow> those (map f (map g xs)) = Some xs"
  by (induction xs) auto

lemma parseIpv4_dotted:
  assumes "length octets = 4" and "\<forall>n \<in> set octets. n \<le> 255"
  shows "parseIpv4 (dotted octets) = Some octets"
proof -
  have "octets \<noteq> []" using assms(1) by auto
  moreover have "\<forall>w \<in> set (map (\<lambda>n. js_number_text (int n)) octets). CHR ''.'' \<notin> set w"
    using number_text_plain [of "CHR ''.''"] by (auto simp: is_digit_def)
  ultimately have "split_on CHR ''.'' (dotted octets) = map (\<lambda>n. js_number_text (int n)) octets"
    unfolding dotted_def by (intro split_on_join) simp_all
  then show ?thesis
    using assms those_map_Some [of octets octet_of "\<lambda>n. js_number_text (int n)"] octet_of_text
    by (simp add: parseIpv4_def)
qed

lemma isPrivateIpv4_dotted:
  "length octets = 4 \<Longrightarrow> \<forall>n \<in> set octets. n \<le> 255 \<Longrightarrow> isPrivateIpv4 (dotted octets) = private_octets octets"
  by (simp add: isPrivateIpv4_def parseIpv4_dotted)

text \<open>Blocks of addresses: a prefix, in units of \<open>u\<close> bits, and its length in bits.\<close>

fun in_block :: "nat \<Rightarrow> nat list \<Rightarrow> nat list \<times> nat \<Rightarrow> bool" where
  "in_block u (x # xs) (y # ys, k) =
     (if u \<le> k then x = y \<and> in_block u xs (ys, k - u) else x div 2 ^ (u - k) = y div 2 ^ (u - k))"
| "in_block u xs (ys, k) = True"

definition IPV4_BLOCKS :: "(nat list \<times> nat) list" where
  "IPV4_BLOCKS =
     [([0], 8), ([10], 8), ([127], 8), ([100, 64], 10), ([169, 254], 16), ([172, 16], 12), ([192, 0, 0], 24), ([192, 0, 2], 24),
      ([192, 88, 99], 24), ([192, 168], 16), ([198, 18], 15), ([198, 51, 100], 24), ([203, 0, 113], 24), ([224], 3)]"

lemma octet_parts:
  assumes "n \<le> (255::nat)"
  shows "n div 64 = 1 \<longleftrightarrow> 64 \<le> n \<and> n \<le> 127" and "n div 16 = 1 \<longleftrightarrow> 16 \<le> n \<and> n \<le> 31"
    and "n div 2 = 9 \<longleftrightarrow> n = 18 \<or> n = 19" and "n div 32 = 7 \<longleftrightarrow> 224 \<le> n"
  using assms by linarith+

lemma private_octets_blocks:
  assumes "length octets = 4" and "\<forall>n \<in> set octets. n \<le> 255"
  shows "private_octets octets = (\<exists>b \<in> set IPV4_BLOCKS. in_block 8 octets b)"
proof -
  obtain a b c d where o4: "octets = [a, b, c, d]"
    using assms(1) by (auto simp: length_Suc_conv eval_nat_numeral)
  have "a \<le> 255" "b \<le> 255" using assms(2) o4 by simp_all
  note parts = octet_parts [OF this(1)] octet_parts [OF this(2)]
  show ?thesis
    unfolding o4 IPV4_BLOCKS_def private_octets_def Let_def
    using parts by (simp add: conj_disj_distribL disj_assoc)
qed

lemma hex_digit:
  assumes "d < 16"
  shows "hex_letter (digit_char d)" and "(if is_digit (digit_char d) then of_char (digit_char d) - 48 else of_char (digit_char d) - 87) = d"
    and "lower_char (digit_char d) = digit_char d"
proof -
  have n: "of_char (digit_char d) = (if d < 10 then 48 + d else 87 + d)" using assms by (simp add: digit_char_def)
  then show "hex_letter (digit_char d)" using assms by (simp add: hex_letter_def)
  show "(if is_digit (digit_char d) then of_char (digit_char d) - 48 else of_char (digit_char d) - 87) = d"
    using n assms by (simp add: is_digit_def)
  show "lower_char (digit_char d) = digit_char d"
    using n assms by (simp add: lower_char_def)
qed

lemma hex_number_text: "hex_number (hex_text n) = n"
proof -
  have "foldl (\<lambda>n c. n * 16 + (if is_digit c then of_char c - 48 else of_char c - 87)) a (map digit_char ds) =
      foldl (\<lambda>a d. a * 16 + d) a ds" if "\<forall>d \<in> set ds. d < 16" for a ds
    using that by (induction ds arbitrary: a) (simp_all add: hex_digit)
  then show ?thesis
    using digits_in_less [of 16 _ n] digits_in_value [of 16 n] by (simp add: hex_number_def hex_text_def)
qed

lemma hex_text_letter: "c \<in> set (hex_text n) \<Longrightarrow> hex_letter c \<and> lower_char c = c"
  using digits_text_less [of c 16 n] hex_digit by (auto simp: hex_text_def)

lemma hex_text_length: "n < 65536 \<Longrightarrow> 1 \<le> length (hex_text n) \<and> length (hex_text n) \<le> 4"
  using digits_in_length [of 16 n 3] digits_in_nonempty [of 16 n] by (simp add: hex_text_def Suc_le_eq)

lemma hex_letter_other: "hex_letter c \<Longrightarrow> c \<noteq> CHR '':'' \<and> c \<noteq> CHR ''.'' \<and> c \<noteq> CHR ''%''"
  by (auto simp: hex_letter_def)

text \<open>Groups of hexadecimal numbers between colons.\<close>

definition groups :: "nat list \<Rightarrow> string" where
  "groups ws = join '':'' (map hex_text ws)"

lemma set_join: "set (join sep ws) \<subseteq> set sep \<union> (\<Union>w \<in> set ws. set w)"
  by (induction sep ws rule: join.induct) auto

lemma groups_chars: "c \<in> set (groups ws) \<Longrightarrow> c = CHR '':'' \<or> hex_letter c \<and> lower_char c = c"
  using set_join [of "'':''" "map hex_text ws"] hex_text_letter by (auto simp: groups_def)

lemma split_pairs_nonempty [simp]: "split_pairs c s \<noteq> []"
  by (induction c s rule: split_pairs.induct) (auto split: list.splits)

lemma split_pairs_word:
  "c \<notin> set w \<Longrightarrow> split_pairs c (w @ s) = (w @ hd (split_pairs c s)) # tl (split_pairs c s)"
proof (induction w)
  case Nil
  then show ?case by simp
next
  case (Cons d w)
  then show ?case by (cases "w @ s") (auto split: list.splits)
qed

lemma split_pairs_single:
  "s \<noteq> [] \<Longrightarrow> hd s \<noteq> c \<Longrightarrow> split_pairs c (c # s) = (c # hd (split_pairs c s)) # tl (split_pairs c s)"
  by (cases s) (auto split: list.splits)

lemma join_hd: "v \<noteq> [] \<Longrightarrow> join sep (v # vs) \<noteq> [] \<and> hd (join sep (v # vs)) = hd v"
  by (cases vs) auto

lemma split_pairs_join:
  assumes "ws \<noteq> []" and "\<forall>w \<in> set ws. w \<noteq> [] \<and> c \<notin> set w"
  shows "split_pairs c (join [c] ws @ s) = (join [c] ws @ hd (split_pairs c s)) # tl (split_pairs c s)"
  using assms
proof (induction ws)
  case Nil
  then show ?case by simp
next
  case (Cons w ws)
  show ?case
  proof (cases ws)
    case Nil
    then show ?thesis using Cons.prems split_pairs_word [of c w s] by simp
  next
    case (Cons v vs)
    let ?j = "join [c] ws"
    have ih: "split_pairs c (?j @ s) = (?j @ hd (split_pairs c s)) # tl (split_pairs c s)"
      by (rule Cons.IH) (use Cons.prems(2) \<open>ws = v # vs\<close> in simp_all)
    have v: "v \<noteq> []" "c \<notin> set v" using Cons.prems(2) \<open>ws = v # vs\<close> by simp_all
    then have j: "?j \<noteq> []" "hd ?j \<noteq> c" using join_hd [OF v(1), of "[c]" vs] hd_in_set [OF v(1)] \<open>ws = v # vs\<close> by auto
    have "join [c] (w # ws) @ s = w @ c # (?j @ s)" using Cons by simp
    then show ?thesis
      using split_pairs_word [of c w "c # (?j @ s)"] split_pairs_single [of "?j @ s" c] j ih Cons.prems(2) Cons
      by simp
  qed
qed

lemma groups_words:
  "\<forall>w \<in> set ws. w < 65536 \<Longrightarrow> \<forall>t \<in> set (map hex_text ws). t \<noteq> [] \<and> CHR '':'' \<notin> set t"
  using hex_text_length hex_text_letter hex_letter_other by fastforce

lemma split_groups:
  assumes "\<forall>w \<in> set ws. w < 65536"
  shows "split_pairs CHR '':'' (groups ws @ s) = (groups ws @ hd (split_pairs CHR '':'' s)) # tl (split_pairs CHR '':'' s)"
proof (cases "ws = []")
  case True
  then show ?thesis by (simp add: groups_def)
next
  case False
  then show ?thesis using split_pairs_join [of "map hex_text ws"] groups_words [OF assms] by (simp add: groups_def)
qed

lemma parse_half_groups:
  assumes "\<forall>w \<in> set ws. w < 65536"
  shows "parse_half (groups ws) = Some ws"
proof (cases "ws = []")
  case True
  then show ?thesis by (simp add: parse_half_def groups_def)
next
  case False
  have split: "split_on CHR '':'' (groups ws) = map hex_text ws"
    unfolding groups_def using False groups_words [OF assms] by (intro split_on_join) simp_all
  have "groups ws \<noteq> []"
    using split groups_words [OF assms] False by (cases "groups ws") auto
  then show ?thesis
    using split assms hex_text_length hex_text_letter
    by (simp add: parse_half_def list_all_iff hex_number_text comp_def del: One_nat_def)
qed

text \<open>The spellings of an IPv6 address: all groups, or a run of zero groups left out.\<close>

inductive spells :: "string \<Rightarrow> nat list \<Rightarrow> bool" where
  spells_all: "length ws = 8 \<Longrightarrow> js_lower s = groups ws \<Longrightarrow> spells s ws"
| spells_short: "length h + length t < 8 \<Longrightarrow> js_lower s = groups h @ ''::'' @ groups t \<Longrightarrow>
    spells s (h @ replicate (8 - length h - length t) 0 @ t)"

lemma hex_letter_not: "\<not> hex_letter CHR ''%''" "\<not> hex_letter CHR ''.''"
  by (simp_all add: hex_letter_def)

lemma spelled_chars:
  assumes "s = groups h \<or> s = groups h @ ''::'' @ groups t"
  shows "CHR ''%'' \<notin> set s" and "dotted_tail s = Some s"
proof -
  have "c = CHR '':'' \<or> hex_letter c" if "c \<in> set s" for c
  proof -
    have "c \<in> set (groups h) \<or> c = CHR '':'' \<or> c \<in> set (groups t)" using that assms by auto
    then show ?thesis using groups_chars by blast
  qed
  note chars = this
  show "CHR ''%'' \<notin> set s" using chars [of "CHR ''%''"] hex_letter_not by auto
  have "CHR ''.'' \<notin> set s" using chars [of "CHR ''.''"] hex_letter_not by auto
  then show "dotted_tail s = Some s" by (simp add: dotted_tail_def)
qed

lemma parse_spelled:
  assumes "spells s ws" and "\<forall>w \<in> set ws. w < 65536"
  shows "length ws = 8 \<and> parseIpv6Words s = Some ws"
  using assms(1)
proof cases
  case spells_all
  have "split_pairs CHR '':'' (groups ws) = [groups ws]" using split_groups [OF assms(2), of "[]"] by simp
  then show ?thesis
    using spells_all spelled_chars [of "groups ws" ws] parse_half_groups [OF assms(2)]
    by (simp add: parseIpv6Words_def js_at_def opt_default_def parse_half_def)
next
  case (spells_short h t)
  have h: "\<forall>w \<in> set h. w < 65536" and t: "\<forall>w \<in> set t. w < 65536" using assms(2) spells_short(1) by auto
  have "split_pairs CHR '':'' (groups h @ ''::'' @ groups t) = [groups h, groups t]"
    using split_groups [OF h, of "''::'' @ groups t"] split_groups [OF t, of "[]"] by simp
  then show ?thesis
    using spells_short spelled_chars [of "groups h @ ''::'' @ groups t" h t] parse_half_groups [OF h] parse_half_groups [OF t]
    by (simp add: parseIpv6Words_def js_at_def opt_default_def)
qed

section \<open>Private addresses\<close>

lemma and_high_bits:
  fixes n :: nat
  assumes "n < 2 ^ (k + m)"
  shows "n AND push_bit k (mask m) = n div 2 ^ k * 2 ^ k"
proof -
  have n: "take_bit (k + m) n = n" using assms by (simp add: take_bit_nat_eq_self)
  have "n AND push_bit k (mask m) = push_bit k (drop_bit k n)"
  proof (rule bit_eqI)
    fix i
    have "bit n i \<longleftrightarrow> bit n i \<and> i < k + m" using n by (metis bit_take_bit_iff)
    then show "bit (n AND push_bit k (mask m)) i = bit (push_bit k (drop_bit k n)) i"
      by (auto simp: bit_and_iff bit_push_bit_iff bit_mask_iff bit_drop_bit_eq)
  qed
  then show ?thesis by (simp add: push_bit_eq_mult drop_bit_eq_div)
qed

lemma word_masks:
  fixes n :: nat
  assumes "n < 65536"
  shows "n AND 0xfe00 = 0xfc00 \<longleftrightarrow> n div 512 = 126" and "n AND 0xffc0 = 0xfe80 \<longleftrightarrow> n div 64 = 1018"
    and "n AND 0xffc0 = 0xfec0 \<longleftrightarrow> n div 64 = 1019" and "n AND 0xff00 = 0xff00 \<longleftrightarrow> n div 256 = 255"
    and "n AND 0xfff0 = 0x0010 \<longleftrightarrow> n div 16 = 1" and "n AND 0xfff0 = 0x0020 \<longleftrightarrow> n div 16 = 2"
    and "n AND 0xff = n mod 256"
proof -
  have masks: "(0xfe00 :: nat) = push_bit 9 (mask 7)" "(0xffc0 :: nat) = push_bit 6 (mask 10)"
    "(0xff00 :: nat) = push_bit 8 (mask 8)" "(0xfff0 :: nat) = push_bit 4 (mask 12)"
    by (simp_all add: push_bit_eq_mult mask_eq_exp_minus_1)
  have "n AND 0xfe00 = n div 512 * 512" "n AND 0xffc0 = n div 64 * 64" "n AND 0xff00 = n div 256 * 256"
    "n AND 0xfff0 = n div 16 * 16"
    unfolding masks using and_high_bits [of n 9 7] and_high_bits [of n 6 10] and_high_bits [of n 8 8] and_high_bits [of n 4 12] assms
    by simp_all
  then show "n AND 0xfe00 = 0xfc00 \<longleftrightarrow> n div 512 = 126" "n AND 0xffc0 = 0xfe80 \<longleftrightarrow> n div 64 = 1018"
    "n AND 0xffc0 = 0xfec0 \<longleftrightarrow> n div 64 = 1019" "n AND 0xff00 = 0xff00 \<longleftrightarrow> n div 256 = 255"
    "n AND 0xfff0 = 0x0010 \<longleftrightarrow> n div 16 = 1" "n AND 0xfff0 = 0x0020 \<longleftrightarrow> n div 16 = 2"
    by simp_all
  show "n AND 0xff = n mod 256"
    using take_bit_eq_mask [of 8 n] by (simp add: take_bit_eq_mod mask_eq_exp_minus_1)
qed

definition IPV6_BLOCKS :: "(nat list \<times> nat) list" where
  "IPV6_BLOCKS =
     [([0, 0, 0, 0, 0, 0], 96), ([0xfc00], 7), ([0xfe80], 10), ([0xfec0], 10), ([0xff00], 8), ([0x100, 0, 0, 0], 64),
      ([0x2001, 0xdb8], 32), ([0x2001, 2, 0], 48), ([0x2001, 0x10], 28), ([0x2001, 0x20], 28)]"

text \<open>The blocks that embed an IPv4 address, with the group it starts at.\<close>

definition IPV6_EMBEDDING :: "((nat list \<times> nat) \<times> nat) list" where
  "IPV6_EMBEDDING =
     [(([0, 0, 0, 0, 0, 0xffff], 96), 6), (([0, 0, 0, 0, 0xffff, 0], 96), 6), (([0x64, 0xff9b, 0, 0, 0, 0], 96), 6), (([0x2002], 16), 1)]"

definition word_octets :: "nat list \<Rightarrow> nat \<Rightarrow> nat list" where
  "word_octets ws i = [ws ! i div 256, ws ! i mod 256, ws ! (i + 1) div 256, ws ! (i + 1) mod 256]"

definition private_words :: "nat list \<Rightarrow> bool" where
  "private_words ws =
     ((\<exists>b \<in> set IPV6_BLOCKS. in_block 16 ws b) \<or>
      (\<exists>(b, i) \<in> set IPV6_EMBEDDING. in_block 16 ws b \<and> (\<exists>c \<in> set IPV4_BLOCKS. in_block 8 (word_octets ws i) c)))"

lemma embedded_private:
  assumes "\<forall>w \<in> set ws. w < 65536" and "i + 1 < length ws"
  shows "isPrivateIpv4 (embeddedIpv4 ws i) = (\<exists>c \<in> set IPV4_BLOCKS. in_block 8 (word_octets ws i) c)"
proof -
  have w: "ws ! i < 65536" "ws ! (i + 1) < 65536" using assms by simp_all
  have "embeddedIpv4 ws i = dotted (word_octets ws i)"
    using word_masks(7) [OF w(1)] word_masks(7) [OF w(2)] by (simp add: embeddedIpv4_def dotted_def word_octets_def)
  moreover have "length (word_octets ws i) = 4" "\<forall>n \<in> set (word_octets ws i). n \<le> 255"
    using w by (auto simp: word_octets_def)
  ultimately show ?thesis using isPrivateIpv4_dotted private_octets_blocks by simp
qed

lemma length8: "length ws = 8 \<Longrightarrow> \<exists>a b c d e f g h. ws = [a, b, c, d, e, f, g, h]"
  by (auto simp: length_Suc_conv eval_nat_numeral)

lemma private_words_parsed:
  assumes "parseIpv6Words s = Some ws" and "length ws = 8" and "\<forall>w \<in> set ws. w < 65536"
  shows "isPrivateIpv6 s = private_words ws"
proof -
  obtain a b c d e f g h where ws: "ws = [a, b, c, d, e, f, g, h]" using length8 [OF assms(2)] by blast
  have ab: "a < 65536" "b < 65536" using assms(3) ws by simp_all
  define e6 e1 where "e6 = (\<exists>c \<in> set IPV4_BLOCKS. in_block 8 (word_octets ws 6) c)"
    and "e1 = (\<exists>c \<in> set IPV4_BLOCKS. in_block 8 (word_octets ws 1) c)"
  have emb: "isPrivateIpv4 (embeddedIpv4 ws 6) = e6" "isPrivateIpv4 (embeddedIpv4 ws 1) = e1"
    unfolding e6_def e1_def using embedded_private [OF assms(3)] assms(2) by simp_all
  have spec: "private_words ws \<longleftrightarrow>
      (a = 0 \<and> b = 0 \<and> c = 0 \<and> d = 0 \<and> e = 0 \<and> f = 0 \<or> a div 512 = 126 \<or> a div 64 = 1018 \<or> a div 64 = 1019 \<or> a div 256 = 255 \<or>
       a = 256 \<and> b = 0 \<and> c = 0 \<and> d = 0 \<or> a = 8193 \<and> b = 3512 \<or> a = 8193 \<and> b = 2 \<and> c = 0 \<or>
       a = 8193 \<and> b div 16 = 1 \<or> a = 8193 \<and> b div 16 = 2) \<or>
      (a = 0 \<and> b = 0 \<and> c = 0 \<and> d = 0 \<and> e = 0 \<and> f = 65535 \<and> e6 \<or> a = 0 \<and> b = 0 \<and> c = 0 \<and> d = 0 \<and> e = 65535 \<and> f = 0 \<and> e6 \<or>
       a = 100 \<and> b = 65435 \<and> c = 0 \<and> d = 0 \<and> e = 0 \<and> f = 0 \<and> e6 \<or> a = 8194 \<and> e1)"
    unfolding private_words_def IPV6_EMBEDDING_def IPV6_BLOCKS_def e6_def [symmetric] e1_def [symmetric]
    by (simp add: e6_def [symmetric] e1_def [symmetric] del: One_nat_def) (simp add: ws)
  have ix: "ws ! 0 = a" "ws ! 1 = b" "ws ! 2 = c" "ws ! 4 = e" "ws ! 5 = f" "ws ! 7 = h" by (simp_all add: ws)
  have zeros: "list_all (\<lambda>w. w = 0) (Prelude.slice ws 0 7) = (a = 0 \<and> b = 0 \<and> c = 0 \<and> d = 0 \<and> e = 0 \<and> f = 0 \<and> g = 0)"
    "list_all (\<lambda>w. w = 0) (Prelude.slice ws 0 6) = (a = 0 \<and> b = 0 \<and> c = 0 \<and> d = 0 \<and> e = 0 \<and> f = 0)"
    "list_all (\<lambda>w. w = 0) (Prelude.slice ws 0 5) = (a = 0 \<and> b = 0 \<and> c = 0 \<and> d = 0 \<and> e = 0)"
    "list_all (\<lambda>w. w = 0) (Prelude.slice ws 0 4) = (a = 0 \<and> b = 0 \<and> c = 0 \<and> d = 0)"
    "list_all (\<lambda>w. w = 0) (Prelude.slice ws 2 6) = (c = 0 \<and> d = 0 \<and> e = 0 \<and> f = 0)"
    "list_all (\<lambda>w. w = 0) (Prelude.slice ws 1 4) = (b = 0 \<and> c = 0 \<and> d = 0)"
    by (simp_all add: ws Prelude.slice_def)
  have code: "isPrivateIpv6 s =
      (if a = 0 \<and> b = 0 \<and> c = 0 \<and> d = 0 \<and> e = 0 \<and> f = 0 \<and> g = 0 \<and> (h = 0 \<or> h = 1) then True
       else if a = 0 \<and> b = 0 \<and> c = 0 \<and> d = 0 \<and> e = 0 \<and> f = 65535 then e6
       else if a = 0 \<and> b = 0 \<and> c = 0 \<and> d = 0 \<and> e = 65535 \<and> f = 0 then e6
       else if a = 0 \<and> b = 0 \<and> c = 0 \<and> d = 0 \<and> e = 0 \<and> f = 0 then True
       else if a = 100 \<and> b = 65435 \<and> c = 0 \<and> d = 0 \<and> e = 0 \<and> f = 0 then e6
       else if a div 512 = 126 \<or> a div 64 = 1018 \<or> a div 64 = 1019 then True
       else if a div 256 = 255 then True
       else if a = 256 \<and> b = 0 \<and> c = 0 \<and> d = 0 then True
       else if a = 8193 \<and> (b = 3512 \<or> (b = 2 \<and> c = 0)) then True
       else if a = 8193 \<and> (b div 16 = 1 \<or> b div 16 = 2) then True
       else a = 8194 \<and> e1)"
    unfolding isPrivateIpv6_def assms(1) Let_def option.case emb word_masks [OF ab(1), symmetric] word_masks [OF ab(2), symmetric]
      ix zeros conj_assoc
    by (rule refl)
  consider "a = 0" | "a = 100" | "a = 8194" | "a \<noteq> 0" "a \<noteq> 100" "a \<noteq> 8194" by blast
  then show ?thesis
  proof cases
    case 1
    then show ?thesis unfolding spec code by auto
  next
    case 4
    have if_true: "(if p then True else q) = (p \<or> q)" for p q by simp
    show ?thesis using 4 unfolding spec code by (simp only: simp_thms if_False if_true conj_disj_distribL disj_assoc)
  qed (unfold spec code, auto)
qed

text \<open>C28. The IPv4 addresses the guard takes for private.

  The text of four octets is read back, and is private exactly when the address lies in one of the
  blocks of the table: this network, private use, shared, loopback, link local, protocol
  assignments, documentation, 6to4 relays, benchmarking, multicast and reserved.\<close>

theorem private_ipv4_blocks:
  assumes "length octets = 4" and "\<forall>n \<in> set octets. n \<le> 255" and "ip (dotted octets) = 4"
  shows "parseIpv4 (dotted octets) = Some octets \<and>
         isLocalManagedMcpPrivateAddress ip (dotted octets) = (\<exists>b \<in> set IPV4_BLOCKS. in_block 8 octets b)"
  using parseIpv4_dotted [OF assms(1,2)] isPrivateIpv4_dotted [OF assms(1,2)] private_octets_blocks [OF assms(1,2)] assms(3)
  by (simp add: isLocalManagedMcpPrivateAddress_def)

lemma private_ipv4_blocks_witness:
  "\<not> isLocalManagedMcpPrivateAddress (\<lambda>_. 4) (dotted [172, 32, 0, 1]) \<and>
   isLocalManagedMcpPrivateAddress (\<lambda>_. 4) (dotted [172, 31, 255, 255])"
  using private_ipv4_blocks [of "[172, 32, 0, 1]" "\<lambda>_. 4"] private_ipv4_blocks [of "[172, 31, 255, 255]" "\<lambda>_. 4"]
  by (simp add: IPV4_BLOCKS_def)



section \<open>What the guard lets out\<close>

text \<open>A request that carries no credentials: none of the credential headers, and no body.\<close>

definition bare :: "'b request_init \<Rightarrow> bool" where
  "bare init = (in_body init = None \<and> (\<forall>(n, v) \<in> set (in_headers init). n \<notin> set CREDENTIAL_HEADERS))"

lemma redirected_bare:
  assumes "redirectedRequestInit init status u v = Inr init'" and "url_origin u \<noteq> url_origin v \<or> bare init"
  shows "bare init'"
  using assms by (auto simp: redirectedRequestInit_def bare_def Let_def without_headers_def split: if_splits)

text \<open>A URL a request may go to: HTTPS, without credentials, and not a private address.\<close>

definition url_let_out :: "(string \<Rightarrow> nat) \<Rightarrow> url \<Rightarrow> bool" where
  "url_let_out ip u =
     (url_protocol u = ''https:'' \<and> url_username u = [] \<and> url_password u = [] \<and>
      (ip (strip_brackets (url_hostname u)) = 0 \<or>
       \<not> isLocalManagedMcpPrivateAddress ip (strip_brackets (url_hostname u))))"

lemma guard_request_let_out:
  "guard_request False parse_url ip u = Inr x \<Longrightarrow> parse_url (url_href u) = Some u \<Longrightarrow> url_let_out ip u"
  by (auto simp: guard_request_def parseHttpUrl_def url_let_out_def Let_def split: if_splits)

text \<open>Once a request has gone to another origin than \<open>home\<close>, every further one is bare.\<close>

fun bare_after_leaving :: "string \<Rightarrow> bool \<Rightarrow> (url \<times> 'b request_init) list \<Rightarrow> bool" where
  "bare_after_leaving home away [] = True"
| "bare_after_leaving home away ((u, init) # rs) =
     (let away = (away \<or> url_origin u \<noteq> home) in (away \<longrightarrow> bare init) \<and> bare_after_leaving home away rs)"

text \<open>One round of the loop: it stops with at most one request, or sends one and goes on.\<close>

lemma guarded_round:
  fixes serve :: "nat \<Rightarrow> url \<Rightarrow> 'b request_init \<Rightarrow> response option"
  assumes "run = (\<lambda>n u i. fst (guarded_loop allow parse_url resolve ip serve n u i))"
  shows "run n u i = [] \<or>
    guard_request allow parse_url ip u = Inr () \<and>
    (run n u i = [(u, i)] \<or>
     (\<exists>v i' s l. n < 5 \<and> resolve l u = Some v \<and> redirectedRequestInit i s u v = Inr i' \<and>
        run n u i = (u, i) # run (n + 1) v i'))"
proof (cases "guard_request allow parse_url ip u")
  case (Inl e)
  then show ?thesis by (simp add: assms guarded_loop.simps [of _ _ _ _ _ n])
next
  case guard: (Inr x)
  note step = guarded_loop.simps [of allow parse_url resolve ip serve n u i]
  show ?thesis
  proof (cases "serve n u i")
    case None
    then show ?thesis using guard step by (simp add: assms)
  next
    case (Some r)
    define l where "l = opt_default [] (res_location r)"
    show ?thesis
    proof (cases "res_status r \<notin> set REDIRECT_STATUSES \<or> l = [] \<or> 5 \<le> n")
      case True
      then show ?thesis using guard step Some by (auto simp: assms Let_def l_def)
    next
      case False
      then have go: "guarded_loop allow parse_url resolve ip serve n u i =
          (case resolve l u of None \<Rightarrow> ([(u, i)], Inl BadLocation)
           | Some v \<Rightarrow> (case redirectedRequestInit i (res_status r) u v of Inl e \<Rightarrow> ([(u, i)], Inl e)
               | Inr i' \<Rightarrow> let (rs, out) = guarded_loop allow parse_url resolve ip serve (n + 1) v i' in ((u, i) # rs, out)))"
        using guard step Some by (simp add: Let_def l_def)
      show ?thesis
      proof (cases "\<exists>v i'. resolve l u = Some v \<and> redirectedRequestInit i (res_status r) u v = Inr i'")
        case True
        then obtain v i' where vi: "resolve l u = Some v" "redirectedRequestInit i (res_status r) u v = Inr i'" by blast
        then have "run n u i = (u, i) # run (n + 1) v i'" unfolding assms go by (simp add: Let_def split_beta)
        then show ?thesis using guard vi False by auto
      next
        case False
        then have "run n u i = [(u, i)]" unfolding assms go by (auto split: option.split sum.split)
        then show ?thesis using guard by simp
      qed
    qed
  qed
qed

lemma guarded_loop_safe:
  fixes serve :: "nat \<Rightarrow> url \<Rightarrow> 'b request_init \<Rightarrow> response option"
  assumes run: "run = (\<lambda>n u i. fst (guarded_loop False parse_url resolve ip serve n u i))"
    and "\<And>l b v. resolve l b = Some v \<Longrightarrow> parse_url (url_href v) = Some v"
  shows "parse_url (url_href u) = Some u \<Longrightarrow> n \<le> 5 \<Longrightarrow> away \<or> url_origin u \<noteq> home \<longrightarrow> bare i \<Longrightarrow>
    length (run n u i) \<le> 6 - n \<and> (\<forall>(v, j) \<in> set (run n u i). url_let_out ip v) \<and>
    bare_after_leaving home away (run n u i)"
proof (induction "6 - n" arbitrary: n u i away)
  case 0
  then show ?case by simp
next
  case (Suc k)
  note round = guarded_round [OF run, of n u i]
  have out: "url_let_out ip u" if "guard_request False parse_url ip u = Inr ()"
    using guard_request_let_out [OF that Suc.prems(1)] .
  show ?case
    using round
  proof (elim disjE conjE exE)
    assume "run n u i = []"
    then show ?thesis by simp
  next
    assume "guard_request False parse_url ip u = Inr ()" "run n u i = [(u, i)]"
    then show ?thesis using out Suc.prems by (auto simp: Let_def)
  next
    fix v i' s l
    assume g: "guard_request False parse_url ip u = Inr ()" and n: "n < 5" and v: "resolve l u = Some v"
      and i': "redirectedRequestInit i s u v = Inr i'" and r: "run n u i = (u, i) # run (n + 1) v i'"
    let ?away = "away \<or> url_origin u \<noteq> home"
    have "?away \<or> url_origin v \<noteq> home \<longrightarrow> bare i'"
      using redirected_bare [OF i'] Suc.prems(3) by auto
    then have "length (run (n + 1) v i') \<le> 6 - (n + 1) \<and> (\<forall>(v, j) \<in> set (run (n + 1) v i'). url_let_out ip v) \<and>
        bare_after_leaving home ?away (run (n + 1) v i')"
      using Suc.hyps(2) n by (intro Suc.hyps(1) assms(2) [OF v]) auto
    then show ?thesis using r n out [OF g] Suc.prems(3) by (auto simp: Let_def)
  qed
qed

text \<open>C6. What the guarded fetch lets out.

  With private URLs not allowed, and a URL parser that reads the text of a parsed URL back as that
  URL, whatever the servers answer: at most six requests are sent; every one of them goes to an
  HTTPS URL without credentials that is not a private address; and from the first request to an
  origin other than the first one on, no request carries a credential header or a body - not even
  when a redirect leads back to the first origin.\<close>

theorem guarded_fetch_safe:
  fixes serve :: "nat \<Rightarrow> url \<Rightarrow> 'b request_init \<Rightarrow> response option"
  assumes "\<And>s v. parse_url s = Some v \<Longrightarrow> parse_url (url_href v) = Some v"
    and "\<And>l b v. resolve l b = Some v \<Longrightarrow> parse_url (url_href v) = Some v"
    and "createLocalManagedMcpGuardedFetch False parse_url resolve ip serve input init = (requests, outcome)"
  shows "length requests \<le> 6 \<and> (\<forall>(u, i) \<in> set requests. url_let_out ip u) \<and>
    (requests \<noteq> [] \<longrightarrow> bare_after_leaving (url_origin (fst (hd requests))) False requests)"
proof (cases "parse_url input")
  case None
  then show ?thesis using assms(3) by (simp add: createLocalManagedMcpGuardedFetch_def)
next
  case (Some u)
  then have r: "requests = fst (guarded_loop False parse_url resolve ip serve 0 u init)"
    using assms(3) by (simp add: createLocalManagedMcpGuardedFetch_def)
  have "requests \<noteq> [] \<longrightarrow> fst (hd requests) = u"
    using guarded_round [OF refl, of False parse_url resolve ip serve 0 u init] unfolding r by auto
  then show ?thesis
    using guarded_loop_safe [where n = 0 and away = False and home = "url_origin u" and i = init,
        OF refl assms(2) assms(1) [OF Some]]
    unfolding r by auto
qed

text \<open>A fetch that is redirected to another origin and back.\<close>

definition site :: "string \<Rightarrow> url" where
  "site host = \<lparr>url_href = ''https://'' @ host @ ''/'', url_protocol = ''https:'', url_username = [], url_password = [],
     url_hostname = host, url_origin = ''https://'' @ host\<rparr>"

definition sites :: "string \<Rightarrow> url option" where
  "sites s = (if s = url_href (site ''a'') then Some (site ''a'') else if s = url_href (site ''b'') then Some (site ''b'') else None)"

definition there_and_back :: "nat \<Rightarrow> url \<Rightarrow> unit request_init \<Rightarrow> response option" where
  "there_and_back n u i = Some (if n = 0 then \<lparr>res_status = 307, res_location = Some (url_href (site ''b''))\<rparr>
     else if n = 1 then \<lparr>res_status = 302, res_location = Some (url_href (site ''a''))\<rparr>
     else \<lparr>res_status = 200, res_location = None\<rparr>)"

definition with_secret :: "unit request_init" where
  "with_secret = \<lparr>in_method = None, in_body = None, in_headers = [(''authorization'', ''secret''), (''accept'', ''text/plain'')]\<rparr>"

lemma guarded_fetch_safe_witness:
  "\<exists>i j k. fst (createLocalManagedMcpGuardedFetch False sites (\<lambda>l b. sites l) (\<lambda>_. 0) there_and_back ''https://a/'' with_secret) =
     [(site ''a'', i), (site ''b'', j), (site ''a'', k)] \<and> \<not> bare i \<and> bare j \<and> bare k"
proof -
  let ?run = "createLocalManagedMcpGuardedFetch False sites (\<lambda>l b. sites l) (\<lambda>_. 0) there_and_back ''https://a/'' with_secret"
  have urls: "map fst (fst ?run) = [site ''a'', site ''b'', site ''a'']" by code_simp
  then obtain i j k where run: "fst ?run = [(site ''a'', i), (site ''b'', j), (site ''a'', k)]"
    by (auto simp: map_eq_Cons_conv)
  have first: "snd (hd (fst ?run)) = with_secret" by code_simp
  have stable: "sites s = Some v \<Longrightarrow> sites (url_href v) = Some v" for s v
    by (auto simp: sites_def split: if_splits)
  have "bare_after_leaving (url_origin (fst (hd (fst ?run)))) False (fst ?run)"
    using guarded_fetch_safe [where parse_url = sites and resolve = "\<lambda>l b. sites l", OF stable _ surjective_pairing [of ?run]]
      stable run by simp
  then have "bare_after_leaving (url_origin (site ''a'')) False (fst ?run)" using run by simp
  moreover have "url_origin (site ''a'') \<noteq> url_origin (site ''b'')" by (simp add: site_def)
  moreover have "\<not> bare with_secret" by code_simp
  ultimately show ?thesis using run first by (auto simp: Let_def)
qed

section \<open>Name lookups\<close>

lemma first_private_None: "first_private ip as = None \<longleftrightarrow> (\<forall>a \<in> set as. \<not> isLocalManagedMcpPrivateAddress ip (la_address a))"
  by (induction as) auto

lemma validated: "validateResolvedAddresses False ip as = Inr x \<longleftrightarrow>
    as \<noteq> [] \<and> (\<forall>a \<in> set as. \<not> isLocalManagedMcpPrivateAddress ip (la_address a))"
  by (auto simp: validateResolvedAddresses_def first_private_None [symmetric] split: option.split)

text \<open>A lookup hands the socket public addresses of the name only, and at least one; one private
  address among several refuses them all.\<close>

lemma lookup_hands_out_public:
  "createLocalManagedMcpPublicLookup False ip resolver h every = Inr as \<Longrightarrow>
     as \<noteq> [] \<and> (\<forall>a \<in> set as. \<not> isLocalManagedMcpPrivateAddress ip (la_address a)) \<and>
     (\<exists>found. resolver h = Some found \<and> set as \<subseteq> set found \<and>
       (\<forall>a \<in> set found. \<not> isLocalManagedMcpPrivateAddress ip (la_address a)))"
  using hd_in_set
  by (fastforce simp: createLocalManagedMcpPublicLookup_def validated split: option.splits sum.splits if_splits)

text \<open>A configured URL is accepted exactly when it is let out and, where its host is a name, the
  name resolves to public addresses only.\<close>

lemma assert_url_iff:
  "assertLocalManagedMcpUrl False parse_url ip resolver s = Inr () \<longleftrightarrow>
     (\<exists>u. parse_url s = Some u \<and> url_let_out ip u \<and>
        (ip (strip_brackets (url_hostname u)) = 0 \<longrightarrow>
           (\<exists>found. resolver (strip_brackets (url_hostname u)) = Some found \<and> found \<noteq> [] \<and>
              (\<forall>a \<in> set found. \<not> isLocalManagedMcpPrivateAddress ip (la_address a)))))"
  by (auto simp: assertLocalManagedMcpUrl_def parseHttpUrl_def url_let_out_def Let_def validated
      split: option.splits if_splits)

end
