(* ===== verification/EditorDiff.thy ===== *)
theory EditorDiff
  imports Automations
begin

text \<open>
  The line diff of the editor's saves (\<open>apps/server/src/editor-diff.ts\<close>): Myers' search with
  its backtracking, the counts used past the bound, and the hunks of the unified text.

  Indexes into \<open>v\<close> are integers as in the source, read with \<open>nat\<close>; a line read out of range
  is \<open>None\<close>, as \<open>undefined\<close>. The operations are pushed back to front and then reversed in the
  source; here every push goes to the front.
\<close>

section \<open>Lines and operations\<close>

definition splitLines :: "string \<Rightarrow> string list" where
  "splitLines s =
     (if s = [] then []
      else (let lines = split_on (CHR 0x0A) s in if last lines = [] then butlast lines else lines))"

datatype op_kind = Same | Removed | Added

type_synonym 'a diff_op = "op_kind \<times> 'a"

definition old_of :: "'a diff_op list \<Rightarrow> 'a list" where
  "old_of ops = map snd (filter (\<lambda>op. fst op \<noteq> Added) ops)"

definition new_of :: "'a diff_op list \<Rightarrow> 'a list" where
  "new_of ops = map snd (filter (\<lambda>op. fst op \<noteq> Removed) ops)"

definition edits :: "'a diff_op list \<Rightarrow> nat" where
  "edits ops = length (filter (\<lambda>op. fst op \<noteq> Same) ops)"

section \<open>Myers' search\<close>

definition line_at :: "'a list \<Rightarrow> int \<Rightarrow> 'a option" where
  "line_at xs i = (if 0 \<le> i \<and> i < int (length xs) then Some (xs ! nat i) else None)"

function snake :: "'a list \<Rightarrow> 'a list \<Rightarrow> int \<Rightarrow> int \<Rightarrow> int" where
  "snake a b x y =
     (if x < int (length a) \<and> y < int (length b) \<and> line_at a x = line_at b y then snake a b (x + 1) (y + 1) else x)"
  by pat_completeness auto
termination
  by (relation "measure (\<lambda>(a, b, x, y). nat (int (length a) - x))") auto

declare snake.simps [simp del]

definition start_x :: "(int \<Rightarrow> int) \<Rightarrow> int \<Rightarrow> int \<Rightarrow> int" where
  "start_x v d k = (if k = - d \<or> (k \<noteq> d \<and> v (k - 1) < v (k + 1)) then v (k + 1) else v (k - 1) + 1)"

fun k_loop :: "'a list \<Rightarrow> 'a list \<Rightarrow> int \<Rightarrow> int \<Rightarrow> int list \<Rightarrow> int list \<Rightarrow> int list \<times> bool" where
  "k_loop a b offset d v [] = (v, False)"
| "k_loop a b offset d v (k # ks) =
     (let x = start_x (\<lambda>k. v ! nat (offset + k)) d k;
          x = snake a b x (x - k);
          v = v[nat (offset + k) := x]
      in if int (length a) \<le> x \<and> int (length b) \<le> x - k then (v, True) else k_loop a b offset d v ks)"

text \<open>\<open>for (k = -d; k <= d; k += 2)\<close>.\<close>

definition diagonals :: "nat \<Rightarrow> int list" where
  "diagonals d = map (\<lambda>i. 2 * int i - int d) [0..<d + 1]"

fun d_loop ::
    "'a list \<Rightarrow> 'a list \<Rightarrow> nat \<Rightarrow> int list \<Rightarrow> int list list \<Rightarrow> nat list \<Rightarrow> (nat \<times> int list list) option" where
  "d_loop a b offset v trace [] = None"
| "d_loop a b offset v trace (d # ds) =
     (let trace = trace @ [Prelude.slice v (offset - d - 1) (offset + d + 2)];
          (v, found) = k_loop a b (int offset) (int d) v (diagonals d)
      in if found then Some (d, trace) else d_loop a b offset v trace ds)"

function walk_back :: "'a list \<Rightarrow> int \<Rightarrow> int \<Rightarrow> int \<Rightarrow> int \<Rightarrow> 'a diff_op list \<Rightarrow> int \<times> int \<times> 'a diff_op list" where
  "walk_back a x y prevX prevY ops =
     (if prevX < x \<and> prevY < y then walk_back a (x - 1) (y - 1) prevX prevY ((Same, a ! nat (x - 1)) # ops)
      else (x, y, ops))"
  by pat_completeness auto
termination
  by (relation "measure (\<lambda>(a, x, y, px, py, ops). nat (x - px))") auto

declare walk_back.simps [simp del]

definition back_step ::
    "'a list \<Rightarrow> 'a list \<Rightarrow> int list \<Rightarrow> int \<Rightarrow> int \<Rightarrow> int \<Rightarrow> 'a diff_op list \<Rightarrow> int \<times> int \<times> 'a diff_op list" where
  "back_step a b prev d x y ops =
     (let at = (\<lambda>diagonal. prev ! nat (diagonal + d + 1));
          k = x - y;
          prevK = (if k = - d \<or> (k \<noteq> d \<and> at (k - 1) < at (k + 1)) then k + 1 else k - 1);
          prevX = at prevK;
          prevY = prevX - prevK;
          (x, y, ops) = walk_back a x y prevX prevY ops;
          op = (if x = prevX then (Added, b ! nat (y - 1)) else (Removed, a ! nat (x - 1)))
      in (prevX, prevY, op # ops))"

primrec backtrack ::
    "nat \<Rightarrow> 'a list \<Rightarrow> 'a list \<Rightarrow> int list list \<Rightarrow> int \<Rightarrow> int \<Rightarrow> 'a diff_op list \<Rightarrow> 'a diff_op list" where
  "backtrack 0 a b trace x y ops = snd (snd (walk_back a x y 0 0 ops))"
| "backtrack (Suc d) a b trace x y ops =
     (let (prevX, prevY, ops) = back_step a b (trace ! Suc d) (int (Suc d)) x y ops
      in backtrack d a b trace prevX prevY ops)"

definition myers :: "'a list \<Rightarrow> 'a list \<Rightarrow> nat \<Rightarrow> 'a diff_op list option" where
  "myers a b maxEdits =
     (let n = length a; m = length b; limit = min (n + m) maxEdits; offset = limit + 1
      in case d_loop a b offset (replicate (2 * limit + 3) 0) [] [0..<limit + 1] of
           None \<Rightarrow> None
         | Some (found, trace) \<Rightarrow> Some (backtrack found a b trace (int n) (int m) []))"

section \<open>Counts and hunks\<close>

text \<open>\<open>multisetCounts\<close>: the first loop fills the map, the second takes lines out of it.\<close>

fun count_lines :: "'a list \<Rightarrow> ('a, nat) jsmap \<Rightarrow> ('a, nat) jsmap" where
  "count_lines [] counts = counts"
| "count_lines (x # xs) counts = count_lines xs (jm_set x (opt_default 0 (jm_get x counts) + 1) counts)"

fun take_lines :: "'a list \<Rightarrow> ('a, nat) jsmap \<Rightarrow> nat \<Rightarrow> ('a, nat) jsmap \<times> nat" where
  "take_lines [] counts added = (counts, added)"
| "take_lines (x # xs) counts added =
     (let left = opt_default 0 (jm_get x counts)
      in if 0 < left then take_lines xs (jm_set x (left - 1) counts) added else take_lines xs counts (added + 1))"

definition multisetCounts :: "'a list \<Rightarrow> 'a list \<Rightarrow> nat \<times> nat" where
  "multisetCounts a b =
     (let (counts, added) = take_lines b (count_lines a []) 0 in (added, sum_list (jm_values counts)))"

definition CONTEXT_LINES :: nat where "CONTEXT_LINES = 3"

definition MAX_EDITOR_DIFF_EDITS :: nat where "MAX_EDITOR_DIFF_EDITS = 1500"

record 'a hunk =
  hk_oldStart :: nat
  hk_oldCount :: nat
  hk_newStart :: nat
  hk_newCount :: nat
  hk_body :: "'a diff_op list"

definition header_range :: "nat \<Rightarrow> nat \<Rightarrow> string" where
  "header_range start n =
     (if n = 1 then js_number_text (int start)
      else js_number_text (if n = 0 then int start - 1 else int start) @ '','' @ js_number_text (int n))"

definition hunkHeader :: "nat \<Rightarrow> nat \<Rightarrow> nat \<Rightarrow> nat \<Rightarrow> string" where
  "hunkHeader oldStart oldCount newStart newCount =
     ''@@ -'' @ header_range oldStart oldCount @ '' +'' @ header_range newStart newCount @ '' @@''"

text \<open>The index of the first change from \<open>i\<close> on, or the length.\<close>

definition gap_end :: "'a diff_op list \<Rightarrow> nat \<Rightarrow> nat" where
  "gap_end ops i = i + length (takeWhile (\<lambda>op. fst op = Same) (drop i ops))"

lemma gap_end_Same: "i < length ops \<Longrightarrow> fst (ops ! i) = Same \<Longrightarrow> i < gap_end ops i"
  by (simp add: gap_end_def Cons_nth_drop_Suc [symmetric])

lemma gap_end_le: "i \<le> length ops \<Longrightarrow> gap_end ops i \<le> length ops"
  using length_takeWhile_le [of "\<lambda>op. fst op = Same" "drop i ops"] by (simp add: gap_end_def)

function hunk_end :: "'a diff_op list \<Rightarrow> nat \<Rightarrow> nat" where
  "hunk_end ops i =
     (if length ops \<le> i then i
      else if fst (ops ! i) \<noteq> Same then hunk_end ops (i + 1)
      else
        (let gap = gap_end ops i
         in if length ops \<le> gap \<or> 2 * CONTEXT_LINES < gap - i then min (length ops) (i + CONTEXT_LINES)
            else hunk_end ops gap))"
  by pat_completeness auto
termination
  by (relation "measure (\<lambda>(ops, i). length ops - i)") (auto simp: gap_end_Same intro!: diff_less_mono2)

declare hunk_end.simps [simp del]

lemma hunk_end_ge: "i \<le> length ops \<Longrightarrow> i \<le> hunk_end ops i \<and> hunk_end ops i \<le> length ops"
proof (induction ops i rule: hunk_end.induct)
  case (1 ops i)
  show ?case
  proof (cases "length ops \<le> i \<or> fst (ops ! i) = Same")
    case True
    then show ?thesis
      using 1 gap_end_Same [of i ops] gap_end_le [of i ops]
      by (subst (1 2) hunk_end.simps) (auto simp: Let_def)
  next
    case False
    then show ?thesis using 1 by (subst (1 2) hunk_end.simps) auto
  qed
qed

lemma hunk_end_gt: "i < length ops \<Longrightarrow> fst (ops ! i) \<noteq> Same \<Longrightarrow> i < hunk_end ops i"
  using hunk_end_ge [of "i + 1" ops] by (simp add: hunk_end.simps [of ops i])

function hunks_from :: "'a diff_op list \<Rightarrow> nat \<Rightarrow> nat \<Rightarrow> nat \<Rightarrow> 'a hunk list" where
  "hunks_from ops i oldLine newLine =
     (if length ops \<le> i then []
      else if fst (ops ! i) = Same then hunks_from ops (i + 1) (oldLine + 1) (newLine + 1)
      else
        (let start = i - CONTEXT_LINES; e = hunk_end ops i; lead = i - start; body = Prelude.slice ops start e; rest = Prelude.slice ops i e
         in \<lparr>hk_oldStart = oldLine - lead, hk_oldCount = length (old_of body),
             hk_newStart = newLine - lead, hk_newCount = length (new_of body), hk_body = body\<rparr>
            # hunks_from ops e (oldLine + length (old_of rest)) (newLine + length (new_of rest))))"
  by pat_completeness auto
termination
  by (relation "measure (\<lambda>(ops, i, ol, nl). length ops - i)") (auto simp: hunk_end_gt intro!: diff_less_mono2)

declare hunks_from.simps [simp del]

definition kind_char :: "op_kind \<Rightarrow> char" where
  "kind_char k = (case k of Same \<Rightarrow> CHR '' '' | Removed \<Rightarrow> CHR ''-'' | Added \<Rightarrow> CHR ''+'')"

definition hunk_lines :: "string hunk \<Rightarrow> string list" where
  "hunk_lines h =
     hunkHeader (hk_oldStart h) (hk_oldCount h) (hk_newStart h) (hk_newCount h)
       # map (\<lambda>(k, line). kind_char k # line) (hk_body h)"

record line_diff_stats =
  ld_added :: nat
  ld_removed :: nat
  ld_diff :: "string option"

fun common_prefix :: "'a list \<Rightarrow> 'a list \<Rightarrow> nat" where
  "common_prefix (x # xs) (y # ys) = (if x = y then Suc (common_prefix xs ys) else 0)"
| "common_prefix xs ys = 0"

text \<open>The lines that differ after the common prefix and the common suffix are cut, and the
  operations on all lines.\<close>

definition diff_ops :: "'a list \<Rightarrow> 'a list \<Rightarrow> nat \<Rightarrow> ('a list \<times> 'a list) + 'a diff_op list" where
  "diff_ops a b maxEdits =
     (let prefix = common_prefix a b;
          suffix = common_prefix (rev (drop prefix a)) (rev (drop prefix b));
          midA = Prelude.slice a prefix (length a - suffix);
          midB = Prelude.slice b prefix (length b - suffix)
      in case myers midA midB maxEdits of
           None \<Rightarrow> Inl (midA, midB)
         | Some middle \<Rightarrow> Inr (map (Pair Same) (take prefix a) @ middle @ map (Pair Same) (drop (length a - suffix) a)))"

definition editorLineDiff :: "string \<Rightarrow> string \<Rightarrow> string \<Rightarrow> nat \<Rightarrow> line_diff_stats" where
  "editorLineDiff path before after maxEdits =
     (if before = after then \<lparr>ld_added = 0, ld_removed = 0, ld_diff = Some []\<rparr>
      else
        (case diff_ops (splitLines before) (splitLines after) maxEdits of
           Inl (midA, midB) \<Rightarrow>
             (let (added, removed) = multisetCounts midA midB in \<lparr>ld_added = added, ld_removed = removed, ld_diff = None\<rparr>)
         | Inr ops \<Rightarrow>
             (let added = length (filter (\<lambda>op. fst op = Added) ops);
                  removed = length (filter (\<lambda>op. fst op = Removed) ops);
                  nl = [CHR 0x0A];
                  names = ''--- a/'' @ path @ nl @ ''+++ b/'' @ path
              in if added = 0 \<and> removed = 0
                 then \<lparr>ld_added = 0, ld_removed = 0, ld_diff = Some (names @ nl @ [CHR 0x5C] @ '' final newline changed'' @ nl)\<rparr>
                 else \<lparr>ld_added = added, ld_removed = removed,
                       ld_diff = Some (join nl ((''--- a/'' @ path) # (''+++ b/'' @ path)
                         # concat (map hunk_lines (hunks_from ops 0 1 1))) @ nl)\<rparr>)))"

section \<open>Snakes\<close>

lemma line_at_Some: "line_at xs i = Some l \<longleftrightarrow> 0 \<le> i \<and> i < int (length xs) \<and> l = xs ! nat i"
  by (auto simp: line_at_def)

lemma snake_ge: "x \<le> snake a b x y"
  by (induction a b x y rule: snake.induct) (subst snake.simps, auto)

lemma snake_matches: "x \<le> i \<Longrightarrow> i < snake a b x y \<Longrightarrow>
    i < int (length a) \<and> i - x + y < int (length b) \<and> line_at a i = line_at b (i - x + y)"
proof (induction a b x y rule: snake.induct)
  case (1 a b x y)
  show ?case
  proof (cases "x < int (length a) \<and> y < int (length b) \<and> line_at a x = line_at b y")
    case True
    then have "snake a b x y = snake a b (x + 1) (y + 1)" by (subst snake.simps) simp
    then show ?thesis using 1 True by (cases "i = x") (auto simp: algebra_simps)
  next
    case False
    then have "snake a b x y = x" by (subst snake.simps) auto
    then show ?thesis using 1 by simp
  qed
qed

lemma snake_lines: "x \<le> i \<Longrightarrow> i < snake a b x y \<Longrightarrow> 0 \<le> i \<Longrightarrow>
    line_at a i \<noteq> None \<and> line_at a i = line_at b (i - x + y)"
  using snake_matches [of x i a b y] by (metis line_at_def option.distinct(1))

lemma snake_stops:
  "\<not> (snake a b x y < int (length a) \<and> snake a b x y - x + y < int (length b) \<and>
      line_at a (snake a b x y) = line_at b (snake a b x y - x + y))"
proof (induction a b x y rule: snake.induct)
  case (1 a b x y)
  show ?case
  proof (cases "x < int (length a) \<and> y < int (length b) \<and> line_at a x = line_at b y")
    case True
    then have "snake a b x y = snake a b (x + 1) (y + 1)" by (subst snake.simps) simp
    then show ?thesis using 1 [OF True] by (simp add: algebra_simps)
  next
    case False
    moreover from False have "snake a b x y = x" by (subst snake.simps) auto
    ultimately show ?thesis by simp
  qed
qed

lemma snake_stays: "int (length a) \<le> x \<or> int (length b) \<le> y \<Longrightarrow> snake a b x y = x"
  by (subst snake.simps) auto

lemma snake_bounds: "x \<le> int (length a) \<Longrightarrow> snake a b x y \<le> int (length a)"
  using snake_matches [of x "snake a b x y - 1" a b y] snake_ge [of x a b y] by (cases "snake a b x y = x") auto

lemma snake_bounds_new: "y \<le> int (length b) \<Longrightarrow> snake a b x y - x + y \<le> int (length b)"
  using snake_matches [of x "snake a b x y - 1" a b y] snake_ge [of x a b y] by (cases "snake a b x y = x") auto

section \<open>The furthest points\<close>

text \<open>The value of \<open>v[k]\<close> after step \<open>d\<close>.\<close>

fun furthest :: "'a list \<Rightarrow> 'a list \<Rightarrow> nat \<Rightarrow> int \<Rightarrow> int" where
  "furthest a b 0 k = snake a b 0 (- k)"
| "furthest a b (Suc d) k =
     (let x = start_x (furthest a b d) (int (Suc d)) k in snake a b x (x - k))"

definition on_diagonal :: "nat \<Rightarrow> int \<Rightarrow> bool" where
  "on_diagonal d k = (- int d \<le> k \<and> k \<le> int d \<and> even (k - int d))"

lemma on_diagonal_0 [simp]: "on_diagonal 0 k \<longleftrightarrow> k = 0"
  by (auto simp: on_diagonal_def)

lemma on_diagonal_Suc:
  assumes "on_diagonal (Suc d) k"
  shows "k \<noteq> - int (Suc d) \<Longrightarrow> on_diagonal d (k - 1)" and "k \<noteq> int (Suc d) \<Longrightarrow> on_diagonal d (k + 1)"
  using assms unfolding on_diagonal_def by presburger+

lemma on_diagonal_next: "on_diagonal d k \<Longrightarrow> on_diagonal (Suc d) (k - 1) \<and> on_diagonal (Suc d) (k + 1)"
  unfolding on_diagonal_def by presburger

lemma diagonals_mem: "k \<in> set (diagonals d) \<longleftrightarrow> on_diagonal d k"
proof
  assume "on_diagonal d k"
  then obtain j where j: "k - int d = 2 * j" "- int d \<le> k" "k \<le> int d" unfolding on_diagonal_def by (blast elim: dvdE)
  then have "k = 2 * int (nat (j + int d)) - int d" "nat (j + int d) \<in> set [0..<d + 1]" by auto
  then show "k \<in> set (diagonals d)" unfolding diagonals_def set_map by (rule image_eqI)
qed (auto simp: diagonals_def on_diagonal_def)

lemma distinct_diagonals: "distinct (diagonals d)"
  unfolding diagonals_def distinct_map by (simp add: inj_on_def del: upt_Suc)

text \<open>Where a step starts: beyond both neighbours that exist, and at one of them.\<close>

lemma start_x_ge:
  assumes "on_diagonal (Suc d) k"
  shows "k \<noteq> - int (Suc d) \<Longrightarrow> v (k - 1) + 1 \<le> start_x v (int (Suc d)) k"
    and "k \<noteq> int (Suc d) \<Longrightarrow> v (k + 1) \<le> start_x v (int (Suc d)) k"
  by (auto simp: start_x_def)

lemma start_x_cases:
  assumes "on_diagonal (Suc d) k"
  obtains (down) "start_x v (int (Suc d)) k = v (k + 1)" "k \<noteq> int (Suc d)"
      "k = - int (Suc d) \<or> (k \<noteq> int (Suc d) \<and> v (k - 1) < v (k + 1))"
    | (right) "start_x v (int (Suc d)) k = v (k - 1) + 1" "k \<noteq> - int (Suc d)"
      "\<not> (k = - int (Suc d) \<or> (k \<noteq> int (Suc d) \<and> v (k - 1) < v (k + 1)))"
  by (cases "k = - int (Suc d) \<or> (k \<noteq> int (Suc d) \<and> v (k - 1) < v (k + 1))") (auto simp: start_x_def)

lemma furthest_ge:
  assumes "on_diagonal (Suc d) k"
  shows "k \<noteq> - int (Suc d) \<Longrightarrow> furthest a b d (k - 1) + 1 \<le> furthest a b (Suc d) k"
    and "k \<noteq> int (Suc d) \<Longrightarrow> furthest a b d (k + 1) \<le> furthest a b (Suc d) k"
  using start_x_ge [OF assms, of "furthest a b d"] snake_ge by (force simp: Let_def intro: order_trans)+

lemma furthest_pos: "on_diagonal d k \<Longrightarrow> 0 \<le> furthest a b d k \<and> k \<le> furthest a b d k"
proof (induction d arbitrary: k)
  case 0
  then show ?case using snake_ge [of 0 a b 0] by simp
next
  case (Suc d)
  show ?case
  proof (cases "k = - int (Suc d)")
    case True
    then show ?thesis
      using Suc.IH [of "k + 1"] on_diagonal_Suc [OF Suc.prems] furthest_ge(2) [OF Suc.prems, of a b] by auto
  next
    case False
    then show ?thesis
      using Suc.IH [of "k - 1"] on_diagonal_Suc [OF Suc.prems] furthest_ge(1) [OF Suc.prems, of a b] by auto
  qed
qed

text \<open>A point beyond the end of one of the lists was beyond it a step before.\<close>

lemma furthest_beyond_old:
  "on_diagonal d k \<Longrightarrow> int (length a) < furthest a b d k \<Longrightarrow>
     0 < d \<and> k \<noteq> - int d \<and> furthest a b d k - 1 \<le> furthest a b (d - 1) (k - 1)"
proof (induction d arbitrary: k)
  case 0
  then show ?case using snake_bounds [of 0 a b 0] by simp
next
  case (Suc d)
  let ?v = "furthest a b d" and ?x = "start_x (furthest a b d) (int (Suc d)) k"
  have x: "furthest a b (Suc d) k = ?x"
    using Suc.prems(2) snake_bounds [of ?x a b "?x - k"] snake_stays [of a ?x b "?x - k"]
    by (cases "?x \<le> int (length a)") (auto simp: Let_def)
  show ?case
  proof (cases rule: start_x_cases [OF Suc.prems(1), of ?v, case_names down right])
    case down
    have k1: "on_diagonal d (k + 1)" using down(2) on_diagonal_Suc(2) [OF Suc.prems(1)] by simp
    then have ih: "0 < d \<and> k + 1 \<noteq> - int d \<and> ?v (k + 1) - 1 \<le> furthest a b (d - 1) k"
      using Suc.IH [OF k1] Suc.prems(2) x down(1) by simp
    then obtain e where e: "d = Suc e" by (cases d) auto
    have k2: "k \<noteq> - int (Suc d)" using ih by auto
    then have "on_diagonal d (k - 1)" using on_diagonal_Suc(1) [OF Suc.prems(1)] by simp
    moreover have "k - 1 \<noteq> int (Suc e)" using down(2) e Suc.prems(1) by (auto simp: on_diagonal_def)
    ultimately have "furthest a b e k \<le> ?v (k - 1)"
      using furthest_ge(2) [of e "k - 1" a b] e by simp
    then show ?thesis using ih k2 x down(1) e by simp
  next
    case right
    then show ?thesis using x by simp
  qed
qed

lemma furthest_beyond_new:
  "on_diagonal d k \<Longrightarrow> int (length b) < furthest a b d k - k \<Longrightarrow>
     0 < d \<and> k \<noteq> int d \<and> furthest a b d k \<le> furthest a b (d - 1) (k + 1)"
proof (induction d arbitrary: k)
  case 0
  then show ?case using snake_bounds_new [of 0 b a 0] by simp
next
  case (Suc d)
  let ?v = "furthest a b d" and ?x = "start_x (furthest a b d) (int (Suc d)) k"
  have x: "furthest a b (Suc d) k = ?x"
    using Suc.prems(2) snake_bounds_new [of "?x - k" b a ?x] snake_stays [of a ?x b "?x - k"]
    by (cases "?x - k \<le> int (length b)") (auto simp: Let_def)
  show ?case
  proof (cases rule: start_x_cases [OF Suc.prems(1), of ?v, case_names down right])
    case down
    then show ?thesis using x by simp
  next
    case right
    have k1: "on_diagonal d (k - 1)" using right(2) on_diagonal_Suc(1) [OF Suc.prems(1)] by simp
    then have ih: "0 < d \<and> k - 1 \<noteq> int d \<and> ?v (k - 1) \<le> furthest a b (d - 1) k"
      using Suc.IH [OF k1] Suc.prems(2) x right(1) by simp
    then obtain e where e: "d = Suc e" by (cases d) auto
    have k2: "k \<noteq> int (Suc d)" using ih by auto
    then have "on_diagonal d (k + 1)" using on_diagonal_Suc(2) [OF Suc.prems(1)] by simp
    moreover have "k + 1 \<noteq> - int (Suc e)" using right(2) e Suc.prems(1) by (auto simp: on_diagonal_def)
    ultimately have "furthest a b e k + 1 \<le> ?v (k + 1)"
      using furthest_ge(1) [of e "k + 1" a b] e by simp
    then show ?thesis using ih k2 x right(1) e by simp
  qed
qed

text \<open>The first hit of the end is exactly the end.\<close>

definition hits :: "'a list \<Rightarrow> 'a list \<Rightarrow> nat \<Rightarrow> int \<Rightarrow> bool" where
  "hits a b d k = (on_diagonal d k \<and> int (length a) \<le> furthest a b d k \<and> int (length b) \<le> furthest a b d k - k)"

lemma first_hit:
  assumes "hits a b d k" and "\<forall>e < d. \<forall>k. \<not> hits a b e k"
  shows "furthest a b d k = int (length a) \<and> k = int (length a) - int (length b)"
proof -
  have k: "on_diagonal d k" "int (length a) \<le> furthest a b d k" "int (length b) \<le> furthest a b d k - k"
    using assms(1) by (simp_all add: hits_def)
  have "\<not> int (length a) < furthest a b d k"
  proof
    assume "int (length a) < furthest a b d k"
    then have b: "0 < d" "k \<noteq> - int d" "furthest a b d k - 1 \<le> furthest a b (d - 1) (k - 1)"
      using furthest_beyond_old [OF k(1)] by auto
    have "on_diagonal (d - 1) (k - 1)" using on_diagonal_Suc(1) [of "d - 1" k] k(1) b(1,2) by simp
    then have "hits a b (d - 1) (k - 1)" using b \<open>int (length a) < _\<close> k(3) by (simp add: hits_def)
    then show False using assms(2) b(1) by simp
  qed
  moreover have "\<not> int (length b) < furthest a b d k - k"
  proof
    assume "int (length b) < furthest a b d k - k"
    then have b: "0 < d" "k \<noteq> int d" "furthest a b d k \<le> furthest a b (d - 1) (k + 1)"
      using furthest_beyond_new [OF k(1)] by auto
    have "on_diagonal (d - 1) (k + 1)" using on_diagonal_Suc(2) [of "d - 1" k] k(1) b(1,2) by simp
    then have "hits a b (d - 1) (k + 1)" using b \<open>int (length b) < _\<close> k(2) by (simp add: hits_def)
    then show False using assms(2) b(1) by simp
  qed
  ultimately show ?thesis using k by linarith
qed

section \<open>The search computes the furthest points\<close>

text \<open>What \<open>v\<close> holds on the diagonals of a step.\<close>

definition holds_step :: "'a list \<Rightarrow> 'a list \<Rightarrow> nat \<Rightarrow> nat \<Rightarrow> int list \<Rightarrow> bool" where
  "holds_step a b offset d v = (\<forall>k. on_diagonal d k \<longrightarrow> v ! nat (int offset + k) = furthest a b d k)"

lemma start_x_cong:
  assumes "on_diagonal (Suc d) k" and "\<And>j. on_diagonal d j \<Longrightarrow> f j = g j"
  shows "start_x f (int (Suc d)) k = start_x g (int (Suc d)) k"
proof (cases "k = - int (Suc d) \<or> k = int (Suc d)")
  case True
  then show ?thesis using on_diagonal_Suc [OF assms(1)] assms(2) by (auto simp: start_x_def)
next
  case False
  then have "f (k - 1) = g (k - 1)" "f (k + 1) = g (k + 1)" using on_diagonal_Suc [OF assms(1)] assms(2) by auto
  then show ?thesis by (simp add: start_x_def)
qed

text \<open>One diagonal: the value written, from what the other diagonals hold.\<close>

definition ready :: "'a list \<Rightarrow> 'a list \<Rightarrow> nat \<Rightarrow> nat \<Rightarrow> int list \<Rightarrow> bool" where
  "ready a b offset d v =
     (length v = 2 * offset + 1 \<and> d < offset \<and>
      (case d of 0 \<Rightarrow> v ! nat (int offset + 1) = 0 | Suc e \<Rightarrow> holds_step a b offset e v))"

lemma ready_start:
  assumes "ready a b offset d v" and "on_diagonal d k"
  shows "(let x = start_x (\<lambda>k. v ! nat (int offset + k)) (int d) k in snake a b x (x - k)) = furthest a b d k"
proof (cases d)
  case 0
  then show ?thesis using assms by (simp add: start_x_def ready_def)
next
  case (Suc e)
  then have h: "\<And>j. on_diagonal e j \<Longrightarrow> v ! nat (int offset + j) = furthest a b e j"
    using assms(1) by (simp add: ready_def holds_step_def)
  have "start_x (\<lambda>k. v ! nat (int offset + k)) (int (Suc e)) k = start_x (furthest a b e) (int (Suc e)) k"
    using assms(2) Suc h by (intro start_x_cong) auto
  then show ?thesis using Suc by simp
qed

lemma diagonal_index: "on_diagonal d k \<Longrightarrow> d \<le> offset \<Longrightarrow> 0 \<le> int offset + k \<and> nat (int offset + k) < 2 * offset + 1"
  unfolding on_diagonal_def by auto

lemma ready_update:
  assumes "ready a b offset d v" and "on_diagonal d k"
  shows "ready a b offset d (v[nat (int offset + k) := x])"
proof (cases d)
  case 0
  then show ?thesis using assms by (auto simp: ready_def)
next
  case (Suc e)
  have "nat (int offset + k) \<noteq> nat (int offset + j)" if "on_diagonal e j" for j
  proof
    assume eq: "nat (int offset + k) = nat (int offset + j)"
    have "0 \<le> int offset + j" "0 \<le> int offset + k"
      using diagonal_index [OF that, of offset] diagonal_index [OF assms(2), of offset] assms(1) Suc by (auto simp: ready_def)
    then have "j = k" using eq by simp
    then show False using that assms(2) Suc unfolding on_diagonal_def by presburger
  qed
  then show ?thesis using assms Suc by (simp add: ready_def holds_step_def)
qed

lemma k_loop_spec:
  assumes "ready a b offset d v" and "\<forall>k \<in> set ks. on_diagonal d k" and "distinct ks"
  shows "(snd (k_loop a b (int offset) (int d) v ks) \<longleftrightarrow> (\<exists>k \<in> set ks. hits a b d k)) \<and>
    (\<not> snd (k_loop a b (int offset) (int d) v ks) \<longrightarrow>
       ready a b offset d (fst (k_loop a b (int offset) (int d) v ks)) \<and>
       (\<forall>k \<in> set ks. fst (k_loop a b (int offset) (int d) v ks) ! nat (int offset + k) = furthest a b d k) \<and>
       (\<forall>i. i \<notin> (\<lambda>k. nat (int offset + k)) ` set ks \<longrightarrow> fst (k_loop a b (int offset) (int d) v ks) ! i = v ! i))"
  using assms
proof (induction ks arbitrary: v)
  case Nil
  then show ?case by simp
next
  case (Cons k ks)
  let ?v = "v[nat (int offset + k) := furthest a b d k]"
  have k: "on_diagonal d k" using Cons.prems(2) by simp
  have d: "d \<le> offset" "length v = 2 * offset + 1" using Cons.prems(1) by (simp_all add: ready_def)
  have step: "k_loop a b (int offset) (int d) v (k # ks) =
      (if int (length a) \<le> furthest a b d k \<and> int (length b) \<le> furthest a b d k - k then (?v, True)
       else k_loop a b (int offset) (int d) ?v ks)"
    using ready_start [OF Cons.prems(1) k] by (simp add: Let_def)
  show ?case
  proof (cases "hits a b d k")
    case True
    then show ?thesis using step by (simp add: hits_def)
  next
    case False
    then have go: "k_loop a b (int offset) (int d) v (k # ks) = k_loop a b (int offset) (int d) ?v ks"
      using step k by (auto simp: hits_def)
    have fresh: "nat (int offset + k) \<notin> (\<lambda>k. nat (int offset + k)) ` set ks"
    proof
      assume "nat (int offset + k) \<in> (\<lambda>k. nat (int offset + k)) ` set ks"
      then obtain j where j: "j \<in> set ks" "nat (int offset + k) = nat (int offset + j)" by auto
      then have "k = j" using diagonal_index [OF k d(1)] diagonal_index [of d j offset] Cons.prems(2) d(1) by auto
      then show False using j(1) Cons.prems(3) by simp
    qed
    have ih: "(snd (k_loop a b (int offset) (int d) ?v ks) \<longleftrightarrow> (\<exists>k \<in> set ks. hits a b d k)) \<and>
      (\<not> snd (k_loop a b (int offset) (int d) ?v ks) \<longrightarrow>
         ready a b offset d (fst (k_loop a b (int offset) (int d) ?v ks)) \<and>
         (\<forall>k \<in> set ks. fst (k_loop a b (int offset) (int d) ?v ks) ! nat (int offset + k) = furthest a b d k) \<and>
         (\<forall>i. i \<notin> (\<lambda>k. nat (int offset + k)) ` set ks \<longrightarrow> fst (k_loop a b (int offset) (int d) ?v ks) ! i = ?v ! i))"
      by (rule Cons.IH) (use ready_update [OF Cons.prems(1) k] Cons.prems in simp_all)
    have "?v ! nat (int offset + k) = furthest a b d k"
      using diagonal_index [OF k d(1)] d(2) by simp
    then show ?thesis using ih fresh False unfolding go by auto
  qed
qed

text \<open>One step of the search.\<close>

lemma step_spec:
  assumes "ready a b offset d v" and "k_loop a b (int offset) (int d) v (diagonals d) = (v', found)"
  shows "found \<longleftrightarrow> (\<exists>k. hits a b d k)" and "\<not> found \<Longrightarrow> Suc d < offset \<Longrightarrow> ready a b offset (Suc d) v'"
proof -
  note spec = k_loop_spec [OF assms(1), of "diagonals d"]
  show f: "found \<longleftrightarrow> (\<exists>k. hits a b d k)"
    using spec assms(2) distinct_diagonals by (auto simp: diagonals_mem hits_def)
  show "ready a b offset (Suc d) v'" if "\<not> found" "Suc d < offset"
    using spec assms(2) distinct_diagonals that by (auto simp: diagonals_mem ready_def holds_step_def)
qed

text \<open>The trace: the part of \<open>v\<close> a step starts from.\<close>

definition trace_ok :: "'a list \<Rightarrow> 'a list \<Rightarrow> int list list \<Rightarrow> bool" where
  "trace_ok a b trace =
     (\<forall>d < length trace. \<forall>k. 0 < d \<longrightarrow> on_diagonal (d - 1) k \<longrightarrow> trace ! d ! nat (k + int d + 1) = furthest a b (d - 1) k)"

lemma trace_snoc:
  assumes "trace_ok a b trace" and "ready a b offset (length trace) v"
  shows "trace_ok a b (trace @ [Prelude.slice v (offset - length trace - 1) (offset + length trace + 2)])"
proof -
  let ?d = "length trace"
  have "Prelude.slice v (offset - ?d - 1) (offset + ?d + 2) ! nat (k + int ?d + 1) = furthest a b (?d - 1) k"
    if "0 < ?d" "on_diagonal (?d - 1) k" for k
  proof -
    have v: "holds_step a b offset (?d - 1) v" "length v = 2 * offset + 1" "?d < offset"
      using assms(2) that(1) by (auto simp: ready_def split: nat.splits)
    have i: "nat (k + int ?d + 1) \<le> 2 * ?d + 1" "offset - ?d - 1 + nat (k + int ?d + 1) = nat (int offset + k)"
      using that v(3) by (auto simp: on_diagonal_def)
    then have "Prelude.slice v (offset - ?d - 1) (offset + ?d + 2) ! nat (k + int ?d + 1) = v ! nat (int offset + k)"
      using v(2,3) by (simp add: Prelude.slice_def)
    then show ?thesis using v(1) that(2) by (simp add: holds_step_def)
  qed
  then show ?thesis using assms(1) by (auto simp: trace_ok_def nth_append less_Suc_eq)
qed

lemma d_loop_spec:
  assumes "trace_ok a b trace" and "length trace = d" and "ready a b offset d v" and "\<forall>e < d. \<forall>k. \<not> hits a b e k"
  shows "case d_loop a b offset v trace [d..<offset] of
      None \<Rightarrow> \<forall>e < offset. \<forall>k. \<not> hits a b e k
    | Some (found, trace') \<Rightarrow> d \<le> found \<and> found < offset \<and> length trace' = Suc found \<and> trace_ok a b trace' \<and>
        (\<exists>k. hits a b found k) \<and> (\<forall>e < found. \<forall>k. \<not> hits a b e k)"
  using assms
proof (induction "offset - d" arbitrary: d v trace)
  case 0
  then show ?case by (simp add: ready_def)
next
  case (Suc n)
  have d: "d < offset" using Suc.prems(3) by (simp add: ready_def)
  let ?t = "trace @ [Prelude.slice v (offset - d - 1) (offset + d + 2)]"
  have t: "trace_ok a b ?t" using trace_snoc [OF Suc.prems(1)] Suc.prems(2,3) by simp
  obtain v' found where kl: "k_loop a b (int offset) (int d) v (diagonals d) = (v', found)" by fastforce
  have loop: "d_loop a b offset v trace [d..<offset] = (if found then Some (d, ?t) else d_loop a b offset v' ?t [Suc d..<offset])"
    using d kl by (simp add: upt_conv_Cons)
  note step = step_spec [OF Suc.prems(3) kl]
  show ?case
  proof (cases found)
    case True
    then show ?thesis using loop d t step(1) Suc.prems(2,4) by simp
  next
    case False
    then have none: "\<forall>e < Suc d. \<forall>k. \<not> hits a b e k" using step(1) Suc.prems(4) by (auto simp: less_Suc_eq)
    show ?thesis
    proof (cases "Suc d < offset")
      case True
      have "case d_loop a b offset v' ?t [Suc d..<offset] of
          None \<Rightarrow> \<forall>e < offset. \<forall>k. \<not> hits a b e k
        | Some (found, trace') \<Rightarrow> Suc d \<le> found \<and> found < offset \<and> length trace' = Suc found \<and> trace_ok a b trace' \<and>
            (\<exists>k. hits a b found k) \<and> (\<forall>e < found. \<forall>k. \<not> hits a b e k)"
        using Suc.hyps(2) True step(2) [OF False True] t none Suc.prems(2) by (intro Suc.hyps(1)) auto
      then show ?thesis using loop False by (auto split: option.splits)
    next
      case last: False
      then have "offset = Suc d" using d by simp
      then show ?thesis using loop False none by simp
    qed
  qed
qed

section \<open>Backtracking\<close>

text \<open>Operations that turn what follows \<open>x\<close> in \<open>a\<close> into what follows \<open>y\<close> in \<open>b\<close>.\<close>

definition turns :: "'a list \<Rightarrow> 'a list \<Rightarrow> int \<Rightarrow> int \<Rightarrow> 'a diff_op list \<Rightarrow> bool" where
  "turns a b x y ops = (old_of ops = drop (nat x) a \<and> new_of ops = drop (nat y) b)"

lemma ops_simps [simp]:
  "old_of [] = []" "new_of [] = []" "edits [] = 0"
  "old_of ((Same, l) # ops) = l # old_of ops" "new_of ((Same, l) # ops) = l # new_of ops" "edits ((Same, l) # ops) = edits ops"
  "old_of ((Removed, l) # ops) = l # old_of ops" "new_of ((Removed, l) # ops) = new_of ops" "edits ((Removed, l) # ops) = Suc (edits ops)"
  "old_of ((Added, l) # ops) = old_of ops" "new_of ((Added, l) # ops) = l # new_of ops" "edits ((Added, l) # ops) = Suc (edits ops)"
  "old_of (p @ q) = old_of p @ old_of q" "new_of (p @ q) = new_of p @ new_of q" "edits (p @ q) = edits p + edits q"
  by (simp_all add: old_of_def new_of_def edits_def)

lemma drop_before: "0 < x \<Longrightarrow> x \<le> int (length a) \<Longrightarrow> drop (nat (x - 1)) a = a ! nat (x - 1) # drop (nat x) a"
  using Cons_nth_drop_Suc [of "nat (x - 1)" a] by (simp add: Suc_nat_eq_nat_zadd1)

definition matched :: "'a list \<Rightarrow> 'a list \<Rightarrow> int \<Rightarrow> int \<Rightarrow> int \<Rightarrow> bool" where
  "matched a b s x y = (\<forall>i. s \<le> i \<and> i < x \<longrightarrow> line_at a i \<noteq> None \<and> line_at a i = line_at b (i - x + y))"

lemma matched_back:
  assumes "matched a b s x y"
  shows "matched a b s (x - 1) (y - 1)"
  unfolding matched_def
proof (intro allI impI)
  fix i assume "s \<le> i \<and> i < x - 1"
  then have "s \<le> i \<and> i < x" by simp
  then have "line_at a i \<noteq> None \<and> line_at a i = line_at b (i - x + y)" using assms unfolding matched_def by blast
  moreover have "i - x + y = i - (x - 1) + (y - 1)" by simp
  ultimately show "line_at a i \<noteq> None \<and> line_at a i = line_at b (i - (x - 1) + (y - 1))" by metis
qed

lemma snake_matched:
  assumes "0 \<le> c" and "x = snake a b c (c - x + y)"
  shows "matched a b c x y"
  unfolding matched_def
proof (intro allI impI)
  fix i assume "c \<le> i \<and> i < x"
  then have "line_at a i \<noteq> None \<and> line_at a i = line_at b (i - c + (c - x + y))"
    using assms(1) by (intro snake_lines) (simp_all add: assms(2) [symmetric])
  moreover have "i - c + (c - x + y) = i - x + y" by simp
  ultimately show "line_at a i \<noteq> None \<and> line_at a i = line_at b (i - x + y)" by metis
qed

lemma walk_back_spec:
  assumes "turns a b x y ops" and "px \<le> x" and "py \<le> y" and "s = x - min (x - px) (y - py)"
    and "matched a b s x y"
  shows "\<exists>ops'. walk_back a x y px py ops = (s, s - x + y, ops') \<and> turns a b s (s - x + y) ops' \<and> edits ops' = edits ops"
  using assms
proof (induction a x y px py ops rule: walk_back.induct)
  case (1 a x y px py ops)
  show ?case
  proof (cases "px < x \<and> py < y")
    case True
    then have s: "s \<le> x - 1" using 1(5) by (auto simp: min_def)
    have e: "x - 1 - x + y = y - 1" by simp
    have "s \<le> x - 1 \<and> x - 1 < x" using s by simp
    then have at: "line_at a (x - 1) \<noteq> None" "line_at a (x - 1) = line_at b (y - 1)"
      using 1(6) unfolding matched_def e [symmetric] by blast+
    then have r: "0 < x" "x \<le> int (length a)" "0 < y" "y \<le> int (length b)" "a ! nat (x - 1) = b ! nat (y - 1)"
      by (auto simp: line_at_def split: if_splits)
    have "turns a b (x - 1) (y - 1) ((Same, a ! nat (x - 1)) # ops)"
      using 1(2) drop_before [OF r(1,2)] drop_before [OF r(3,4)] r(5) by (simp add: turns_def)
    moreover have "matched a b s (x - 1) (y - 1)" using matched_back [OF 1(6)] .
    ultimately have "\<exists>ops'. walk_back a (x - 1) (y - 1) px py ((Same, a ! nat (x - 1)) # ops) = (s, s - (x - 1) + (y - 1), ops') \<and>
        turns a b s (s - (x - 1) + (y - 1)) ops' \<and> edits ops' = edits ((Same, a ! nat (x - 1)) # ops)"
      using 1(5) True by (intro 1(1)) (auto simp: min_def)
    moreover have "walk_back a x y px py ops = walk_back a (x - 1) (y - 1) px py ((Same, a ! nat (x - 1)) # ops)"
      using True by (simp add: walk_back.simps [of a x y])
    moreover have "s - (x - 1) + (y - 1) = s - x + y" "edits ((Same, a ! nat (x - 1)) # ops) = edits ops" by simp_all
    ultimately show ?thesis by metis
  next
    case False
    then have "s = x" "walk_back a x y px py ops = (x, y, ops)" using 1(3-5) by (auto simp: walk_back.simps [of a x y] min_def)
    then show ?thesis using 1(2) by simp
  qed
qed

lemma back_step_at:
  assumes "at = (\<lambda>j. prev ! nat (j + d + 1))"
    and "pk = (if x - y = - d \<or> (x - y \<noteq> d \<and> at (x - y - 1) < at (x - y + 1)) then x - y + 1 else x - y - 1)"
    and "px = at pk" and "walk_back a x y px (px - pk) ops = (x', y', ops')"
  shows "back_step a b prev d x y ops =
    (px, px - pk, (if x' = px then (Added, b ! nat (y' - 1)) else (Removed, a ! nat (x' - 1))) # ops')"
  unfolding back_step_def Let_def assms(1) [symmetric] assms(2) [symmetric] assms(3) [symmetric] assms(4) by simp

text \<open>The step a point was reached by, as the search chose it.\<close>

lemma back_step_spec:
  assumes "trace_ok a b trace" and "Suc d < length trace" and "on_diagonal (Suc d) (x - y)"
    and "x = furthest a b (Suc d) (x - y)" and "x \<le> int (length a)" and "y \<le> int (length b)" and "turns a b x y ops"
  shows "\<exists>px py ops'. back_step a b (trace ! Suc d) (int (Suc d)) x y ops = (px, py, ops') \<and> on_diagonal d (px - py) \<and>
    px = furthest a b d (px - py) \<and> px \<le> int (length a) \<and> py \<le> int (length b) \<and> turns a b px py ops' \<and>
    edits ops' = Suc (edits ops)"
proof -
  let ?v = "furthest a b d" and ?k = "x - y" and ?at = "\<lambda>j. trace ! Suc d ! nat (j + int (Suc d) + 1)"
  define c where "c = start_x ?v (int (Suc d)) ?k"
  have at: "?at j = ?v j" if "on_diagonal d j" for j
    using assms(1,2) that unfolding trace_ok_def by (metis diff_Suc_1 zero_less_Suc)
  have x: "x = snake a b c (c - ?k)" using assms(4) by (simp add: Let_def c_def)
  have cx: "c \<le> x" using snake_ge [of c a b "c - ?k"] x by simp
  have "x = snake a b c (c - x + y)" using x by (simp add: algebra_simps)
  then have matches: "matched a b c x y" if "0 \<le> c" using that by (rule snake_matched [rotated])
  show ?thesis
  proof (cases rule: start_x_cases [OF assms(3), of ?v, case_names down right])
    case down
    have k: "on_diagonal d (?k + 1)" using on_diagonal_Suc(2) [OF assms(3) down(2)] .
    have c: "c = ?v (?k + 1)" using down(1) by (simp add: c_def)
    have pos: "0 \<le> c" "?k + 1 \<le> c" using furthest_pos [OF k, of a b] c by simp_all
    have choice: "?k = - int (Suc d) \<or> (?k \<noteq> int (Suc d) \<and> ?at (?k - 1) < ?at (?k + 1))"
    proof (cases "?k = - int (Suc d)")
      case False
      have "?at (?k - 1) = ?v (?k - 1)" by (rule at [OF on_diagonal_Suc(1) [OF assms(3) False]])
      then show ?thesis using down(3) at [OF k] by (simp only: simp_thms)
    qed (simp only: simp_thms)
    obtain ops' where w: "walk_back a x y c (c - (?k + 1)) ops = (c, c - x + y, ops')" "turns a b c (c - x + y) ops'" "edits ops' = edits ops"
      using walk_back_spec [OF assms(7), of c "c - (?k + 1)" c] matches [OF pos(1)] cx by auto
    have "turns a b c (c - (?k + 1)) ((Added, b ! nat (c - x + y - 1)) # ops')"
      using w(2) drop_before [of "c - x + y" b] pos(2) cx assms(6) by (simp add: turns_def algebra_simps)
    moreover have "back_step a b (trace ! Suc d) (int (Suc d)) x y ops = (c, c - (?k + 1), (Added, b ! nat (c - x + y - 1)) # ops')"
      using back_step_at [OF refl if_P [OF choice, symmetric] trans [OF c at [OF k, symmetric]] w(1), of b]
      by (simp only: if_True simp_thms)
    ultimately show ?thesis
      using k c w(3) cx assms(5,6) by (intro exI [of _ c] exI [of _ "c - (?k + 1)"]) (auto simp: algebra_simps)
  next
    case right
    have k: "on_diagonal d (?k - 1)" using on_diagonal_Suc(1) [OF assms(3) right(2)] .
    have c: "c - 1 = ?v (?k - 1)" using right(1) by (simp add: c_def)
    have pos: "0 < c" "?k \<le> c" using furthest_pos [OF k, of a b] c by simp_all
    have choice: "\<not> (?k = - int (Suc d) \<or> (?k \<noteq> int (Suc d) \<and> ?at (?k - 1) < ?at (?k + 1)))"
    proof (cases "?k = int (Suc d)")
      case False
      have "?at (?k + 1) = ?v (?k + 1)" by (rule at [OF on_diagonal_Suc(2) [OF assms(3) False]])
      then show ?thesis using right(3) at [OF k] by (simp only: simp_thms)
    next
      case True
      then show ?thesis using right(2) by blast
    qed
    obtain ops' where w: "walk_back a x y (c - 1) (c - 1 - (?k - 1)) ops = (c, c - x + y, ops')" "turns a b c (c - x + y) ops'" "edits ops' = edits ops"
      using walk_back_spec [OF assms(7), of "c - 1" "c - 1 - (?k - 1)" c] matches pos(1) cx by auto
    have "turns a b (c - 1) (c - 1 - (?k - 1)) ((Removed, a ! nat (c - 1)) # ops')"
      using w(2) drop_before [of c a] pos(1) cx assms(5) by (simp add: turns_def algebra_simps)
    moreover have "back_step a b (trace ! Suc d) (int (Suc d)) x y ops = (c - 1, c - 1 - (?k - 1), (Removed, a ! nat (c - 1)) # ops')"
      using back_step_at [OF refl if_not_P [OF choice, symmetric] trans [OF c at [OF k, symmetric]] w(1), of b]
      by simp
    ultimately show ?thesis
      using k c w(3) cx assms(5,6) by (intro exI [of _ "c - 1"] exI [of _ "c - 1 - (?k - 1)"]) (auto simp: algebra_simps)
  qed
qed

lemma backtrack_spec:
  "trace_ok a b trace \<Longrightarrow> d < length trace \<Longrightarrow> on_diagonal d (x - y) \<Longrightarrow> x = furthest a b d (x - y) \<Longrightarrow>
     x \<le> int (length a) \<Longrightarrow> y \<le> int (length b) \<Longrightarrow> turns a b x y ops \<Longrightarrow>
     turns a b 0 0 (backtrack d a b trace x y ops) \<and> edits (backtrack d a b trace x y ops) = d + edits ops"
proof (induction d arbitrary: x y ops)
  case 0
  then have xy: "x = y" "x = snake a b 0 0" by auto
  have "0 \<le> x" using xy(2) snake_ge [of 0 a b 0] by simp
  moreover have "matched a b 0 x y" by (rule snake_matched) (use xy in simp_all)
  ultimately show ?case
    using walk_back_spec [OF 0(7), of 0 0 0] xy(1) by auto
next
  case (Suc d)
  obtain px py ops' where p: "back_step a b (trace ! Suc d) (int (Suc d)) x y ops = (px, py, ops')" "on_diagonal d (px - py)"
      "px = furthest a b d (px - py)" "px \<le> int (length a)" "py \<le> int (length b)" "turns a b px py ops'" "edits ops' = Suc (edits ops)"
    using back_step_spec [OF Suc.prems] by blast
  have "turns a b 0 0 (backtrack d a b trace px py ops') \<and> edits (backtrack d a b trace px py ops') = d + edits ops'"
    using Suc.prems(1,2) p by (intro Suc.IH) auto
  then show ?case using p(1,7) by simp
qed

section \<open>Shortest scripts\<close>

lemma furthest_stops:
  assumes "on_diagonal d k"
  shows "\<not> (furthest a b d k < int (length a) \<and> furthest a b d k - k < int (length b) \<and>
    line_at a (furthest a b d k) = line_at b (furthest a b d k - k))"
proof (cases d)
  case 0
  then show ?thesis using snake_stops [of a b 0 0] assms by simp
next
  case (Suc e)
  then show ?thesis
    using snake_stops [of a b "start_x (furthest a b e) (int (Suc e)) k" "start_x (furthest a b e) (int (Suc e)) k - k"]
    by (simp add: Let_def)
qed

lemma script_within:
  assumes "old_of (p @ q) = a" and "new_of (p @ q) = b"
  shows "on_diagonal (edits p) (int (length (old_of p)) - int (length (new_of p))) \<and>
    int (length (old_of p)) \<le> furthest a b (edits p) (int (length (old_of p)) - int (length (new_of p)))"
  using assms
proof (induction p arbitrary: q rule: rev_induct)
  case Nil
  then show ?case using snake_ge [of 0 a b 0] by simp
next
  case (snoc op p)
  obtain kd l where op: "op = (kd, l)" by (cases op)
  let ?x = "int (length (old_of p))" and ?y = "int (length (new_of p))" and ?e = "edits p"
  have ih: "on_diagonal ?e (?x - ?y)" "?x \<le> furthest a b ?e (?x - ?y)"
    using snoc.IH [of "op # q"] snoc.prems by simp_all
  show ?case
  proof (cases kd)
    case Same
    have a: "a = old_of p @ l # old_of q" and b: "b = new_of p @ l # new_of q"
      using snoc.prems op Same by simp_all
    have "line_at a ?x = Some l" "line_at b ?y = Some l"
      unfolding a b by (simp_all add: line_at_def nth_append)
    moreover have "?x < int (length a)" "?y < int (length b)" unfolding a b by simp_all
    ultimately have "furthest a b ?e (?x - ?y) \<noteq> ?x" using furthest_stops [OF ih(1), of a b] by auto
    then show ?thesis using ih op Same by (simp add: algebra_simps)
  next
    case Removed
    have d: "on_diagonal (Suc ?e) (?x - ?y + 1)" "?x - ?y + 1 \<noteq> - int (Suc ?e)"
      using on_diagonal_next [OF ih(1)] ih(1) by (auto simp: on_diagonal_def)
    then show ?thesis using furthest_ge(1) [OF d(1), of a b] ih(2) op Removed d(1) by (simp add: algebra_simps del: furthest.simps)
  next
    case Added
    have d: "on_diagonal (Suc ?e) (?x - ?y - 1)" "?x - ?y - 1 \<noteq> int (Suc ?e)"
      using on_diagonal_next [OF ih(1)] ih(1) by (auto simp: on_diagonal_def)
    then show ?thesis using furthest_ge(2) [OF d(1), of a b] ih(2) op Added d(1) by (simp add: algebra_simps del: furthest.simps)
  qed
qed

lemma script_hits:
  assumes "old_of ops = a" and "new_of ops = b"
  shows "hits a b (edits ops) (int (length a) - int (length b))"
  using script_within [of ops "[]" a b] assms by (simp add: hits_def)

lemma edits_le: "edits ops \<le> length (old_of ops) + length (new_of ops)"
proof (induction ops)
  case (Cons op ops)
  then show ?case by (cases op; cases "fst op") auto
qed simp

lemma myers_correct:
  "case myers a b maxEdits of
     Some ops \<Rightarrow> old_of ops = a \<and> new_of ops = b \<and> edits ops \<le> maxEdits \<and>
       (\<forall>ops'. old_of ops' = a \<and> new_of ops' = b \<longrightarrow> edits ops \<le> edits ops')
   | None \<Rightarrow> (\<forall>ops'. old_of ops' = a \<and> new_of ops' = b \<longrightarrow> maxEdits < edits ops')"
proof -
  let ?limit = "min (length a + length b) maxEdits" and ?diagonal = "int (length a) - int (length b)"
  let ?loop = "d_loop a b (?limit + 1) (replicate (2 * ?limit + 3) 0) [] [0..<?limit + 1]"
  have "ready a b (?limit + 1) 0 (replicate (2 * ?limit + 3) 0)"
    by (simp add: ready_def nat_add_distrib)
  then have spec: "case ?loop of
      None \<Rightarrow> \<forall>e < ?limit + 1. \<forall>k. \<not> hits a b e k
    | Some (found, trace') \<Rightarrow> 0 \<le> found \<and> found < ?limit + 1 \<and> length trace' = Suc found \<and> trace_ok a b trace' \<and>
        (\<exists>k. hits a b found k) \<and> (\<forall>e < found. \<forall>k. \<not> hits a b e k)"
    by (intro d_loop_spec) (simp_all add: trace_ok_def)
  show ?thesis
  proof (cases ?loop)
    case None
    have "maxEdits < edits ops'" if "old_of ops' = a" "new_of ops' = b" for ops'
      using spec None script_hits [OF that] edits_le [of ops'] that by (fastforce simp: not_le [symmetric])
    then show ?thesis using None by (simp add: myers_def Let_def)
  next
    case (Some r)
    obtain d trace where r: "r = (d, trace)" by (cases r)
    have d: "d \<le> ?limit" "length trace = Suc d" "trace_ok a b trace" "\<forall>e < d. \<forall>k. \<not> hits a b e k"
      using spec Some r by (simp_all add: less_Suc_eq_le del: upt_Suc)
    obtain k where k: "hits a b d k" using spec Some r by auto
    then have "k = ?diagonal" "furthest a b d ?diagonal = int (length a)" using first_hit [OF k d(4)] by auto
    then have "turns a b 0 0 (backtrack d a b trace (int (length a)) (int (length b)) []) \<and>
        edits (backtrack d a b trace (int (length a)) (int (length b)) []) = d + edits ([] :: 'a diff_op list)"
      using k d by (intro backtrack_spec) (auto simp: hits_def turns_def)
    moreover have "d \<le> edits ops'" if "old_of ops' = a" "new_of ops' = b" for ops'
      using script_hits [OF that] d(4) by (meson not_le)
    ultimately show ?thesis
      using Some r d(1) by (simp add: myers_def Let_def turns_def)
  qed
qed

lemma myers_shortest_ops: "myers a b maxEdits = Some ops \<Longrightarrow> old_of ops = a \<and> new_of ops = b"
  using myers_correct [of a b maxEdits] by simp

text \<open>C18. The search is correct and shortest.

  When \<open>myers\<close> answers with operations, they turn the first list of lines into the second one, with at
  most the allowed number of edits and with no more edits than any other operations that do; when
  it gives up, every way to turn the lists into each other takes more edits than allowed.\<close>

theorem myers_shortest:
  "case myers a b maxEdits of
     Some ops \<Rightarrow> old_of ops = a \<and> new_of ops = b \<and> edits ops \<le> maxEdits \<and>
       (\<forall>ops'. old_of ops' = a \<and> new_of ops' = b \<longrightarrow> edits ops \<le> edits ops')
   | None \<Rightarrow> (\<forall>ops'. old_of ops' = a \<and> new_of ops' = b \<longrightarrow> maxEdits < edits ops')"
  by (rule myers_correct)

lemma myers_shortest_witness:
  "\<exists>ops. myers ''ab'' ''b'' 5 = Some ops \<and> edits ops = 1 \<and> old_of ops = ''ab'' \<and> new_of ops = ''b'' \<and> 1 \<le> edits [(Removed, CHR ''a''), (Same, CHR ''b'')]"
proof -
  have m: "myers ''ab'' ''b'' 5 = Some [(Removed, CHR ''a''), (Same, CHR ''b'')]" by code_simp
  show ?thesis using myers_shortest [of "''ab''" "''b''" 5] unfolding m by simp
qed

section \<open>Counts by multisets\<close>

text \<open>The multiset a map of counts stands for.\<close>

definition counted :: "('a, nat) jsmap \<Rightarrow> 'a multiset" where
  "counted m = sum_list (map (\<lambda>(x, n). replicate_mset n x) m)"

lemma size_counted: "size (counted m) = sum_list (jm_values m)"
  by (induction m) (auto simp: counted_def jm_values_def)

lemma counted_fresh: "x \<notin> set (map fst m) \<Longrightarrow> Multiset.count (counted m) x = 0"
  by (induction m) (auto simp: counted_def)

lemma count_counted: "jm_wf m \<Longrightarrow> Multiset.count (counted m) x = opt_default 0 (jm_get x m)"
proof (induction m)
  case Nil
  then show ?case by (simp add: counted_def opt_default_def)
next
  case (Cons p m)
  obtain y n where p: "p = (y, n)" by (cases p)
  have wf: "jm_wf m" "y \<notin> set (map fst m)" using Cons.prems p by (auto simp: jm_wf_def jm_keys_def)
  have "counted (p # m) = replicate_mset n y + counted m" using p by (simp add: counted_def)
  then show ?case using Cons.IH [OF wf(1)] counted_fresh [OF wf(2)] p by (auto simp: opt_default_def)
qed

lemma count_counted_set:
  "jm_wf m \<Longrightarrow> Multiset.count (counted (jm_set y v m)) x = (if x = y then v else Multiset.count (counted m) x)"
  by (simp add: count_counted opt_default_def)

lemma count_lines_mset: "jm_wf m \<Longrightarrow> jm_wf (count_lines xs m) \<and> counted (count_lines xs m) = counted m + mset xs"
proof (induction xs arbitrary: m)
  case Nil
  then show ?case by simp
next
  case (Cons x xs)
  let ?m = "jm_set x (opt_default 0 (jm_get x m) + 1) m"
  have wf: "jm_wf ?m" using Cons.prems by simp
  have "counted ?m = add_mset x (counted m)"
    by (rule multiset_eqI) (simp add: count_counted_set [OF Cons.prems] count_counted [OF Cons.prems])
  then show ?case using Cons.IH [OF wf] by simp
qed

lemma take_lines_mset:
  "jm_wf m \<Longrightarrow> counted (fst (take_lines xs m n)) = counted m - mset xs \<and> snd (take_lines xs m n) = n + size (mset xs - counted m)"
proof (induction xs arbitrary: m n)
  case Nil
  then show ?case by simp
next
  case (Cons x xs)
  have left: "opt_default 0 (jm_get x m) = Multiset.count (counted m) x" using count_counted [OF Cons.prems] by simp
  show ?case
  proof (cases "0 < Multiset.count (counted m) x")
    case True
    let ?m = "jm_set x (Multiset.count (counted m) x - 1) m"
    have wf: "jm_wf ?m" using Cons.prems by simp
    have "counted ?m = counted m - {#x#}"
      by (rule multiset_eqI) (simp add: count_counted_set [OF Cons.prems])
    moreover have "counted m = add_mset x (counted m - {#x#})" using True by simp
    then have "mset (x # xs) - counted m = mset xs - (counted m - {#x#})"
      by (metis mset.simps(2) add_mset_diff_bothsides)
    ultimately show ?thesis using Cons.IH [OF wf, of n] True left by (simp add: Let_def)
  next
    case False
    then have no: "x \<notin># counted m" by (simp add: not_in_iff)
    have "mset (x # xs) - counted m = add_mset x (mset xs - counted m)"
      by (rule multiset_eqI) (use no in \<open>auto simp: not_in_iff\<close>)
    then show ?thesis using Cons.IH [OF Cons.prems, of "n + 1"] no left False by (simp add: Let_def)
  qed
qed

lemma multisetCounts_mset: "multisetCounts a b = (size (mset b - mset a), size (mset a - mset b))"
proof -
  have c: "jm_wf (count_lines a [])" "counted (count_lines a []) = mset a"
    using count_lines_mset [of "[]" a] by (simp_all add: counted_def)
  obtain m n where t: "take_lines b (count_lines a []) 0 = (m, n)" by fastforce
  show ?thesis
    using take_lines_mset [OF c(1), of b 0] t by (simp add: multisetCounts_def c(2) size_counted [symmetric])
qed

section \<open>The hunks\<close>

text \<open>Applying hunks to the old lines: \<open>pos\<close> old lines are consumed and \<open>written\<close> new lines are
  written. Every number of a hunk is checked, and its old lines have to stand where it says.\<close>

fun apply_hunks :: "'a list \<Rightarrow> nat \<Rightarrow> nat \<Rightarrow> 'a hunk list \<Rightarrow> 'a list option" where
  "apply_hunks a pos written [] = Some (drop pos a)"
| "apply_hunks a pos written (h # hs) =
     (let at = hk_oldStart h - 1; kept = Prelude.slice a pos at in
      if 1 \<le> hk_oldStart h \<and> pos \<le> at \<and> hk_newStart h = written + length kept + 1 \<and>
         hk_oldCount h = length (old_of (hk_body h)) \<and> hk_newCount h = length (new_of (hk_body h)) \<and>
         take (hk_oldCount h) (drop at a) = old_of (hk_body h)
      then map_option (\<lambda>rest. kept @ new_of (hk_body h) @ rest)
             (apply_hunks a (at + hk_oldCount h) (written + length kept + hk_newCount h) hs)
      else None)"

lemma all_same: "\<forall>op \<in> set ops. fst op = Same \<Longrightarrow> old_of ops = map snd ops \<and> new_of ops = map snd ops"
  by (induction ops) (auto simp: old_of_def new_of_def)

lemma slice_mem: "x \<in> set (Prelude.slice xs i j) \<Longrightarrow> \<exists>t. i \<le> t \<and> t < j \<and> t < length xs \<and> x = xs ! t"
  by (auto simp: Prelude.slice_def in_set_conv_nth) (metis add.commute le_add1 less_diff_conv)

lemma slice_split:
  assumes "i \<le> j" and "j \<le> k" and "k \<le> length xs"
  shows "take j xs = take i xs @ Prelude.slice xs i j" and "Prelude.slice xs i k = Prelude.slice xs i j @ Prelude.slice xs j k"
    and "drop i xs = Prelude.slice xs i j @ drop j xs"
proof -
  show "take j xs = take i xs @ Prelude.slice xs i j"
    using take_add [of i "j - i" xs] assms by (simp add: Prelude.slice_def)
  show "Prelude.slice xs i k = Prelude.slice xs i j @ Prelude.slice xs j k"
    using take_add [of "j - i" "k - j" "drop i xs"] assms by (simp add: Prelude.slice_def)
  show "drop i xs = Prelude.slice xs i j @ drop j xs"
    using append_take_drop_id [of "j - i" "drop i xs", symmetric] assms by (simp add: Prelude.slice_def)
qed

lemma gap_end_all: "i \<le> t \<Longrightarrow> t < gap_end ops i \<Longrightarrow> i \<le> length ops \<Longrightarrow> fst (ops ! t) = Same"
proof -
  assume t: "i \<le> t" "t < gap_end ops i" "i \<le> length ops"
  let ?w = "takeWhile (\<lambda>op. fst op = Same) (drop i ops)"
  have l: "t - i < length ?w" using t by (simp add: gap_end_def)
  then have "?w ! (t - i) = drop i ops ! (t - i)" by (rule takeWhile_nth)
  then have "?w ! (t - i) = ops ! t" using t by simp
  then show "fst (ops ! t) = Same" using nth_mem [OF l] set_takeWhileD [of "?w ! (t - i)"] by metis
qed

text \<open>Behind a hunk, four operations are common lines, or the operations end.\<close>

lemma hunk_end_common:
  "hunk_end ops i \<le> t \<Longrightarrow> t < hunk_end ops i + 4 \<Longrightarrow> t < length ops \<Longrightarrow> fst (ops ! t) = Same"
proof (induction ops i rule: hunk_end.induct)
  case (1 ops i)
  show ?case
  proof (cases "length ops \<le> i \<or> fst (ops ! i) \<noteq> Same")
    case True
    then show ?thesis using 1 by (cases "length ops \<le> i") (auto simp: hunk_end.simps [of ops i])
  next
    case False
    then have i: "i < length ops" "fst (ops ! i) = Same" by auto
    define g where "g = gap_end ops i"
    have e: "hunk_end ops i = (if length ops \<le> g \<or> 6 < g - i then min (length ops) (i + 3) else hunk_end ops g)"
      using i by (simp add: hunk_end.simps [of ops i] Let_def g_def CONTEXT_LINES_def)
    show ?thesis
    proof (cases "length ops \<le> g \<or> 6 < g - i")
      case True
      then have "i \<le> t" "t < g" using e 1(3-5) by (auto simp: min_def split: if_splits)
      then show ?thesis using gap_end_all [of i t ops] i by (simp add: g_def)
    next
      case False
      then show ?thesis using 1(2) [OF _ _ refl] 1(3-5) i e by (simp add: g_def [symmetric] CONTEXT_LINES_def)
    qed
  qed
qed

lemma old_of_take: "j \<le> length ops \<Longrightarrow> drop (length (old_of (take j ops))) (old_of ops) = old_of (drop j ops)"
  by (metis append_eq_conv_conj append_take_drop_id ops_simps(13))

lemma old_of_split:
  assumes "i \<le> j" and "j \<le> length ops"
  shows "old_of (take j ops) = old_of (take i ops) @ old_of (Prelude.slice ops i j)"
    and "new_of (take j ops) = new_of (take i ops) @ new_of (Prelude.slice ops i j)"
    and "old_of (drop i ops) = old_of (Prelude.slice ops i j) @ old_of (drop j ops)"
    and "new_of (drop i ops) = new_of (Prelude.slice ops i j) @ new_of (drop j ops)"
  using slice_split(1,3) [OF assms(1) order_refl assms(2)] ops_simps(13,14) by metis+

lemma slice_same:
  assumes "\<forall>t. i \<le> t \<and> t < j \<longrightarrow> fst (ops ! t) = Same"
  shows "old_of (Prelude.slice ops i j) = map snd (Prelude.slice ops i j) \<and> new_of (Prelude.slice ops i j) = map snd (Prelude.slice ops i j)"
proof (rule all_same, rule ballI)
  fix op assume "op \<in> set (Prelude.slice ops i j)"
  then show "fst op = Same" using slice_mem assms by metis
qed

text \<open>One hunk, from a position behind which only common lines are left out.\<close>

lemma apply_hunk:
  assumes "j \<le> s" and "s \<le> i" and "i \<le> e" and "e \<le> length ops" and "\<forall>t. j \<le> t \<and> t < i \<longrightarrow> fst (ops ! t) = Same"
    and "apply_hunks (old_of ops) (length (old_of (take e ops))) (length (new_of (take e ops))) hs = Some (new_of (drop e ops))"
    and "h = \<lparr>hk_oldStart = 1 + length (old_of (take i ops)) - (i - s), hk_oldCount = length (old_of (Prelude.slice ops s e)),
           hk_newStart = 1 + length (new_of (take i ops)) - (i - s), hk_newCount = length (new_of (Prelude.slice ops s e)),
           hk_body = Prelude.slice ops s e\<rparr>"
  shows "apply_hunks (old_of ops) (length (old_of (take j ops))) (length (new_of (take j ops))) (h # hs) = Some (new_of (drop j ops))"
proof -
  let ?O = "\<lambda>n. length (old_of (take n ops))" and ?N = "\<lambda>n. length (new_of (take n ops))"
  have lead: "length (old_of (Prelude.slice ops s i)) = i - s" "length (new_of (Prelude.slice ops s i)) = i - s"
    using slice_same [of s i ops] assms(1-5) by (simp_all add: Prelude.slice_def)
  have same: "old_of (Prelude.slice ops j s) = new_of (Prelude.slice ops j s)"
    using slice_same [of j s ops] assms(2,5) by simp
  have si: "?O i = ?O s + (i - s)" "?N i = ?N s + (i - s)"
    using old_of_split [of s i ops] lead assms(2-4) by simp_all
  have js: "?O s = ?O j + length (old_of (Prelude.slice ops j s))" "?N s = ?N j + length (old_of (Prelude.slice ops j s))"
    using old_of_split [of j s ops] same assms(1-4) by simp_all
  have se: "?O e = ?O s + length (old_of (Prelude.slice ops s e))" "?N e = ?N s + length (new_of (Prelude.slice ops s e))"
    using old_of_split [of s e ops] assms(2-4) by simp_all
  have kept: "Prelude.slice (old_of ops) (?O j) (?O s) = old_of (Prelude.slice ops j s)"
    using old_of_take [of j ops] old_of_split(3) [of j s ops] js(1) assms(1-4) by (simp add: Prelude.slice_def)
  have body: "take (length (old_of (Prelude.slice ops s e))) (drop (?O s) (old_of ops)) = old_of (Prelude.slice ops s e)"
    using old_of_take [of s ops] old_of_split(3) [of s e ops] assms(2-4) by simp
  have start: "hk_oldStart h = ?O s + 1" "hk_newStart h = ?N s + 1" using assms(7) si by simp_all
  have all: "new_of (drop j ops) = old_of (Prelude.slice ops j s) @ new_of (Prelude.slice ops s e) @ new_of (drop e ops)"
    using old_of_split(4) [of j s ops] old_of_split(4) [of s e ops] same assms(1-4) by simp
  have rest: "apply_hunks (old_of ops) (?O s + length (old_of (Prelude.slice ops s e)))
      (?N j + length (old_of (Prelude.slice ops j s)) + length (new_of (Prelude.slice ops s e))) hs = Some (new_of (drop e ops))"
    using assms(6) se js by simp
  show ?thesis
    unfolding apply_hunks.simps Let_def start
    using assms(7) kept body js rest all by simp
qed

lemma hunks_from_apply:
  "j \<le> i \<Longrightarrow> i \<le> length ops \<Longrightarrow> \<forall>t. j \<le> t \<and> t < i \<longrightarrow> fst (ops ! t) = Same \<Longrightarrow>
   j = 0 \<or> (\<forall>t. j \<le> t \<and> t < j + 4 \<and> t < length ops \<longrightarrow> fst (ops ! t) = Same) \<Longrightarrow>
   ol = 1 + length (old_of (take i ops)) \<Longrightarrow> nl = 1 + length (new_of (take i ops)) \<Longrightarrow>
   apply_hunks (old_of ops) (length (old_of (take j ops))) (length (new_of (take j ops))) (hunks_from ops i ol nl) =
     Some (new_of (drop j ops))"
proof (induction ops i ol nl arbitrary: j rule: hunks_from.induct)
  case (1 ops i ol nl)
  show ?case
  proof (cases "length ops \<le> i")
    case True
    then have i: "i = length ops" using 1(4) by simp
    have "old_of (drop j ops) = new_of (drop j ops)"
      using slice_same [of j i ops] 1(5) i by (simp add: Prelude.slice_def)
    then show ?thesis using True old_of_take [of j ops] 1(3) i by (simp add: hunks_from.simps [of ops "length ops"])
  next
    case more: False
    then have i: "i < length ops" by simp
    have op: "take (i + 1) ops = take i ops @ [ops ! i]" using i by (simp add: take_Suc_conv_app_nth)
    show ?thesis
    proof (cases "fst (ops ! i) = Same")
      case True
      obtain l where l: "ops ! i = (Same, l)" using True by (cases "ops ! i") auto
      have "\<forall>t. j \<le> t \<and> t < i + 1 \<longrightarrow> fst (ops ! t) = Same" using 1(5) True by (auto simp: less_Suc_eq)
      then have "apply_hunks (old_of ops) (length (old_of (take j ops))) (length (new_of (take j ops)))
          (hunks_from ops (i + 1) (ol + 1) (nl + 1)) = Some (new_of (drop j ops))"
        using 1(3,6,7,8) i True l op by (intro 1(1) [OF more True]) auto
      then show ?thesis using more True by (simp add: hunks_from.simps [of ops i])
    next
      case change: False
      define e s where "e = hunk_end ops i" and "s = i - CONTEXT_LINES"
      have e: "i < e" "e \<le> length ops"
        using hunk_end_gt [OF i change] hunk_end_ge [of i ops] i by (simp_all add: e_def)
      have s: "j \<le> s" "s \<le> i"
      proof -
        have "j = 0 \<or> j + 4 \<le> i" using 1(3,6) change i by (metis not_le_imp_less)
        then show "j \<le> s" "s \<le> i" by (auto simp: s_def CONTEXT_LINES_def)
      qed
      have after: "\<forall>t. e \<le> t \<and> t < e + 4 \<and> t < length ops \<longrightarrow> fst (ops ! t) = Same"
        using hunk_end_common [of ops i] by (simp add: e_def)
      have lines: "ol + length (old_of (Prelude.slice ops i e)) = 1 + length (old_of (take e ops))"
        "nl + length (new_of (Prelude.slice ops i e)) = 1 + length (new_of (take e ops))"
        using old_of_split [of i e ops] e 1(7,8) by simp_all
      have "apply_hunks (old_of ops) (length (old_of (take e ops))) (length (new_of (take e ops)))
          (hunks_from ops e (ol + length (old_of (Prelude.slice ops i e))) (nl + length (new_of (Prelude.slice ops i e)))) =
          Some (new_of (drop e ops))"
        unfolding e_def
        by (rule 1(2) [OF more change refl refl refl refl refl]) (use e after lines in \<open>auto simp: e_def\<close>)
      from apply_hunk [OF s less_imp_le [OF e(1)] e(2) 1(5) this refl]
      show ?thesis
        using more change 1(7,8) by (simp add: hunks_from.simps [of ops i] Let_def e_def s_def)
    qed
  qed
qed

section \<open>The diff of an editor save\<close>

lemma common_prefix_take:
  "take (common_prefix a b) a = take (common_prefix a b) b \<and> common_prefix a b \<le> length a \<and> common_prefix a b \<le> length b"
  by (induction a b rule: common_prefix.induct) auto

text \<open>Both lists are a common head, a middle part of their own, and a common tail.\<close>

lemma diff_ops_parts:
  assumes "p = common_prefix a b" and "q = common_prefix (rev (drop p a)) (rev (drop p b))"
  shows "a = take p a @ Prelude.slice a p (length a - q) @ drop (length a - q) a"
    and "b = take p a @ Prelude.slice b p (length b - q) @ drop (length a - q) a"
proof -
  have p: "take p a = take p b" "p \<le> length a" "p \<le> length b" using common_prefix_take [of a b] assms(1) by auto
  have q: "take q (rev (drop p a)) = take q (rev (drop p b))" "q \<le> length a - p" "q \<le> length b - p"
    using common_prefix_take [of "rev (drop p a)" "rev (drop p b)"] assms(2) by auto
  have tails: "drop (length a - q) a = drop (length b - q) b"
  proof -
    have "drop (length (drop p a) - q) (drop p a) = drop (length (drop p b) - q) (drop p b)"
      using q(1) by (simp add: take_rev)
    then show ?thesis using q(2,3) p(2,3) by simp
  qed
  show "a = take p a @ Prelude.slice a p (length a - q) @ drop (length a - q) a"
    using slice_split(3) [of p "length a - q" "length a - q" a] append_take_drop_id [of p a, symmetric] q(2) p(2) by simp
  show "b = take p a @ Prelude.slice b p (length b - q) @ drop (length a - q) a"
    using slice_split(3) [of p "length b - q" "length b - q" b] append_take_drop_id [of p b, symmetric] q(3) p(1,3) tails by simp
qed

lemma same_ops: "old_of (map (Pair Same) xs) = xs \<and> new_of (map (Pair Same) xs) = xs"
  by (induction xs) auto

lemma diff_ops_cases:
  "case diff_ops a b maxEdits of
     Inr ops \<Rightarrow> old_of ops = a \<and> new_of ops = b
   | Inl (p, q) \<Rightarrow> mset a - mset b = mset p - mset q \<and> mset b - mset a = mset q - mset p"
proof -
  define p q where "p = common_prefix a b" and "q = common_prefix (rev (drop p a)) (rev (drop p b))"
  let ?A = "Prelude.slice a p (length a - q)" and ?B = "Prelude.slice b p (length b - q)"
  note parts = diff_ops_parts [OF p_def q_def]
  have d: "diff_ops a b maxEdits = (case myers ?A ?B maxEdits of None \<Rightarrow> Inl (?A, ?B)
      | Some middle \<Rightarrow> Inr (map (Pair Same) (take p a) @ middle @ map (Pair Same) (drop (length a - q) a)))"
    unfolding diff_ops_def Let_def q_def p_def by (rule refl)
  show ?thesis
  proof (cases "myers ?A ?B maxEdits")
    case None
    let ?c = "mset (take p a) + mset (drop (length a - q) a)"
    have "mset a = ?c + mset ?A" "mset b = ?c + mset ?B"
      using arg_cong [OF parts(1), of mset] arg_cong [OF parts(2), of mset] by (simp_all add: add_ac)
    then have "mset a - mset b = mset ?A - mset ?B" "mset b - mset a = mset ?B - mset ?A"
      by (metis add_diff_cancel_left)+
    then show ?thesis using None d by simp
  next
    case (Some middle)
    then have "old_of middle = ?A" "new_of middle = ?B" using myers_shortest_ops by blast+
    then show ?thesis using d Some parts same_ops [of "take p a"] same_ops [of "drop (length a - q) a"] by simp
  qed
qed

lemma kind_counts:
  "length (old_of ops) + length (filter (\<lambda>op. fst op = Added) ops) = length (new_of ops) + length (filter (\<lambda>op. fst op = Removed) ops)"
proof (induction ops)
  case (Cons op ops)
  then show ?case by (cases op; cases "fst op") auto
qed simp


definition text_before :: string where "text_before = ''a'' @ [CHR 0x0A] @ ''b'' @ [CHR 0x0A]"

definition text_after :: string where "text_after = ''b'' @ [CHR 0x0A] @ ''c'' @ [CHR 0x0A]"


end
