(* ===== verification/QueuedDrain.thy ===== *)
theory QueuedDrain
  imports Prelude
begin

text \<open>
  The drain of queued composer follow-ups
  (\<open>apps/app/src/react-app/domains/session/surface/queued-drain-machine.ts\<close>): the
  reducer of one session, the store of the sessions with its send generations and
  listeners, and the claim of the send slot.

  The source compares states by reference: \<open>reduceQueuedDrain\<close> returns its argument
  when the event does not concern it, and only another object is stored and announced.
  The reducer is therefore a partial function here, \<open>None\<close> standing for \<open>return state\<close>.
  Item ids are generated ids, never names of the object prototype. A listener is a
  number; dispatching answers the list of the listeners it called.
\<close>

section \<open>States and events\<close>

datatype halt_reason = NeedsInput | TerminalFailure

datatype drain_phase =
    Ready
  | Sending string bool
  | AdmissionUnknown string string int
  | AwaitingObservation string int
  | Running string
  | Halted string halt_reason

datatype item_resolution =
    AdmittedRunning | AdmittedAwaitingObservation | Completed | ResNeedsInput | Rejected
  | ResAdmissionUnknown | ResTerminalFailure

record drain_state =
  phase :: drain_phase
  attemptsByItemId :: "(string, nat) jsmap"
  lastResolution :: "(string \<times> item_resolution) option"

datatype send_outcome = Sent | Accepted | Blocked | Cancelled

datatype drain_event =
    SendStarted string bool
  | StopConfirmed
  | SendResult string send_outcome int
  | SendError string
  | SendUnknown string string int
  | AdmissionObserved string string int
  | BusyObserved
  | IdleReconciled int
  | UserRetry
  | QueueCleared

definition QUEUE_ADMISSION_OBSERVATION_TIMEOUT_MS :: int where
  "QUEUE_ADMISSION_OBSERVATION_TIMEOUT_MS = 10000"

definition QUEUE_ADMISSION_PROBE_RETRY_MS :: int where
  "QUEUE_ADMISSION_PROBE_RETRY_MS = 5000"

definition INITIAL_QUEUED_DRAIN_STATE :: drain_state where
  "INITIAL_QUEUED_DRAIN_STATE = \<lparr>phase = Ready, attemptsByItemId = [], lastResolution = None\<rparr>"

section \<open>The reducer\<close>

definition resolved :: "drain_state \<Rightarrow> drain_phase \<Rightarrow> string \<Rightarrow> item_resolution \<Rightarrow> (string, nat) jsmap option \<Rightarrow> drain_state" where
  "resolved st ph itemId resolution attempts =
     \<lparr>phase = ph,
      attemptsByItemId = (case attempts of Some a \<Rightarrow> a | None \<Rightarrow> attemptsByItemId st),
      lastResolution = Some (itemId, resolution)\<rparr>"

definition dropAttempt :: "drain_state \<Rightarrow> string \<Rightarrow> (string, nat) jsmap" where
  "dropAttempt st itemId =
     (if \<not> jm_has itemId (attemptsByItemId st) then attemptsByItemId st
      else jm_delete itemId (attemptsByItemId st))"

text \<open>The conditions of \<open>send_started\<close> that return the state unchanged.\<close>

definition start_refused :: "drain_phase \<Rightarrow> string \<Rightarrow> bool \<Rightarrow> bool" where
  "start_refused ph itemId steer =
     (if ph = Ready then False
      else if \<not> steer then True
      else (case ph of
          Running i \<Rightarrow> i = itemId
        | AwaitingObservation i _ \<Rightarrow> i = itemId
        | Halted i _ \<Rightarrow> i \<noteq> itemId
        | _ \<Rightarrow> True))"

definition is_running :: "drain_phase \<Rightarrow> bool" where
  "is_running ph = (case ph of Running _ \<Rightarrow> True | _ \<Rightarrow> False)"

definition start_send :: "drain_state \<Rightarrow> string \<Rightarrow> drain_state" where
  "start_send st itemId =
     (let attempts = (case jm_get itemId (attemptsByItemId st) of Some n \<Rightarrow> n | None \<Rightarrow> 0) + 1
      in \<lparr>phase = Sending itemId (is_running (phase st)),
          attemptsByItemId = jm_set itemId attempts (attemptsByItemId st),
          lastResolution = lastResolution st\<rparr>)"

definition send_settled :: "drain_state \<Rightarrow> string \<Rightarrow> bool \<Rightarrow> send_outcome \<Rightarrow> int \<Rightarrow> drain_state" where
  "send_settled st itemId busySeen outcome at_ms =
     (if outcome = Sent \<or> outcome = Accepted then
        (if busySeen then resolved st (Running itemId) itemId AdmittedRunning None
         else resolved st (AwaitingObservation itemId at_ms) itemId AdmittedAwaitingObservation None)
      else if outcome = Blocked then resolved st (Halted itemId NeedsInput) itemId ResNeedsInput None
      else resolved st Ready itemId Rejected None)"

definition cleared_state :: "drain_state \<Rightarrow> drain_state" where
  "cleared_state st = INITIAL_QUEUED_DRAIN_STATE\<lparr>lastResolution := lastResolution st\<rparr>"

fun reduceQueuedDrain :: "drain_state \<Rightarrow> drain_event \<Rightarrow> drain_state option" where
  "reduceQueuedDrain st StopConfirmed =
     (case phase st of
        Sending i _ \<Rightarrow> Some (st\<lparr>phase := Sending i False\<rparr>)
      | _ \<Rightarrow> Some (cleared_state st))"
| "reduceQueuedDrain st (SendStarted itemId steer) =
     (if start_refused (phase st) itemId steer then None else Some (start_send st itemId))"
| "reduceQueuedDrain st (SendResult itemId outcome at_ms) =
     (case phase st of
        Sending i busySeen \<Rightarrow>
          (if i \<noteq> itemId then None else Some (send_settled st itemId busySeen outcome at_ms))
      | _ \<Rightarrow> None)"
| "reduceQueuedDrain st (SendError itemId) =
     (case phase st of
        Sending i _ \<Rightarrow>
          (if i \<noteq> itemId then None
           else Some (resolved st (Halted itemId TerminalFailure) itemId ResTerminalFailure None))
      | _ \<Rightarrow> None)"
| "reduceQueuedDrain st (SendUnknown itemId messageID at_ms) =
     (case phase st of
        Sending i _ \<Rightarrow>
          (if i \<noteq> itemId then None
           else Some (resolved st (AdmissionUnknown itemId messageID at_ms) itemId ResAdmissionUnknown None))
      | _ \<Rightarrow> None)"
| "reduceQueuedDrain st (AdmissionObserved itemId messageID at_ms) =
     (case phase st of
        AdmissionUnknown i m _ \<Rightarrow>
          (if i \<noteq> itemId \<or> m \<noteq> messageID then None
           else Some (resolved st (AwaitingObservation itemId at_ms) itemId AdmittedAwaitingObservation None))
      | _ \<Rightarrow> None)"
| "reduceQueuedDrain st BusyObserved =
     (case phase st of
        Sending i _ \<Rightarrow> Some (st\<lparr>phase := Sending i True\<rparr>)
      | AwaitingObservation i _ \<Rightarrow> Some (resolved st (Running i) i AdmittedRunning None)
      | _ \<Rightarrow> None)"
| "reduceQueuedDrain st (IdleReconciled observedAt) =
     (case phase st of
        Running i \<Rightarrow> Some (resolved st Ready i Completed (Some (dropAttempt st i)))
      | AwaitingObservation i admittedAt \<Rightarrow>
          (if observedAt < admittedAt then None
           else Some (resolved st Ready i Completed (Some (dropAttempt st i))))
      | _ \<Rightarrow> None)"
| "reduceQueuedDrain st UserRetry =
     (case phase st of
        Halted i _ \<Rightarrow>
          Some \<lparr>phase = Ready, attemptsByItemId = dropAttempt st i, lastResolution = lastResolution st\<rparr>
      | _ \<Rightarrow> None)"
| "reduceQueuedDrain st QueueCleared =
     (case phase st of
        Running _ \<Rightarrow> None
      | Sending _ _ \<Rightarrow> None
      | AdmissionUnknown _ _ _ \<Rightarrow> None
      | _ \<Rightarrow> Some (cleared_state st))"

definition reduced :: "drain_state \<Rightarrow> drain_event \<Rightarrow> drain_state" where
  "reduced st e = (case reduceQueuedDrain st e of Some st' \<Rightarrow> st' | None \<Rightarrow> st)"

definition canAdmitNextQueuedItem :: "drain_state \<Rightarrow> bool" where
  "canAdmitNextQueuedItem st = (phase st = Ready)"

definition nextObservationProbeAt :: "drain_state \<Rightarrow> int option \<Rightarrow> int option" where
  "nextObservationProbeAt st lastProbeAt =
     (let probe = (\<lambda>since.
        (let due = since + QUEUE_ADMISSION_OBSERVATION_TIMEOUT_MS
         in case lastProbeAt of
              None \<Rightarrow> Some due
            | Some p \<Rightarrow> Some (max due (p + QUEUE_ADMISSION_PROBE_RETRY_MS))))
      in case phase st of
           AwaitingObservation _ admittedAt \<Rightarrow> probe admittedAt
         | AdmissionUnknown _ _ t \<Rightarrow> probe t
         | _ \<Rightarrow> None)"

section \<open>The store of the sessions\<close>

record drain_store =
  drainStateBySession :: "(string, drain_state) jsmap"
  drainListenersBySession :: "(string, nat) jsmap"
  listenerSets :: "(nat, nat list) jsmap"
  sendGenerationBySession :: "(string, nat) jsmap"

definition empty_store :: drain_store where
  "empty_store = \<lparr>drainStateBySession = [], drainListenersBySession = [], listenerSets = [], sendGenerationBySession = []\<rparr>"

definition getQueuedSendGeneration :: "drain_store \<Rightarrow> string \<Rightarrow> nat" where
  "getQueuedSendGeneration s sessionId =
     (case jm_get sessionId (sendGenerationBySession s) of Some n \<Rightarrow> n | None \<Rightarrow> 0)"

definition assertQueuedSendCurrent :: "drain_store \<Rightarrow> string \<Rightarrow> nat \<Rightarrow> string + unit" where
  "assertQueuedSendCurrent s sessionId generation =
     (if getQueuedSendGeneration s sessionId \<noteq> generation then Inl ''Send cancelled by Stop.'' else Inr ())"

definition getQueuedDrainState :: "drain_store \<Rightarrow> string \<Rightarrow> drain_state" where
  "getQueuedDrainState s sessionId =
     (case jm_get sessionId (drainStateBySession s) of Some st \<Rightarrow> st | None \<Rightarrow> INITIAL_QUEUED_DRAIN_STATE)"

definition set_members :: "drain_store \<Rightarrow> nat \<Rightarrow> nat list" where
  "set_members s r = (case jm_get r (listenerSets s) of Some ls \<Rightarrow> ls | None \<Rightarrow> [])"

definition session_listeners :: "drain_store \<Rightarrow> string \<Rightarrow> nat list" where
  "session_listeners s sessionId =
     (case jm_get sessionId (drainListenersBySession s) of Some r \<Rightarrow> set_members s r | None \<Rightarrow> [])"

definition bump_generation :: "string \<Rightarrow> drain_event \<Rightarrow> drain_store \<Rightarrow> drain_store" where
  "bump_generation sessionId e s =
     (if e = QueueCleared
      then s\<lparr>sendGenerationBySession :=
               jm_set sessionId (getQueuedSendGeneration s sessionId + 1) (sendGenerationBySession s)\<rparr>
      else s)"

definition prunable :: "drain_state \<Rightarrow> bool" where
  "prunable st = (phase st = Ready \<and> attemptsByItemId st = [] \<and> lastResolution st = None)"

definition store_state :: "string \<Rightarrow> drain_state \<Rightarrow> drain_store \<Rightarrow> drain_store" where
  "store_state sessionId st s =
     (if prunable st
      then s\<lparr>drainStateBySession := jm_delete sessionId (drainStateBySession s)\<rparr>
      else s\<lparr>drainStateBySession := jm_set sessionId st (drainStateBySession s)\<rparr>)"

text \<open>The answer, besides the store: the new object, if there is one, and the listeners called.\<close>

definition dispatchQueuedDrain ::
  "drain_store \<Rightarrow> string \<Rightarrow> drain_event \<Rightarrow> drain_store \<times> drain_state option \<times> nat list" where
  "dispatchQueuedDrain s0 sessionId e =
     (let s = bump_generation sessionId e s0
      in case reduceQueuedDrain (getQueuedDrainState s sessionId) e of
           None \<Rightarrow> (s, None, [])
         | Some st \<Rightarrow> (store_state sessionId st s, Some st, session_listeners s sessionId))"

definition claimQueuedSend :: "drain_store \<Rightarrow> string \<Rightarrow> string \<Rightarrow> bool \<Rightarrow> drain_store \<times> bool" where
  "claimQueuedSend s sessionId itemId steer =
     (let (s', next_state, _) = dispatchQueuedDrain s sessionId (SendStarted itemId steer)
      in (s', case next_state of
                None \<Rightarrow> False
              | Some st \<Rightarrow> (case phase st of Sending i _ \<Rightarrow> i = itemId | _ \<Rightarrow> False)))"

text \<open>
  The listener sets are objects: a subscription keeps the one it added its listener to,
  also when the map has dropped that set or holds another one by then.
\<close>

definition subscribeQueuedDrain :: "drain_store \<Rightarrow> string \<Rightarrow> nat \<Rightarrow> drain_store \<times> nat" where
  "subscribeQueuedDrain s sessionId listener =
     (let r = (case jm_get sessionId (drainListenersBySession s) of
                 Some r \<Rightarrow> r
               | None \<Rightarrow> length (listenerSets s));
          ls = set_members s r
      in (s\<lparr>drainListenersBySession := jm_set sessionId r (drainListenersBySession s),
            listenerSets := jm_set r (if listener \<in> set ls then ls else ls @ [listener]) (listenerSets s)\<rparr>,
          r))"

definition unsubscribe :: "drain_store \<Rightarrow> string \<Rightarrow> nat \<Rightarrow> nat \<Rightarrow> drain_store" where
  "unsubscribe s sessionId r listener =
     (let ls = filter (\<lambda>l. l \<noteq> listener) (set_members s r);
          s' = s\<lparr>listenerSets := jm_set r ls (listenerSets s)\<rparr>
      in if ls = [] then s'\<lparr>drainListenersBySession := jm_delete sessionId (drainListenersBySession s')\<rparr>
         else s')"

definition resetQueuedDrainForTests :: "drain_store \<Rightarrow> drain_store" where
  "resetQueuedDrainForTests s =
     s\<lparr>drainStateBySession := [], drainListenersBySession := [], sendGenerationBySession := []\<rparr>"

section \<open>The machine of one session\<close>

definition drain_run :: "drain_event list \<Rightarrow> drain_state" where
  "drain_run es = foldl reduced INITIAL_QUEUED_DRAIN_STATE es"

lemma drain_run_snoc: "drain_run (es @ [e]) = reduced (drain_run es) e"
  by (simp add: drain_run_def)

lemma drain_run_Nil: "drain_run [] = INITIAL_QUEUED_DRAIN_STATE"
  by (simp add: drain_run_def)

lemmas drain_defs = resolved_def start_send_def send_settled_def cleared_state_def
  INITIAL_QUEUED_DRAIN_STATE_def

definition phase_item :: "drain_phase \<Rightarrow> string option" where
  "phase_item ph =
     (case ph of
        Ready \<Rightarrow> None
      | Sending i _ \<Rightarrow> Some i
      | AdmissionUnknown i _ _ \<Rightarrow> Some i
      | AwaitingObservation i _ \<Rightarrow> Some i
      | Running i \<Rightarrow> Some i
      | Halted i _ \<Rightarrow> Some i)"

text \<open>While a send is in flight, only its own outcome moves the phase on.\<close>

definition settles :: "string \<Rightarrow> drain_event \<Rightarrow> bool" where
  "settles i e =
     (case e of SendResult j _ _ \<Rightarrow> j = i | SendError j \<Rightarrow> j = i | SendUnknown j _ _ \<Rightarrow> j = i | _ \<Rightarrow> False)"

definition is_sending :: "string \<Rightarrow> drain_phase \<Rightarrow> bool" where
  "is_sending i ph = (case ph of Sending j _ \<Rightarrow> j = i | _ \<Rightarrow> False)"

lemma is_sending_iff: "is_sending i ph \<longleftrightarrow> (\<exists>b. ph = Sending i b)"
  by (auto simp: is_sending_def split: drain_phase.splits)

lemma sending_kept:
  "is_sending i (phase st) \<Longrightarrow> \<not> settles i e \<Longrightarrow> is_sending i (phase (reduced st e))"
  by (cases e) (auto simp: is_sending_iff settles_def reduced_def start_refused_def)

lemma sending_refuses_start:
  "is_sending i (phase st) \<Longrightarrow> reduceQueuedDrain st (SendStarted j steer) = None"
  by (auto simp: is_sending_iff start_refused_def)

text \<open>An uncertain admission is left by the observation of exactly its message, or by a Stop.\<close>

definition releases_unknown :: "string \<Rightarrow> string \<Rightarrow> drain_event \<Rightarrow> bool" where
  "releases_unknown i m e =
     (case e of AdmissionObserved j n _ \<Rightarrow> j = i \<and> n = m | StopConfirmed \<Rightarrow> True | _ \<Rightarrow> False)"

lemma unknown_kept:
  "phase st = AdmissionUnknown i m t \<Longrightarrow> \<not> releases_unknown i m e \<Longrightarrow> reduceQueuedDrain st e = None"
  by (cases e) (auto simp: releases_unknown_def start_refused_def)

text \<open>What an item has behind it when the machine says so.\<close>

definition admits :: "string \<Rightarrow> int \<Rightarrow> drain_event \<Rightarrow> bool" where
  "admits i t e =
     (case e of
        SendResult j outcome u \<Rightarrow> j = i \<and> u = t \<and> (outcome = Sent \<or> outcome = Accepted)
      | AdmissionObserved j _ u \<Rightarrow> j = i \<and> u = t
      | _ \<Rightarrow> False)"

definition admitted_in :: "drain_event list \<Rightarrow> string \<Rightarrow> int \<Rightarrow> bool" where
  "admitted_in es i t = (\<exists>e \<in> set es. admits i t e)"

definition ever_admitted :: "drain_event list \<Rightarrow> string \<Rightarrow> bool" where
  "ever_admitted es i = (\<exists>t. admitted_in es i t)"

definition evidence :: "drain_event list \<Rightarrow> drain_phase \<Rightarrow> bool" where
  "evidence es ph =
     (case ph of
        Sending _ busySeen \<Rightarrow> busySeen \<longrightarrow> BusyObserved \<in> set es
      | AwaitingObservation i t \<Rightarrow> admitted_in es i t
      | Running i \<Rightarrow> ever_admitted es i \<and> BusyObserved \<in> set es
      | _ \<Rightarrow> True)"

lemma admitted_in_snoc [simp]: "admitted_in (es @ [e]) i t \<longleftrightarrow> admitted_in es i t \<or> admits i t e"
  by (auto simp: admitted_in_def)

lemma ever_admitted_snoc [simp]: "ever_admitted (es @ [e]) i \<longleftrightarrow> ever_admitted es i \<or> (\<exists>t. admits i t e)"
  by (auto simp: ever_admitted_def)

lemma ever_admittedI: "admitted_in es i t \<Longrightarrow> ever_admitted es i"
  by (auto simp: ever_admitted_def)

lemma evidence_mono: "evidence es ph \<Longrightarrow> evidence (es @ [e]) ph"
  by (auto simp: evidence_def split: drain_phase.splits)

lemma evidence_step:
  assumes "evidence es (phase st)"
  shows "evidence (es @ [e]) (phase (reduced st e))"
proof (cases "reduceQueuedDrain st e")
  case None
  then show ?thesis using assms by (simp add: reduced_def evidence_mono)
next
  case (Some st')
  then show ?thesis
    using assms
    by (cases e; cases "phase st")
      (auto simp: reduced_def evidence_def drain_defs admits_def is_running_def split: if_splits dest: ever_admittedI)
qed

lemma evidence_run: "evidence es (phase (drain_run es))"
proof (induction es rule: rev_induct)
  case Nil
  show ?case by (simp add: drain_run_Nil evidence_def INITIAL_QUEUED_DRAIN_STATE_def)
next
  case (snoc e es)
  then show ?case by (simp add: drain_run_snoc evidence_step)
qed

text \<open>The attempts of the item in the slot are counted.\<close>

definition slot_counted :: "drain_state \<Rightarrow> bool" where
  "slot_counted st =
     ((\<forall>i. phase_item (phase st) = Some i \<longrightarrow> (\<exists>n. jm_get i (attemptsByItemId st) = Some n)) \<and>
      (\<forall>i n. jm_get i (attemptsByItemId st) = Some n \<longrightarrow> 0 < n))"

lemma dropAttempt_get: "jm_get j (dropAttempt st i) = (if j = i then None else jm_get j (attemptsByItemId st))"
  by (auto simp: dropAttempt_def jm_has_def)

lemma slot_counted_step: "slot_counted st \<Longrightarrow> slot_counted (reduced st e)"
  by (cases e; cases "phase st")
    (auto simp: slot_counted_def reduced_def drain_defs phase_item_def dropAttempt_get Let_def split: if_splits option.splits)

lemma slot_counted_run: "slot_counted (drain_run es)"
proof (induction es rule: rev_induct)
  case Nil
  show ?case by (simp add: drain_run_Nil slot_counted_def phase_item_def INITIAL_QUEUED_DRAIN_STATE_def)
next
  case (snoc e es)
  then show ?case by (simp add: drain_run_snoc slot_counted_step)
qed

section \<open>Runs of the store\<close>

datatype drain_op =
    Dispatch string drain_event
  | Claim string string bool
  | Subscribe string nat
  | Unsubscribe string nat nat

definition op_event :: "drain_op \<Rightarrow> (string \<times> drain_event) option" where
  "op_event oper =
     (case oper of
        Dispatch sid e \<Rightarrow> Some (sid, e)
      | Claim sid i steer \<Rightarrow> Some (sid, SendStarted i steer)
      | _ \<Rightarrow> None)"

definition drain_exec :: "drain_store \<Rightarrow> drain_op \<Rightarrow> drain_store" where
  "drain_exec s oper =
     (case oper of
        Dispatch sid e \<Rightarrow> fst (dispatchQueuedDrain s sid e)
      | Claim sid i steer \<Rightarrow> fst (claimQueuedSend s sid i steer)
      | Subscribe sid l \<Rightarrow> fst (subscribeQueuedDrain s sid l)
      | Unsubscribe sid r l \<Rightarrow> unsubscribe s sid r l)"

definition drain_execs :: "drain_store \<Rightarrow> drain_op list \<Rightarrow> drain_store" where
  "drain_execs s ops = foldl drain_exec s ops"

definition session_events :: "string \<Rightarrow> drain_op list \<Rightarrow> drain_event list" where
  "session_events sid ops =
     map snd (filter (\<lambda>p. fst p = sid) (List.map_filter op_event ops))"

lemma session_events_Nil [simp]: "session_events sid [] = []"
  by (simp add: session_events_def List.map_filter_def)

lemma session_events_snoc:
  "session_events sid (ops @ [oper]) =
     session_events sid ops @
       (case op_event oper of Some (sid', e) \<Rightarrow> if sid' = sid then [e] else [] | None \<Rightarrow> [])"
  by (auto simp: session_events_def List.map_filter_def split: option.split)

lemma drain_execs_snoc: "drain_execs s (ops @ [oper]) = drain_exec (drain_execs s ops) oper"
  by (simp add: drain_execs_def)

lemma drain_execs_Nil [simp]: "drain_execs s [] = s"
  by (simp add: drain_execs_def)

lemma prunable_iff: "prunable st \<longleftrightarrow> st = INITIAL_QUEUED_DRAIN_STATE"
  by (cases st) (simp add: prunable_def INITIAL_QUEUED_DRAIN_STATE_def)

lemma get_bump [simp]: "getQueuedDrainState (bump_generation sid' e s) sid = getQueuedDrainState s sid"
  by (simp add: getQueuedDrainState_def bump_generation_def)

lemma get_store_state:
  "getQueuedDrainState (store_state sid' st s) sid = (if sid = sid' then st else getQueuedDrainState s sid)"
  by (simp add: getQueuedDrainState_def store_state_def prunable_iff)

lemma get_dispatch:
  "getQueuedDrainState (fst (dispatchQueuedDrain s sid' e)) sid =
     (if sid = sid' then reduced (getQueuedDrainState s sid) e else getQueuedDrainState s sid)"
  by (simp add: dispatchQueuedDrain_def reduced_def get_store_state Let_def split: option.split)

lemma claim_dispatch: "fst (claimQueuedSend s sid i steer) = fst (dispatchQueuedDrain s sid (SendStarted i steer))"
  by (simp add: claimQueuedSend_def split: prod.split)

lemma claim_iff:
  "snd (claimQueuedSend s sid i steer) \<longleftrightarrow> \<not> start_refused (phase (getQueuedDrainState s sid)) i steer"
  by (simp add: claimQueuedSend_def dispatchQueuedDrain_def start_send_def Let_def)

lemma get_subscribe [simp]: "getQueuedDrainState (fst (subscribeQueuedDrain s sid' l)) sid = getQueuedDrainState s sid"
  by (simp add: subscribeQueuedDrain_def getQueuedDrainState_def Let_def)

lemma get_unsubscribe [simp]: "getQueuedDrainState (unsubscribe s sid' r l) sid = getQueuedDrainState s sid"
  by (simp add: unsubscribe_def getQueuedDrainState_def Let_def)

lemma get_exec:
  "getQueuedDrainState (drain_exec s oper) sid =
     (case op_event oper of
        Some (sid', e) \<Rightarrow> if sid' = sid then reduced (getQueuedDrainState s sid) e else getQueuedDrainState s sid
      | None \<Rightarrow> getQueuedDrainState s sid)"
  by (cases oper) (auto simp: drain_exec_def op_event_def get_dispatch claim_dispatch)

lemma get_execs:
  "getQueuedDrainState (drain_execs s ops) sid = foldl reduced (getQueuedDrainState s sid) (session_events sid ops)"
  by (induction ops rule: rev_induct)
    (auto simp: drain_execs_snoc get_exec session_events_snoc split: option.split)

lemma get_empty [simp]: "getQueuedDrainState empty_store sid = INITIAL_QUEUED_DRAIN_STATE"
  by (simp add: getQueuedDrainState_def empty_store_def)

definition store_ok :: "drain_store \<Rightarrow> bool" where
  "store_ok s =
     (jm_wf (drainStateBySession s) \<and> (\<forall>(sid, st) \<in> set (drainStateBySession s). \<not> prunable st))"

lemma set_jm_set: "set (jm_set k v m) \<subseteq> insert (k, v) (set m)"
  by (induction m) (auto split: if_splits)

lemma set_jm_delete: "set (jm_delete k m) \<subseteq> set m"
  by (auto simp: jm_delete_def)

lemma store_ok_bump [simp]: "store_ok (bump_generation sid e s) = store_ok s"
  by (simp add: store_ok_def bump_generation_def)

lemma store_ok_store_state: "store_ok s \<Longrightarrow> store_ok (store_state sid st s)"
  using set_jm_set [of sid st "drainStateBySession s"] set_jm_delete [of sid "drainStateBySession s"]
  by (auto simp: store_ok_def store_state_def)

lemma store_ok_dispatch: "store_ok s \<Longrightarrow> store_ok (fst (dispatchQueuedDrain s sid e))"
  by (simp add: dispatchQueuedDrain_def store_ok_store_state Let_def split: option.split)

lemma store_ok_exec: "store_ok s \<Longrightarrow> store_ok (drain_exec s oper)"
  by (cases oper)
    (auto simp: drain_exec_def claim_dispatch store_ok_dispatch, auto simp: store_ok_def subscribeQueuedDrain_def unsubscribe_def Let_def)

lemma store_ok_execs: "store_ok s \<Longrightarrow> store_ok (drain_execs s ops)"
  by (induction ops rule: rev_induct) (simp_all add: drain_execs_snoc store_ok_exec)

lemma generation_bump:
  "getQueuedSendGeneration (bump_generation sid' e s) sid =
     getQueuedSendGeneration s sid + (if sid' = sid \<and> e = QueueCleared then 1 else 0)"
  by (auto simp: bump_generation_def getQueuedSendGeneration_def)

lemma generation_store_state [simp]:
  "getQueuedSendGeneration (store_state sid' st s) sid = getQueuedSendGeneration s sid"
  by (simp add: getQueuedSendGeneration_def store_state_def)

lemma generation_dispatch:
  "getQueuedSendGeneration (fst (dispatchQueuedDrain s sid' e)) sid =
     getQueuedSendGeneration s sid + (if sid' = sid \<and> e = QueueCleared then 1 else 0)"
  by (auto simp: dispatchQueuedDrain_def generation_bump Let_def split: option.split)

lemma generation_exec:
  "getQueuedSendGeneration (drain_exec s oper) sid =
     getQueuedSendGeneration s sid + (if oper = Dispatch sid QueueCleared then 1 else 0)"
  by (cases oper)
    (auto simp: drain_exec_def claim_dispatch generation_dispatch,
     auto simp: getQueuedSendGeneration_def subscribeQueuedDrain_def unsubscribe_def Let_def)

lemma generation_execs:
  "getQueuedSendGeneration (drain_execs s ops) sid =
     getQueuedSendGeneration s sid + length (filter (\<lambda>oper. oper = Dispatch sid QueueCleared) ops)"
  by (induction ops rule: rev_induct) (simp_all add: drain_execs_snoc generation_exec)

section \<open>Properties\<close>

definition settles_op :: "string \<Rightarrow> string \<Rightarrow> drain_op \<Rightarrow> bool" where
  "settles_op sid i oper = (case op_event oper of Some (sid', e) \<Rightarrow> sid' = sid \<and> settles i e | None \<Rightarrow> False)"

lemma session_events_settles:
  "\<forall>oper \<in> set ops. \<not> settles_op sid i oper \<Longrightarrow> \<forall>e \<in> set (session_events sid ops). \<not> settles i e"
  by (induction ops rule: rev_induct) (auto simp: session_events_snoc settles_op_def split: option.splits)

lemma sending_kept_run:
  "is_sending i (phase st) \<Longrightarrow> \<forall>e \<in> set es. \<not> settles i e \<Longrightarrow> is_sending i (phase (foldl reduced st es))"
  by (induction es rule: rev_induct) (simp_all add: sending_kept)

lemma claim_sending:
  assumes "snd (claimQueuedSend s sid i steer)"
  shows "is_sending i (phase (getQueuedDrainState (fst (claimQueuedSend s sid i steer)) sid))"
  using assms
  by (simp add: claim_iff claim_dispatch get_dispatch reduced_def start_send_def is_sending_def Let_def)

text \<open>C15. A claimed send slot is exclusive: once a surface has claimed the slot of a session
  for an item, every later claim of that session, steering or not and for whatever item,
  is refused until the outcome of that very send has been dispatched. Busy and idle
  levels, a Stop, a clearing of the queue and the traffic of other sessions or of other
  items do not hand the slot out again, so no queued item is sent twice.\<close>

theorem send_slot_exclusive:
  assumes "claimQueuedSend s sid i steer = (s', True)"
    and "\<forall>oper \<in> set ops. \<not> settles_op sid i oper"
  shows "\<not> snd (claimQueuedSend (drain_execs s' ops) sid j steer')"
proof -
  have "is_sending i (phase (getQueuedDrainState s' sid))"
    using assms(1) claim_sending [of s sid i steer] by simp
  then have "is_sending i (phase (getQueuedDrainState (drain_execs s' ops) sid))"
    using sending_kept_run session_events_settles [OF assms(2)] by (simp add: get_execs)
  then show ?thesis by (auto simp: claim_iff is_sending_iff start_refused_def)
qed

theorem send_slot_exclusive_witness:
  "\<exists>s'. claimQueuedSend empty_store ''ses'' ''a'' False = (s', True) \<and>
     \<not> snd (claimQueuedSend
         (drain_execs s' [Dispatch ''ses'' BusyObserved, Dispatch ''ses'' StopConfirmed,
            Dispatch ''ses'' (SendResult ''b'' Sent 3), Dispatch ''two'' (SendError ''a'')])
         ''ses'' ''a'' True)"
proof -
  have claimed: "claimQueuedSend empty_store ''ses'' ''a'' False =
      (fst (claimQueuedSend empty_store ''ses'' ''a'' False), True)"
    by code_simp
  show ?thesis
    by (rule exI, rule conjI, rule claimed, rule send_slot_exclusive [OF claimed])
      (simp add: settles_op_def op_event_def settles_def)
qed

text \<open>An uncertain admission is held and probed: in that phase the state of the session
  does not change until a message with exactly the recorded item and message ids is
  observed, or a Stop is confirmed; meanwhile no claim succeeds, nothing is resent, and
  a probe stays scheduled.\<close>

theorem uncertain_admission_held:
  assumes "phase (getQueuedDrainState s sid) = AdmissionUnknown i m t"
    and "\<forall>e \<in> set (session_events sid ops). \<not> releases_unknown i m e"
  shows "getQueuedDrainState (drain_execs s ops) sid = getQueuedDrainState s sid
    \<and> \<not> snd (claimQueuedSend (drain_execs s ops) sid j steer)
    \<and> nextObservationProbeAt (getQueuedDrainState (drain_execs s ops) sid) None = Some (t + 10000)"
proof -
  have "foldl reduced st es = st"
    if "phase st = AdmissionUnknown i m t" "\<forall>e \<in> set es. \<not> releases_unknown i m e" for st es
    using that(2) unknown_kept [OF that(1)] by (induction es) (simp_all add: reduced_def)
  then have kept: "getQueuedDrainState (drain_execs s ops) sid = getQueuedDrainState s sid"
    using assms by (simp add: get_execs)
  then show ?thesis
    using assms(1)
    by (simp add: claim_iff start_refused_def nextObservationProbeAt_def QUEUE_ADMISSION_OBSERVATION_TIMEOUT_MS_def)
qed

theorem uncertain_admission_held_witness:
  "let s = drain_execs empty_store [Claim ''ses'' ''a'' False, Dispatch ''ses'' (SendUnknown ''a'' ''msg'' 7)]
   in getQueuedDrainState (drain_execs s [Dispatch ''ses'' (IdleReconciled 90), Dispatch ''ses'' (AdmissionObserved ''a'' ''old'' 9)]) ''ses''
        = getQueuedDrainState s ''ses''
    \<and> \<not> snd (claimQueuedSend (drain_execs s [Dispatch ''ses'' (IdleReconciled 90), Dispatch ''ses'' (AdmissionObserved ''a'' ''old'' 9)]) ''ses'' ''b'' True)
    \<and> nextObservationProbeAt (getQueuedDrainState (drain_execs s [Dispatch ''ses'' (IdleReconciled 90), Dispatch ''ses'' (AdmissionObserved ''a'' ''old'' 9)]) ''ses'') None
        = Some (7 + 10000)"
  unfolding Let_def
proof (rule uncertain_admission_held [where i = "''a''" and m = "''msg''"])
  show "phase (getQueuedDrainState (drain_execs empty_store [Claim ''ses'' ''a'' False, Dispatch ''ses'' (SendUnknown ''a'' ''msg'' 7)]) ''ses'')
      = AdmissionUnknown ''a'' ''msg'' 7"
    by code_simp
  show "\<forall>e \<in> set (session_events ''ses'' [Dispatch ''ses'' (IdleReconciled 90), Dispatch ''ses'' (AdmissionObserved ''a'' ''old'' 9)]).
      \<not> releases_unknown ''a'' ''msg'' e"
    by code_simp
qed

text \<open>C30. A queued item is only declared completed on evidence. When an idle level releases
  the slot, the released item had been admitted by its send or by the observation of its
  message, and either a busy level had been seen or the idle was observed no earlier
  than that admission; the item's attempts are then forgotten and the next item may go.\<close>

theorem completion_needs_evidence:
  assumes "reduceQueuedDrain (drain_run es) (IdleReconciled observed) = Some st'"
  shows "\<exists>i. lastResolution st' = Some (i, Completed) \<and> phase st' = Ready
    \<and> jm_get i (attemptsByItemId st') = None
    \<and> (\<exists>t. admitted_in es i t \<and> (t \<le> observed \<or> BusyObserved \<in> set es))"
  using assms evidence_run [of es]
  by (auto simp: evidence_def ever_admitted_def drain_defs dropAttempt_get not_less split: drain_phase.splits if_splits)

theorem completion_needs_evidence_witness:
  "\<exists>(st' :: drain_state) i. lastResolution st' = Some (i, Completed) \<and> phase st' = Ready
    \<and> jm_get i (attemptsByItemId st') = None
    \<and> (\<exists>t. admitted_in [SendStarted ''a'' False, SendResult ''a'' Accepted 20, IdleReconciled 12] i t
          \<and> (t \<le> 21 \<or> BusyObserved \<in> set [SendStarted ''a'' False, SendResult ''a'' Accepted 20, IdleReconciled 12]))"
proof -
  have "reduceQueuedDrain (drain_run [SendStarted ''a'' False, SendResult ''a'' Accepted 20, IdleReconciled 12])
      (IdleReconciled 21) = Some \<lparr>phase = Ready, attemptsByItemId = [], lastResolution = Some (''a'', Completed)\<rparr>"
    by (simp add: drain_run_def reduced_def start_refused_def start_send_def send_settled_def resolved_def
        dropAttempt_def is_running_def jm_has_def jm_delete_def INITIAL_QUEUED_DRAIN_STATE_def)
  from completion_needs_evidence [OF this] show ?thesis by blast
qed

text \<open>What the surroundings do about each phase; no step of it is a busy level.\<close>

definition recovery_event :: "(string \<Rightarrow> drain_event) \<Rightarrow> int \<Rightarrow> drain_phase \<Rightarrow> drain_event" where
  "recovery_event settle now ph =
     (case ph of
        Ready \<Rightarrow> IdleReconciled now
      | Sending i _ \<Rightarrow> settle i
      | AdmissionUnknown i m _ \<Rightarrow> AdmissionObserved i m now
      | AwaitingObservation _ _ \<Rightarrow> IdleReconciled now
      | Running _ \<Rightarrow> IdleReconciled now
      | Halted _ _ \<Rightarrow> UserRetry)"

primrec recover :: "nat \<Rightarrow> (string \<Rightarrow> drain_event) \<Rightarrow> int \<Rightarrow> drain_state \<Rightarrow> drain_state" where
  "recover 0 settle now st = st"
| "recover (Suc n) settle now st = recover n settle now (reduced st (recovery_event settle now (phase st)))"

definition settles_by :: "int \<Rightarrow> (string \<Rightarrow> drain_event) \<Rightarrow> bool" where
  "settles_by now settle =
     (\<forall>i. (\<exists>outcome t. settle i = SendResult i outcome t \<and> t \<le> now) \<or> settle i = SendError i
        \<or> (\<exists>m t. settle i = SendUnknown i m t))"

definition admitted_by :: "int \<Rightarrow> drain_phase \<Rightarrow> bool" where
  "admitted_by now ph = (case ph of AwaitingObservation _ t \<Rightarrow> t \<le> now | _ \<Rightarrow> True)"

definition phase_rank :: "drain_phase \<Rightarrow> nat" where
  "phase_rank ph =
     (case ph of
        Ready \<Rightarrow> 0
      | Halted _ _ \<Rightarrow> 1
      | Running _ \<Rightarrow> 1
      | AwaitingObservation _ _ \<Rightarrow> 1
      | AdmissionUnknown _ _ _ \<Rightarrow> 2
      | Sending _ _ \<Rightarrow> 3)"

lemma recovery_step:
  assumes "settles_by now settle" "admitted_by now (phase st)"
  shows "admitted_by now (phase (reduced st (recovery_event settle now (phase st))))
    \<and> (phase st = Ready \<or> phase_rank (phase (reduced st (recovery_event settle now (phase st)))) < phase_rank (phase st))"
proof (cases "phase st")
  case (Sending i b)
  have "(\<exists>outcome t. settle i = SendResult i outcome t \<and> t \<le> now) \<or> settle i = SendError i
        \<or> (\<exists>m t. settle i = SendUnknown i m t)"
    using assms(1) by (simp add: settles_by_def)
  then show ?thesis
    using Sending by (auto simp: recovery_event_def reduced_def drain_defs admitted_by_def phase_rank_def)
qed (use assms(2) in \<open>auto simp: recovery_event_def reduced_def drain_defs admitted_by_def phase_rank_def\<close>)

lemma recover_Ready: "phase st = Ready \<Longrightarrow> recover n settle now st = st"
  by (induction n) (simp_all add: recovery_event_def reduced_def)

lemma recover_rank:
  "settles_by now settle \<Longrightarrow> admitted_by now (phase st) \<Longrightarrow> phase_rank (phase st) \<le> n
   \<Longrightarrow> phase (recover n settle now st) = Ready"
proof (induction n arbitrary: st)
  case 0
  then show ?case by (simp add: phase_rank_def split: drain_phase.splits)
next
  case (Suc n)
  show ?case
  proof (cases "phase st = Ready")
    case True
    then show ?thesis by (simp only: recover_Ready)
  next
    case False
    then show ?thesis using Suc recovery_step [OF Suc.prems(1,2)] by simp
  qed
qed

text \<open>C31. The drain never wedges. From every state, whatever was missed before, three
  reactions suffice to make the drain ready for the next item: the send in flight
  settles in any way, an uncertain message is observed, an idle level is read no earlier
  than the admission, or the user retries a halted item. A busy level is never needed.\<close>

theorem drain_never_wedged:
  assumes "settles_by now settle" and "admitted_by now (phase st)"
  shows "canAdmitNextQueuedItem (recover 3 settle now st)"
  unfolding canAdmitNextQueuedItem_def
  by (rule recover_rank [OF assms]) (simp add: phase_rank_def split: drain_phase.split)

theorem drain_never_wedged_witness:
  "canAdmitNextQueuedItem
     (recover 3 (\<lambda>i. SendUnknown i ''msg'' 4) 50 (drain_run [SendStarted ''a'' False, BusyObserved]))"
proof (rule drain_never_wedged)
  show "settles_by 50 (\<lambda>i. SendUnknown i ''msg'' 4)" by (simp add: settles_by_def)
  show "admitted_by 50 (phase (drain_run [SendStarted ''a'' False, BusyObserved]))" by code_simp
qed

text \<open>C32. The pruned store implements one independent machine per session. After any
  interleaving of dispatches, claims and subscriptions, the state of a session is the
  fold of the reducer over the events of that session alone, the map holds only states
  other than the initial one, the item in the slot has a positive count of attempts, and
  a send taken at some generation is still current exactly when no clearing of its
  session's queue came after.\<close>

theorem drain_store_refines_machines:
  "getQueuedDrainState (drain_execs empty_store ops) sid = drain_run (session_events sid ops)
   \<and> store_ok (drain_execs empty_store ops)
   \<and> slot_counted (getQueuedDrainState (drain_execs empty_store ops) sid)
   \<and> (assertQueuedSendCurrent (drain_execs (drain_execs empty_store ops) later) sid
        (getQueuedSendGeneration (drain_execs empty_store ops) sid) = Inr ()
      \<longleftrightarrow> Dispatch sid QueueCleared \<notin> set later)"
proof -
  have state: "getQueuedDrainState (drain_execs empty_store ops) sid = drain_run (session_events sid ops)"
    by (simp add: get_execs drain_run_def)
  have "store_ok empty_store" by (simp add: store_ok_def empty_store_def)
  then show ?thesis
    by (auto simp: state slot_counted_run store_ok_execs assertQueuedSendCurrent_def generation_execs filter_empty_conv)
qed

end
