(* ===== verification/ConversationHistory.thy ===== *)
theory ConversationHistory
  imports Prelude
begin

text \<open>
  The back and forward history of the conversation tabs
  (\<open>apps/app/src/react-app/domains/session/chat/conversation-tab-history.ts\<close>).

  The index is an integer, \<open>-1\<close> for an empty history, as in the source. A session id
  that is \<open>null\<close> or empty is falsy; both are handled by \<open>session_given\<close>.
\<close>

section \<open>The history and its operations\<close>

record history_entry =
  he_session :: string
  he_split :: "string option"

record tab_history =
  th_workspace :: string
  th_entries :: "history_entry list"
  th_index :: int

datatype history_direction = Backward | Forward

definition entry_at :: "tab_history \<Rightarrow> int \<Rightarrow> history_entry option" where
  "entry_at h i = (if 0 \<le> i then js_at (th_entries h) (nat i) else None)"

definition sameEntry :: "history_entry option \<Rightarrow> string \<Rightarrow> string option \<Rightarrow> bool" where
  "sameEntry e sid split =
     (case e of Some x \<Rightarrow> he_session x = sid \<and> he_split x = split | None \<Rightarrow> False)"

definition session_given :: "string option \<Rightarrow> string option" where
  "session_given sid = (case sid of Some s \<Rightarrow> if s = [] then None else Some s | None \<Rightarrow> None)"

definition createConversationTabHistory :: "string \<Rightarrow> string option \<Rightarrow> string option \<Rightarrow> tab_history" where
  "createConversationTabHistory ws sid split =
     (case session_given sid of
        Some s \<Rightarrow> \<lparr>th_workspace = ws, th_entries = [\<lparr>he_session = s, he_split = split\<rparr>], th_index = 0\<rparr>
      | None \<Rightarrow> \<lparr>th_workspace = ws, th_entries = [], th_index = -1\<rparr>)"

definition last_entry :: "history_entry list \<Rightarrow> history_entry option" where
  "last_entry es = (if es = [] then None else Some (last es))"

definition push_entry :: "history_entry list \<Rightarrow> history_entry \<Rightarrow> history_entry list" where
  "push_entry es e = (if sameEntry (last_entry es) (he_session e) (he_split e) then es else es @ [e])"

definition syncConversationTabHistory :: "tab_history \<Rightarrow> string \<Rightarrow> string option \<Rightarrow> string option \<Rightarrow> tab_history" where
  "syncConversationTabHistory h ws sid split =
     (if th_workspace h \<noteq> ws then createConversationTabHistory ws sid split
      else case session_given sid of
        None \<Rightarrow>
          (if th_entries h = [] \<and> th_index h = -1 then h else createConversationTabHistory ws None None)
      | Some s \<Rightarrow>
          (if sameEntry (entry_at h (th_index h)) s split then h
           else
             (let before = (if 0 \<le> th_index h then take (nat (th_index h + 1)) (th_entries h) else []);
                  entries = push_entry before \<lparr>he_session = s, he_split = split\<rparr>
              in \<lparr>th_workspace = ws, th_entries = entries, th_index = int (length entries) - 1\<rparr>)))"

definition canNavigateConversationHistory :: "tab_history \<Rightarrow> history_direction \<Rightarrow> bool" where
  "canNavigateConversationHistory h dir =
     (if dir = Backward then th_index h > 0
      else th_index h \<ge> 0 \<and> th_index h < int (length (th_entries h)) - 1)"

definition isConversationTabHistoryCurrent :: "tab_history \<Rightarrow> string \<Rightarrow> string option \<Rightarrow> bool" where
  "isConversationTabHistoryCurrent h ws sid =
     (th_workspace h = ws \<and> sid \<noteq> None \<and> map_option he_session (entry_at h (th_index h)) = sid)"

definition canNavigateSelectedConversationHistory ::
  "tab_history \<Rightarrow> string \<Rightarrow> string option \<Rightarrow> history_direction \<Rightarrow> bool" where
  "canNavigateSelectedConversationHistory h ws sid dir =
     (isConversationTabHistoryCurrent h ws sid \<and> canNavigateConversationHistory h dir)"

definition drop_split :: "string \<Rightarrow> history_entry \<Rightarrow> history_entry" where
  "drop_split sid e = (if he_split e = Some sid then e\<lparr>he_split := None\<rparr> else e)"

definition merge_repeats :: "history_entry list \<Rightarrow> history_entry list" where
  "merge_repeats es = foldl push_entry [] es"

definition removeConversationHistoryEntry :: "tab_history \<Rightarrow> string \<Rightarrow> string \<Rightarrow> tab_history" where
  "removeConversationHistoryEntry h ws sid =
     (if th_workspace h \<noteq> ws then h
      else
        (let removedIndex = find_index (\<lambda>e. he_session e = sid) (th_entries h);
             referencedAsSplit = list_ex (\<lambda>e. he_split e = Some sid) (th_entries h)
         in if removedIndex = None \<and> \<not> referencedAsSplit then h
            else
              (let kept = map (drop_split sid) (filter (\<lambda>e. he_session e \<noteq> sid) (th_entries h));
                   entries = merge_repeats kept;
                   index = (case removedIndex of
                      Some r \<Rightarrow> (if int r \<le> th_index h then max 0 (th_index h - 1) else th_index h)
                    | None \<Rightarrow> th_index h)
               in if entries = [] then createConversationTabHistory ws None None
                  else \<lparr>th_workspace = ws, th_entries = entries,
                         th_index = min index (int (length entries) - 1)\<rparr>)))"

definition navigateConversationTabHistory :: "tab_history \<Rightarrow> history_direction \<Rightarrow> tab_history \<times> history_entry option" where
  "navigateConversationTabHistory h dir =
     (if \<not> canNavigateConversationHistory h dir then (h, None)
      else
        (let index = (if dir = Backward then th_index h - 1 else th_index h + 1)
         in (h\<lparr>th_index := index\<rparr>, entry_at h index)))"

section \<open>Adjacent repetitions\<close>

lemma sameEntry_iff: "sameEntry e (he_session x) (he_split x) \<longleftrightarrow> e = Some (x :: history_entry)"
  by (auto simp: sameEntry_def split: option.split)

lemma sameEntry_record: "sameEntry e s p \<longleftrightarrow> e = Some \<lparr>he_session = s, he_split = p\<rparr>"
  by (auto simp: sameEntry_def split: option.split)

lemma push_entry_eq: "push_entry es e = (if es \<noteq> [] \<and> last es = e then es else es @ [e])"
  by (auto simp: push_entry_def sameEntry_iff last_entry_def)

lemma remdups_adj_snoc:
  "remdups_adj (xs @ [x]) = (if xs \<noteq> [] \<and> last xs = x then remdups_adj xs else remdups_adj xs @ [x])"
  by (induction xs rule: remdups_adj.induct) auto

lemma merge_repeats_remdups: "merge_repeats es = remdups_adj es"
proof (induction es rule: rev_induct)
  case Nil
  show ?case by (simp add: merge_repeats_def)
next
  case (snoc e es)
  then show ?case by (auto simp: merge_repeats_def push_entry_eq remdups_adj_snoc last_remdups_adj)
qed

lemma distinct_adj_snoc: "distinct_adj (xs @ [x]) \<longleftrightarrow> distinct_adj xs \<and> (xs = [] \<or> last xs \<noteq> x)"
  by (auto simp: distinct_adj_append_iff)

lemma distinct_adj_take: "distinct_adj xs \<Longrightarrow> distinct_adj (take n xs)"
  by (metis append_take_drop_id distinct_adj_appendD1)

section \<open>Well-formed histories\<close>

definition history_ok :: "tab_history \<Rightarrow> bool" where
  "history_ok h =
     ((th_entries h = [] \<and> th_index h = -1 \<or> 0 \<le> th_index h \<and> th_index h < int (length (th_entries h)))
      \<and> distinct_adj (th_entries h) \<and> (\<forall>e \<in> set (th_entries h). he_session e \<noteq> []))"

lemma session_given_Some: "session_given sid = Some s \<longleftrightarrow> sid = Some s \<and> s \<noteq> []"
  by (auto simp: session_given_def split: option.split)

lemma history_ok_create: "history_ok (createConversationTabHistory ws sid split)"
  by (auto simp: history_ok_def createConversationTabHistory_def session_given_Some split: option.split)

lemma history_ok_last:
  "es \<noteq> [] \<Longrightarrow> distinct_adj es \<Longrightarrow> \<forall>e \<in> set es. he_session e \<noteq> []
   \<Longrightarrow> history_ok \<lparr>th_workspace = ws, th_entries = es, th_index = int (length es) - 1\<rparr>"
  by (auto simp: history_ok_def Suc_le_eq)

lemma history_ok_push:
  assumes "distinct_adj es" "\<forall>e \<in> set es. he_session e \<noteq> []" "he_session x \<noteq> []"
  shows "history_ok \<lparr>th_workspace = ws, th_entries = push_entry es x, th_index = int (length (push_entry es x)) - 1\<rparr>"
  using assms by (intro history_ok_last) (auto simp: push_entry_eq distinct_adj_snoc)

lemma history_ok_sync:
  assumes "history_ok h"
  shows "history_ok (syncConversationTabHistory h ws sid split)"
proof -
  let ?before = "if 0 \<le> th_index h then take (nat (th_index h + 1)) (th_entries h) else []"
  have "distinct_adj ?before" "\<forall>e \<in> set ?before. he_session e \<noteq> []"
    using assms by (auto simp: history_ok_def distinct_adj_take dest: in_set_takeD)
  then show ?thesis
    using assms
    by (auto simp: syncConversationTabHistory_def history_ok_create history_ok_push session_given_Some Let_def
        simp del: append_take_drop_id split: option.split)
qed

lemma history_ok_remove:
  assumes "history_ok h"
  shows "history_ok (removeConversationHistoryEntry h ws sid)"
proof -
  let ?es = "remdups_adj (map (drop_split sid) (filter (\<lambda>e. he_session e \<noteq> sid) (th_entries h)))"
  have "\<forall>e \<in> set ?es. he_session e \<noteq> []"
    using assms by (auto simp: history_ok_def drop_split_def)
  moreover have "distinct_adj ?es" by simp
  ultimately show ?thesis
    using assms
    by (auto simp: removeConversationHistoryEntry_def merge_repeats_remdups history_ok_create Let_def,
        auto simp: history_ok_def split: option.split)
qed

lemma history_ok_navigate: "history_ok h \<Longrightarrow> history_ok (fst (navigateConversationTabHistory h dir))"
  by (auto simp: navigateConversationTabHistory_def canNavigateConversationHistory_def history_ok_def Let_def)

inductive history_reachable :: "tab_history \<Rightarrow> bool" where
  created: "history_reachable (createConversationTabHistory ws sid split)"
| synced: "history_reachable h \<Longrightarrow> history_reachable (syncConversationTabHistory h ws sid split)"
| removed: "history_reachable h \<Longrightarrow> history_reachable (removeConversationHistoryEntry h ws s)"
| navigated: "history_reachable h \<Longrightarrow> history_reachable (fst (navigateConversationTabHistory h dir))"

lemma history_reachable_ok: "history_reachable h \<Longrightarrow> history_ok h"
  by (induction rule: history_reachable.induct)
    (simp_all only: history_ok_create history_ok_sync history_ok_remove history_ok_navigate)

section \<open>Properties\<close>

lemma navigate_iff:
  "snd (navigateConversationTabHistory h dir) \<noteq> None \<longleftrightarrow> canNavigateConversationHistory h dir"
  if "history_ok h"
  using that
  by (auto simp: navigateConversationTabHistory_def canNavigateConversationHistory_def history_ok_def entry_at_def js_at_def Let_def)

text \<open>C33. The index of a history always points at an entry. However a history was built by
  opening and closing tabs, removing sessions and moving back and forward, it is either
  empty with index \<open>-1\<close> or its index selects one of its entries, no entry repeats its
  neighbour, no session id is empty, and moving in a direction yields an entry exactly
  when the history says it can move there.\<close>

theorem history_index_selects:
  assumes "history_reachable h"
  shows "((th_entries h = [] \<and> th_index h = -1) \<or> (\<exists>e. entry_at h (th_index h) = Some e \<and> e \<in> set (th_entries h)))
    \<and> distinct_adj (th_entries h) \<and> (\<forall>e \<in> set (th_entries h). he_session e \<noteq> [])
    \<and> (snd (navigateConversationTabHistory h dir) \<noteq> None) = canNavigateConversationHistory h dir"
  using history_reachable_ok [OF assms] navigate_iff [OF history_reachable_ok [OF assms]]
  by (auto simp: history_ok_def entry_at_def js_at_def)

theorem history_index_selects_witness:
  "\<forall>dir. (snd (navigateConversationTabHistory
        (syncConversationTabHistory (createConversationTabHistory ''ws'' (Some ''a'') None) ''ws'' (Some ''b'') None) dir) \<noteq> None)
    = canNavigateConversationHistory
        (syncConversationTabHistory (createConversationTabHistory ''ws'' (Some ''a'') None) ''ws'' (Some ''b'') None) dir"
  using history_index_selects [OF synced [OF created]] by blast

lemma entry_at_current: "history_ok h \<Longrightarrow> th_entries h \<noteq> [] \<Longrightarrow> entry_at h (th_index h) = Some (th_entries h ! nat (th_index h))"
  by (auto simp: entry_at_def js_at_def history_ok_def)

lemma sync_new:
  assumes "history_ok h" "th_workspace h = ws" "s \<noteq> []" "entry_at h (th_index h) \<noteq> Some \<lparr>he_session = s, he_split = split\<rparr>"
  shows "syncConversationTabHistory h ws (Some s) split =
    \<lparr>th_workspace = ws,
     th_entries = take (nat (th_index h + 1)) (th_entries h) @ [\<lparr>he_session = s, he_split = split\<rparr>],
     th_index = th_index h + 1\<rparr>"
proof (cases "th_entries h = []")
  case True
  then have "th_index h = -1" using assms(1) by (auto simp: history_ok_def)
  with True show ?thesis
    using assms
    by (simp add: syncConversationTabHistory_def session_given_def sameEntry_record push_entry_eq Let_def)
next
  case False
  then have range: "0 \<le> th_index h" "th_index h < int (length (th_entries h))"
    using assms(1) by (auto simp: history_ok_def)
  let ?b = "take (nat (th_index h + 1)) (th_entries h)"
  have len: "length ?b = nat (th_index h + 1)" using range by simp
  have "last ?b = th_entries h ! nat (th_index h)"
    using range by (simp add: nat_add_distrib take_Suc_conv_app_nth)
  then have "last ?b \<noteq> \<lparr>he_session = s, he_split = split\<rparr>"
    using assms(4) entry_at_current [OF assms(1) False] by simp
  then show ?thesis
    using assms range len
    by (simp add: syncConversationTabHistory_def session_given_def sameEntry_record push_entry_eq Let_def)
qed

text \<open>Opening a conversation can be undone and redone. When a conversation other than
  the current one is opened, it becomes the current entry with nothing ahead of it;
  going back shows exactly the conversation that was current before, with its split
  pane, and going forward again restores the history as it was after the opening.\<close>

theorem open_back_forward:
  assumes "history_reachable h" and "entry_at h (th_index h) = Some e"
    and "s \<noteq> []" and "e \<noteq> \<lparr>he_session = s, he_split = split\<rparr>"
    and "h1 = syncConversationTabHistory h (th_workspace h) (Some s) split"
    and "(h2, shown) = navigateConversationTabHistory h1 Backward"
  shows "isConversationTabHistoryCurrent h1 (th_workspace h) (Some s)
    \<and> \<not> canNavigateConversationHistory h1 Forward
    \<and> shown = Some e
    \<and> entry_at h2 (th_index h2) = Some e
    \<and> navigateConversationTabHistory h2 Forward = (h1, Some \<lparr>he_session = s, he_split = split\<rparr>)"
proof -
  have range: "0 \<le> th_index h" "th_index h < int (length (th_entries h))" "th_entries h ! nat (th_index h) = e"
    using assms(2) by (auto simp: entry_at_def js_at_def split: if_splits)
  have h1: "h1 = \<lparr>th_workspace = th_workspace h,
     th_entries = take (nat (th_index h + 1)) (th_entries h) @ [\<lparr>he_session = s, he_split = split\<rparr>],
     th_index = th_index h + 1\<rparr>"
    using assms sync_new [OF history_reachable_ok [OF assms(1)] refl] by simp
  have len: "length (take (nat (th_index h + 1)) (th_entries h)) = nat (th_index h + 1)" using range by simp
  have old: "take (nat (th_index h + 1)) (th_entries h) ! nat (th_index h) = e" using range by simp
  have "navigateConversationTabHistory h1 Backward = (h1\<lparr>th_index := th_index h\<rparr>, Some e)"
    using range len old
    by (simp add: h1 navigateConversationTabHistory_def canNavigateConversationHistory_def entry_at_def js_at_def nth_append
        Let_def nat_add_distrib)
  then have h2: "h2 = h1\<lparr>th_index := th_index h\<rparr>" "shown = Some e" using assms(6) by simp_all
  show ?thesis
    using range len old
    by (simp add: h2 h1 navigateConversationTabHistory_def canNavigateConversationHistory_def
        isConversationTabHistoryCurrent_def entry_at_def js_at_def nth_append nat_add_distrib Let_def)
qed

theorem open_back_forward_witness:
  "let h = createConversationTabHistory ''ws'' (Some ''a'') (Some ''s'');
       h1 = syncConversationTabHistory h (th_workspace h) (Some ''b'') None;
       h2 = fst (navigateConversationTabHistory h1 Backward);
       shown = snd (navigateConversationTabHistory h1 Backward)
   in isConversationTabHistoryCurrent h1 (th_workspace h) (Some ''b'')
    \<and> \<not> canNavigateConversationHistory h1 Forward
    \<and> shown = Some \<lparr>he_session = ''a'', he_split = Some ''s''\<rparr>
    \<and> entry_at h2 (th_index h2) = Some \<lparr>he_session = ''a'', he_split = Some ''s''\<rparr>
    \<and> navigateConversationTabHistory h2 Forward = (h1, Some \<lparr>he_session = ''b'', he_split = None\<rparr>)"
  unfolding Let_def
proof (rule open_back_forward [OF created])
  show "entry_at (createConversationTabHistory ''ws'' (Some ''a'') (Some ''s''))
      (th_index (createConversationTabHistory ''ws'' (Some ''a'') (Some ''s'')))
    = Some \<lparr>he_session = ''a'', he_split = Some ''s''\<rparr>"
    by code_simp
qed (rule refl | simp)+

section \<open>Removal\<close>

lemma set_merge_repeats [simp]: "set (merge_repeats es) = set es"
  by (simp add: merge_repeats_remdups)

definition mentions :: "string \<Rightarrow> history_entry \<Rightarrow> bool" where
  "mentions sid e = (he_session e = sid \<or> he_split e = Some sid)"

lemma remove_entries:
  assumes "th_workspace h = ws" "sid \<noteq> []"
  shows "set (th_entries (removeConversationHistoryEntry h ws sid)) =
     drop_split sid ` {e \<in> set (th_entries h). he_session e \<noteq> sid}"
proof -
  have none: "drop_split sid ` {e \<in> set es. he_session e \<noteq> sid} = set es"
    if "\<forall>e \<in> set es. he_session e \<noteq> sid" "\<not> list_ex (\<lambda>e. he_split e = Some sid) es" for es
  proof -
    have "drop_split sid e = e" if "e \<in> set es" for e
      using \<open>\<not> list_ex _ es\<close> that by (auto simp: list_ex_iff drop_split_def)
    then show ?thesis using that(1) by (auto simp: image_def)
  qed
  have empty: "merge_repeats (map f (filter P xs)) = [] \<longleftrightarrow> filter P xs = []" for f P xs
    by (simp add: merge_repeats_remdups)
  show ?thesis
    using assms none [of "th_entries h"]
    by (auto simp: removeConversationHistoryEntry_def Let_def empty find_index_None_iff
        createConversationTabHistory_def session_given_def filter_empty_conv split: option.split)
qed

lemma remove_single:
  assumes "th_entries h = xs @ x # ys" "he_session x = sid" "sid \<noteq> []"
    and "\<forall>e \<in> set (xs @ ys). \<not> mentions sid e" "distinct_adj (xs @ ys)" "xs @ ys \<noteq> []"
    and "he_split x \<noteq> Some sid"
  shows "removeConversationHistoryEntry h (th_workspace h) sid =
    \<lparr>th_workspace = th_workspace h, th_entries = xs @ ys,
     th_index = min (if int (length xs) \<le> th_index h then max 0 (th_index h - 1) else th_index h) (int (length (xs @ ys)) - 1)\<rparr>"
proof -
  have find: "find_index (\<lambda>e. he_session e = sid) (xs @ x # ys) = Some (length xs)"
    using assms(2,4) by (induction xs) (auto simp: mentions_def)
  have "filter (\<lambda>e. he_session e \<noteq> sid) (xs @ x # ys) = xs @ ys"
    using assms(2,4) by (auto simp: mentions_def filter_id_conv)
  moreover have "map (drop_split sid) (xs @ ys) = xs @ ys"
    using assms(4) by (intro map_idI) (auto simp: mentions_def drop_split_def)
  moreover have "remdups_adj (xs @ ys) = xs @ ys" using assms(5) by (simp only: distinct_adj_altdef)
  ultimately show ?thesis
    using assms(1,6) find by (auto simp: removeConversationHistoryEntry_def merge_repeats_remdups Let_def)
qed

text \<open>Removing a session leaves no trace of it and keeps the rest: in a reachable history
  no entry shows the removed session any more, as a conversation or as a split pane, all
  the other conversations remain, and the index still selects an entry unless nothing
  remains. When the removed session had a single entry whose removal makes no two
  neighbours equal, the conversation that was current stays the current one.\<close>

theorem removed_session_is_gone:
  assumes "history_reachable h" and "sid \<noteq> []" and "h' = removeConversationHistoryEntry h (th_workspace h) sid"
  shows "(\<forall>e \<in> set (th_entries h'). \<not> mentions sid e)
    \<and> he_session ` set (th_entries h') = he_session ` set (th_entries h) - {sid}
    \<and> (th_entries h' = [] \<and> th_index h' = -1 \<or> entry_at h' (th_index h') \<noteq> None)
    \<and> (\<forall>xs x ys. th_entries h = xs @ x # ys \<and> he_session x = sid \<and> he_split x \<noteq> Some sid
          \<and> (\<forall>e \<in> set (xs @ ys). \<not> mentions sid e) \<and> distinct_adj (xs @ ys) \<and> th_index h \<noteq> int (length xs)
        \<longrightarrow> entry_at h' (th_index h') = entry_at h (th_index h))"
proof (intro conjI allI impI)
  have entries: "set (th_entries h') = drop_split sid ` {e \<in> set (th_entries h). he_session e \<noteq> sid}"
    using remove_entries [OF refl assms(2)] assms(3) by simp
  show "\<forall>e \<in> set (th_entries h'). \<not> mentions sid e"
    by (auto simp: entries mentions_def drop_split_def)
  have "he_session (drop_split sid e) = he_session e" for e by (simp add: drop_split_def)
  then show "he_session ` set (th_entries h') = he_session ` set (th_entries h) - {sid}"
    by (auto simp: entries image_image)
  show "th_entries h' = [] \<and> th_index h' = -1 \<or> entry_at h' (th_index h') \<noteq> None"
  proof -
    have "history_ok h'" using history_ok_remove [OF history_reachable_ok [OF assms(1)]] assms(3) by simp
    then show ?thesis by (auto simp: history_ok_def entry_at_def js_at_def)
  qed
next
  fix xs x ys
  assume single: "th_entries h = xs @ x # ys \<and> he_session x = sid \<and> he_split x \<noteq> Some sid
    \<and> (\<forall>e \<in> set (xs @ ys). \<not> mentions sid e) \<and> distinct_adj (xs @ ys) \<and> th_index h \<noteq> int (length xs)"
  have range: "0 \<le> th_index h" "th_index h < int (length xs) + int (length ys) + 1"
    using history_reachable_ok [OF assms(1)] single by (auto simp: history_ok_def)
  then have "xs @ ys \<noteq> []" using single by auto
  then have h': "h' = \<lparr>th_workspace = th_workspace h, th_entries = xs @ ys,
      th_index = min (if int (length xs) \<le> th_index h then max 0 (th_index h - 1) else th_index h) (int (length (xs @ ys)) - 1)\<rparr>"
    using remove_single [of h xs x ys sid] single assms(2,3) by simp
  show "entry_at h' (th_index h') = entry_at h (th_index h)"
  proof (cases "int (length xs) \<le> th_index h")
    case True
    then have "int (length xs) < th_index h" using single by simp
    then show ?thesis
      using range single
      by (simp add: h' entry_at_def js_at_def nth_append min_def max_def nat_diff_distrib nth_Cons') linarith?
  next
    case False
    then show ?thesis
      using range single
      by (auto simp: h' entry_at_def js_at_def nth_append min_def)
  qed
qed

theorem removed_session_is_gone_witness:
  "let h = syncConversationTabHistory (createConversationTabHistory ''ws'' (Some ''a'') None) ''ws'' (Some ''b'') (Some ''a'');
       h' = removeConversationHistoryEntry h (th_workspace h) ''a''
   in \<forall>e \<in> set (th_entries h'). \<not> mentions ''a'' e"
  unfolding Let_def
  using removed_session_is_gone [OF synced [OF created] _ refl, of "''a''"] by blast

text \<open>
  The index is lowered by one however many entries at or before it go or merge: with the
  history a, b, a, c, d at c, removing a moves the current entry from c to d.
\<close>

definition revisited :: tab_history where
  "revisited = fst (navigateConversationTabHistory
     (foldl (\<lambda>h s. syncConversationTabHistory h ''ws'' (Some s) None)
        (createConversationTabHistory ''ws'' (Some ''a'') None) [''b'', ''a'', ''c'', ''d'']) Backward)"

lemma removal_can_move_current:
  "map_option he_session (entry_at revisited (th_index revisited)) = Some ''c''"
  "map_option he_session (entry_at (removeConversationHistoryEntry revisited ''ws'' ''a'')
      (th_index (removeConversationHistoryEntry revisited ''ws'' ''a''))) = Some ''d''"
  by code_simp+

end
