(* ===== verification/EngineReaper.thy ===== *)
theory EngineReaper
  imports Prelude Complex_Main
begin

text \<open>
  The idle eviction of engine instances (\<open>apps/server/src/engine-instance-reaper.ts\<close>).

  Tracked entries are objects: a sweep walks over the objects it found at its start while
  the map may already hold others, so the state has a store of objects and a map from
  directories to their references. A sweep is suspended at its two \<open>await\<close>s, the activity
  probe and the dispose call; everything between two of them, and each other operation,
  is one step, with one reading of the clock. The hooks' answers, the environment
  variables and the number parser are arguments. Each step answers the events it makes
  visible.
\<close>

section \<open>State\<close>

record engine_use =
  eu_directory :: string
  eu_workspaceId :: string
  eu_engineBaseUrl :: string

record tracked_instance =
  ti_directory :: string
  ti_workspaceId :: string
  ti_engineBaseUrl :: string
  ti_lastUsedAt :: int
  ti_streamHolds :: nat

text \<open>The object under way; the instant a probe began is only there for the statements.\<close>

datatype sweep_await = Probing nat int | Disposing nat

record sweep_run =
  sw_ttl :: rat
  sw_url :: string
  sw_active :: "string option"
  sw_pending :: "nat list"
  sw_await :: sweep_await
  sw_evicted :: nat

record reaper =
  rp_objects :: "tracked_instance list"
  rp_instances :: "(string, nat) jsmap"
  rp_evictedWorkspaceIds :: "string list"
  rp_holds :: "(engine_use \<times> bool) list"
  rp_timer :: "rat option"
  rp_sweep :: "sweep_run option"
  rp_closed :: bool

definition new_reaper :: reaper where
  "new_reaper = \<lparr>rp_objects = [], rp_instances = [], rp_evictedWorkspaceIds = [], rp_holds = [],
     rp_timer = None, rp_sweep = None, rp_closed = False\<rparr>"

datatype reaper_event =
    Used string bool
  | DisposeCalled tracked_instance string "string option" rat int int
  | Evicted string
  | SweepEnded nat
  | Closed

section \<open>The intervals\<close>

definition engineInstanceIdleTtlMs :: "(string \<Rightarrow> rat option) \<Rightarrow> string option \<Rightarrow> rat" where
  "engineInstanceIdleTtlMs number env =
     (let raw = map_option js_trim env
      in if raw = None \<or> raw = Some [] then 900000
         else (case number (the raw) of
                 Some v \<Rightarrow> if 0 \<le> v then v else 900000
               | None \<Rightarrow> 900000))"

definition sweepIntervalMs :: "(string \<Rightarrow> rat option) \<Rightarrow> string option \<Rightarrow> rat" where
  "sweepIntervalMs number env =
     (case Option.bind env number of
        Some v \<Rightarrow> if 0 < v then v else 60000
      | None \<Rightarrow> 60000)"

section \<open>Traffic and stream holds\<close>

definition update_object :: "nat \<Rightarrow> (tracked_instance \<Rightarrow> tracked_instance) \<Rightarrow> reaper \<Rightarrow> reaper" where
  "update_object r f rp = rp\<lparr>rp_objects := (rp_objects rp)[r := f (rp_objects rp ! r)]\<rparr>"

definition new_entry :: "engine_use \<Rightarrow> int \<Rightarrow> tracked_instance" where
  "new_entry u now = \<lparr>ti_directory = eu_directory u, ti_workspaceId = eu_workspaceId u,
     ti_engineBaseUrl = eu_engineBaseUrl u, ti_lastUsedAt = now, ti_streamHolds = 0\<rparr>"

text \<open>The part \<open>noteUsed\<close> and \<open>holdStream\<close> have in common: the entry for a use, and its reference.\<close>

definition touch_entry :: "engine_use \<Rightarrow> int \<Rightarrow> reaper \<Rightarrow> reaper \<times> nat" where
  "touch_entry u now rp =
     (let fresh = (rp\<lparr>rp_objects := rp_objects rp @ [new_entry u now],
                     rp_instances := jm_set (eu_directory u) (length (rp_objects rp)) (rp_instances rp)\<rparr>,
                   length (rp_objects rp))
      in case jm_get (eu_directory u) (rp_instances rp) of
           None \<Rightarrow> fresh
         | Some r \<Rightarrow>
             (if ti_engineBaseUrl (rp_objects rp ! r) = eu_engineBaseUrl u
              then (update_object r (\<lambda>e. e\<lparr>ti_workspaceId := eu_workspaceId u, ti_lastUsedAt := now\<rparr>) rp, r)
              else fresh))"

definition noteUsed :: "engine_use \<Rightarrow> int \<Rightarrow> reaper \<Rightarrow> reaper \<times> bool" where
  "noteUsed u now rp =
     (if rp_closed rp then (rp, False)
      else
        (let rp' = fst (touch_entry u now rp);
             marks = rp_evictedWorkspaceIds rp'
         in (rp'\<lparr>rp_evictedWorkspaceIds := filter (\<lambda>w. w \<noteq> eu_workspaceId u) marks\<rparr>,
             eu_workspaceId u \<in> set marks)))"

definition holdStream :: "engine_use \<Rightarrow> int \<Rightarrow> reaper \<Rightarrow> reaper \<times> nat option" where
  "holdStream u now rp =
     (if rp_closed rp then (rp, None)
      else
        (let (rp', r) = touch_entry u now rp
         in ((update_object r (\<lambda>e. e\<lparr>ti_streamHolds := ti_streamHolds e + 1\<rparr>) rp')
               \<lparr>rp_holds := rp_holds rp' @ [(u, False)]\<rparr>,
             Some (length (rp_holds rp')))))"

text \<open>The function \<open>holdStream\<close> answers; natural subtraction is the \<open>Math.max(0, \<dots>)\<close>.\<close>

definition releaseStream :: "nat \<Rightarrow> int \<Rightarrow> reaper \<Rightarrow> reaper" where
  "releaseStream h now rp =
     (if length (rp_holds rp) \<le> h then rp
      else
        (let (u, released) = rp_holds rp ! h
         in if released then rp
            else
              (let rp' = rp\<lparr>rp_holds := (rp_holds rp)[h := (u, True)]\<rparr>
               in case jm_get (eu_directory u) (rp_instances rp') of
                    None \<Rightarrow> rp'
                  | Some r \<Rightarrow>
                      (if ti_engineBaseUrl (rp_objects rp' ! r) \<noteq> eu_engineBaseUrl u then rp'
                       else update_object r
                              (\<lambda>e. e\<lparr>ti_streamHolds := ti_streamHolds e - 1, ti_lastUsedAt := now\<rparr>) rp'))))"

definition snapshot :: "reaper \<Rightarrow> tracked_instance list" where
  "snapshot rp = map (\<lambda>r. rp_objects rp ! r) (jm_values (rp_instances rp))"

definition startTimer :: "(string \<Rightarrow> rat option) \<Rightarrow> string option \<Rightarrow> reaper \<Rightarrow> reaper" where
  "startTimer number env rp =
     (if rp_closed rp \<or> rp_timer rp \<noteq> None then rp
      else rp\<lparr>rp_timer := Some (sweepIntervalMs number env)\<rparr>)"

definition closeReaper :: "reaper \<Rightarrow> reaper" where
  "closeReaper rp = rp\<lparr>rp_closed := True, rp_timer := None, rp_instances := [], rp_evictedWorkspaceIds := []\<rparr>"

section \<open>Sweeps\<close>

definition too_fresh :: "int \<Rightarrow> tracked_instance \<Rightarrow> rat \<Rightarrow> bool" where
  "too_fresh now e ttl = (of_int (now - ti_lastUsedAt e) < ttl)"

definition end_sweep :: "sweep_run \<Rightarrow> reaper \<Rightarrow> reaper \<times> reaper_event list" where
  "end_sweep sw rp = (rp\<lparr>rp_sweep := None\<rparr>, [SweepEnded (sw_evicted sw)])"

text \<open>The loop of \<open>sweep\<close> up to the next probe; \<open>sw\<close> carries what the sweep read at its start.\<close>

primrec scan :: "nat list \<Rightarrow> int \<Rightarrow> sweep_run \<Rightarrow> reaper \<Rightarrow> reaper \<times> reaper_event list" where
  "scan [] now sw rp = end_sweep sw rp"
| "scan (r # rs) now sw rp =
     (let e = rp_objects rp ! r
      in if rp_closed rp then end_sweep sw rp
         else if ti_engineBaseUrl e \<noteq> sw_url sw
              then scan rs now sw (rp\<lparr>rp_instances := jm_delete (ti_directory e) (rp_instances rp)\<rparr>)
         else if Some (ti_directory e) = sw_active sw
              then scan rs now sw (update_object r (\<lambda>e. e\<lparr>ti_lastUsedAt := now\<rparr>) rp)
         else if 0 < ti_streamHolds e then scan rs now sw rp
         else if too_fresh now e (sw_ttl sw) then scan rs now sw rp
         else (rp\<lparr>rp_sweep := Some (sw\<lparr>sw_pending := rs, sw_await := Probing r now\<rparr>)\<rparr>, []))"

definition startSweep ::
  "rat \<Rightarrow> string option \<Rightarrow> string option \<Rightarrow> int \<Rightarrow> reaper \<Rightarrow> reaper \<times> reaper_event list" where
  "startSweep ttl url active now rp =
     (if rp_closed rp \<or> rp_sweep rp \<noteq> None then (rp, [])
      else if ttl \<le> 0 then (rp, [])
      else if url = None \<or> url = Some [] then (rp, [])
      else scan (jm_values (rp_instances rp)) now
             \<lparr>sw_ttl = ttl, sw_url = the url, sw_active = active, sw_pending = [], sw_await = Disposing 0, sw_evicted = 0\<rparr> rp)"

datatype probe_outcome = ProbeIdle | ProbeBusy | ProbeFailed

definition afterProbe :: "probe_outcome \<Rightarrow> nat \<Rightarrow> int \<Rightarrow> int \<Rightarrow> sweep_run \<Rightarrow> reaper \<Rightarrow> reaper \<times> reaper_event list" where
  "afterProbe outcome r began now sw rp =
     (case outcome of
        ProbeFailed \<Rightarrow> scan (sw_pending sw) now sw rp
      | ProbeBusy \<Rightarrow> scan (sw_pending sw) now sw (update_object r (\<lambda>e. e\<lparr>ti_lastUsedAt := now\<rparr>) rp)
      | ProbeIdle \<Rightarrow>
          (let e = rp_objects rp ! r
           in if too_fresh now e (sw_ttl sw) then scan (sw_pending sw) now sw rp
              else (rp\<lparr>rp_sweep := Some (sw\<lparr>sw_await := Disposing r\<rparr>)\<rparr>,
                    [DisposeCalled e (sw_url sw) (sw_active sw) (sw_ttl sw) began now])))"

definition afterDispose :: "bool \<Rightarrow> nat \<Rightarrow> int \<Rightarrow> sweep_run \<Rightarrow> reaper \<Rightarrow> reaper \<times> reaper_event list" where
  "afterDispose ok r now sw rp =
     (if \<not> ok then scan (sw_pending sw) now sw rp
      else
        (let e = rp_objects rp ! r;
             rp' = rp\<lparr>rp_instances := jm_delete (ti_directory e) (rp_instances rp),
                      rp_evictedWorkspaceIds :=
                        (if ti_workspaceId e \<in> set (rp_evictedWorkspaceIds rp) then rp_evictedWorkspaceIds rp
                         else rp_evictedWorkspaceIds rp @ [ti_workspaceId e])\<rparr>;
             (rp'', evs) = scan (sw_pending sw) now (sw\<lparr>sw_evicted := sw_evicted sw + 1\<rparr>) rp'
         in (rp'', Evicted (ti_workspaceId e) # evs)))"

text \<open>The end of the awaited call, whichever it is.\<close>

definition resumeSweep :: "probe_outcome \<Rightarrow> bool \<Rightarrow> int \<Rightarrow> reaper \<Rightarrow> reaper \<times> reaper_event list" where
  "resumeSweep outcome ok now rp =
     (case rp_sweep rp of
        None \<Rightarrow> (rp, [])
      | Some sw \<Rightarrow>
          (case sw_await sw of
             Probing r began \<Rightarrow> afterProbe outcome r began now sw rp
           | Disposing r \<Rightarrow> afterDispose ok r now sw rp))"

section \<open>Runs\<close>

datatype reaper_action =
    NoteUsed engine_use
  | HoldStream engine_use
  | ReleaseStream nat
  | StartSweep rat "string option" "string option"
  | ResumeSweep probe_outcome bool
  | CloseReaper

definition reaper_step :: "int \<times> reaper_action \<Rightarrow> reaper \<Rightarrow> reaper \<times> reaper_event list" where
  "reaper_step act rp =
     (case act of (now, a) \<Rightarrow>
       (case a of
          NoteUsed u \<Rightarrow> (let (rp', b) = noteUsed u now rp in (rp', [Used (eu_workspaceId u) b]))
        | HoldStream u \<Rightarrow> (fst (holdStream u now rp), [])
        | ReleaseStream h \<Rightarrow> (releaseStream h now rp, [])
        | StartSweep ttl url active \<Rightarrow> startSweep ttl url active now rp
        | ResumeSweep outcome ok \<Rightarrow> resumeSweep outcome ok now rp
        | CloseReaper \<Rightarrow> (closeReaper rp, [Closed])))"

text \<open>The state and the events after a sequence of actions, each with its instant.\<close>

definition reaper_run :: "(int \<times> reaper_action) list \<Rightarrow> reaper \<Rightarrow> reaper \<times> reaper_event list" where
  "reaper_run acts rp =
     foldl (\<lambda>(s, evs) a. let (s', new) = reaper_step a s in (s', evs @ new)) (rp, []) acts"

lemma reaper_run_Nil: "reaper_run [] rp = (rp, [])"
  by (simp add: reaper_run_def)

lemma reaper_run_snoc:
  "reaper_run (acts @ [a]) rp =
     (fst (reaper_step a (fst (reaper_run acts rp))),
      snd (reaper_run acts rp) @ snd (reaper_step a (fst (reaper_run acts rp))))"
  by (simp add: reaper_run_def split_def Let_def)

section \<open>How entries evolve\<close>

text \<open>
  An operation at \<open>now\<close> never removes an object or changes its directory or engine, and
  either touches it now or leaves its time alone and its holds no greater.
\<close>

definition evolves :: "int \<Rightarrow> reaper \<Rightarrow> reaper \<Rightarrow> bool" where
  "evolves now rp rp' =
     (length (rp_objects rp) \<le> length (rp_objects rp') \<and>
      (\<forall>r < length (rp_objects rp).
         ti_directory (rp_objects rp' ! r) = ti_directory (rp_objects rp ! r) \<and>
         ti_engineBaseUrl (rp_objects rp' ! r) = ti_engineBaseUrl (rp_objects rp ! r) \<and>
         (ti_lastUsedAt (rp_objects rp' ! r) = now \<or>
          ti_lastUsedAt (rp_objects rp' ! r) = ti_lastUsedAt (rp_objects rp ! r) \<and>
          ti_streamHolds (rp_objects rp' ! r) \<le> ti_streamHolds (rp_objects rp ! r))))"

lemma evolves_refl [simp]: "evolves now rp rp"
  by (simp add: evolves_def)

lemma evolves_trans: "evolves now rp rp' \<Longrightarrow> evolves now rp' rp'' \<Longrightarrow> evolves now rp rp''"
  by (auto simp: evolves_def) (metis le_trans order.strict_trans2)+

lemma evolves_objects: "rp_objects rp' = rp_objects rp \<Longrightarrow> evolves now rp rp'"
  by (simp add: evolves_def)

lemma update_object_nth:
  "s < length (rp_objects rp) \<Longrightarrow>
     rp_objects (update_object r f rp) ! s = (if s = r then f (rp_objects rp ! r) else rp_objects rp ! s)"
  by (auto simp: update_object_def nth_list_update)

lemma evolves_update:
  assumes "\<And>e. ti_directory (f e) = ti_directory e" "\<And>e. ti_engineBaseUrl (f e) = ti_engineBaseUrl e"
    and "\<And>e. ti_lastUsedAt (f e) = now"
  shows "evolves now rp (update_object r f rp)"
  using assms by (auto simp: evolves_def update_object_nth, auto simp: update_object_def)

lemma update_object_simps [simp]:
  "rp_instances (update_object r f rp) = rp_instances rp"
  "rp_evictedWorkspaceIds (update_object r f rp) = rp_evictedWorkspaceIds rp"
  "rp_sweep (update_object r f rp) = rp_sweep rp"
  "rp_closed (update_object r f rp) = rp_closed rp"
  "length (rp_objects (update_object r f rp)) = length (rp_objects rp)"
  by (simp_all add: update_object_def)

definition map_ok :: "reaper \<Rightarrow> bool" where
  "map_ok rp =
     (jm_wf (rp_instances rp) \<and>
      (\<forall>d r. jm_get d (rp_instances rp) = Some r \<longrightarrow>
         r < length (rp_objects rp) \<and> ti_directory (rp_objects rp ! r) = d))"

lemma map_ok_evolves: "map_ok rp \<Longrightarrow> evolves now rp rp' \<Longrightarrow> rp_instances rp' = rp_instances rp \<Longrightarrow> map_ok rp'"
  by (auto simp: map_ok_def evolves_def) (metis order.strict_trans2)

lemma map_ok_delete: "map_ok rp \<Longrightarrow> rp_objects rp' = rp_objects rp \<Longrightarrow> rp_instances rp' = jm_delete d (rp_instances rp) \<Longrightarrow> map_ok rp'"
  by (auto simp: map_ok_def split: if_splits)

lemma map_ok_values: "map_ok rp \<Longrightarrow> r \<in> set (jm_values (rp_instances rp)) \<Longrightarrow> r < length (rp_objects rp)"
  by (auto simp: map_ok_def jm_values_def dest!: jm_mem_get)

lemma touch_evolves: "evolves now rp (fst (touch_entry u now rp))"
proof -
  have "evolves now rp (rp\<lparr>rp_objects := rp_objects rp @ [e], rp_instances := m\<rparr>)" for e m
    by (simp add: evolves_def nth_append)
  then show ?thesis by (auto simp: touch_entry_def evolves_update Let_def split: option.split)
qed

lemma touch_map_ok:
  assumes "map_ok rp" shows "map_ok (fst (touch_entry u now rp))"
proof -
  have "map_ok (rp\<lparr>rp_objects := rp_objects rp @ [new_entry u now],
                  rp_instances := jm_set (eu_directory u) (length (rp_objects rp)) (rp_instances rp)\<rparr>)"
    using assms by (auto simp: map_ok_def new_entry_def nth_append less_SucI)
  moreover have "map_ok (update_object r (\<lambda>e. e\<lparr>ti_workspaceId := w, ti_lastUsedAt := now\<rparr>) rp)" for r w
    by (rule map_ok_evolves [OF assms evolves_update]) simp_all
  ultimately show ?thesis by (auto simp: touch_entry_def Let_def split: option.split)
qed

lemma touch_rest [simp]:
  "rp_sweep (fst (touch_entry u now rp)) = rp_sweep rp"
  "rp_closed (fst (touch_entry u now rp)) = rp_closed rp"
  "rp_evictedWorkspaceIds (fst (touch_entry u now rp)) = rp_evictedWorkspaceIds rp"
  by (auto simp: touch_entry_def Let_def split: option.split)

lemma touch_now:
  assumes "map_ok rp"
  shows "snd (touch_entry u now rp) < length (rp_objects (fst (touch_entry u now rp)))"
    "ti_lastUsedAt (rp_objects (fst (touch_entry u now rp)) ! snd (touch_entry u now rp)) = now"
  using assms
  by (auto simp: touch_entry_def update_object_def new_entry_def map_ok_def Let_def split: option.split)

lemma hold_evolves:
  assumes "map_ok rp" shows "evolves now rp (fst (holdStream u now rp))"
proof -
  obtain rp' r where t: "touch_entry u now rp = (rp', r)" by force
  have "evolves now rp' ((update_object r (\<lambda>e. e\<lparr>ti_streamHolds := ti_streamHolds e + 1\<rparr>) rp')\<lparr>rp_holds := hs\<rparr>)" for hs
    using touch_now [OF assms, of u now] by (auto simp: t evolves_def update_object_def nth_list_update)
  then show ?thesis
    using touch_evolves [of now rp u] by (auto simp: holdStream_def t intro: evolves_trans)
qed

lemma note_evolves: "evolves now rp (fst (noteUsed u now rp))"
  using touch_evolves [of now rp u] by (simp add: noteUsed_def evolves_def Let_def)

lemma release_evolves: "evolves now rp (releaseStream h now rp)"
proof -
  have "evolves now rp (update_object r (\<lambda>e. e\<lparr>ti_streamHolds := ti_streamHolds e - 1, ti_lastUsedAt := now\<rparr>) (rp\<lparr>rp_holds := hs\<rparr>))" for r hs
    by (rule evolves_trans [OF _ evolves_update]) (simp_all add: evolves_objects)
  then show ?thesis by (auto simp: releaseStream_def Let_def evolves_objects split: prod.split option.split)
qed

section \<open>The invariant of a sweep\<close>

text \<open>
  What holds at instant \<open>now\<close>: while a probe runs, its entry is of the sweep's engine, is
  not the active directory, and holds no stream unless it was touched after the probe
  began; while a dispose runs nothing more is needed.
\<close>

definition sweep_ok :: "int \<Rightarrow> reaper \<Rightarrow> bool" where
  "sweep_ok now rp =
     (case rp_sweep rp of
        None \<Rightarrow> True
      | Some sw \<Rightarrow>
          0 < sw_ttl sw \<and> (\<forall>r \<in> set (sw_pending sw). r < length (rp_objects rp)) \<and>
          (case sw_await sw of
             Probing r began \<Rightarrow>
               r < length (rp_objects rp) \<and> began \<le> now \<and>
               ti_engineBaseUrl (rp_objects rp ! r) = sw_url sw \<and>
               Some (ti_directory (rp_objects rp ! r)) \<noteq> sw_active sw \<and>
               (0 < ti_streamHolds (rp_objects rp ! r) \<longrightarrow> began \<le> ti_lastUsedAt (rp_objects rp ! r))
           | Disposing r \<Rightarrow> r < length (rp_objects rp)))"

lemma sweep_ok_evolves:
  assumes "sweep_ok t rp" "evolves now rp rp'" "rp_sweep rp' = rp_sweep rp" "t \<le> now"
  shows "sweep_ok now rp'"
proof (cases "rp_sweep rp")
  case None
  then show ?thesis using assms by (simp add: sweep_ok_def)
next
  case (Some sw)
  show ?thesis
  proof (cases "sw_await sw")
    case (Probing r began)
    have r: "r < length (rp_objects rp)" using assms(1) Some Probing by (simp add: sweep_ok_def)
    then have "ti_lastUsedAt (rp_objects rp' ! r) = now \<or>
        ti_lastUsedAt (rp_objects rp' ! r) = ti_lastUsedAt (rp_objects rp ! r) \<and>
        ti_streamHolds (rp_objects rp' ! r) \<le> ti_streamHolds (rp_objects rp ! r)"
      using assms(2) by (auto simp: evolves_def)
    then show ?thesis
      using assms Some Probing r by (auto simp: sweep_ok_def evolves_def)
  next
    case (Disposing r)
    then show ?thesis using assms Some by (auto simp: sweep_ok_def evolves_def)
  qed
qed

definition pending_ok :: "nat list \<Rightarrow> reaper \<Rightarrow> bool" where
  "pending_ok rs rp = (\<forall>r \<in> set rs. r < length (rp_objects rp))"

lemma end_sweep_ok [simp]: "sweep_ok now (fst (end_sweep sw rp))"
  by (simp add: end_sweep_def sweep_ok_def)

lemma scan_sweep_ok:
  "0 < sw_ttl sw \<Longrightarrow> pending_ok rs rp \<Longrightarrow> sweep_ok now (fst (scan rs now sw rp))"
proof (induction rs arbitrary: rp)
  case Nil
  then show ?case by simp
next
  case (Cons r rs)
  have "pending_ok rs rp'" if "length (rp_objects rp') = length (rp_objects rp)" for rp'
    using Cons.prems that by (simp add: pending_ok_def)
  moreover have "r < length (rp_objects rp)" "pending_ok rs rp" using Cons.prems by (simp_all add: pending_ok_def)
  ultimately show ?case
    using Cons by (simp add: Let_def, simp add: sweep_ok_def pending_ok_def)
qed

lemma scan_map_ok: "map_ok rp \<Longrightarrow> map_ok (fst (scan rs now sw rp))"
proof (induction rs arbitrary: rp)
  case Nil
  then show ?case by (simp add: end_sweep_def map_ok_def)
next
  case (Cons r rs)
  have "map_ok (rp\<lparr>rp_instances := jm_delete d (rp_instances rp)\<rparr>)" for d
    by (rule map_ok_delete [OF Cons.prems]) simp_all
  moreover have "map_ok (update_object r (\<lambda>e. e\<lparr>ti_lastUsedAt := now\<rparr>) rp)"
    by (rule map_ok_evolves [OF Cons.prems evolves_update]) simp_all
  moreover have "map_ok (rp\<lparr>rp_sweep := x\<rparr>)" for x using Cons.prems by (simp add: map_ok_def)
  ultimately show ?case using Cons by (simp add: Let_def end_sweep_def)
qed

lemma scan_events: "set (snd (scan rs now sw rp)) \<subseteq> {SweepEnded (sw_evicted sw)}"
  by (induction rs arbitrary: rp) (auto simp: end_sweep_def Let_def)

lemma scan_rest:
  "rp_closed (fst (scan rs now sw rp)) = rp_closed rp"
  "rp_evictedWorkspaceIds (fst (scan rs now sw rp)) = rp_evictedWorkspaceIds rp"
  by (induction rs arbitrary: rp) (simp_all add: end_sweep_def Let_def)

definition reaper_ok :: "int \<Rightarrow> reaper \<Rightarrow> bool" where
  "reaper_ok now rp = (map_ok rp \<and> sweep_ok now rp)"

text \<open>What a dispose call shows.\<close>

definition dispose_allowed :: "reaper_event \<Rightarrow> bool" where
  "dispose_allowed ev =
     (case ev of
        DisposeCalled e url active ttl began now \<Rightarrow>
          ti_engineBaseUrl e = url \<and> Some (ti_directory e) \<noteq> active \<and> 0 < ttl \<and>
          ttl \<le> of_int (now - ti_lastUsedAt e) \<and>
          (0 < ti_streamHolds e \<longrightarrow> ttl \<le> of_int (now - began))
      | _ \<Rightarrow> True)"

lemma dispose_allowed_Evicted [simp]: "dispose_allowed (Evicted w)"
  by (simp add: dispose_allowed_def)

lemma scan_dispose_allowed: "ev \<in> set (snd (scan rs now sw rp)) \<Longrightarrow> dispose_allowed ev"
  using scan_events [of rs now sw rp] by (auto simp: dispose_allowed_def)

lemma resume_ok:
  assumes "reaper_ok t rp" "t \<le> now"
  shows "reaper_ok now (fst (resumeSweep outcome ok now rp))
    \<and> (\<forall>ev \<in> set (snd (resumeSweep outcome ok now rp)). dispose_allowed ev)"
proof (cases "rp_sweep rp")
  case None
  then show ?thesis using assms by (simp add: resumeSweep_def reaper_ok_def sweep_ok_def)
next
  case (Some sw)
  have m: "map_ok rp" and ttl: "0 < sw_ttl sw" and p: "pending_ok (sw_pending sw) rp"
    using assms Some by (auto simp: reaper_ok_def sweep_ok_def pending_ok_def)
  have scanned: "reaper_ok now (fst (scan (sw_pending sw) now sw' rp')) \<and>
      (\<forall>ev \<in> set (snd (scan (sw_pending sw) now sw' rp')). dispose_allowed ev)"
    if "map_ok rp'" "length (rp_objects rp') = length (rp_objects rp)" "sw_ttl sw' = sw_ttl sw" for rp' sw'
    using that ttl p scan_sweep_ok scan_map_ok scan_dispose_allowed
    by (auto simp: reaper_ok_def pending_ok_def)
  show ?thesis
  proof (cases "sw_await sw")
    case (Probing r began)
    have r: "r < length (rp_objects rp)" "began \<le> now" "ti_engineBaseUrl (rp_objects rp ! r) = sw_url sw"
        "Some (ti_directory (rp_objects rp ! r)) \<noteq> sw_active sw"
        "0 < ti_streamHolds (rp_objects rp ! r) \<longrightarrow> began \<le> ti_lastUsedAt (rp_objects rp ! r)"
      using assms Some Probing by (auto simp: reaper_ok_def sweep_ok_def)
    have "map_ok (update_object r (\<lambda>e. e\<lparr>ti_lastUsedAt := now\<rparr>) rp)"
      by (rule map_ok_evolves [OF m evolves_update]) simp_all
    moreover have "reaper_ok now (rp\<lparr>rp_sweep := Some (sw\<lparr>sw_await := Disposing r\<rparr>)\<rparr>)"
      using m ttl p r by (simp add: reaper_ok_def map_ok_def sweep_ok_def pending_ok_def)
    moreover have "dispose_allowed (DisposeCalled (rp_objects rp ! r) (sw_url sw) (sw_active sw) (sw_ttl sw) began now)"
      if "\<not> too_fresh now (rp_objects rp ! r) (sw_ttl sw)"
    proof -
      have "sw_ttl sw \<le> of_int (now - began)" if "began \<le> ti_lastUsedAt (rp_objects rp ! r)"
      proof -
        have "sw_ttl sw \<le> of_int (now - ti_lastUsedAt (rp_objects rp ! r))"
          using \<open>\<not> too_fresh _ _ _\<close> by (simp add: too_fresh_def)
        also have "\<dots> \<le> of_int (now - began)" using that by simp
        finally show ?thesis .
      qed
      then show ?thesis using that r ttl by (auto simp: dispose_allowed_def too_fresh_def)
    qed
    ultimately show ?thesis
      using Some Probing scanned [of rp sw] scanned [of "update_object r (\<lambda>e. e\<lparr>ti_lastUsedAt := now\<rparr>) rp" sw] m
      by (auto simp: resumeSweep_def afterProbe_def Let_def split: probe_outcome.split)
  next
    case (Disposing r)
    have "map_ok (rp\<lparr>rp_instances := jm_delete d (rp_instances rp), rp_evictedWorkspaceIds := ws\<rparr>)" for d ws
      by (rule map_ok_delete [OF m]) simp_all
    then show ?thesis
      using Some Disposing scanned [of rp sw] m scanned
      by (simp add: resumeSweep_def afterDispose_def Let_def split_def, blast dest: scan_dispose_allowed)
  qed
qed

lemma startSweep_ok:
  assumes "reaper_ok t rp" "t \<le> now"
  shows "reaper_ok now (fst (startSweep ttl url active now rp))
    \<and> (\<forall>ev \<in> set (snd (startSweep ttl url active now rp)). dispose_allowed ev)"
proof -
  have "reaper_ok now rp"
    using assms sweep_ok_evolves [OF _ evolves_refl refl] by (auto simp: reaper_ok_def)
  moreover have "pending_ok (jm_values (rp_instances rp)) rp"
    using assms(1) map_ok_values by (auto simp: pending_ok_def reaper_ok_def)
  ultimately show ?thesis
    using scan_sweep_ok scan_map_ok scan_dispose_allowed
    by (auto simp: startSweep_def reaper_ok_def)
qed

lemma evolves_ok:
  assumes "reaper_ok t rp" "t \<le> now" "evolves now rp rp'" "rp_sweep rp' = rp_sweep rp" "map_ok rp'"
  shows "reaper_ok now rp'"
  using assms sweep_ok_evolves by (auto simp: reaper_ok_def)

lemma step_ok:
  assumes "reaper_ok t rp" "t \<le> now"
  shows "reaper_ok now (fst (reaper_step (now, a) rp)) \<and> (\<forall>ev \<in> set (snd (reaper_step (now, a) rp)). dispose_allowed ev)"
proof (cases a)
  case (NoteUsed u)
  have "map_ok (fst (noteUsed u now rp))"
    using touch_map_ok [of rp u now] assms(1) by (simp add: noteUsed_def Let_def reaper_ok_def, simp add: map_ok_def)
  moreover have "rp_sweep (fst (noteUsed u now rp)) = rp_sweep rp" by (simp add: noteUsed_def Let_def)
  ultimately show ?thesis
    using evolves_ok [OF assms note_evolves] NoteUsed by (simp add: reaper_step_def split_def Let_def dispose_allowed_def)
next
  case (HoldStream u)
  have m: "map_ok rp" using assms(1) by (simp add: reaper_ok_def)
  have "rp_sweep (fst (holdStream u now rp)) = rp_sweep rp" by (simp add: holdStream_def split_def Let_def)
  moreover have "map_ok (fst (holdStream u now rp))"
  proof -
    have "map_ok (update_object r (\<lambda>e. e\<lparr>ti_streamHolds := ti_streamHolds e + 1\<rparr>) rp')" if "map_ok rp'" for r rp'
      using that by (simp add: map_ok_def update_object_nth)
    from this [OF touch_map_ok [OF m]] show ?thesis
      using m by (simp add: holdStream_def split_def Let_def map_ok_def)
  qed
  ultimately show ?thesis
    using evolves_ok [OF assms hold_evolves [OF m]] HoldStream by (simp add: reaper_step_def)
next
  case (ReleaseStream h)
  have "rp_sweep (releaseStream h now rp) = rp_sweep rp" "rp_instances (releaseStream h now rp) = rp_instances rp"
    by (auto simp: releaseStream_def Let_def split: prod.split option.split)
  moreover from this(2) have "map_ok (releaseStream h now rp)"
    using map_ok_evolves [OF _ release_evolves] assms(1) by (simp add: reaper_ok_def)
  ultimately show ?thesis
    using evolves_ok [OF assms release_evolves] ReleaseStream by (simp add: reaper_step_def)
next
  case CloseReaper
  have "reaper_ok now (closeReaper rp)"
    by (rule evolves_ok [OF assms evolves_objects]) (simp_all add: closeReaper_def map_ok_def)
  then show ?thesis using CloseReaper by (simp add: reaper_step_def dispose_allowed_def)
qed (use startSweep_ok [OF assms] resume_ok [OF assms] in \<open>simp_all add: reaper_step_def\<close>)

definition last_instant :: "(int \<times> reaper_action) list \<Rightarrow> int \<Rightarrow> int" where
  "last_instant acts t = (if acts = [] then t else fst (last acts))"

lemma run_ok:
  "sorted (map fst acts) \<Longrightarrow>
     reaper_ok (last_instant acts (fst (hd acts))) (fst (reaper_run acts new_reaper))
     \<and> (\<forall>ev \<in> set (snd (reaper_run acts new_reaper)). dispose_allowed ev)"
proof (induction acts rule: rev_induct)
  case Nil
  show ?case by (simp add: reaper_run_Nil new_reaper_def reaper_ok_def map_ok_def sweep_ok_def)
next
  case (snoc a acts)
  obtain now act where a: "a = (now, act)" by force
  have IH: "reaper_ok (last_instant acts (fst (hd acts))) (fst (reaper_run acts new_reaper))"
      "\<forall>ev \<in> set (snd (reaper_run acts new_reaper)). dispose_allowed ev"
    using snoc by (simp_all add: sorted_append)
  have "\<exists>t. reaper_ok t (fst (reaper_run acts new_reaper)) \<and> t \<le> now"
  proof (cases "acts = []")
    case True
    then show ?thesis by (auto simp: reaper_run_Nil new_reaper_def reaper_ok_def map_ok_def sweep_ok_def)
  next
    case False
    then show ?thesis using IH(1) snoc.prems by (auto simp: last_instant_def sorted_append a)
  qed
  then obtain t where "reaper_ok t (fst (reaper_run acts new_reaper))" "t \<le> now" by blast
  from step_ok [OF this, of act] show ?case
    using IH(2) by (auto simp: reaper_run_snoc a last_instant_def)
qed

section \<open>The eviction marks\<close>

text \<open>A workspace is owed a report when it was evicted after its last traffic and nothing was closed.\<close>

definition owed :: "string \<Rightarrow> reaper_event list \<Rightarrow> bool" where
  "owed w evs =
     (Closed \<notin> set evs \<and> (\<exists>xs ys. evs = xs @ Evicted w # ys \<and> (\<forall>b. Used w b \<notin> set ys)))"

lemma owed_Nil [simp]: "\<not> owed w []"
  by (simp add: owed_def)

lemma evicted_split_snoc:
  "(\<exists>xs ys. evs @ [ev] = xs @ Evicted w # ys \<and> (\<forall>b. Used w b \<notin> set ys)) \<longleftrightarrow>
     ev = Evicted w \<or> (\<exists>xs ys. evs = xs @ Evicted w # ys \<and> (\<forall>b. Used w b \<notin> set ys)) \<and> (\<forall>b. ev \<noteq> Used w b)"
  (is "?L \<longleftrightarrow> ?R")
proof
  assume ?L
  then obtain xs ys where "evs @ [ev] = xs @ Evicted w # ys" "\<forall>b. Used w b \<notin> set ys" by blast
  then show ?R by (cases ys rule: rev_cases) auto
next
  assume ?R
  then show ?L
  proof (elim disjE conjE exE)
    assume "ev = Evicted w"
    then show ?L by (intro exI [of _ evs] exI [of _ "[]"]) simp
  next
    fix xs ys
    assume "evs = xs @ Evicted w # ys" "\<forall>b. Used w b \<notin> set ys" "\<forall>b. ev \<noteq> Used w b"
    then show ?L by (intro exI [of _ xs] exI [of _ "ys @ [ev]"]) auto
  qed
qed

lemma owed_snoc:
  "owed w (evs @ [ev]) \<longleftrightarrow>
     (case ev of
        Closed \<Rightarrow> False
      | Evicted v \<Rightarrow> Closed \<notin> set evs \<and> (v = w \<or> owed w evs)
      | Used v _ \<Rightarrow> v \<noteq> w \<and> owed w evs
      | _ \<Rightarrow> owed w evs)"
  by (cases ev) (auto simp: owed_def evicted_split_snoc)

definition quiet :: "reaper_event list \<Rightarrow> bool" where
  "quiet evs = (\<forall>ev \<in> set evs. case ev of SweepEnded _ \<Rightarrow> True | DisposeCalled _ _ _ _ _ _ \<Rightarrow> True | _ \<Rightarrow> False)"

lemma quiet_snoc: "quiet (evs @ [ev]) \<longleftrightarrow> quiet evs \<and> quiet [ev]"
  by (auto simp: quiet_def)

lemma quiet_scan [simp]: "quiet (snd (scan rs now sw rp))"
  using scan_events [of rs now sw rp] by (auto simp: quiet_def)

lemma quiet_owed: "quiet new \<Longrightarrow> owed w (evs @ new) = owed w evs"
proof (induction new rule: rev_induct)
  case (snoc ev new)
  then have "owed w (evs @ new) = owed w evs" "quiet [ev]" by (simp_all only: quiet_snoc)
  then show ?case
    using owed_snoc [of w "evs @ new" ev] by (auto simp: quiet_def split: reaper_event.splits)
qed simp

lemma quiet_Closed: "quiet new \<Longrightarrow> Closed \<notin> set new"
  by (auto simp: quiet_def)

definition reports_ok :: "reaper_event list \<Rightarrow> bool" where
  "reports_ok evs = (\<forall>xs w b ys. evs = xs @ Used w b # ys \<longrightarrow> b = owed w xs)"

lemma reports_ok_snoc:
  "reports_ok (evs @ [ev]) \<longleftrightarrow> reports_ok evs \<and> (\<forall>w b. ev = Used w b \<longrightarrow> b = owed w evs)"
proof
  assume all: "reports_ok (evs @ [ev])"
  have "reports_ok evs"
    unfolding reports_ok_def
  proof (intro allI impI)
    fix xs w b ys assume "evs = xs @ Used w b # ys"
    then have "evs @ [ev] = xs @ Used w b # (ys @ [ev])" by simp
    with all show "b = owed w xs" unfolding reports_ok_def by blast
  qed
  moreover have "\<forall>w b. ev = Used w b \<longrightarrow> b = owed w evs" using all unfolding reports_ok_def by blast
  ultimately show "reports_ok evs \<and> (\<forall>w b. ev = Used w b \<longrightarrow> b = owed w evs)" by blast
next
  assume parts: "reports_ok evs \<and> (\<forall>w b. ev = Used w b \<longrightarrow> b = owed w evs)"
  show "reports_ok (evs @ [ev])"
    unfolding reports_ok_def
  proof (intro allI impI)
    fix xs w b ys assume e: "evs @ [ev] = xs @ Used w b # ys"
    show "b = owed w xs"
    proof (cases ys rule: rev_cases)
      case Nil
      then show ?thesis using e parts by simp
    next
      case (snoc zs z)
      then have "evs = xs @ Used w b # zs" using e by simp
      then show ?thesis using parts unfolding reports_ok_def by blast
    qed
  qed
qed

lemma quiet_reports: "quiet new \<Longrightarrow> reports_ok evs \<Longrightarrow> reports_ok (evs @ new)"
proof (induction new rule: rev_induct)
  case (snoc ev new)
  then have "reports_ok (evs @ new)" "quiet [ev]" by (simp_all only: quiet_snoc)
  then show ?case
    using reports_ok_snoc [of "evs @ new" ev] by (auto simp: quiet_def split: reaper_event.splits)
qed simp

definition marks_ok :: "reaper \<Rightarrow> reaper_event list \<Rightarrow> bool" where
  "marks_ok rp evs =
     ((rp_closed rp \<longleftrightarrow> Closed \<in> set evs) \<and>
      (\<not> rp_closed rp \<longrightarrow> (\<forall>w. w \<in> set (rp_evictedWorkspaceIds rp) \<longleftrightarrow> owed w evs)) \<and>
      reports_ok evs)"

lemma marks_ok_quiet:
  "marks_ok rp evs \<Longrightarrow> quiet new \<Longrightarrow> rp_closed rp' = rp_closed rp
   \<Longrightarrow> rp_evictedWorkspaceIds rp' = rp_evictedWorkspaceIds rp \<Longrightarrow> marks_ok rp' (evs @ new)"
  by (simp add: marks_ok_def quiet_owed quiet_Closed quiet_reports)

lemma quiet_Nil [simp]: "quiet []"
  by (simp add: quiet_def)

lemma marks_ok_scan:
  "marks_ok rp evs \<Longrightarrow> marks_ok (fst (scan rs now sw rp)) (evs @ snd (scan rs now sw rp))"
  by (rule marks_ok_quiet) (simp_all add: scan_rest)

lemma marks_ok_Used:
  assumes "marks_ok rp evs"
  shows "marks_ok (fst (noteUsed u now rp)) (evs @ [Used (eu_workspaceId u) (snd (noteUsed u now rp))])"
  using assms
  by (auto simp: marks_ok_def noteUsed_def owed_snoc reports_ok_snoc Let_def, auto simp: owed_def)

lemma marks_ok_Evicted:
  assumes "marks_ok rp evs" "rp_closed rp' = rp_closed rp"
    and "set (rp_evictedWorkspaceIds rp') = insert w (set (rp_evictedWorkspaceIds rp))"
  shows "marks_ok rp' (evs @ [Evicted w])"
  using assms by (auto simp: marks_ok_def owed_snoc reports_ok_snoc)

lemma marks_ok_resume:
  assumes "marks_ok rp evs"
  shows "marks_ok (fst (resumeSweep outcome ok now rp)) (evs @ snd (resumeSweep outcome ok now rp))"
proof (cases "rp_sweep rp")
  case None
  then show ?thesis using assms by (simp add: resumeSweep_def)
next
  case (Some sw)
  show ?thesis
  proof (cases "sw_await sw")
    case (Probing r began)
    have "marks_ok (rp\<lparr>rp_sweep := x\<rparr>) (evs @ [DisposeCalled e url active ttl began now])" for x e url active ttl
      by (rule marks_ok_quiet [OF assms]) (simp_all add: quiet_def)
    moreover have "marks_ok (update_object r f rp) evs" for f
      using marks_ok_quiet [OF assms, of "[]"] by simp
    ultimately show ?thesis
      using Some Probing marks_ok_scan assms
      by (auto simp: resumeSweep_def afterProbe_def Let_def split: probe_outcome.split)
  next
    case (Disposing r)
    have "marks_ok (fst (scan rs now sw' rp')) (evs @ Evicted w # snd (scan rs now sw' rp'))"
      if "rp_closed rp' = rp_closed rp" "set (rp_evictedWorkspaceIds rp') = insert w (set (rp_evictedWorkspaceIds rp))"
      for rs sw' rp' w
      using marks_ok_scan [OF marks_ok_Evicted [OF assms that]] by simp
    then show ?thesis
      using Some Disposing marks_ok_scan [OF assms]
      by (simp add: resumeSweep_def afterDispose_def Let_def split_def insert_absorb)
  qed
qed

lemma marks_ok_step:
  assumes "marks_ok rp evs"
  shows "marks_ok (fst (reaper_step (now, a) rp)) (evs @ snd (reaper_step (now, a) rp))"
proof (cases a)
  case (NoteUsed u)
  then show ?thesis using marks_ok_Used [OF assms, of u now] by (simp add: reaper_step_def split_def Let_def)
next
  case (HoldStream u)
  have "marks_ok (fst (holdStream u now rp)) (evs @ [])"
    by (rule marks_ok_quiet [OF assms]) (simp_all add: holdStream_def split_def Let_def)
  then show ?thesis using HoldStream by (simp add: reaper_step_def)
next
  case (ReleaseStream h)
  have "marks_ok (releaseStream h now rp) (evs @ [])"
    by (rule marks_ok_quiet [OF assms]) (auto simp: releaseStream_def Let_def split: prod.split option.split)
  then show ?thesis using ReleaseStream by (simp add: reaper_step_def)
next
  case (StartSweep ttl url active)
  then show ?thesis
    using assms marks_ok_scan by (simp add: reaper_step_def startSweep_def)
next
  case (ResumeSweep outcome ok)
  then show ?thesis using marks_ok_resume [OF assms] by (simp add: reaper_step_def)
next
  case CloseReaper
  then show ?thesis
    using assms by (simp add: reaper_step_def closeReaper_def marks_ok_def reports_ok_snoc)
qed

lemma marks_ok_run: "marks_ok (fst (reaper_run acts new_reaper)) (snd (reaper_run acts new_reaper))"
proof (induction acts rule: rev_induct)
  case Nil
  show ?case by (simp add: reaper_run_Nil new_reaper_def marks_ok_def reports_ok_def)
next
  case (snoc a acts)
  then show ?case using marks_ok_step [OF snoc] by (cases a) (simp add: reaper_run_snoc)
qed

section \<open>Termination of a sweep\<close>

definition sweep_measure :: "reaper \<Rightarrow> nat" where
  "sweep_measure rp =
     (case rp_sweep rp of
        None \<Rightarrow> 0
      | Some sw \<Rightarrow> 2 * length (sw_pending sw) + (case sw_await sw of Probing _ _ \<Rightarrow> 2 | Disposing _ \<Rightarrow> 1))"

lemma sweep_measure_0: "sweep_measure rp = 0 \<longleftrightarrow> rp_sweep rp = None"
  by (auto simp: sweep_measure_def split: option.split sweep_await.split)

lemma scan_measure: "sweep_measure (fst (scan rs now sw rp)) \<le> 2 * length rs"
proof (induction rs arbitrary: rp)
  case Nil
  show ?case by (simp add: end_sweep_def sweep_measure_def)
next
  case (Cons r rs)
  have "sweep_measure (fst (scan rs now sw rp')) \<le> 2 * length (r # rs)" for rp'
    using Cons [of rp'] by simp
  then show ?case by (simp add: Let_def, simp add: end_sweep_def sweep_measure_def)
qed

lemma resume_measure:
  assumes "rp_sweep rp \<noteq> None"
  shows "sweep_measure (fst (resumeSweep outcome ok now rp)) < sweep_measure rp"
proof -
  obtain sw where sw: "rp_sweep rp = Some sw" using assms by blast
  have "2 * length (sw_pending sw) < sweep_measure rp"
    using sw by (simp add: sweep_measure_def split: sweep_await.split)
  then have scanned: "sweep_measure (fst (scan (sw_pending sw) now sw' rp')) < sweep_measure rp" for sw' rp'
    by (rule le_less_trans [OF scan_measure])
  show ?thesis
  proof (cases "sw_await sw")
    case (Probing r began)
    have "sweep_measure (rp\<lparr>rp_sweep := Some (sw\<lparr>sw_await := Disposing r\<rparr>)\<rparr>) < sweep_measure rp"
      using sw Probing by (simp add: sweep_measure_def)
    then show ?thesis
      using sw Probing scanned by (simp add: resumeSweep_def afterProbe_def Let_def split: probe_outcome.split)
  next
    case (Disposing r)
    then show ?thesis
      using sw scanned by (simp add: resumeSweep_def afterDispose_def Let_def split_def)
  qed
qed

definition is_resume :: "int \<times> reaper_action \<Rightarrow> bool" where
  "is_resume act = (case snd act of ResumeSweep _ _ \<Rightarrow> True | _ \<Rightarrow> False)"

lemma other_step_sweep:
  assumes "rp_sweep rp \<noteq> None" "\<not> is_resume act"
  shows "rp_sweep (fst (reaper_step act rp)) = rp_sweep rp"
  using assms
  by (cases act, cases "snd act")
    (auto simp: is_resume_def reaper_step_def noteUsed_def holdStream_def releaseStream_def startSweep_def closeReaper_def
      split_def Let_def split: option.split)

lemma step_measure:
  assumes "rp_sweep rp \<noteq> None"
  shows "sweep_measure (fst (reaper_step act rp)) + (if is_resume act then 1 else 0) \<le> sweep_measure rp"
proof (cases "is_resume act")
  case True
  then obtain now outcome ok where "act = (now, ResumeSweep outcome ok)"
    by (cases act) (auto simp: is_resume_def split: reaper_action.splits)
  then show ?thesis using resume_measure [OF assms, of outcome ok now] True by (simp add: reaper_step_def)
next
  case False
  then show ?thesis using other_step_sweep [OF assms False] by (simp add: sweep_measure_def)
qed

lemma reaper_run_Cons: "fst (reaper_run (a # acts) rp) = fst (reaper_run acts (fst (reaper_step a rp)))"
proof (induction acts rule: rev_induct)
  case Nil
  show ?case using reaper_run_snoc [of "[]" a rp] by (simp add: reaper_run_Nil)
next
  case (snoc b acts)
  then show ?case using reaper_run_snoc [of "a # acts" b rp] by (simp add: reaper_run_snoc)
qed

lemma run_reaches_end:
  "sweep_measure rp \<le> length (filter is_resume acts) \<Longrightarrow>
     \<exists>k \<le> length acts. rp_sweep (fst (reaper_run (take k acts) rp)) = None"
proof (induction acts arbitrary: rp)
  case Nil
  then show ?case by (simp add: reaper_run_Nil sweep_measure_0)
next
  case (Cons a acts)
  show ?case
  proof (cases "rp_sweep rp = None")
    case True
    then show ?thesis by (intro exI [of _ 0]) (simp add: reaper_run_Nil)
  next
    case False
    have "sweep_measure (fst (reaper_step a rp)) \<le> length (filter is_resume acts)"
      using step_measure [OF False, of a] Cons.prems by (simp split: if_splits)
    then obtain k where "k \<le> length acts" "rp_sweep (fst (reaper_run (take k acts) (fst (reaper_step a rp)))) = None"
      using Cons.IH by blast
    then show ?thesis by (intro exI [of _ "Suc k"]) (simp add: reaper_run_Cons)
  qed
qed

section \<open>Properties\<close>


definition sample_use :: engine_use where
  "sample_use = \<lparr>eu_directory = ''/a'', eu_workspaceId = ''w'', eu_engineBaseUrl = ''u''\<rparr>"

definition sample_run :: "(int \<times> reaper_action) list" where
  "sample_run =
     [(0, NoteUsed sample_use), (9, StartSweep 5 (Some ''u'') None), (10, ResumeSweep ProbeIdle True),
      (11, ResumeSweep ProbeIdle True), (12, NoteUsed sample_use), (13, NoteUsed sample_use)]"

lemma sample_events:
  "snd (reaper_run sample_run new_reaper) =
     [Used ''w'' False, DisposeCalled (new_entry sample_use 0) ''u'' None 5 9 10, Evicted ''w'', SweepEnded 1,
      Used ''w'' True, Used ''w'' False]"
  by (simp add: reaper_run_def sample_run_def sample_use_def reaper_step_def noteUsed_def touch_entry_def new_reaper_def
      new_entry_def startSweep_def too_fresh_def jm_values_def resumeSweep_def afterProbe_def afterDispose_def end_sweep_def
      jm_delete_def Let_def)


text \<open>An eviction is reported exactly once, to the next traffic. In every run, a use of a
  workspace is told of an eviction exactly when an instance of that workspace was evicted
  after its previous use, and never once the reaper is closed.\<close>

theorem eviction_reported_once:
  assumes "snd (reaper_run acts new_reaper) = before @ Used w reported # rest"
  shows "reported \<longleftrightarrow> Closed \<notin> set before \<and>
    (\<exists>xs ys. before = xs @ Evicted w # ys \<and> (\<forall>b. Used w b \<notin> set ys))"
  using marks_ok_run [of acts] assms unfolding marks_ok_def reports_ok_def owed_def by blast

theorem eviction_reported_once_witness:
  "True \<longleftrightarrow> Closed \<notin> set [Used ''w'' False, DisposeCalled (new_entry sample_use 0) ''u'' None 5 9 10, Evicted ''w'', SweepEnded 1] \<and>
    (\<exists>xs ys. [Used ''w'' False, DisposeCalled (new_entry sample_use 0) ''u'' None 5 9 10, Evicted ''w'', SweepEnded 1]
        = xs @ Evicted ''w'' # ys \<and> (\<forall>b. Used ''w'' b \<notin> set ys))"
  by (rule eviction_reported_once [of sample_run _ _ _ "[Used ''w'' False]"]) (simp add: sample_events)

text \<open>C27. A sweep ends. From any state with \<open>n\<close> tracked instances, after a sweep was
  started the sweep flag is down again at the latest when \<open>2 * n\<close> of its awaited calls have
  ended, in whatever way they end and whatever happens in between, new traffic included.\<close>

theorem sweep_terminates:
  assumes "rp_sweep rp = None"
    and "2 * length (rp_instances rp) \<le> length (filter is_resume acts)"
  shows "\<exists>k \<le> length acts.
    rp_sweep (fst (reaper_run (take k acts) (fst (startSweep ttl url active now rp)))) = None"
proof (rule run_reaches_end)
  have "sweep_measure (fst (startSweep ttl url active now rp)) \<le> 2 * length (rp_instances rp)"
    using scan_measure [of "jm_values (rp_instances rp)"] assms(1)
    by (auto simp: startSweep_def jm_values_def, simp_all add: sweep_measure_def)
  then show "sweep_measure (fst (startSweep ttl url active now rp)) \<le> length (filter is_resume acts)"
    using assms(2) by simp
qed

theorem sweep_terminates_witness:
  "\<exists>k \<le> length (drop 2 sample_run).
    rp_sweep (fst (reaper_run (take k (drop 2 sample_run))
      (fst (startSweep 5 (Some ''u'') None 9 (fst (noteUsed sample_use 0 new_reaper)))))) = None"
  by (rule sweep_terminates)
    (simp_all add: sample_run_def is_resume_def noteUsed_def touch_entry_def new_reaper_def sample_use_def Let_def)

text \<open>
  An entry is dropped by its directory when its dispose call returns. When the engine was
  replaced meanwhile, that drops the entry of the new engine, with its open streams.
\<close>

lemma dispose_drops_successor:
  "let acts = [(0, NoteUsed sample_use), (9, StartSweep 5 (Some ''u'') None), (10, ResumeSweep ProbeIdle True),
       (11, HoldStream (sample_use\<lparr>eu_engineBaseUrl := ''v''\<rparr>)), (12, ResumeSweep ProbeIdle True)]
   in map ti_streamHolds (snapshot (fst (reaper_run (take 4 acts) new_reaper))) = [1]
    \<and> snapshot (fst (reaper_run acts new_reaper)) = []"
  by (simp add: reaper_run_def sample_use_def reaper_step_def noteUsed_def holdStream_def touch_entry_def new_reaper_def
      new_entry_def startSweep_def too_fresh_def jm_values_def resumeSweep_def afterProbe_def afterDispose_def end_sweep_def
      jm_delete_def snapshot_def update_object_def Let_def)

end
