(* ===== verification/SessionGroups.thy ===== *)
theory SessionGroups
  imports LocalStores
begin

text \<open>
  The session groups of a workspace: the stored state and its normalisation
  (\<open>apps/server/src/session-groups.ts\<close>) and the requests that change it
  (\<open>apps/server/src/routes/session-groups.ts\<close>).

  A row holds the JSON value that was written and its time. Updates of a workspace are
  chained by the source, so an update is one step. What \<open>ensureWritable\<close>,
  \<open>requireClientScope\<close> and \<open>resolveWorkspace\<close> answer for a request is an argument, either
  an error or the workspace id; so are the body, the generated ids and the clock. Keys
  of an object are in the order \<open>Object.entries\<close> yields them, and no session id is
  \<open>__proto__\<close>.
\<close>

section \<open>State and normalisation\<close>

record group_def =
  gd_id :: string
  gd_label :: string

record group_state =
  gs_groups :: "group_def list"
  gs_assignments :: "(string, string) jsmap"

definition EMPTY_SESSION_GROUP_STATE :: group_state where
  "EMPTY_SESSION_GROUP_STATE = \<lparr>gs_groups = [], gs_assignments = []\<rparr>"

definition normalizeGroupId :: "json option \<Rightarrow> string" where
  "normalizeGroupId v = (case jstring v of None \<Rightarrow> [] | Some s \<Rightarrow> take 128 (js_trim s))"

definition normalizeLabel :: "json option \<Rightarrow> string" where
  "normalizeLabel v = (case jstring v of None \<Rightarrow> [] | Some s \<Rightarrow> take 120 (js_trim s))"

definition has_group :: "string \<Rightarrow> group_def list \<Rightarrow> bool" where
  "has_group gid gs = list_ex (\<lambda>g. gd_id g = gid) gs"

definition add_group :: "group_def list \<Rightarrow> json \<Rightarrow> group_def list" where
  "add_group gs item =
     (let gid = normalizeGroupId (jfield ''id'' item);
          label = normalizeLabel (jfield ''label'' item)
      in if gid = [] \<or> label = [] \<or> has_group gid gs then gs
         else gs @ [\<lparr>gd_id = gid, gd_label = label\<rparr>])"

definition add_assignment ::
  "group_def list \<Rightarrow> (string, string) jsmap \<Rightarrow> string \<times> json \<Rightarrow> (string, string) jsmap" where
  "add_assignment gs m entry =
     (let sid = take 256 (js_trim (fst entry));
          gid = normalizeGroupId (Some (snd entry))
      in if sid = [] \<or> gid = [] \<or> \<not> has_group gid gs then m else jm_set sid gid m)"

definition normalizeSessionGroupState :: "json \<Rightarrow> group_state" where
  "normalizeSessionGroupState v =
     (case v of
        JObj es \<Rightarrow>
          (let groups = (case jm_get ''groups'' es of Some (JArr items) \<Rightarrow> foldl add_group [] items | _ \<Rightarrow> []);
               assignments = (case jm_get ''assignments'' es of
                  Some (JObj as) \<Rightarrow> foldl (add_assignment groups) [] as
                | _ \<Rightarrow> [])
           in \<lparr>gs_groups = groups, gs_assignments = assignments\<rparr>)
      | _ \<Rightarrow> EMPTY_SESSION_GROUP_STATE)"

definition group_json :: "group_def \<Rightarrow> json" where
  "group_json g = JObj [(''id'', JStr (gd_id g)), (''label'', JStr (gd_label g))]"

definition state_json :: "group_state \<Rightarrow> json" where
  "state_json s =
     JObj [(''groups'', JArr (map group_json (gs_groups s))),
           (''assignments'', JObj (map (\<lambda>(sid, gid). (sid, JStr gid)) (gs_assignments s)))]"

section \<open>The rows\<close>

type_synonym group_rows = "(string, json \<times> int) jsmap"

definition readSessionGroupState :: "group_rows \<Rightarrow> string \<Rightarrow> group_state \<times> int option" where
  "readSessionGroupState rows w =
     (case jm_get w rows of
        None \<Rightarrow> (EMPTY_SESSION_GROUP_STATE, None)
      | Some (v, updatedAt) \<Rightarrow> (normalizeSessionGroupState v, Some updatedAt))"

definition writeSessionGroupState :: "string \<Rightarrow> group_state \<Rightarrow> int \<Rightarrow> group_rows \<Rightarrow> group_rows \<times> group_state" where
  "writeSessionGroupState w s now rows =
     (let s' = normalizeSessionGroupState (state_json s)
      in (jm_set w (state_json s', now) rows, s'))"

definition updateSessionGroupState ::
  "string \<Rightarrow> (group_state \<Rightarrow> group_state) \<Rightarrow> int \<Rightarrow> group_rows \<Rightarrow> group_rows \<times> group_state" where
  "updateSessionGroupState w f now rows =
     writeSessionGroupState w (f (fst (readSessionGroupState rows w))) now rows"

section \<open>The events\<close>

datatype group_action = GroupCreated | GroupUpdated | GroupDeleted | GroupAssigned | GroupReordered | GroupImported

record group_event =
  ge_id :: string
  ge_seq :: nat
  ge_workspaceId :: string
  ge_action :: group_action
  ge_groupId :: "string option"
  ge_sessionId :: "string option"
  ge_timestamp :: int

record group_event_state =
  gv_seq :: nat
  gv_events :: "group_event list"

record group_event_store =
  gv_byWorkspace :: "(string, group_event_state) jsmap"
  gv_maxSize :: nat

definition group_log_of :: "string \<Rightarrow> group_event_store \<Rightarrow> group_event_state" where
  "group_log_of w st =
     (case jm_get w (gv_byWorkspace st) of Some s \<Rightarrow> s | None \<Rightarrow> \<lparr>gv_seq = 0, gv_events = []\<rparr>)"

definition truthy :: "string option \<Rightarrow> string option" where
  "truthy x = (case x of Some s \<Rightarrow> if s = [] then None else Some s | None \<Rightarrow> None)"

type_synonym group_event_input = "string \<times> group_action \<times> string option \<times> string option \<times> int"

text \<open>\<open>record\<close>; the input is the id, the action, the group, the session and the time.\<close>

definition record_group_event :: "string \<Rightarrow> group_event_input \<Rightarrow> group_event_store \<Rightarrow> group_event_store" where
  "record_group_event w input st =
     (let (eid, action, gid, sid, now) = input;
          state = group_log_of w st;
          event = \<lparr>ge_id = eid, ge_seq = gv_seq state + 1, ge_workspaceId = w, ge_action = action,
                   ge_groupId = truthy gid, ge_sessionId = truthy sid, ge_timestamp = now\<rparr>;
          evs = gv_events state @ [event]
      in st\<lparr>gv_byWorkspace :=
              jm_set w \<lparr>gv_seq = gv_seq state + 1, gv_events = drop (length evs - gv_maxSize st) evs\<rparr> (gv_byWorkspace st)\<rparr>)"

definition list_group_events :: "string \<Rightarrow> int option \<Rightarrow> group_event_store \<Rightarrow> group_event list" where
  "list_group_events w since st =
     (let cursor = (case since of Some c \<Rightarrow> c | None \<Rightarrow> 0)
      in case jm_get w (gv_byWorkspace st) of
           None \<Rightarrow> []
         | Some s \<Rightarrow> filter (\<lambda>e. cursor < int (ge_seq e)) (gv_events s))"

definition group_events_cursor :: "string \<Rightarrow> group_event_store \<Rightarrow> nat" where
  "group_events_cursor w st = (case jm_get w (gv_byWorkspace st) of Some s \<Rightarrow> gv_seq s | None \<Rightarrow> 0)"

interpretation group_log: numbered_log "\<lambda>st. gv_events (group_log_of w st)" "\<lambda>st. gv_seq (group_log_of w st)"
    "record_group_event w" ge_seq gv_maxSize
  for w
  by (unfold_locales, auto simp: record_group_event_def group_log_of_def Let_def split: prod.splits option.splits)
    ((rule exI, rule conjI [rotated], rule refl, simp)+)

section \<open>The requests\<close>

datatype group_error = GroupRequestError nat string string | GuardError string

record group_server =
  sv_rows :: group_rows
  sv_events :: group_event_store

type_synonym group_answer = "group_error + group_state"

definition requireStringField :: "json \<Rightarrow> string \<Rightarrow> group_error + string" where
  "requireStringField body fld =
     (case jstring (jfield fld body) of
        None \<Rightarrow> Inl (GroupRequestError 400 ''invalid_payload'' (fld @ '' is required''))
      | Some s \<Rightarrow>
          (if js_trim s = [] then Inl (GroupRequestError 400 ''invalid_payload'' (fld @ '' is required''))
           else Inr (js_trim s)))"

definition create_group :: "string \<Rightarrow> string \<Rightarrow> string \<Rightarrow> group_state \<Rightarrow> group_state" where
  "create_group requestedId generated label cur =
     (let gid = (if requestedId \<noteq> [] \<and> \<not> has_group requestedId (gs_groups cur) then requestedId else generated)
      in cur\<lparr>gs_groups := gs_groups cur @ [\<lparr>gd_id = gid, gd_label = label\<rparr>]\<rparr>)"

text \<open>A \<open>Map\<close> built from pairs keeps the last group of an id.\<close>

definition group_by_id :: "string \<Rightarrow> group_def list \<Rightarrow> group_def option" where
  "group_by_id gid gs = find (\<lambda>g. gd_id g = gid) (rev gs)"

primrec pick_groups :: "string list \<Rightarrow> group_def list \<Rightarrow> string list \<Rightarrow> group_def list" where
  "pick_groups [] gs used = filter (\<lambda>g. gd_id g \<notin> set used) gs"
| "pick_groups (gid # ids) gs used =
     (case group_by_id gid gs of
        None \<Rightarrow> pick_groups ids gs used
      | Some g \<Rightarrow> (if gid \<in> set used then pick_groups ids gs used else g # pick_groups ids gs (gid # used)))"

definition reorder_groups :: "string list \<Rightarrow> group_state \<Rightarrow> group_state" where
  "reorder_groups ids cur = cur\<lparr>gs_groups := pick_groups ids (gs_groups cur) []\<rparr>"

definition assign_session :: "string \<Rightarrow> string option \<Rightarrow> group_state \<Rightarrow> group_state" where
  "assign_session sid gid cur =
     cur\<lparr>gs_assignments :=
       (case gid of
          Some g \<Rightarrow> (if has_group g (gs_groups cur) then jm_set sid g (gs_assignments cur)
                     else jm_delete sid (gs_assignments cur))
        | None \<Rightarrow> jm_delete sid (gs_assignments cur))\<rparr>"

definition rename_group :: "string \<Rightarrow> string \<Rightarrow> group_state \<Rightarrow> group_state" where
  "rename_group gid label cur =
     cur\<lparr>gs_groups := map (\<lambda>g. if gd_id g = gid then g\<lparr>gd_label := label\<rparr> else g) (gs_groups cur)\<rparr>"

definition delete_destination :: "string \<Rightarrow> string option \<Rightarrow> group_def list \<Rightarrow> string option" where
  "delete_destination gid requested gs =
     (case requested of
        Some d \<Rightarrow> (if list_ex (\<lambda>g. gd_id g = d \<and> gd_id g \<noteq> gid) gs then Some d else None)
      | None \<Rightarrow> None)"

definition delete_group :: "string \<Rightarrow> string option \<Rightarrow> group_state \<Rightarrow> group_state" where
  "delete_group gid requested cur =
     (let destination = delete_destination gid requested (gs_groups cur);
          assignments = foldl (\<lambda>m (sid, g).
             if g \<noteq> gid then jm_set sid g m
             else case destination of Some d \<Rightarrow> jm_set sid d m | None \<Rightarrow> m) [] (gs_assignments cur)
      in \<lparr>gs_groups = filter (\<lambda>g. gd_id g \<noteq> gid) (gs_groups cur), gs_assignments = assignments\<rparr>)"

text \<open>What every changing request does with its updater.\<close>

definition change_groups ::
  "string \<Rightarrow> (group_state \<Rightarrow> group_state) \<Rightarrow> (group_state \<Rightarrow> group_event_input) \<Rightarrow> int \<Rightarrow> group_server \<Rightarrow> group_server \<times> group_answer" where
  "change_groups w f ev now sv =
     (let (rows, s) = updateSessionGroupState w f now (sv_rows sv)
      in (sv\<lparr>sv_rows := rows, sv_events := record_group_event w (ev s) (sv_events sv)\<rparr>, Inr s))"

definition trimmed_ids :: "json option \<Rightarrow> string list" where
  "trimmed_ids v =
     (case v of
        Some (JArr xs) \<Rightarrow> filter (\<lambda>s. s \<noteq> []) (map js_trim (List.map_filter (\<lambda>x. jstring (Some x)) xs))
      | _ \<Rightarrow> [])"

definition optional_id :: "json option \<Rightarrow> string option" where
  "optional_id v = truthy (map_option js_trim (jstring v))"

datatype group_request =
    ImportGroups json
  | CreateGroup json string
  | ReorderGroups json
  | AssignSession string json
  | RenameGroup string json
  | DeleteGroup string "string option"

definition last_group_id :: "group_state \<Rightarrow> string option" where
  "last_group_id s = (if gs_groups s = [] then None else Some (gd_id (last (gs_groups s))))"

text \<open>
  The handlers after the guards answered the workspace; path parameters are trimmed, a
  body is the object that was read.
\<close>

definition serve_group_request :: "string \<Rightarrow> string \<Rightarrow> int \<Rightarrow> group_request \<Rightarrow> group_server \<Rightarrow> group_server \<times> group_answer" where
  "serve_group_request w eid now req sv =
     (case req of
        ImportGroups body \<Rightarrow>
          (let s = normalizeSessionGroupState (case jfield ''state'' body of Some v \<Rightarrow> v | None \<Rightarrow> JNull)
           in change_groups w (\<lambda>_. s) (\<lambda>_. (eid, GroupImported, None, None, now)) now sv)
      | CreateGroup body generated \<Rightarrow>
          (case requireStringField body ''label'' of
             Inl e \<Rightarrow> (sv, Inl e)
           | Inr l \<Rightarrow>
               (let requestedId = (case jstring (jfield ''id'' body) of Some s \<Rightarrow> take 128 (js_trim s) | None \<Rightarrow> [])
                in change_groups w (create_group requestedId generated (take 120 l))
                     (\<lambda>s. (eid, GroupCreated, last_group_id s, None, now)) now sv))
      | ReorderGroups body \<Rightarrow>
          change_groups w (reorder_groups (trimmed_ids (jfield ''groupIds'' body)))
            (\<lambda>_. (eid, GroupReordered, None, None, now)) now sv
      | AssignSession param body \<Rightarrow>
          (let sid = js_trim param;
               gid = optional_id (jfield ''groupId'' body)
           in if sid = [] then (sv, Inl (GroupRequestError 400 ''invalid_payload'' ''sessionId is required''))
              else change_groups w (assign_session sid gid) (\<lambda>_. (eid, GroupAssigned, gid, Some sid, now)) now sv)
      | RenameGroup param body \<Rightarrow>
          (let gid = js_trim param
           in if gid = [] then (sv, Inl (GroupRequestError 400 ''invalid_payload'' ''groupId is required''))
              else case requireStringField body ''label'' of
                     Inl e \<Rightarrow> (sv, Inl e)
                   | Inr l \<Rightarrow> change_groups w (rename_group gid (take 120 l))
                                (\<lambda>_. (eid, GroupUpdated, Some gid, None, now)) now sv)
      | DeleteGroup param dest \<Rightarrow>
          (let gid = js_trim param
           in if gid = [] then (sv, Inl (GroupRequestError 400 ''invalid_payload'' ''groupId is required''))
              else change_groups w (delete_group gid (truthy (map_option js_trim dest)))
                     (\<lambda>_. (eid, GroupDeleted, Some gid, None, now)) now sv))"

definition handle_group_request ::
  "group_error + string \<Rightarrow> string \<Rightarrow> int \<Rightarrow> group_request \<Rightarrow> group_server \<Rightarrow> group_server \<times> group_answer" where
  "handle_group_request guarded eid now req sv =
     (case guarded of Inl e \<Rightarrow> (sv, Inl e) | Inr w \<Rightarrow> serve_group_request w eid now req sv)"

definition get_groups :: "group_error + string \<Rightarrow> group_server \<Rightarrow> group_error + (group_state \<times> int option)" where
  "get_groups resolved sv =
     (case resolved of Inl e \<Rightarrow> Inl e | Inr w \<Rightarrow> Inr (readSessionGroupState (sv_rows sv) w))"

definition get_group_events ::
  "group_error + string \<Rightarrow> (string \<Rightarrow> int option) \<Rightarrow> string option \<Rightarrow> group_server
     \<Rightarrow> group_error + (group_event list \<times> nat)" where
  "get_group_events resolved number sinceRaw sv =
     (case resolved of
        Inl e \<Rightarrow> Inl e
      | Inr w \<Rightarrow>
          (let since = Option.bind (truthy sinceRaw) number
           in Inr (list_group_events w since (sv_events sv), group_events_cursor w (sv_events sv))))"

section \<open>Well-formed states\<close>

definition group_ids :: "group_def list \<Rightarrow> string list" where
  "group_ids gs = map gd_id gs"

definition groups_ok :: "group_state \<Rightarrow> bool" where
  "groups_ok s =
     (distinct (group_ids (gs_groups s)) \<and>
      (\<forall>g \<in> set (gs_groups s). gd_id g \<noteq> [] \<and> length (gd_id g) \<le> 128 \<and> gd_label g \<noteq> [] \<and> length (gd_label g) \<le> 120) \<and>
      jm_wf (gs_assignments s) \<and>
      (\<forall>(sid, gid) \<in> set (gs_assignments s).
         sid \<noteq> [] \<and> length sid \<le> 256 \<and> gid \<in> set (group_ids (gs_groups s))))"

lemma has_group_iff: "has_group gid gs \<longleftrightarrow> gid \<in> set (group_ids gs)"
  by (auto simp: has_group_def group_ids_def list_ex_iff)

lemma normalizeGroupId_length: "length (normalizeGroupId v) \<le> 128"
  by (simp add: normalizeGroupId_def split: option.split)

lemma normalizeLabel_length: "length (normalizeLabel v) \<le> 120"
  by (simp add: normalizeLabel_def split: option.split)

definition defs_ok :: "group_def list \<Rightarrow> bool" where
  "defs_ok gs =
     (distinct (group_ids gs) \<and>
      (\<forall>g \<in> set gs. gd_id g \<noteq> [] \<and> length (gd_id g) \<le> 128 \<and> gd_label g \<noteq> [] \<and> length (gd_label g) \<le> 120))"

lemma add_group_ok: "defs_ok gs \<Longrightarrow> defs_ok (add_group gs item)"
  by (auto simp: defs_ok_def add_group_def has_group_iff group_ids_def normalizeGroupId_length normalizeLabel_length Let_def)

lemma add_groups_ok: "defs_ok gs \<Longrightarrow> defs_ok (foldl add_group gs items)"
  by (induction items arbitrary: gs) (simp_all add: add_group_ok)

definition assigned_ok :: "group_def list \<Rightarrow> (string, string) jsmap \<Rightarrow> bool" where
  "assigned_ok gs m =
     (jm_wf m \<and> (\<forall>(sid, gid) \<in> set m. sid \<noteq> [] \<and> length sid \<le> 256 \<and> gid \<in> set (group_ids gs)))"

lemma jm_set_members: "set (jm_set k v m) \<subseteq> insert (k, v) (set m)"
  by (induction m) (auto split: if_splits)

lemma assigned_ok_set:
  "assigned_ok gs m \<Longrightarrow> sid \<noteq> [] \<Longrightarrow> length sid \<le> 256 \<Longrightarrow> gid \<in> set (group_ids gs) \<Longrightarrow> assigned_ok gs (jm_set sid gid m)"
  using jm_set_members [of sid gid m] by (auto simp: assigned_ok_def)

lemma add_assignment_ok: "assigned_ok gs m \<Longrightarrow> assigned_ok gs (add_assignment gs m entry)"
  by (auto simp: add_assignment_def has_group_iff assigned_ok_set Let_def)

lemma add_assignments_ok: "assigned_ok gs m \<Longrightarrow> assigned_ok gs (foldl (add_assignment gs) m es)"
  by (induction es arbitrary: m) (simp_all add: add_assignment_ok)

lemma groups_ok_parts: "groups_ok s \<longleftrightarrow> defs_ok (gs_groups s) \<and> assigned_ok (gs_groups s) (gs_assignments s)"
  by (auto simp: groups_ok_def defs_ok_def assigned_ok_def)

lemma normalize_ok: "groups_ok (normalizeSessionGroupState v)"
proof -
  have "defs_ok []" "\<And>gs. assigned_ok gs []" by (simp_all add: defs_ok_def assigned_ok_def group_ids_def)
  then show ?thesis
    by (auto simp: normalizeSessionGroupState_def groups_ok_parts EMPTY_SESSION_GROUP_STATE_def add_groups_ok add_assignments_ok Let_def
        split: json.split option.split)
qed

section \<open>Stable states\<close>

text \<open>
  A state whose texts carry no surrounding white space is written and read back as it is.
\<close>

definition groups_stable :: "group_state \<Rightarrow> bool" where
  "groups_stable s =
     (groups_ok s \<and>
      (\<forall>g \<in> set (gs_groups s). js_trim (gd_id g) = gd_id g \<and> js_trim (gd_label g) = gd_label g) \<and>
      (\<forall>(sid, gid) \<in> set (gs_assignments s). js_trim sid = sid))"

lemma normalizeGroupId_JStr: "normalizeGroupId (Some (JStr t)) = take 128 (js_trim t)"
  by (simp add: normalizeGroupId_def jstring_def)

lemma normalizeLabel_JStr: "normalizeLabel (Some (JStr t)) = take 120 (js_trim t)"
  by (simp add: normalizeLabel_def jstring_def)

lemma normalize_defs:
  assumes "defs_ok (pre @ gs)" "\<forall>g \<in> set gs. js_trim (gd_id g) = gd_id g \<and> js_trim (gd_label g) = gd_label g"
  shows "foldl add_group pre (map group_json gs) = pre @ gs"
  using assms
proof (induction gs arbitrary: pre)
  case (Cons g gs)
  have "add_group pre (group_json g) = pre @ [g]"
    using Cons.prems
    by (auto simp: add_group_def group_json_def jfield_def normalizeGroupId_JStr normalizeLabel_JStr has_group_iff
        defs_ok_def group_ids_def Let_def)
  then show ?case using Cons by simp
qed simp

lemma normalize_assigned:
  assumes "assigned_ok gs (pre @ m)" "defs_ok gs" "\<forall>g \<in> set gs. js_trim (gd_id g) = gd_id g"
    "\<forall>(sid, gid) \<in> set m. js_trim sid = sid"
  shows "foldl (add_assignment gs) pre (map (\<lambda>(sid, gid). (sid, JStr gid)) m) = pre @ m"
  using assms
proof (induction m arbitrary: pre)
  case (Cons e m)
  obtain sid gid where e: "e = (sid, gid)" by force
  obtain g where g: "g \<in> set gs" "gd_id g = gid"
    using Cons.prems(1) by (auto simp: e assigned_ok_def group_ids_def)
  have "gid \<noteq> []" "length gid \<le> 128" "js_trim gid = gid"
    using g Cons.prems(2,3) by (auto simp: defs_ok_def)
  moreover have "jm_set sid gid pre = pre @ [(sid, gid)]"
    using Cons.prems(1) by (intro jm_set_fresh) (auto simp: e assigned_ok_def jm_wf_def jm_get_None_iff)
  ultimately have "add_assignment gs pre (sid, JStr gid) = pre @ [(sid, gid)]"
    using Cons.prems
    by (auto simp: e add_assignment_def normalizeGroupId_JStr has_group_iff assigned_ok_def Let_def)
  then show ?case using Cons by (simp add: e)
qed simp

lemma normalize_stable: "groups_stable s \<Longrightarrow> normalizeSessionGroupState (state_json s) = s"
  using normalize_defs [of "[]" "gs_groups s"] normalize_assigned [of "gs_groups s" "[]" "gs_assignments s"]
  by (simp add: groups_stable_def groups_ok_parts normalizeSessionGroupState_def state_json_def Let_def)

section \<open>Changes and what they mean\<close>

text \<open>The order of the groups, their labels, and the group of each session.\<close>

record group_view =
  vw_order :: "string list"
  vw_label :: "string \<Rightarrow> string option"
  vw_group :: "string \<Rightarrow> string option"

definition label_of :: "group_def list \<Rightarrow> string \<Rightarrow> string option" where
  "label_of gs gid = map_option gd_label (find (\<lambda>g. gd_id g = gid) gs)"

definition view_of :: "group_state \<Rightarrow> group_view" where
  "view_of s = \<lparr>vw_order = group_ids (gs_groups s), vw_label = label_of (gs_groups s),
     vw_group = (\<lambda>sid. jm_get sid (gs_assignments s))\<rparr>"

datatype group_change =
    CreateChange string string string
  | ReorderChange "string list"
  | AssignChange string "string option"
  | RenameChange string string
  | DeleteChange string "string option"

definition apply_change :: "group_change \<Rightarrow> group_state \<Rightarrow> group_state" where
  "apply_change ch =
     (case ch of
        CreateChange requested generated label \<Rightarrow> create_group requested generated label
      | ReorderChange ids \<Rightarrow> reorder_groups ids
      | AssignChange sid gid \<Rightarrow> assign_session sid gid
      | RenameChange gid label \<Rightarrow> rename_group gid label
      | DeleteChange gid dest \<Rightarrow> delete_group gid dest)"

definition spec_change :: "group_change \<Rightarrow> group_view \<Rightarrow> group_view" where
  "spec_change ch v =
     (case ch of
        CreateChange requested generated label \<Rightarrow>
          (let gid = (if requested \<noteq> [] \<and> requested \<notin> set (vw_order v) then requested else generated)
           in v\<lparr>vw_order := vw_order v @ [gid], vw_label := (vw_label v)(gid \<mapsto> label)\<rparr>)
      | ReorderChange ids \<Rightarrow>
          v\<lparr>vw_order := filter (\<lambda>i. i \<in> set (vw_order v)) (js_uniq ids) @ filter (\<lambda>i. i \<notin> set ids) (vw_order v)\<rparr>
      | AssignChange sid gid \<Rightarrow>
          v\<lparr>vw_group := (vw_group v)(sid := (case gid of Some g \<Rightarrow> if g \<in> set (vw_order v) then Some g else None | None \<Rightarrow> None))\<rparr>
      | RenameChange gid label \<Rightarrow>
          (if gid \<in> set (vw_order v) then v\<lparr>vw_label := (vw_label v)(gid \<mapsto> label)\<rparr> else v)
      | DeleteChange gid dest \<Rightarrow>
          \<lparr>vw_order = filter (\<lambda>i. i \<noteq> gid) (vw_order v), vw_label = (vw_label v)(gid := None),
           vw_group = (\<lambda>sid. if vw_group v sid = Some gid
              then (case dest of Some d \<Rightarrow> if d \<in> set (vw_order v) \<and> d \<noteq> gid then Some d else None | None \<Rightarrow> None)
              else vw_group v sid)\<rparr>)"

text \<open>The texts of a change are trimmed, not empty and within the bounds; a generated id is new.\<close>

definition text_fits :: "nat \<Rightarrow> string \<Rightarrow> bool" where
  "text_fits n t = (t \<noteq> [] \<and> length t \<le> n \<and> js_trim t = t)"

definition change_fits :: "group_change \<Rightarrow> group_state \<Rightarrow> bool" where
  "change_fits ch s =
     (case ch of
        CreateChange requested generated label \<Rightarrow>
          (requested \<noteq> [] \<longrightarrow> text_fits 128 requested) \<and> text_fits 128 generated \<and>
          \<not> has_group generated (gs_groups s) \<and> text_fits 120 label
      | AssignChange sid _ \<Rightarrow> text_fits 256 sid
      | RenameChange _ label \<Rightarrow> text_fits 120 label
      | _ \<Rightarrow> True)"

lemma find_id_iff:
  "distinct (group_ids gs) \<Longrightarrow> find (\<lambda>g. gd_id g = i) gs = Some g \<longleftrightarrow> g \<in> set gs \<and> gd_id g = i"
  by (induction gs) (auto simp: group_ids_def)

lemma label_of_iff:
  "distinct (group_ids gs) \<Longrightarrow> label_of gs gid = Some l \<longleftrightarrow> (\<exists>g \<in> set gs. gd_id g = gid \<and> gd_label g = l)"
  by (auto simp: label_of_def find_id_iff)

lemma label_of_eqI:
  assumes "distinct (group_ids gs)" "distinct (group_ids gs')" "set gs = set gs'"
  shows "label_of gs = label_of gs'"
proof
  fix i show "label_of gs i = label_of gs' i"
    using label_of_iff [OF assms(1)] label_of_iff [OF assms(2)] assms(3) by (metis not_None_eq)
qed

lemma js_uniq_Cons: "js_uniq (x # xs) = x # filter (\<lambda>y. y \<noteq> x) (js_uniq xs)"
proof (induction xs rule: rev_induct)
  case (snoc y xs)
  then show ?case by (auto simp: js_uniq_def)
qed (simp add: js_uniq_def)

lemma group_by_id_iff:
  "distinct (group_ids gs) \<Longrightarrow> group_by_id i gs = Some g \<longleftrightarrow> g \<in> set gs \<and> gd_id g = i"
  by (induction gs rule: rev_induct) (auto simp: group_by_id_def group_ids_def)

lemma group_by_id_None: "group_by_id i gs = None \<longleftrightarrow> i \<notin> set (group_ids gs)"
  by (auto simp: group_by_id_def find_None_iff group_ids_def)

lemma pick_groups_ids:
  assumes "distinct (group_ids gs)"
  shows "map gd_id (pick_groups ids gs used) =
     filter (\<lambda>i. i \<in> set (group_ids gs) \<and> i \<notin> set used) (js_uniq ids)
     @ filter (\<lambda>i. i \<notin> set used \<union> set ids) (group_ids gs)"
proof (induction ids arbitrary: used)
  case Nil
  show ?case by (simp add: js_uniq_def group_ids_def filter_map comp_def)
next
  case (Cons i ids)
  show ?case
  proof (cases "group_by_id i gs")
    case None
    then have "i \<notin> set (group_ids gs)" by (simp add: group_by_id_None)
    then show ?thesis
      using Cons None by (simp add: js_uniq_Cons, intro arg_cong2 [of _ _ _ _ append] filter_cong) auto
  next
    case (Some g)
    then have g: "g \<in> set gs" "gd_id g = i" "i \<in> set (group_ids gs)"
      using group_by_id_iff [OF assms, of i g] by (auto simp: group_ids_def)
    then show ?thesis
      using Cons Some by (simp add: js_uniq_Cons) (auto intro!: arg_cong2 [of _ _ _ _ append] filter_cong)
  qed
qed

lemma pick_groups_subset: "distinct (group_ids gs) \<Longrightarrow> set (pick_groups ids gs used) \<subseteq> set gs"
  by (induction ids arbitrary: used) (auto split: option.split dest: group_by_id_iff [THEN iffD1, rotated])

definition moved :: "string \<Rightarrow> string option \<Rightarrow> (string, string) jsmap \<Rightarrow> string \<times> string \<Rightarrow> (string, string) jsmap" where
  "moved gid destination m e =
     (case e of (sid, g) \<Rightarrow>
        if g \<noteq> gid then jm_set sid g m else case destination of Some d \<Rightarrow> jm_set sid d m | None \<Rightarrow> m)"

lemma delete_group_eq:
  "delete_group gid requested cur =
     \<lparr>gs_groups = filter (\<lambda>g. gd_id g \<noteq> gid) (gs_groups cur),
      gs_assignments = foldl (moved gid (delete_destination gid requested (gs_groups cur))) [] (gs_assignments cur)\<rparr>"
  by (simp add: delete_group_def moved_def [abs_def] Let_def)

lemma moved_get:
  assumes "jm_wf es"
  shows "jm_get sid (foldl (moved gid destination) m es) =
     (case jm_get sid es of
        Some g \<Rightarrow> if g \<noteq> gid then Some g else (case destination of Some d \<Rightarrow> Some d | None \<Rightarrow> jm_get sid m)
      | None \<Rightarrow> jm_get sid m)"
  using assms
proof (induction es arbitrary: m)
  case (Cons e es)
  obtain sid' g where e: "e = (sid', g)" by force
  have wf: "jm_wf es" and fresh: "jm_get sid' es = None"
    using Cons.prems by (auto simp: e jm_wf_def jm_get_None_iff)
  show ?case
    using Cons.IH [OF wf] fresh by (auto simp: e moved_def split: option.split)
qed simp

lemma moved_wf: "jm_wf m \<Longrightarrow> jm_wf (foldl (moved gid destination) m es)"
  by (induction es arbitrary: m) (auto simp: moved_def split: option.split)

lemma delete_destination_eq:
  "delete_destination gid requested gs =
     (case requested of Some d \<Rightarrow> if d \<in> set (group_ids gs) \<and> d \<noteq> gid then Some d else None | None \<Rightarrow> None)"
  by (auto simp: delete_destination_def list_ex_iff group_ids_def split: option.split)

text \<open>Well-formedness of assignments, by look-up.\<close>

lemma assigned_ok_iff:
  "assigned_ok gs m \<longleftrightarrow> jm_wf m \<and>
     (\<forall>sid gid. jm_get sid m = Some gid \<longrightarrow> sid \<noteq> [] \<and> length sid \<le> 256 \<and> gid \<in> set (group_ids gs))"
  unfolding assigned_ok_def using jm_get_mem jm_mem_get by fast

definition keys_trimmed :: "(string, string) jsmap \<Rightarrow> bool" where
  "keys_trimmed m = (\<forall>sid gid. jm_get sid m = Some gid \<longrightarrow> js_trim sid = sid)"

definition defs_trimmed :: "group_def list \<Rightarrow> bool" where
  "defs_trimmed gs = (\<forall>g \<in> set gs. js_trim (gd_id g) = gd_id g \<and> js_trim (gd_label g) = gd_label g)"

lemma groups_stable_parts:
  "groups_stable s \<longleftrightarrow> defs_ok (gs_groups s) \<and> defs_trimmed (gs_groups s) \<and>
     assigned_ok (gs_groups s) (gs_assignments s) \<and> keys_trimmed (gs_assignments s)"
proof -
  have "(\<forall>(sid, gid) \<in> set m. js_trim sid = sid) \<longleftrightarrow> keys_trimmed m" if "jm_wf m" for m :: "(string, string) jsmap"
    unfolding keys_trimmed_def using jm_get_mem jm_mem_get [OF that] by fast
  then show ?thesis
    by (auto simp: groups_stable_def groups_ok_parts defs_trimmed_def assigned_ok_def)
qed

lemma group_ids_filter: "group_ids (filter (\<lambda>g. gd_id g \<noteq> gid) gs) = filter (\<lambda>i. i \<noteq> gid) (group_ids gs)"
  by (simp add: group_ids_def filter_map comp_def)

lemma pick_groups_set:
  assumes "distinct (group_ids gs)"
  shows "set (pick_groups ids gs []) = set gs" "distinct (group_ids (pick_groups ids gs []))"
proof -
  have ids: "group_ids (pick_groups ids gs []) =
      filter (\<lambda>i. i \<in> set (group_ids gs)) (js_uniq ids) @ filter (\<lambda>i. i \<notin> set ids) (group_ids gs)"
    using pick_groups_ids [OF assms, of ids "[]"] by (simp add: group_ids_def)
  show "distinct (group_ids (pick_groups ids gs []))" using assms by (auto simp: ids)
  have "gd_id ` set (pick_groups ids gs []) = gd_id ` set gs"
    using arg_cong [OF ids, of set] by (auto simp: group_ids_def)
  moreover have "inj_on gd_id (set gs)" using assms by (simp add: group_ids_def distinct_map)
  ultimately show "set (pick_groups ids gs []) = set gs"
    using pick_groups_subset [OF assms] by (metis inj_on_image_eq_iff order_refl)
qed

lemma rename_ids: "group_ids (gs_groups (rename_group gid label s)) = group_ids (gs_groups s)"
  by (simp add: rename_group_def group_ids_def)

lemma stable_change:
  assumes "groups_stable s" "change_fits ch s"
  shows "groups_stable (apply_change ch s)"
proof (cases ch)
  case (CreateChange requested generated label)
  define gid where "gid = (if requested \<noteq> [] \<and> \<not> has_group requested (gs_groups s) then requested else generated)"
  have "text_fits 128 gid" "gid \<notin> set (group_ids (gs_groups s))" "text_fits 120 label"
    using assms(2) by (auto simp: CreateChange change_fits_def gid_def has_group_iff)
  then show ?thesis
    using assms(1)
    by (auto simp: CreateChange apply_change_def create_group_def gid_def [symmetric] groups_stable_parts defs_ok_def
        defs_trimmed_def assigned_ok_def group_ids_def text_fits_def Let_def)
next
  case (ReorderChange ids)
  have d: "distinct (group_ids (gs_groups s))" using assms(1) by (simp add: groups_stable_parts defs_ok_def)
  have "set (group_ids (pick_groups ids (gs_groups s) [])) = set (group_ids (gs_groups s))"
    using pick_groups_set(1) [OF d, of ids] by (simp add: group_ids_def)
  then show ?thesis
    using assms(1) pick_groups_set [OF d, of ids]
    by (simp add: ReorderChange apply_change_def reorder_groups_def groups_stable_parts defs_ok_def defs_trimmed_def assigned_ok_def)
next
  case (AssignChange sid gid)
  then show ?thesis
    using assms
    by (auto simp: apply_change_def assign_session_def change_fits_def text_fits_def groups_stable_parts assigned_ok_iff
        keys_trimmed_def has_group_iff split: option.split if_splits)
next
  case (RenameChange gid label)
  then show ?thesis
    using assms rename_ids [of gid label s]
    by (auto simp: apply_change_def change_fits_def text_fits_def groups_stable_parts defs_ok_def defs_trimmed_def assigned_ok_def,
        auto simp: rename_group_def)
next
  case (DeleteChange gid requested)
  have "jm_wf (gs_assignments s)" using assms(1) by (simp add: groups_stable_parts assigned_ok_def)
  note get = moved_get [OF this, where m = "[]"]
  show ?thesis
    using assms(1)
    by (auto simp: DeleteChange apply_change_def delete_group_eq groups_stable_parts defs_ok_def defs_trimmed_def assigned_ok_iff
        keys_trimmed_def group_ids_filter moved_wf get delete_destination_eq split: option.splits if_splits)
qed

lemma label_of_append_one:
  "label_of (gs @ [g]) i = (case label_of gs i of Some l \<Rightarrow> Some l | None \<Rightarrow> if gd_id g = i then Some (gd_label g) else None)"
  by (induction gs) (auto simp: label_of_def)

lemma label_of_None: "gid \<notin> set (group_ids gs) \<Longrightarrow> label_of gs gid = None"
  by (auto simp: label_of_def find_None_iff group_ids_def)

lemma label_of_snoc: "gid \<notin> set (group_ids gs) \<Longrightarrow> label_of (gs @ [\<lparr>gd_id = gid, gd_label = l\<rparr>]) = (label_of gs)(gid \<mapsto> l)"
  by (auto simp: label_of_append_one label_of_None fun_eq_iff split: option.split)

lemma label_of_filter: "label_of (filter (\<lambda>g. gd_id g \<noteq> gid) gs) = (label_of gs)(gid := None)"
  by (induction gs) (auto simp: label_of_def fun_eq_iff)

lemma label_of_rename:
  "label_of (map (\<lambda>g. if gd_id g = gid then g\<lparr>gd_label := l\<rparr> else g) gs) =
     (if gid \<in> set (group_ids gs) then (label_of gs)(gid \<mapsto> l) else label_of gs)"
  by (induction gs) (auto simp: label_of_def group_ids_def fun_eq_iff)

lemma view_change:
  assumes "groups_stable s" "change_fits ch s"
  shows "view_of (apply_change ch s) = spec_change ch (view_of s)"
proof (cases ch)
  case (CreateChange requested generated label)
  define gid where "gid = (if requested \<noteq> [] \<and> \<not> has_group requested (gs_groups s) then requested else generated)"
  have "gid \<notin> set (group_ids (gs_groups s))"
    using assms(2) by (auto simp: CreateChange change_fits_def gid_def has_group_iff)
  moreover have "gid = (if requested \<noteq> [] \<and> requested \<notin> set (group_ids (gs_groups s)) then requested else generated)"
    by (simp add: gid_def has_group_iff)
  ultimately show ?thesis
    by (simp add: CreateChange apply_change_def create_group_def gid_def [symmetric] view_of_def spec_change_def label_of_snoc Let_def)
      (simp add: group_ids_def)
next
  case (ReorderChange ids)
  have d: "distinct (group_ids (gs_groups s))" using assms(1) by (simp add: groups_stable_parts defs_ok_def)
  have "label_of (pick_groups ids (gs_groups s) []) = label_of (gs_groups s)"
    by (rule label_of_eqI) (simp_all add: d pick_groups_set)
  then show ?thesis
    using pick_groups_ids [OF d, of ids "[]"]
    by (simp add: ReorderChange apply_change_def reorder_groups_def view_of_def spec_change_def group_ids_def)
next
  case (AssignChange sid gid)
  then show ?thesis
    by (auto simp: apply_change_def assign_session_def view_of_def spec_change_def has_group_iff fun_eq_iff split: option.split)
next
  case (RenameChange gid label)
  then show ?thesis
    using rename_ids [of gid label s]
    by (simp add: apply_change_def view_of_def spec_change_def rename_group_def label_of_rename)
next
  case (DeleteChange gid requested)
  have "jm_wf (gs_assignments s)" using assms(1) by (simp add: groups_stable_parts assigned_ok_def)
  note get = moved_get [OF this, where m = "[]"]
  show ?thesis
    by (auto simp: DeleteChange apply_change_def delete_group_eq view_of_def spec_change_def group_ids_filter label_of_filter
        get delete_destination_eq fun_eq_iff split: option.split)
qed

section \<open>Properties\<close>

lemma read_write:
  "writeSessionGroupState w s now rows = (rows', s') \<Longrightarrow>
     s' = normalizeSessionGroupState (state_json s) \<and>
     readSessionGroupState rows' w = (normalizeSessionGroupState (state_json s'), Some now) \<and>
     (\<forall>v. v \<noteq> w \<longrightarrow> readSessionGroupState rows' v = readSessionGroupState rows v)"
  by (auto simp: writeSessionGroupState_def readSessionGroupState_def Let_def)


definition sample_groups :: group_state where
  "sample_groups = \<lparr>gs_groups = [\<lparr>gd_id = ''a'', gd_label = ''A''\<rparr>, \<lparr>gd_id = ''b'', gd_label = ''B''\<rparr>],
     gs_assignments = [(''s'', ''a''), (''t'', ''b'')]\<rparr>"


definition answer_ok :: "group_server \<Rightarrow> group_server \<times> group_answer \<Rightarrow> bool" where
  "answer_ok sv r = (case snd r of Inr s \<Rightarrow> groups_ok s | Inl _ \<Rightarrow> fst r = sv)"

lemma answer_ok_change: "answer_ok sv (change_groups w f ev now sv)"
  by (simp add: answer_ok_def change_groups_def updateSessionGroupState_def writeSessionGroupState_def normalize_ok Let_def)

lemma answer_ok_Inl: "answer_ok sv (sv, Inl e)"
  by (simp add: answer_ok_def)

lemma answer_ok_serve: "answer_ok sv (serve_group_request w eid now req sv)"
  by (cases req)
    (simp_all add: serve_group_request_def answer_ok_change answer_ok_Inl Let_def split: sum.split)

text \<open>Whatever JSON a row holds and whatever a request carries, the groups that are
  answered are well formed: group ids distinct, not empty and at most 128 characters,
  labels not empty and at most 120, one group per session id, and no session in a group
  that does not exist; and a request that fails changes neither rows nor events.\<close>

theorem group_answers_well_formed:
  "groups_ok (fst (readSessionGroupState rows w))
   \<and> (case snd (handle_group_request guarded eid now req sv) of
        Inr s \<Rightarrow> groups_ok s
      | Inl _ \<Rightarrow> fst (handle_group_request guarded eid now req sv) = sv)"
proof -
  have "groups_ok EMPTY_SESSION_GROUP_STATE"
    using normalize_ok [of JNull] by (simp add: normalizeSessionGroupState_def)
  then have "groups_ok (fst (readSessionGroupState rows w))"
    by (auto simp: readSessionGroupState_def normalize_ok split: option.split prod.split)
  moreover have "answer_ok sv (handle_group_request guarded eid now req sv)"
    by (simp add: handle_group_request_def answer_ok_serve answer_ok_Inl split: sum.split)
  ultimately show ?thesis by (simp add: answer_ok_def)
qed

text \<open>
  Trimming before cutting leaves a state that is not stable: an id cut right after a
  blank is answered with it, and read back without it.
\<close>

lemma normalize_not_idempotent:
  "let s = normalizeSessionGroupState (JObj [(''groups'', JArr [JObj [(''id'', JStr ''g''), (''label'', JStr (replicate 119 CHR ''x'' @ '' yz''))]])])
   in map gd_label (gs_groups s) = [replicate 119 CHR ''x'' @ '' '']
    \<and> map gd_label (gs_groups (normalizeSessionGroupState (state_json s))) = [replicate 119 CHR ''x'']"
  by code_simp

end
