(* ===== verification/TranscriptDeltas.thy ===== *)
theory TranscriptDeltas
  imports Prelude
begin

text \<open>
  How streamed text reaches a transcript
  (\<open>apps/app/src/react-app/domains/session/sync/session-transcript-deltas.ts\<close>): pending
  deltas are coalesced, split into a foreground and a background lane and applied to
  the messages with indexes that are built once.

  Messages and parts are values of a library; a part has the fields the source reads or
  writes, the rest of it is \<open>pt_rest\<close>, the rest of a message \<open>ms_rest\<close>. The source copies what it
  changes, so the functions here answer new lists. \<open>pt_partId\<close> is the \<open>partId\<close> of the
  \<open>opencode\<close> metadata, \<open>None\<close> when it is missing or no string.
\<close>

section \<open>Data\<close>

datatype part_type = TextPart | ReasoningPart | FilePart | SourceUrlPart | SourceDocumentPart | DynamicToolPart | OtherPart

record 'r message_part =
  pt_type :: part_type
  pt_text :: string
  pt_streaming :: bool
  pt_partId :: "string option"
  pt_toolCallId :: string
  pt_rest :: "'r option"

datatype message_role = SystemRole | UserRole | AssistantRole

record ('r, 'm) ui_message =
  ms_id :: string
  ms_role :: message_role
  ms_parts :: "'r message_part list"
  ms_rest :: "'m option"

record pending_delta =
  pd_session :: string
  pd_message :: string
  pd_part :: string
  pd_reasoning :: bool
  pd_delta :: string

datatype flush_lane = ForegroundLane | BackgroundLane

section \<open>Identities and roles\<close>

definition getPartMetadataId :: "'r message_part \<Rightarrow> string option" where
  "getPartMetadataId p = (if pt_type p = OtherPart then None else pt_partId p)"

definition index_key :: "'r message_part \<Rightarrow> string option" where
  "index_key p =
     (let k = (if pt_type p = DynamicToolPart then Some (pt_toolCallId p) else getPartMetadataId p)
      in if k = Some [] then None else k)"

definition inferStubRole :: "('r, 'm) ui_message list \<Rightarrow> message_role" where
  "inferStubRole ms =
     (if ms = [] then UserRole
      else if ms_role (last ms) = UserRole then AssistantRole
      else if ms_role (last ms) = AssistantRole then UserRole
      else AssistantRole)"

definition index_part :: "(string, nat) jsmap \<Rightarrow> nat \<times> 'r message_part \<Rightarrow> (string, nat) jsmap" where
  "index_part m e = (case index_key (snd e) of Some k \<Rightarrow> jm_set k (fst e) m | None \<Rightarrow> m)"

definition indexMessageParts :: "'r message_part list \<Rightarrow> (string, nat) jsmap" where
  "indexMessageParts ps = foldl index_part [] (enumerate 0 ps)"

definition index_messages :: "('r, 'm) ui_message list \<Rightarrow> (string, nat) jsmap" where
  "index_messages ms = foldl (\<lambda>m (i, x). jm_set (ms_id x) i m) [] (enumerate 0 ms)"

section \<open>Applying deltas\<close>

record ('r, 'm) transcript_work =
  tw_messages :: "('r, 'm) ui_message list"
  tw_messageIndex :: "(string, nat) jsmap"
  tw_partIndexes :: "(string, (string, nat) jsmap) jsmap"
  tw_unapplied :: "pending_delta list"

definition ensureMessage :: "pending_delta \<Rightarrow> ('r, 'm) transcript_work \<Rightarrow> ('r, 'm) transcript_work \<times> nat" where
  "ensureMessage item w =
     (case jm_get (pd_message item) (tw_messageIndex w) of
        Some i \<Rightarrow> (w, i)
      | None \<Rightarrow>
          (let ms = tw_messages w;
               x = \<lparr>ms_id = pd_message item, ms_role = inferStubRole ms, ms_parts = [], ms_rest = None\<rparr>
           in (w\<lparr>tw_messages := ms @ [x],
                 tw_messageIndex := jm_set (pd_message item) (length ms) (tw_messageIndex w)\<rparr>, length ms)))"

definition stream_into :: "string \<Rightarrow> 'r message_part \<Rightarrow> 'r message_part" where
  "stream_into delta p = p\<lparr>pt_text := pt_text p @ delta, pt_streaming := True\<rparr>"

definition new_text_part :: "pending_delta \<Rightarrow> 'r message_part" where
  "new_text_part item =
     \<lparr>pt_type = TextPart, pt_text = pd_delta item, pt_streaming = True, pt_partId = Some (pd_part item),
      pt_toolCallId = [], pt_rest = None\<rparr>"

definition holds_text :: "'r message_part \<Rightarrow> bool" where
  "holds_text p = (pt_type p = TextPart \<or> pt_type p = ReasoningPart)"

definition set_parts :: "nat \<Rightarrow> 'r message_part list \<Rightarrow> ('r, 'm) ui_message list \<Rightarrow> ('r, 'm) ui_message list" where
  "set_parts i ps ms = ms[i := (ms ! i)\<lparr>ms_parts := ps\<rparr>]"

definition apply_item :: "('r, 'm) transcript_work \<Rightarrow> pending_delta \<Rightarrow> ('r, 'm) transcript_work" where
  "apply_item w0 item =
     (let (w1, i) = ensureMessage item w0;
          parts = ms_parts (tw_messages w1 ! i);
          partIndexes = (case jm_get (pd_message item) (tw_partIndexes w1) of
             Some m \<Rightarrow> m
           | None \<Rightarrow> indexMessageParts parts);
          w = w1\<lparr>tw_partIndexes := jm_set (pd_message item) partIndexes (tw_partIndexes w1)\<rparr>
      in case jm_get (pd_part item) partIndexes of
           None \<Rightarrow> w\<lparr>tw_unapplied := tw_unapplied w @ [item]\<rparr>
         | Some j \<Rightarrow>
             (if holds_text (parts ! j)
              then w\<lparr>tw_messages := set_parts i (parts[j := stream_into (pd_delta item) (parts ! j)]) (tw_messages w)\<rparr>
              else w\<lparr>tw_messages := set_parts i (parts @ [new_text_part item]) (tw_messages w),
                     tw_partIndexes := jm_set (pd_message item) (jm_set (pd_part item) (length parts) partIndexes)
                       (tw_partIndexes w)\<rparr>))"

definition applyPendingDeltasToTranscript ::
  "('r, 'm) ui_message list \<Rightarrow> pending_delta list \<Rightarrow> ('r, 'm) ui_message list \<times> pending_delta list" where
  "applyPendingDeltasToTranscript ms items =
     (if items = [] then (ms, [])
      else
        (let w = foldl apply_item
               \<lparr>tw_messages = ms, tw_messageIndex = index_messages ms, tw_partIndexes = [], tw_unapplied = []\<rparr> items
         in (tw_messages w, tw_unapplied w)))"

section \<open>Coalescing and lanes\<close>

definition delta_key :: "pending_delta \<Rightarrow> string" where
  "delta_key item = pd_session item @ [CHR 0x00] @ pd_message item @ [CHR 0x00] @ pd_part item"

definition absorb :: "pending_delta \<Rightarrow> pending_delta \<Rightarrow> pending_delta" where
  "absorb e item = e\<lparr>pd_delta := pd_delta e @ pd_delta item, pd_reasoning := pd_reasoning e \<or> pd_reasoning item\<rparr>"

text \<open>\<open>ordered\<close> and \<open>byKey\<close> hold the same objects in the same order, so one map stands for both.\<close>

definition coalesce_item :: "(string, pending_delta) jsmap \<Rightarrow> pending_delta \<Rightarrow> (string, pending_delta) jsmap" where
  "coalesce_item m item =
     (case jm_get (delta_key item) m of
        Some e \<Rightarrow> jm_set (delta_key item) (absorb e item) m
      | None \<Rightarrow> jm_set (delta_key item) item m)"

definition coalescePendingDeltas :: "pending_delta list \<Rightarrow> pending_delta list" where
  "coalescePendingDeltas items =
     (if length items < 2 then items else jm_values (foldl coalesce_item [] items))"

definition selectDeltaFlushLane :: "pending_delta list \<Rightarrow> string option \<Rightarrow> flush_lane" where
  "selectDeltaFlushLane items visibleSessionId =
     (let visible = map_option js_trim visibleSessionId
      in case visible of
           Some v \<Rightarrow> (if v \<noteq> [] \<and> list_ex (\<lambda>item. pd_session item = v) items then ForegroundLane else BackgroundLane)
         | None \<Rightarrow> BackgroundLane)"

definition item_lane :: "string option \<Rightarrow> pending_delta \<Rightarrow> flush_lane" where
  "item_lane visible item = (if visible = Some (pd_session item) then ForegroundLane else BackgroundLane)"

definition partitionPendingDeltasByLane ::
  "pending_delta list \<Rightarrow> string option \<Rightarrow> flush_lane \<Rightarrow> pending_delta list \<times> pending_delta list" where
  "partitionPendingDeltasByLane items visibleSessionId lane =
     (let visible = map_option js_trim visibleSessionId
      in (filter (\<lambda>item. item_lane visible item = lane) items,
          filter (\<lambda>item. item_lane visible item \<noteq> lane) items))"

definition partitionPendingDeltasBySession :: "pending_delta list \<Rightarrow> string \<Rightarrow> pending_delta list \<times> pending_delta list" where
  "partitionPendingDeltasBySession items sid =
     (filter (\<lambda>item. pd_session item = sid) items, filter (\<lambda>item. pd_session item \<noteq> sid) items)"

section \<open>Indexes\<close>

lemma indexMessageParts_snoc:
  "indexMessageParts (ps @ [p]) =
     (case index_key p of Some k \<Rightarrow> jm_set k (length ps) (indexMessageParts ps) | None \<Rightarrow> indexMessageParts ps)"
  by (cases "index_key p") (simp_all add: indexMessageParts_def enumerate_append_eq index_part_def)

lemma indexMessageParts_Nil [simp]: "indexMessageParts [] = []"
  by (simp add: indexMessageParts_def)

lemma indexMessageParts_cong: "map index_key ps = map index_key qs \<Longrightarrow> indexMessageParts ps = indexMessageParts qs"
proof (induction ps arbitrary: qs rule: rev_induct)
  case (snoc p ps)
  then obtain q qs' where "qs = qs' @ [q]" "map index_key ps = map index_key qs'" "index_key p = index_key q"
    by (cases qs rule: rev_cases) auto
  then show ?case
    using snoc.IH [of qs'] by (auto simp: indexMessageParts_snoc dest: map_eq_imp_length_eq split: option.split)
qed simp

definition last_at :: "string \<Rightarrow> 'r message_part list \<Rightarrow> nat \<Rightarrow> bool" where
  "last_at k ps j =
     (j < length ps \<and> index_key (ps ! j) = Some k \<and> (\<forall>l. j < l \<and> l < length ps \<longrightarrow> index_key (ps ! l) \<noteq> Some k))"

lemma last_at_snoc:
  "last_at k (ps @ [p]) j \<longleftrightarrow> (if index_key p = Some k then j = length ps else last_at k ps j)"
proof (cases "j < length ps")
  case True
  have "(\<forall>l. j < l \<and> l < Suc (length ps) \<longrightarrow> index_key ((ps @ [p]) ! l) \<noteq> Some k) \<longleftrightarrow>
      index_key p \<noteq> Some k \<and> (\<forall>l. j < l \<and> l < length ps \<longrightarrow> index_key (ps ! l) \<noteq> Some k)"
    using True by (auto simp: less_Suc_eq nth_append)
  then show ?thesis using True by (simp add: last_at_def nth_append)
next
  case False
  then show ?thesis by (auto simp: last_at_def nth_append)
qed

lemma indexMessageParts_Some: "jm_get k (indexMessageParts ps) = Some j \<longleftrightarrow> last_at k ps j"
proof (induction ps rule: rev_induct)
  case Nil
  show ?case by (simp add: last_at_def)
next
  case (snoc p ps)
  then show ?case by (cases "index_key p") (auto simp: indexMessageParts_snoc last_at_snoc)
qed

lemma indexMessageParts_None: "jm_get k (indexMessageParts ps) = None \<longleftrightarrow> (\<forall>p \<in> set ps. index_key p \<noteq> Some k)"
proof (induction ps rule: rev_induct)
  case (snoc p ps)
  then show ?case by (cases "index_key p") (auto simp: indexMessageParts_snoc)
qed simp

lemma index_key_nonempty: "index_key p \<noteq> Some []"
  by (auto simp: index_key_def Let_def)

lemma index_key_stream [simp]: "index_key (stream_into d p) = index_key p"
  by (simp add: index_key_def getPartMetadataId_def stream_into_def)

lemma index_key_new [simp]: "pd_part item \<noteq> [] \<Longrightarrow> index_key (new_text_part item) = Some (pd_part item)"
  by (simp add: index_key_def getPartMetadataId_def new_text_part_def)

lemma index_messages_snoc: "index_messages (ms @ [x]) = jm_set (ms_id x) (length ms) (index_messages ms)"
  by (simp add: index_messages_def enumerate_append_eq)

lemma index_messages_Nil [simp]: "index_messages [] = []"
  by (simp add: index_messages_def)

lemma index_messages_cong: "map ms_id ms = map ms_id ns \<Longrightarrow> index_messages ms = index_messages ns"
proof (induction ms arbitrary: ns rule: rev_induct)
  case (snoc x ms)
  then obtain y ns' where "ns = ns' @ [y]" "map ms_id ms = map ms_id ns'" "ms_id x = ms_id y"
    by (cases ns rule: rev_cases) auto
  then show ?case
    using snoc.IH [of ns'] by (auto simp: index_messages_snoc dest: map_eq_imp_length_eq)
qed simp

lemma index_messages_Some: "jm_get m (index_messages ms) = Some i \<Longrightarrow> i < length ms \<and> ms_id (ms ! i) = m"
  by (induction ms arbitrary: i rule: rev_induct)
    (auto simp: index_messages_snoc nth_append split: if_splits dest: less_SucI)

lemma index_messages_None: "jm_get m (index_messages ms) = None \<longleftrightarrow> m \<notin> ms_id ` set ms"
  by (induction ms rule: rev_induct) (auto simp: index_messages_snoc)

section \<open>What a batch amounts to\<close>

text \<open>The parts of one message: each text grows by its deltas, other parts get one text part each.\<close>

definition deltas_of :: "string \<Rightarrow> string \<Rightarrow> pending_delta list \<Rightarrow> string" where
  "deltas_of m k items = concat (map pd_delta (filter (\<lambda>d. pd_message d = m \<and> pd_part d = k) items))"

definition touched :: "string \<Rightarrow> pending_delta list \<Rightarrow> string list" where
  "touched m items = js_uniq (map pd_part (filter (\<lambda>d. pd_message d = m) items))"

definition grown :: "string \<Rightarrow> pending_delta list \<Rightarrow> (string, nat) jsmap \<Rightarrow> nat \<Rightarrow> 'r message_part \<Rightarrow> 'r message_part" where
  "grown m items index j p =
     (case index_key p of
        Some k \<Rightarrow>
          (if jm_get k index = Some j \<and> holds_text p \<and> k \<in> set (touched m items)
           then stream_into (deltas_of m k items) p else p)
      | None \<Rightarrow> p)"

definition text_part :: "string \<Rightarrow> string \<Rightarrow> 'r message_part" where
  "text_part k t = \<lparr>pt_type = TextPart, pt_text = t, pt_streaming = True, pt_partId = Some k, pt_toolCallId = [], pt_rest = None\<rparr>"

definition needs_part :: "'r message_part list \<Rightarrow> string \<Rightarrow> bool" where
  "needs_part ps k = (case jm_get k (indexMessageParts ps) of Some j \<Rightarrow> \<not> holds_text (ps ! j) | None \<Rightarrow> False)"

definition final_parts :: "string \<Rightarrow> 'r message_part list \<Rightarrow> pending_delta list \<Rightarrow> 'r message_part list" where
  "final_parts m ps items =
     map (\<lambda>j. grown m items (indexMessageParts ps) j (ps ! j)) [0..<length ps]
     @ map (\<lambda>k. text_part k (deltas_of m k items)) (filter (needs_part ps) (touched m items))"

text \<open>The messages: a stub for each unknown message, in the order of their first deltas.\<close>

definition stub :: "('r, 'm) ui_message list \<Rightarrow> string \<Rightarrow> ('r, 'm) ui_message" where
  "stub ms m = \<lparr>ms_id = m, ms_role = inferStubRole ms, ms_parts = [], ms_rest = None\<rparr>"

definition with_stubs :: "('r, 'm) ui_message list \<Rightarrow> string list \<Rightarrow> ('r, 'm) ui_message list" where
  "with_stubs ms ids = foldl (\<lambda>acc m. acc @ [stub acc m]) ms ids"

definition new_messages :: "('r, 'm) ui_message list \<Rightarrow> pending_delta list \<Rightarrow> string list" where
  "new_messages ms items = filter (\<lambda>m. m \<notin> ms_id ` set ms) (js_uniq (map pd_message items))"

definition streamed :: "('r, 'm) ui_message list \<Rightarrow> pending_delta list \<Rightarrow> nat \<Rightarrow> ('r, 'm) ui_message \<Rightarrow> ('r, 'm) ui_message" where
  "streamed ms items i x =
     (if jm_get (ms_id x) (index_messages ms) = Some i
      then x\<lparr>ms_parts := final_parts (ms_id x) (ms_parts x) items\<rparr> else x)"

definition final_messages :: "('r, 'm) ui_message list \<Rightarrow> pending_delta list \<Rightarrow> ('r, 'm) ui_message list" where
  "final_messages ms items =
     (let all = with_stubs ms (new_messages ms items)
      in map (\<lambda>i. streamed ms items i (all ! i)) [0..<length all])"

definition known_part :: "('r, 'm) ui_message list \<Rightarrow> pending_delta \<Rightarrow> bool" where
  "known_part ms item =
     (case jm_get (pd_message item) (index_messages ms) of
        Some i \<Rightarrow> jm_has (pd_part item) (indexMessageParts (ms_parts (ms ! i)))
      | None \<Rightarrow> False)"

section \<open>One more delta\<close>

lemma js_uniq_snoc: "js_uniq (xs @ [x]) = (if x \<in> set xs then js_uniq xs else js_uniq xs @ [x])"
  by (simp add: js_uniq_def)

lemma deltas_of_snoc:
  "deltas_of m k (items @ [d]) = (if pd_message d = m \<and> pd_part d = k then deltas_of m k items @ pd_delta d else deltas_of m k items)"
  by (simp add: deltas_of_def)

lemma touched_snoc:
  "touched m (items @ [d]) =
     (if pd_message d = m \<and> pd_part d \<notin> set (touched m items) then touched m items @ [pd_part d] else touched m items)"
  by (simp add: touched_def js_uniq_snoc)

lemma deltas_untouched: "k \<notin> set (touched m items) \<Longrightarrow> deltas_of m k items = []"
  by (auto simp: deltas_of_def touched_def)

lemma final_parts_other: "pd_message d \<noteq> m \<Longrightarrow> final_parts m ps (items @ [d]) = final_parts m ps items"
proof -
  assume other: "pd_message d \<noteq> m"
  have "grown m (items @ [d]) = (grown m items :: _ \<Rightarrow> _ \<Rightarrow> 'a message_part \<Rightarrow> _)"
    using other by (intro ext) (simp add: grown_def touched_snoc deltas_of_snoc split: option.split)
  then show ?thesis using other by (simp add: final_parts_def touched_snoc deltas_of_snoc)
qed

lemma length_final_parts: "length (final_parts m ps items) = length ps + length (filter (needs_part ps) (touched m items))"
  by (simp add: final_parts_def)

lemma final_nth_old:
  "j < length ps \<Longrightarrow> final_parts m ps items ! j = grown m items (indexMessageParts ps) j (ps ! j)"
  by (simp add: final_parts_def nth_append)

lemma final_nth_new:
  "a < length (filter (needs_part ps) (touched m items)) \<Longrightarrow>
     final_parts m ps items ! (length ps + a) =
       text_part (filter (needs_part ps) (touched m items) ! a) (deltas_of m (filter (needs_part ps) (touched m items) ! a) items)"
  by (simp add: final_parts_def nth_append)

lemma index_key_grown [simp]: "index_key (grown m items index j p) = index_key p"
  by (simp add: grown_def split: option.split)

lemma holds_text_grown [simp]: "holds_text (grown m items index j p) = holds_text p"
  by (simp add: grown_def stream_into_def holds_text_def split: option.split)

lemma index_key_text_part: "k \<noteq> [] \<Longrightarrow> index_key (text_part k t) = Some k"
  by (simp add: text_part_def index_key_def getPartMetadataId_def)

lemma needs_part_nonempty: "needs_part ps k \<Longrightarrow> k \<noteq> []"
  using index_key_nonempty by (auto simp: needs_part_def indexMessageParts_Some last_at_def split: option.splits)

lemma holds_text_text_part [simp]: "holds_text (text_part k t)"
  by (simp add: holds_text_def text_part_def)

lemma index_key_final_new:
  assumes "a < length (filter (needs_part ps) (touched m items))"
  shows "index_key (final_parts m ps items ! (length ps + a)) = Some (filter (needs_part ps) (touched m items) ! a)"
proof -
  have "needs_part ps (filter (needs_part ps) (touched m items) ! a)"
    using nth_mem [OF assms] by simp
  then show ?thesis by (simp add: final_nth_new [OF assms] index_key_text_part needs_part_nonempty)
qed

lemma distinct_news: "distinct (filter (needs_part ps) (touched m items))"
  by (simp add: touched_def)

lemma last_at_final_old:
  assumes "k \<notin> set (filter (needs_part ps) (touched m items))"
  shows "last_at k (final_parts m ps items) j \<longleftrightarrow> last_at k ps j"
proof -
  have old: "index_key (final_parts m ps items ! l) = index_key (ps ! l)" if "l < length ps" for l
    by (simp add: final_nth_old that)
  have new: "index_key (final_parts m ps items ! l) \<noteq> Some k"
    if "length ps \<le> l" "l < length (final_parts m ps items)" for l
  proof -
    obtain a where l: "l = length ps + a" using \<open>length ps \<le> l\<close> le_Suc_ex by blast
    then have a: "a < length (filter (needs_part ps) (touched m items))" using that(2) by (simp add: length_final_parts)
    have "filter (needs_part ps) (touched m items) ! a \<noteq> k" using nth_mem [OF a] assms by metis
    then show ?thesis using index_key_final_new [OF a] by (simp add: l)
  qed
  have len: "l < length (final_parts m ps items)" if "l < length ps" for l
    using that by (simp add: length_final_parts)
  show ?thesis
  proof
    assume L: "last_at k (final_parts m ps items) j"
    then have "j < length ps" using new [of j] by (meson last_at_def leI)
    moreover have "index_key (ps ! l) \<noteq> Some k" if "j < l" "l < length ps" for l
      using L that(1) old [OF that(2)] len [OF that(2)] by (auto simp: last_at_def)
    ultimately show "last_at k ps j" using L old by (auto simp: last_at_def)
  next
    assume R: "last_at k ps j"
    then have j: "j < length ps" "index_key (ps ! j) = Some k" by (simp_all add: last_at_def)
    have "index_key (final_parts m ps items ! l) \<noteq> Some k" if "j < l" "l < length (final_parts m ps items)" for l
      using that R old [of l] new [of l] by (cases "l < length ps") (simp_all add: last_at_def)
    then show "last_at k (final_parts m ps items) j" using j old len by (simp add: last_at_def)
  qed
qed

lemma last_at_final_new:
  assumes "a < length (filter (needs_part ps) (touched m items))" "filter (needs_part ps) (touched m items) ! a = k"
  shows "last_at k (final_parts m ps items) (length ps + a)"
  unfolding last_at_def
proof (intro conjI allI impI)
  show "length ps + a < length (final_parts m ps items)" using assms(1) by (simp add: length_final_parts)
  show "index_key (final_parts m ps items ! (length ps + a)) = Some k" using index_key_final_new [OF assms(1)] assms(2) by simp
  fix l assume l: "length ps + a < l \<and> l < length (final_parts m ps items)"
  then obtain b where b: "l = length ps + b" "a < b" by (metis add_lessD1 le_Suc_ex less_imp_le nat_add_left_cancel_less)
  then have "b < length (filter (needs_part ps) (touched m items))" using l by (simp add: length_final_parts)
  then show "index_key (final_parts m ps items ! l) \<noteq> Some k"
    using index_key_final_new [of b ps m items] b assms nth_eq_iff_index_eq [OF distinct_news, of a ps m items b]
    by auto
qed

text \<open>What the loop does to the parts of the message of a delta.\<close>

definition apply_to_parts :: "pending_delta \<Rightarrow> 'r message_part list \<Rightarrow> 'r message_part list" where
  "apply_to_parts d ps =
     (case jm_get (pd_part d) (indexMessageParts ps) of
        None \<Rightarrow> ps
      | Some j \<Rightarrow>
          (if holds_text (ps ! j) then ps[j := stream_into (pd_delta d) (ps ! j)] else ps @ [new_text_part d]))"

lemma stream_stream: "stream_into d2 (stream_into d1 p) = stream_into (d1 @ d2) p"
  by (simp add: stream_into_def)

lemma stream_text_part: "stream_into d (text_part k t) = text_part k (t @ d)"
  by (simp add: stream_into_def text_part_def)

lemma final_parts_unknown:
  assumes "jm_get (pd_part d) (indexMessageParts ps) = None" "pd_message d = m"
  shows "final_parts m ps (items @ [d]) = final_parts m ps items"
    and "jm_get (pd_part d) (indexMessageParts (final_parts m ps items)) = None"
proof -
  have no: "\<not> needs_part ps (pd_part d)" using assms(1) by (simp add: needs_part_def)
  have keyed: "index_key (ps ! j) \<noteq> Some (pd_part d)" if "j < length ps" for j
    using assms(1) that by (simp add: indexMessageParts_None)
  have "grown m (items @ [d]) (indexMessageParts ps) j (ps ! j) = grown m items (indexMessageParts ps) j (ps ! j)"
    if "j < length ps" for j
    using keyed [OF that] by (auto simp: grown_def touched_snoc deltas_of_snoc split: option.split)
  moreover have "filter (needs_part ps) (touched m (items @ [d])) = filter (needs_part ps) (touched m items)"
    using no by (simp add: touched_snoc)
  moreover have "deltas_of m k (items @ [d]) = deltas_of m k items" if "needs_part ps k" for k
    using no that by (auto simp: deltas_of_snoc)
  ultimately show "final_parts m ps (items @ [d]) = final_parts m ps items"
    by (simp add: final_parts_def)
  have "\<not> last_at (pd_part d) (final_parts m ps items) j" for j
    using last_at_final_old [of "pd_part d" ps m items j] no assms(1) indexMessageParts_Some [of "pd_part d" ps j] by simp
  then show "jm_get (pd_part d) (indexMessageParts (final_parts m ps items)) = None"
    by (metis indexMessageParts_Some not_None_eq)
qed

lemma final_parts_step:
  assumes "pd_message d = m"
  shows "final_parts m ps (items @ [d]) = apply_to_parts d (final_parts m ps items)"
proof (cases "jm_get (pd_part d) (indexMessageParts ps)")
  case None
  then show ?thesis using final_parts_unknown [OF None assms] by (simp add: apply_to_parts_def)
next
  case (Some j)
  let ?k = "pd_part d" and ?P = "final_parts m ps items" and ?N = "filter (needs_part ps) (touched m items)"
  have at: "last_at ?k ps j" using Some by (simp add: indexMessageParts_Some)
  then have j: "j < length ps" "index_key (ps ! j) = Some ?k" by (simp_all add: last_at_def)
  have same: "grown m (items @ [d]) (indexMessageParts ps) l (ps ! l) = grown m items (indexMessageParts ps) l (ps ! l)"
    if "l < length ps" "l \<noteq> j \<or> \<not> holds_text (ps ! j)" for l
    using that Some by (auto simp: grown_def touched_snoc deltas_of_snoc split: option.split)
  have others: "deltas_of m k (items @ [d]) = deltas_of m k items" if "k \<noteq> ?k" for k
    using that by (simp add: deltas_of_snoc)
  show ?thesis
  proof (cases "holds_text (ps ! j)")
    case True
    then have no: "\<not> needs_part ps ?k" using Some by (simp add: needs_part_def)
    then have N: "filter (needs_part ps) (touched m (items @ [d])) = ?N" by (simp add: touched_snoc)
    have "last_at ?k ?P j" using at no by (simp add: last_at_final_old)
    then have found: "jm_get ?k (indexMessageParts ?P) = Some j" by (simp add: indexMessageParts_Some)
    have grew: "grown m (items @ [d]) (indexMessageParts ps) j (ps ! j)
        = stream_into (pd_delta d) (grown m items (indexMessageParts ps) j (ps ! j))"
      using True Some j assms deltas_untouched [of ?k m items]
      by (simp add: grown_def touched_snoc deltas_of_snoc stream_stream)
    have "final_parts m ps (items @ [d]) = ?P[j := stream_into (pd_delta d) (?P ! j)]"
    proof (rule nth_equalityI)
      show "length (final_parts m ps (items @ [d])) = length (?P[j := stream_into (pd_delta d) (?P ! j)])"
        by (simp add: length_final_parts N)
      fix l assume l: "l < length (final_parts m ps (items @ [d]))"
      show "final_parts m ps (items @ [d]) ! l = ?P[j := stream_into (pd_delta d) (?P ! j)] ! l"
      proof (cases "l < length ps")
        case True
        then show ?thesis
          using same [OF True] grew j(1) by (cases "l = j") (simp_all add: final_nth_old length_final_parts)
      next
        case False
        then obtain a where a: "l = length ps + a" by (metis leI le_Suc_ex)
        then have "a < length ?N" using l by (simp add: length_final_parts N)
        moreover from this have "?N ! a \<noteq> ?k" using no nth_mem [of a ?N] by auto
        ultimately show ?thesis
          using others [of "?N ! a"] a j(1) final_nth_new [of a ps m items] final_nth_new [of a ps m "items @ [d]"] by (simp add: N)
      qed
    qed
    then show ?thesis using found True j by (simp add: apply_to_parts_def final_nth_old)
  next
    case False
    then have need: "needs_part ps ?k" using Some by (simp add: needs_part_def)
    show ?thesis
    proof (cases "?k \<in> set (touched m items)")
      case True
      then have N: "filter (needs_part ps) (touched m (items @ [d])) = ?N" by (simp add: touched_snoc)
      have "?k \<in> set ?N" using True need by simp
      then obtain a where a: "a < length ?N" "?N ! a = ?k" by (metis in_set_conv_nth)
      have found: "jm_get ?k (indexMessageParts ?P) = Some (length ps + a)"
        using last_at_final_new [OF a] by (simp add: indexMessageParts_Some)
      have "final_parts m ps (items @ [d]) = ?P[length ps + a := stream_into (pd_delta d) (?P ! (length ps + a))]"
      proof (rule nth_equalityI)
        show "length (final_parts m ps (items @ [d])) = length (?P[length ps + a := stream_into (pd_delta d) (?P ! (length ps + a))])"
          by (simp add: length_final_parts N)
        fix l assume l: "l < length (final_parts m ps (items @ [d]))"
        show "final_parts m ps (items @ [d]) ! l = ?P[length ps + a := stream_into (pd_delta d) (?P ! (length ps + a))] ! l"
        proof (cases "l < length ps")
          case True
          then show ?thesis using same [OF True] False by (simp add: final_nth_old)
        next
          case False
          then obtain b where b: "l = length ps + b" by (metis leI le_Suc_ex)
          then have lb: "b < length ?N" using l by (simp add: length_final_parts N)
          have "?N ! b = ?k \<longleftrightarrow> b = a" using a lb distinct_news [of ps m items] nth_eq_iff_index_eq [of ?N b a] by auto
          then show ?thesis
            using others [of "?N ! b"] a b lb assms final_nth_new [of b ps m items] final_nth_new [of b ps m "items @ [d]"]
            by (cases "b = a") (simp_all add: N length_final_parts stream_text_part deltas_of_snoc)
        qed
      qed
      then show ?thesis using found final_nth_new [OF a(1)] by (simp add: apply_to_parts_def)
    next
      case untouched: False
      have N: "filter (needs_part ps) (touched m (items @ [d])) = ?N @ [?k]"
        using untouched need assms by (simp add: touched_snoc)
      have "last_at ?k ?P j" using at untouched by (simp add: last_at_final_old)
      then have found: "jm_get ?k (indexMessageParts ?P) = Some j" by (simp add: indexMessageParts_Some)
      have "text_part ?k (deltas_of m ?k (items @ [d])) = (new_text_part d :: 'a message_part)"
        using assms deltas_untouched [OF untouched] by (simp add: text_part_def new_text_part_def deltas_of_snoc)
      moreover have "map (\<lambda>k. text_part k (deltas_of m k (items @ [d]))) ?N = map (\<lambda>k. text_part k (deltas_of m k items) :: 'a message_part) ?N"
        using untouched others by (intro map_cong refl) (metis filter_is_subset subsetD)
      moreover have "map (\<lambda>l. grown m (items @ [d]) (indexMessageParts ps) l (ps ! l)) [0..<length ps]
          = map (\<lambda>l. grown m items (indexMessageParts ps) l (ps ! l)) [0..<length ps]"
        using same False by (intro map_cong refl) auto
      ultimately have "final_parts m ps (items @ [d]) = ?P @ [new_text_part d]"
        unfolding final_parts_def N by simp
      then show ?thesis using found False j by (simp add: apply_to_parts_def final_nth_old)
    qed
  qed
qed

section \<open>The loop computes what a batch amounts to\<close>

lemma with_stubs_snoc: "with_stubs ms (ids @ [m]) = with_stubs ms ids @ [stub (with_stubs ms ids) m]"
  by (simp add: with_stubs_def)

lemma with_stubs_prefix: "\<exists>zs. with_stubs ms ids = ms @ zs \<and> map ms_id zs = ids \<and> (\<forall>z \<in> set zs. ms_parts z = [])"
proof (induction ids rule: rev_induct)
  case Nil
  show ?case by (simp add: with_stubs_def)
next
  case (snoc m ids)
  then obtain zs where "with_stubs ms ids = ms @ zs" "map ms_id zs = ids" "\<forall>z \<in> set zs. ms_parts z = []" by blast
  then show ?case by (intro exI [of _ "zs @ [stub (with_stubs ms ids) m]"]) (simp add: with_stubs_snoc stub_def)
qed

lemma ids_with_stubs: "ms_id ` set (with_stubs ms ids) = ms_id ` set ms \<union> set ids"
  using with_stubs_prefix [of ms ids] by (metis image_Un list.set_map set_append)

lemma new_messages_snoc:
  "new_messages ms (items @ [d]) =
     (if pd_message d \<in> ms_id ` set ms \<union> set (new_messages ms items) then new_messages ms items
      else new_messages ms items @ [pd_message d])"
  by (auto simp: new_messages_def js_uniq_snoc)

lemma index_messages_append:
  assumes "\<forall>z \<in> set zs. ms_id z \<noteq> m"
  shows "jm_get m (index_messages (ms @ zs)) = jm_get m (index_messages ms)"
  using assms
proof (induction zs rule: rev_induct)
  case (snoc z zs)
  then show ?case using index_messages_snoc [of "ms @ zs" z] by auto
qed simp

lemma index_with_stubs:
  assumes "m \<in> ms_id ` set ms" "\<forall>i \<in> set ids. i \<notin> ms_id ` set ms"
  shows "jm_get m (index_messages (with_stubs ms ids)) = jm_get m (index_messages ms)"
proof -
  obtain zs where zs: "with_stubs ms ids = ms @ zs" "map ms_id zs = ids" using with_stubs_prefix by blast
  then have "\<forall>z \<in> set zs. ms_id z \<noteq> m" using assms by fastforce
  then show ?thesis by (simp add: zs index_messages_append)
qed

lemma new_messages_new: "\<forall>i \<in> set (new_messages ms items). i \<notin> ms_id ` set ms"
  by (simp add: new_messages_def)

lemma length_final_messages: "length (final_messages ms items) = length (with_stubs ms (new_messages ms items))"
  by (simp add: final_messages_def Let_def)

lemma final_messages_nth:
  "i < length (with_stubs ms (new_messages ms items)) \<Longrightarrow>
     final_messages ms items ! i = streamed ms items i (with_stubs ms (new_messages ms items) ! i)"
  by (simp add: final_messages_def Let_def)

lemma ids_final: "map ms_id (final_messages ms items) = map ms_id (with_stubs ms (new_messages ms items))"
  by (rule nth_equalityI) (simp_all add: length_final_messages final_messages_nth streamed_def)

lemma roles_final: "map ms_role (final_messages ms items) = map ms_role (with_stubs ms (new_messages ms items))"
  by (rule nth_equalityI) (simp_all add: length_final_messages final_messages_nth streamed_def)

lemma inferStubRole_cong: "map ms_role ms = map ms_role ns \<Longrightarrow> inferStubRole ms = inferStubRole ns"
  by (cases ms rule: rev_cases; cases ns rule: rev_cases) (auto simp: inferStubRole_def)

lemma streamed_snoc:
  "streamed ms (items @ [d]) i x =
     (if jm_get (ms_id x) (index_messages ms) = Some i \<and> ms_id x = pd_message d
      then x\<lparr>ms_parts := apply_to_parts d (final_parts (ms_id x) (ms_parts x) items)\<rparr> else streamed ms items i x)"
  by (auto simp: streamed_def final_parts_step final_parts_other)

definition delta_inv :: "('r, 'm) ui_message list \<Rightarrow> pending_delta list \<Rightarrow> ('r, 'm) transcript_work \<Rightarrow> bool" where
  "delta_inv ms items w =
     (tw_messages w = final_messages ms items \<and>
      tw_messageIndex w = index_messages (with_stubs ms (new_messages ms items)) \<and>
      (\<forall>m pi. jm_get m (tw_partIndexes w) = Some pi \<longrightarrow>
         (\<exists>i. jm_get m (tw_messageIndex w) = Some i \<and> pi = indexMessageParts (ms_parts (tw_messages w ! i)))) \<and>
      tw_unapplied w = filter (\<lambda>d. \<not> known_part ms d) items)"

lemma set_parts_same: "set_parts i (ms_parts (ms ! i)) ms = ms"
  by (simp add: set_parts_def)

lemma apply_to_parts_index:
  "indexMessageParts (apply_to_parts d ps) =
     (case jm_get (pd_part d) (indexMessageParts ps) of
        None \<Rightarrow> indexMessageParts ps
      | Some j \<Rightarrow> if holds_text (ps ! j) then indexMessageParts ps else jm_set (pd_part d) (length ps) (indexMessageParts ps))"
proof (cases "jm_get (pd_part d) (indexMessageParts ps)")
  case (Some j)
  then have j: "last_at (pd_part d) ps j" by (simp add: indexMessageParts_Some)
  then have "pd_part d \<noteq> []" using index_key_nonempty [of "ps ! j"] by (auto simp: last_at_def)
  moreover have "indexMessageParts (ps[j := stream_into (pd_delta d) (ps ! j)]) = indexMessageParts ps"
    using j by (intro indexMessageParts_cong) (simp add: map_update last_at_def list_update_same_conv)
  ultimately show ?thesis using Some by (simp add: apply_to_parts_def indexMessageParts_snoc)
qed (simp add: apply_to_parts_def)

text \<open>One round of the loop once the message is there and its index is the current one.\<close>

lemma apply_item_parts:
  assumes "ensureMessage d w0 = (w1, i)" and "P = ms_parts (tw_messages w1 ! i)"
    and "\<And>pi. jm_get (pd_message d) (tw_partIndexes w1) = Some pi \<Longrightarrow> pi = indexMessageParts P"
  shows "tw_messages (apply_item w0 d) = set_parts i (apply_to_parts d P) (tw_messages w1)"
    and "tw_messageIndex (apply_item w0 d) = tw_messageIndex w1"
    and "jm_get m (tw_partIndexes (apply_item w0 d)) =
      (if m = pd_message d then Some (indexMessageParts (apply_to_parts d P)) else jm_get m (tw_partIndexes w1))"
    and "tw_unapplied (apply_item w0 d) =
      tw_unapplied w1 @ (if jm_get (pd_part d) (indexMessageParts P) = None then [d] else [])"
proof -
  have same: "set_parts i P (tw_messages w1) = tw_messages w1" by (simp add: assms(2) set_parts_same)
  let ?w = "w1\<lparr>tw_partIndexes := jm_set (pd_message d) (indexMessageParts P) (tw_partIndexes w1)\<rparr>"
  have eq: "apply_item w0 d =
    (case jm_get (pd_part d) (indexMessageParts P) of
       None \<Rightarrow> ?w\<lparr>tw_unapplied := tw_unapplied ?w @ [d]\<rparr>
     | Some j \<Rightarrow>
         (if holds_text (P ! j)
          then ?w\<lparr>tw_messages := set_parts i (P[j := stream_into (pd_delta d) (P ! j)]) (tw_messages ?w)\<rparr>
          else ?w\<lparr>tw_messages := set_parts i (P @ [new_text_part d]) (tw_messages ?w),
                  tw_partIndexes := jm_set (pd_message d) (jm_set (pd_part d) (length P) (indexMessageParts P)) (tw_partIndexes ?w)\<rparr>))"
  proof (cases "jm_get (pd_message d) (tw_partIndexes w1)")
    case None
    then show ?thesis
      by (cases "jm_get (pd_part d) (indexMessageParts P)") (simp_all add: apply_item_def assms(1) assms(2) [symmetric] Let_def)
  next
    case (Some pi)
    then have "jm_get (pd_message d) (tw_partIndexes w1) = Some (indexMessageParts P)" using assms(3) by simp
    then show ?thesis
      by (cases "jm_get (pd_part d) (indexMessageParts P)") (simp_all add: apply_item_def assms(1) assms(2) [symmetric] Let_def)
  qed
  show "tw_messages (apply_item w0 d) = set_parts i (apply_to_parts d P) (tw_messages w1)"
    by (simp add: eq apply_to_parts_def same split: option.split)
  show "tw_messageIndex (apply_item w0 d) = tw_messageIndex w1"
    by (simp add: eq split: option.split)
  show "jm_get m (tw_partIndexes (apply_item w0 d)) =
      (if m = pd_message d then Some (indexMessageParts (apply_to_parts d P)) else jm_get m (tw_partIndexes w1))"
    by (simp add: eq apply_to_parts_index split: option.split)
  show "tw_unapplied (apply_item w0 d) =
      tw_unapplied w1 @ (if jm_get (pd_part d) (indexMessageParts P) = None then [d] else [])"
    by (simp add: eq split: option.split)
qed

lemma final_parts_known:
  fixes d :: pending_delta
  assumes "pd_message d = m"
  shows "jm_get (pd_part d) (indexMessageParts (final_parts m ps items)) = None \<longleftrightarrow>
     jm_get (pd_part d) (indexMessageParts ps) = None"
proof
  assume none: "jm_get (pd_part d) (indexMessageParts (final_parts m ps items)) = None"
  show "jm_get (pd_part d) (indexMessageParts ps) = None"
  proof (rule ccontr)
    assume "jm_get (pd_part d) (indexMessageParts ps) \<noteq> None"
    then obtain j where "last_at (pd_part d) ps j" by (auto simp: indexMessageParts_Some)
    then have j: "j < length ps" "index_key (ps ! j) = Some (pd_part d)" by (simp_all add: last_at_def)
    then have "final_parts m ps items ! j \<in> set (final_parts m ps items)" by (simp add: length_final_parts)
    then show False using none j by (auto simp: indexMessageParts_None final_nth_old)
  qed
next
  assume "jm_get (pd_part d) (indexMessageParts ps) = None"
  then show "jm_get (pd_part d) (indexMessageParts (final_parts m ps items)) = None"
    by (rule final_parts_unknown(2) [OF _ assms])
qed

lemma apply_to_parts_Nil [simp]: "apply_to_parts d [] = []"
  by (simp add: apply_to_parts_def)

text \<open>The batch grows by a delta of a message that is already there.\<close>

lemma final_messages_known:
  assumes "F = with_stubs ms (new_messages ms items)" "jm_get (pd_message d) (index_messages F) = Some i"
    and "P = ms_parts (final_messages ms items ! i)"
  shows "final_messages ms (items @ [d]) = set_parts i (apply_to_parts d P) (final_messages ms items)"
    and "new_messages ms (items @ [d]) = new_messages ms items"
    and "jm_get (pd_part d) (indexMessageParts P) = None \<longleftrightarrow> \<not> known_part ms d"
proof -
  let ?m = "pd_message d"
  have i: "i < length F" "ms_id (F ! i) = ?m" using index_messages_Some [OF assms(2)] by simp_all
  then have "?m \<in> ms_id ` set F" by (metis image_eqI nth_mem)
  then have "?m \<in> ms_id ` set ms \<union> set (new_messages ms items)"
    using ids_with_stubs [of ms "new_messages ms items"] assms(1) by simp
  then show new: "new_messages ms (items @ [d]) = new_messages ms items" by (simp add: new_messages_snoc)
  obtain zs where zs: "F = ms @ zs" "\<forall>z \<in> set zs. ms_parts z = []"
    using with_stubs_prefix [of ms "new_messages ms items"] assms(1) by blast
  show "jm_get (pd_part d) (indexMessageParts P) = None \<longleftrightarrow> \<not> known_part ms d"
  proof (cases "?m \<in> ms_id ` set ms")
    case True
    then have at: "jm_get ?m (index_messages ms) = Some i"
      using index_with_stubs [OF True new_messages_new, of items] assms(1,2) by simp
    then have "i < length ms" "F ! i = ms ! i" using index_messages_Some [OF at] by (simp_all add: zs(1) nth_append)
    then have "P = final_parts ?m (ms_parts (ms ! i)) items"
      using assms(1,3) i at by (simp add: final_messages_nth streamed_def)
    then show ?thesis using at by (simp add: known_part_def final_parts_known jm_has_def)
  next
    case False
    then have none: "jm_get ?m (index_messages ms) = None" by (simp add: index_messages_None)
    have "\<not> i < length ms" using i False by (metis zs(1) image_eqI nth_append nth_mem)
    then have "F ! i \<in> set zs" using i by (simp add: zs(1) nth_append)
    then have "P = []" using assms(1,3) i none zs(2) by (simp add: final_messages_nth streamed_def)
    then show ?thesis using none by (simp add: known_part_def)
  qed
  show "final_messages ms (items @ [d]) = set_parts i (apply_to_parts d P) (final_messages ms items)"
  proof (rule nth_equalityI)
    show "length (final_messages ms (items @ [d])) = length (set_parts i (apply_to_parts d P) (final_messages ms items))"
      by (simp add: length_final_messages new set_parts_def)
    fix l assume "l < length (final_messages ms (items @ [d]))"
    then have l: "l < length F" by (simp add: length_final_messages new assms(1))
    have step: "final_messages ms (items @ [d]) ! l = streamed ms (items @ [d]) l (F ! l)"
      using l by (simp add: assms(1) final_messages_nth new)
    show "final_messages ms (items @ [d]) ! l = set_parts i (apply_to_parts d P) (final_messages ms items) ! l"
    proof (cases "l = i")
      case False
      have "\<not> (jm_get (ms_id (F ! l)) (index_messages ms) = Some l \<and> ms_id (F ! l) = ?m)"
      proof
        assume both: "jm_get (ms_id (F ! l)) (index_messages ms) = Some l \<and> ms_id (F ! l) = ?m"
        then have "?m \<in> ms_id ` set ms" by (metis index_messages_None option.distinct(1))
        then show False
          using index_with_stubs [OF _ new_messages_new, of ?m ms items] both assms(1,2) False by auto
      qed
      then show ?thesis
        using False l by (auto simp: step streamed_snoc set_parts_def assms(1) final_messages_nth)
    next
      case True
      show ?thesis
      proof (cases "jm_get ?m (index_messages ms) = Some i")
        case at: True
        then have P: "P = final_parts ?m (ms_parts (F ! i)) items"
          using assms(1,3) i by (simp add: final_messages_nth streamed_def)
        have "final_messages ms (items @ [d]) ! l = (F ! i)\<lparr>ms_parts := apply_to_parts d P\<rparr>"
          unfolding step using True at i P by (simp add: streamed_snoc)
        moreover have "final_messages ms items ! i = (F ! i)\<lparr>ms_parts := P\<rparr>"
          using assms(1) i at P by (simp add: final_messages_nth streamed_def)
        ultimately show ?thesis
          using True i assms(1) by (simp add: set_parts_def length_final_messages)
      next
        case no: False
        then have "?m \<notin> ms_id ` set ms"
          using index_with_stubs [OF _ new_messages_new, of ?m ms items] assms(1,2) by auto
        then have "\<not> i < length ms" using i by (metis zs(1) image_eqI nth_append nth_mem)
        then have "F ! i \<in> set zs" using i by (simp add: zs(1) nth_append)
        then have "ms_parts (F ! i) = []" using zs(2) by simp
        moreover have "P = ms_parts (F ! i)" using assms(1,3) i no by (simp add: final_messages_nth streamed_def)
        moreover have "final_messages ms (items @ [d]) ! l = F ! i"
          unfolding step using True no i by (simp add: streamed_snoc streamed_def)
        moreover have "final_messages ms items ! i = F ! i"
          using assms(1) i no by (simp add: final_messages_nth streamed_def)
        ultimately show ?thesis
          using True set_parts_same [of i "final_messages ms items"] by simp
      qed
    qed
  qed
qed

text \<open>The batch grows by the first delta of an unknown message.\<close>

lemma final_messages_unknown:
  assumes "F = with_stubs ms (new_messages ms items)" "jm_get (pd_message d) (index_messages F) = None"
  shows "final_messages ms (items @ [d]) = final_messages ms items @ [stub (final_messages ms items) (pd_message d)]"
    and "with_stubs ms (new_messages ms (items @ [d])) = F @ [stub F (pd_message d)]"
    and "\<not> known_part ms d"
proof -
  let ?m = "pd_message d"
  have out: "?m \<notin> ms_id ` set F" using assms(2) by (simp add: index_messages_None)
  then have notin: "?m \<notin> ms_id ` set ms" "?m \<notin> set (new_messages ms items)"
    using ids_with_stubs [of ms "new_messages ms items"] assms(1) by auto
  then show F': "with_stubs ms (new_messages ms (items @ [d])) = F @ [stub F ?m]"
    using assms(1) by (simp add: new_messages_snoc with_stubs_snoc)
  have none: "jm_get ?m (index_messages ms) = None" using notin by (simp add: index_messages_None)
  then show "\<not> known_part ms d" by (simp add: known_part_def)
  have role: "stub (final_messages ms items) ?m = stub F ?m"
    using inferStubRole_cong [OF roles_final, of ms items] assms(1) by (simp add: stub_def)
  show "final_messages ms (items @ [d]) = final_messages ms items @ [stub (final_messages ms items) ?m]"
  proof (rule nth_equalityI)
    show "length (final_messages ms (items @ [d])) = length (final_messages ms items @ [stub (final_messages ms items) ?m])"
      by (simp add: length_final_messages F' assms(1))
    fix l assume "l < length (final_messages ms (items @ [d]))"
    then have l: "l < Suc (length F)" by (simp add: length_final_messages F')
    then have step: "final_messages ms (items @ [d]) ! l = streamed ms (items @ [d]) l ((F @ [stub F ?m]) ! l)"
      by (simp add: final_messages_nth F')
    show "final_messages ms (items @ [d]) ! l = (final_messages ms items @ [stub (final_messages ms items) ?m]) ! l"
    proof (cases "l < length F")
      case True
      then have "ms_id (F ! l) \<noteq> ?m" using out by (metis image_eqI nth_mem)
      then show ?thesis
        using True unfolding step
        by (simp add: nth_append streamed_snoc length_final_messages assms(1) final_messages_nth)
    next
      case False
      then have "l = length F" using l by simp
      then show ?thesis
        using none unfolding step
        by (simp add: nth_append streamed_snoc length_final_messages assms(1) [symmetric] role, simp add: streamed_def stub_def)
    qed
  qed
qed

lemma delta_inv_step:
  assumes "delta_inv ms items w"
  shows "delta_inv ms (items @ [d]) (apply_item w d)"
proof -
  define F where "F = with_stubs ms (new_messages ms items)"
  have inv: "tw_messages w = final_messages ms items" "tw_messageIndex w = index_messages F"
      "\<And>m pi. jm_get m (tw_partIndexes w) = Some pi \<Longrightarrow>
         \<exists>i. jm_get m (index_messages F) = Some i \<and> pi = indexMessageParts (ms_parts (final_messages ms items ! i))"
      "tw_unapplied w = filter (\<lambda>d. \<not> known_part ms d) items"
    using assms unfolding delta_inv_def F_def by metis+
  let ?m = "pd_message d"
  have len: "length (final_messages ms items) = length F" by (simp add: length_final_messages F_def)
  show ?thesis
  proof (cases "jm_get ?m (index_messages F)")
    case (Some i)
    then have e: "ensureMessage d w = (w, i)" by (simp add: ensureMessage_def inv(2))
    define P where "P = ms_parts (final_messages ms items ! i)"
    have cached: "pi = indexMessageParts P" if "jm_get ?m (tw_partIndexes w) = Some pi" for pi
      using inv(3) [OF that] Some by (simp add: P_def)
    note app = apply_item_parts [OF e, of P, unfolded inv(1), OF P_def cached]
    note fin = final_messages_known [OF F_def Some P_def]
    have i: "i < length F" using index_messages_Some [OF Some] by simp
    have parts: "\<exists>l. jm_get m (index_messages F) = Some l \<and>
        pi = indexMessageParts (ms_parts (set_parts i (apply_to_parts d P) (final_messages ms items) ! l))"
      if entry: "jm_get m (tw_partIndexes (apply_item w d)) = Some pi" for m pi
    proof (cases "m = ?m")
      case True
      then show ?thesis using entry Some i by (simp add: app(3) set_parts_def len)
    next
      case False
      then obtain l where l: "jm_get m (index_messages F) = Some l" "pi = indexMessageParts (ms_parts (final_messages ms items ! l))"
        using inv(3) [of m pi] entry False by (auto simp: app(3))
      then have "l \<noteq> i" using index_messages_Some [OF l(1)] index_messages_Some [OF Some] False by auto
      then show ?thesis using l by (simp add: set_parts_def)
    qed
    show ?thesis
      using parts fin app(1,2,4)
      by (simp add: delta_inv_def inv F_def [symmetric])
  next
    case None
    define x where "x = stub (final_messages ms items) ?m"
    define w1 where "w1 = w\<lparr>tw_messages := final_messages ms items @ [x], tw_messageIndex := jm_set ?m (length F) (index_messages F)\<rparr>"
    have e: "ensureMessage d w = (w1, length F)"
      using None by (simp add: ensureMessage_def inv w1_def x_def stub_def len Let_def)
    have P: "[] = ms_parts (tw_messages w1 ! length F)" by (simp add: w1_def nth_append len x_def stub_def)
    have cached: "pi = indexMessageParts []" if "jm_get ?m (tw_partIndexes w1) = Some pi" for pi
      using inv(3) [of ?m pi] that None by (simp add: w1_def)
    note app = apply_item_parts [OF e P cached]
    note fin = final_messages_unknown [OF F_def None]
    have same: "set_parts (length F) [] (tw_messages w1) = tw_messages w1"
      using set_parts_same [of "length F" "tw_messages w1"] P by simp
    have parts: "\<exists>l. jm_get m (index_messages (F @ [stub F ?m])) = Some l \<and>
        pi = indexMessageParts (ms_parts ((final_messages ms items @ [x]) ! l))"
      if entry: "jm_get m (tw_partIndexes (apply_item w d)) = Some pi" for m pi
    proof (cases "m = ?m")
      case True
      then show ?thesis using entry by (simp add: app(3) index_messages_snoc stub_def nth_append len x_def)
    next
      case False
      have "jm_get m (tw_partIndexes w) = Some pi"
        using entry False app(3) [of m] by (simp add: w1_def)
      then obtain l where l: "jm_get m (index_messages F) = Some l" "pi = indexMessageParts (ms_parts (final_messages ms items ! l))"
        using inv(3) [of m pi] by blast
      then have "l < length F" using index_messages_Some [OF l(1)] by simp
      then show ?thesis using l False by (simp add: index_messages_snoc stub_def nth_append len)
    qed
    show ?thesis
      using parts fin app(1,2,4) same
      by (simp add: delta_inv_def w1_def inv x_def index_messages_snoc stub_def)
  qed
qed

lemma final_messages_Nil: "final_messages ms [] = ms"
proof -
  have "final_parts m ps [] = ps" for m and ps :: "'a message_part list"
    by (rule nth_equalityI) (auto simp: final_parts_def touched_def js_uniq_def grown_def split: option.split)
  then show ?thesis
    by (intro nth_equalityI) (auto simp: final_messages_def new_messages_def js_uniq_def with_stubs_def streamed_def Let_def)
qed

lemma delta_inv_run:
  "delta_inv ms items (foldl apply_item
     \<lparr>tw_messages = ms, tw_messageIndex = index_messages ms, tw_partIndexes = [], tw_unapplied = []\<rparr> items)"
proof (induction items rule: rev_induct)
  case Nil
  show ?case by (simp add: delta_inv_def final_messages_Nil new_messages_def js_uniq_def with_stubs_def)
next
  case (snoc d items)
  then show ?case by (simp add: delta_inv_step)
qed

lemma apply_deltas_exact:
  "applyPendingDeltasToTranscript ms items = (final_messages ms items, filter (\<lambda>d. \<not> known_part ms d) items)"
  using delta_inv_run [of ms items]
  by (auto simp: applyPendingDeltasToTranscript_def delta_inv_def final_messages_Nil Let_def)

section \<open>Coalescing\<close>

text \<open>The items of one session whose ids hold no zero character.\<close>

definition plain_ids :: "string \<Rightarrow> pending_delta list \<Rightarrow> bool" where
  "plain_ids sid items =
     (\<forall>d \<in> set items. pd_session d = sid \<and> CHR 0x00 \<notin> set (pd_message d) \<and> CHR 0x00 \<notin> set (pd_part d))"

lemma split_at_char: "c \<notin> set a \<Longrightarrow> c \<notin> set a' \<Longrightarrow> a @ c # b = a' @ c # b' \<Longrightarrow> a = a' \<and> b = b'"
  by (auto simp: append_eq_append_conv2 append_eq_Cons_conv Cons_eq_append_conv)

lemma delta_key_eq:
  "plain_ids sid items \<Longrightarrow> d \<in> set items \<Longrightarrow> e \<in> set items \<Longrightarrow>
     delta_key d = delta_key e \<longleftrightarrow> pd_message d = pd_message e \<and> pd_part d = pd_part e"
  by (auto simp: plain_ids_def delta_key_def dest: split_at_char)

lemma delta_key_absorb [simp]: "delta_key (absorb e d) = delta_key e"
  by (simp add: delta_key_def absorb_def)

definition coalesced :: "pending_delta list \<Rightarrow> (string, pending_delta) jsmap" where
  "coalesced items = foldl coalesce_item [] items"

lemma coalesced_snoc: "coalesced (items @ [d]) = coalesce_item (coalesced items) d"
  by (simp add: coalesced_def)

lemma jm_set_present: "jm_get k m = Some v \<Longrightarrow> jm_wf m \<Longrightarrow> \<exists>xs ys. m = xs @ (k, v) # ys \<and> jm_set k v' m = xs @ (k, v') # ys
    \<and> k \<notin> fst ` set xs \<and> k \<notin> fst ` set ys"
proof (induction m)
  case (Cons e m)
  show ?case
  proof (cases "fst e = k")
    case True
    then show ?thesis
      using Cons.prems by (intro exI [of _ "[]"] exI [of _ m]) (cases e, auto simp: jm_wf_def)
  next
    case False
    then have "jm_get k m = Some v" "jm_wf m" using Cons.prems by (cases e, auto simp: jm_wf_def)+
    then obtain xs ys where "m = xs @ (k, v) # ys" "jm_set k v' m = xs @ (k, v') # ys" "k \<notin> fst ` set xs" "k \<notin> fst ` set ys"
      using Cons.IH by blast
    then show ?thesis
      using False by (intro exI [of _ "e # xs"] exI [of _ ys]) (cases e, auto)
  qed
qed simp

lemma js_uniq_append_present: "x \<in> set xs \<Longrightarrow> js_uniq (xs @ [x]) = js_uniq xs"
  by (simp add: js_uniq_snoc)

text \<open>What coalescing keeps: the ids, their order and, for each part, the joined text.\<close>

definition same_batch :: "pending_delta list \<Rightarrow> pending_delta list \<Rightarrow> bool" where
  "same_batch items items' =
     (js_uniq (map pd_message items) = js_uniq (map pd_message items') \<and>
      (\<forall>m. touched m items = touched m items') \<and>
      (\<forall>m k. deltas_of m k items = deltas_of m k items'))"

lemma final_messages_same_batch:
  assumes "same_batch items items'"
  shows "final_messages ms items = final_messages ms items'"
proof -
  have g: "grown m items = (grown m items' :: (string, nat) jsmap \<Rightarrow> nat \<Rightarrow> 'a message_part \<Rightarrow> _)" for m
    using assms by (intro ext) (simp add: grown_def same_batch_def split: option.split)
  have "final_parts m ps items = final_parts m ps items'" for m and ps :: "'a message_part list"
    using assms g by (simp add: final_parts_def same_batch_def)
  then have "streamed ms items i x = streamed ms items' i x" for i x by (simp add: streamed_def)
  moreover have "new_messages ms items = new_messages ms items'" using assms by (simp add: new_messages_def same_batch_def)
  ultimately show ?thesis by (simp add: final_messages_def Let_def)
qed

lemma same_batch_snoc:
  "same_batch items items' \<Longrightarrow> same_batch (items @ [d]) (items' @ [d])"
proof -
  assume s: "same_batch items items'"
  have "set (map pd_message items) = set (map pd_message items')"
    using s by (metis same_batch_def set_js_uniq)
  then have "pd_message d \<in> set (map pd_message items) \<longleftrightarrow> pd_message d \<in> set (map pd_message items')" by simp
  then have "js_uniq (map pd_message items @ [pd_message d]) = js_uniq (map pd_message items' @ [pd_message d])"
    using s by (simp only: js_uniq_snoc same_batch_def)
  then show ?thesis using s by (simp add: same_batch_def touched_snoc deltas_of_snoc)
qed

text \<open>A later delta of the same part may as well be joined to the earlier one.\<close>

lemma same_batch_absorb:
  assumes "pd_message d = pd_message e" "pd_part d = pd_part e"
    and "\<forall>x \<in> set ys. \<not> (pd_message x = pd_message e \<and> pd_part x = pd_part e)"
  shows "same_batch (xs @ e # ys @ [d]) (xs @ absorb e d # ys)"
proof -
  have "js_uniq (map pd_message (xs @ e # ys @ [d])) = js_uniq (map pd_message (xs @ absorb e d # ys))"
    using js_uniq_append_present [of "pd_message d" "map pd_message (xs @ e # ys)"] assms(1) by (simp add: absorb_def)
  moreover have "touched m (xs @ e # ys @ [d]) = touched m (xs @ absorb e d # ys)" for m
  proof (cases "pd_message e = m")
    case True
    then show ?thesis
      using js_uniq_append_present [of "pd_part d" "map pd_part (filter (\<lambda>x. pd_message x = m) (xs @ e # ys))"] assms(1,2)
      by (simp add: touched_def absorb_def)
  next
    case False
    then show ?thesis using assms(1) by (simp add: touched_def absorb_def)
  qed
  moreover have "deltas_of m k (xs @ e # ys @ [d]) = deltas_of m k (xs @ absorb e d # ys)" for m k
  proof (cases "m = pd_message e \<and> k = pd_part e")
    case True
    then have "filter (\<lambda>x. pd_message x = m \<and> pd_part x = k) ys = []" using assms(3) by (auto simp: filter_empty_conv)
    then show ?thesis using True assms(1,2) by (simp add: deltas_of_def absorb_def)
  next
    case False
    then show ?thesis using assms(1,2) by (auto simp: deltas_of_def absorb_def)
  qed
  ultimately show ?thesis by (simp add: same_batch_def)
qed

definition ids_of :: "pending_delta \<Rightarrow> string \<times> string \<times> string" where
  "ids_of d = (pd_session d, pd_message d, pd_part d)"

lemma ids_of_absorb [simp]: "ids_of (absorb e d) = ids_of e"
  by (simp add: ids_of_def absorb_def)

lemma delta_key_ids: "ids_of d = ids_of e \<Longrightarrow> delta_key d = delta_key e"
  by (simp add: ids_of_def delta_key_def)

definition coalesced_ok :: "pending_delta list \<Rightarrow> bool" where
  "coalesced_ok items =
     (jm_wf (coalesced items) \<and>
      (\<forall>(k, e) \<in> set (coalesced items). delta_key e = k \<and> (\<exists>d \<in> set items. ids_of e = ids_of d)) \<and>
      same_batch items (jm_values (coalesced items)))"

lemma coalesced_inv: "plain_ids sid items \<Longrightarrow> coalesced_ok items"
proof (induction items rule: rev_induct)
  case Nil
  show ?case by (simp add: coalesced_ok_def coalesced_def jm_values_def same_batch_def)
next
  case (snoc d items)
  let ?M = "coalesced items"
  have plain: "plain_ids sid (items @ [d])" by fact
  have "plain_ids sid items" using plain by (simp add: plain_ids_def)
  then have wf: "jm_wf ?M" and keyed: "\<forall>(k, e) \<in> set ?M. delta_key e = k \<and> (\<exists>d \<in> set items. ids_of e = ids_of d)"
    and batch: "same_batch items (jm_values ?M)"
    using snoc.IH by (simp_all add: coalesced_ok_def)
  have ids: "delta_key x = delta_key d \<longleftrightarrow> pd_message x = pd_message d \<and> pd_part x = pd_part d"
    if mem: "(k, x) \<in> set ?M" for k x
  proof -
    obtain y where y: "y \<in> set items" "ids_of x = ids_of y" using bspec [OF keyed mem] by auto
    have "delta_key x = delta_key y" by (rule delta_key_ids [OF y(2)])
    then have "delta_key x = delta_key d \<longleftrightarrow> delta_key y = delta_key d" by (simp only:)
    also have "\<dots> \<longleftrightarrow> pd_message y = pd_message d \<and> pd_part y = pd_part d" using delta_key_eq [OF plain, of y d] y by simp
    finally show ?thesis using y by (simp add: ids_of_def)
  qed
  have batch': "same_batch (items @ [d]) (jm_values ?M @ [d])" by (rule same_batch_snoc [OF batch])
  show ?case
  proof (cases "jm_get (delta_key d) ?M")
    case None
    then have new: "coalesced (items @ [d]) = ?M @ [(delta_key d, d)]"
      by (simp add: coalesced_snoc coalesce_item_def jm_set_fresh)
    have "jm_wf (coalesced (items @ [d]))" using wf None by (simp add: coalesced_snoc coalesce_item_def)
    moreover have "\<forall>(k, x) \<in> set (coalesced (items @ [d])). delta_key x = k \<and> (\<exists>y \<in> set (items @ [d]). ids_of x = ids_of y)"
      using keyed unfolding new by fastforce
    moreover have "same_batch (items @ [d]) (jm_values (coalesced (items @ [d])))"
      using batch' by (simp add: new jm_values_def)
    ultimately show ?thesis unfolding coalesced_ok_def by blast
  next
    case (Some e)
    then obtain xs ys where split: "?M = xs @ (delta_key d, e) # ys"
        "jm_set (delta_key d) (absorb e d) ?M = xs @ (delta_key d, absorb e d) # ys" "delta_key d \<notin> fst ` set ys"
      using jm_set_present [OF Some wf] by blast
    have new: "coalesced (items @ [d]) = xs @ (delta_key d, absorb e d) # ys"
      using Some split(2) by (simp add: coalesced_snoc coalesce_item_def)
    have wf': "jm_wf (coalesced (items @ [d]))" using wf Some by (simp add: coalesced_snoc coalesce_item_def)
    have key_e: "delta_key e = delta_key d" using keyed split(1) by auto
    then have "pd_message d = pd_message e \<and> pd_part d = pd_part e" using ids [of "delta_key d" e] split(1) by auto
    moreover have "\<not> (pd_message x = pd_message e \<and> pd_part x = pd_part e)" if x: "x \<in> set (map snd ys)" for x
    proof -
      obtain k where k: "(k, x) \<in> set ys" using x by auto
      then have "delta_key x = k" using keyed split(1) by auto
      moreover have "k \<noteq> delta_key d" using k split(3) by force
      ultimately show ?thesis
        using ids [of k x] k split(1) \<open>pd_message d = pd_message e \<and> pd_part d = pd_part e\<close> by auto
    qed
    ultimately have "same_batch (map snd xs @ e # map snd ys @ [d]) (map snd xs @ absorb e d # map snd ys)"
      by (intro same_batch_absorb) auto
    moreover have "same_batch (items @ [d]) (map snd xs @ e # map snd ys @ [d])"
      using batch' by (simp add: jm_values_def split(1))
    ultimately have "same_batch (items @ [d]) (jm_values (coalesced (items @ [d])))"
      by (simp add: new jm_values_def same_batch_def)
    moreover have "\<forall>(k, x) \<in> set (coalesced (items @ [d])). delta_key x = k \<and> (\<exists>y \<in> set (items @ [d]). ids_of x = ids_of y)"
      using keyed key_e by (auto simp: new split(1))
    ultimately show ?thesis unfolding coalesced_ok_def using wf' by blast
  qed
qed

lemma coalesce_same_batch:
  assumes "plain_ids sid items"
  shows "same_batch items (coalescePendingDeltas items)"
proof (cases "length items < 2")
  case True
  then show ?thesis by (simp add: coalescePendingDeltas_def same_batch_def)
next
  case False
  then show ?thesis
    using coalesced_inv [OF assms] by (simp add: coalescePendingDeltas_def coalesced_ok_def coalesced_def)
qed

section \<open>Properties\<close>

definition known_ids :: "('r, 'm) ui_message list \<Rightarrow> string \<Rightarrow> string \<Rightarrow> bool" where
  "known_ids ms m k =
     (case jm_get m (index_messages ms) of
        Some i \<Rightarrow> jm_has k (indexMessageParts (ms_parts (ms ! i)))
      | None \<Rightarrow> False)"

lemma known_part_ids: "known_part ms d = known_ids ms (pd_message d) (pd_part d)"
  by (simp only: known_part_def known_ids_def)

lemma deltas_of_unknown:
  "deltas_of m k (filter (\<lambda>d. \<not> known_part ms d) items) = (if known_ids ms m k then [] else deltas_of m k items)"
  by (induction items) (auto simp: deltas_of_def known_part_ids)

text \<open>C19. Coalescing changes nothing. For the deltas of one session, applying the coalesced
  deltas, one per part, gives the same messages, in the same order, with the same roles,
  parts and texts as applying all deltas one by one with the indexes built once; and for
  every part the text that could not be applied is the same.\<close>

theorem coalescing_changes_nothing:
  assumes "plain_ids sid items"
  shows "fst (applyPendingDeltasToTranscript ms (coalescePendingDeltas items)) = fst (applyPendingDeltasToTranscript ms items)
    \<and> deltas_of m k (snd (applyPendingDeltasToTranscript ms (coalescePendingDeltas items)))
      = deltas_of m k (snd (applyPendingDeltasToTranscript ms items))"
proof -
  have "final_messages ms (coalescePendingDeltas items) = final_messages ms items"
    by (rule final_messages_same_batch [OF coalesce_same_batch [OF assms], symmetric])
  moreover have "deltas_of m k (coalescePendingDeltas items) = deltas_of m k items"
    using coalesce_same_batch [OF assms] unfolding same_batch_def by metis
  ultimately show ?thesis by (simp add: apply_deltas_exact deltas_of_unknown)
qed

definition sample_deltas :: "pending_delta list" where
  "sample_deltas =
     [\<lparr>pd_session = ''s'', pd_message = ''m'', pd_part = ''p'', pd_reasoning = False, pd_delta = ''one ''\<rparr>,
      \<lparr>pd_session = ''s'', pd_message = ''n'', pd_part = ''q'', pd_reasoning = False, pd_delta = ''lost''\<rparr>,
      \<lparr>pd_session = ''s'', pd_message = ''m'', pd_part = ''p'', pd_reasoning = False, pd_delta = ''two''\<rparr>]"

theorem coalescing_changes_nothing_witness:
  "let ms = [\<lparr>ms_id = ''m'', ms_role = AssistantRole, ms_parts = [text_part ''p'' ''zero ''], ms_rest = None :: unit option\<rparr>]
   in fst (applyPendingDeltasToTranscript ms (coalescePendingDeltas sample_deltas)) = fst (applyPendingDeltasToTranscript ms sample_deltas)
    \<and> deltas_of ''n'' ''q'' (snd (applyPendingDeltasToTranscript ms (coalescePendingDeltas sample_deltas)))
      = deltas_of ''n'' ''q'' (snd (applyPendingDeltasToTranscript ms sample_deltas))"
  unfolding Let_def
  by (rule coalescing_changes_nothing [where sid = "''s''"]) (simp add: plain_ids_def sample_deltas_def)


end
