(* ===== verification/ProviderLock.thy ===== *)
theory ProviderLock
  imports AppGate Automations
begin

text \<open>
  The provider lock: \<open>apps/server/src/provider-lock.ts\<close> and the rules it shares with the
  command line, \<open>provider-lock/provider-lock.mjs\<close>. The app starts locked to its own model
  providers; an answer of the server that says \<open>locked: false\<close> unlocks it, and any other
  answer, or none, locks it again. While locked, engine environments, engine configurations and
  engine requests are held to the allowed providers.

  A value of type \<open>unknown\<close> is a \<open>json\<close>, \<open>None\<close> is \<open>undefined\<close>. The entries of an object are its
  own properties: the names the source asks for with \<open>in\<close> are not names of
  \<open>Object.prototype\<close>. Assigning to the name \<open>__proto__\<close> sets the prototype and adds no
  property. A missing policy is \<open>lockedProviderPolicy DefaultSource\<close> (\<open>policy ??\<close>), which the
  functions here get as any other policy. URL parsing is an argument: \<open>url_path\<close> is the
  path of a URL, \<open>origin\<close> the origin of a URL or the text itself.
\<close>

section \<open>Policies\<close>

datatype lock_source = DefaultSource | MissingSource | ServerSource

record lock_policy =
  lp_locked :: bool
  lp_allow :: "string list"
  lp_message :: string
  lp_source :: lock_source

definition OMNIRUSH_PROVIDER_ID :: string where
  "OMNIRUSH_PROVIDER_ID = ''omnirush''"

definition APP_PROVIDER_IDS :: "string list" where
  "APP_PROVIDER_IDS = [OMNIRUSH_PROVIDER_ID, ''omnirush-claude'']"

definition PROVIDER_LOCK_MESSAGE :: string where
  "PROVIDER_LOCK_MESSAGE = ''Only OmniRush models are available.''"

definition PLUGINS_OFF_MESSAGE :: string where
  "PLUGINS_OFF_MESSAGE = ''Custom plugins are off while OmniRush models are locked.''"

definition MAX_MESSAGE :: nat where
  "MAX_MESSAGE = 300"

definition ENGINE_CONFIG_INJECTION_ENV :: "string list" where
  "ENGINE_CONFIG_INJECTION_ENV =
     [''OPENCODE_CONFIG_CONTENT'', ''OPENCODE_CONFIG_DIR'', ''OPENCODE_AUTH_CONTENT'', ''OPENCODE_MODELS_URL'',
      ''OPENCODE_MODELS_PATH'']"

definition PROVIDER_LOCKED_CODE :: string where
  "PROVIDER_LOCKED_CODE = ''provider_locked''"

definition PLUGINS_LOCKED_CODE :: string where
  "PLUGINS_LOCKED_CODE = ''plugins_locked''"

definition is_control :: "char \<Rightarrow> bool" where
  "is_control c = (let n = (of_char c :: nat) in n < 32 \<or> n = 127)"

text \<open>\<open>replace(/[P]+/g, " ")\<close>.\<close>

function collapse :: "(char \<Rightarrow> bool) \<Rightarrow> string \<Rightarrow> string" where
  "collapse P [] = []"
| "collapse P (c # s) = (if P c then CHR '' '' # collapse P (dropWhile P s) else c # collapse P s)"
  by pat_completeness auto
termination
  by (relation "measure (length \<circ> snd)") (auto simp: less_Suc_eq_le length_dropWhile_le)

definition cleanMessage :: "json option \<Rightarrow> string" where
  "cleanMessage v =
     (case jstring v of
        None \<Rightarrow> PROVIDER_LOCK_MESSAGE
      | Some s \<Rightarrow>
          (let text = js_trim (collapse js_space (collapse is_control s))
           in if text = [] then PROVIDER_LOCK_MESSAGE else take MAX_MESSAGE text))"

definition lockedProviderPolicy :: "lock_source \<Rightarrow> lock_policy" where
  "lockedProviderPolicy source =
     \<lparr>lp_locked = True, lp_allow = APP_PROVIDER_IDS, lp_message = PROVIDER_LOCK_MESSAGE, lp_source = source\<rparr>"

definition is_record :: "json option \<Rightarrow> bool" where
  "is_record v = (case v of Some (JObj es) \<Rightarrow> True | _ \<Rightarrow> False)"

definition providerLockPolicy :: "json option \<Rightarrow> lock_policy" where
  "providerLockPolicy capabilities =
     (case Option.bind capabilities (jfield ''providers'') of
        Some (JObj fs) \<Rightarrow>
          (let message = cleanMessage (jm_get ''message'' fs)
           in if jm_get ''locked'' fs = Some (JBool False)
              then \<lparr>lp_locked = False, lp_allow = [], lp_message = message, lp_source = ServerSource\<rparr>
              else \<lparr>lp_locked = True, lp_allow = APP_PROVIDER_IDS, lp_message = message, lp_source = ServerSource\<rparr>)
      | _ \<Rightarrow> lockedProviderPolicy (if is_record capabilities then MissingSource else DefaultSource))"

definition samePolicy :: "lock_policy \<Rightarrow> lock_policy \<Rightarrow> bool" where
  "samePolicy a b =
     (lp_locked a = lp_locked b \<and> lp_message a = lp_message b \<and> join '','' (lp_allow a) = join '','' (lp_allow b))"

text \<open>The new policy in force and whether it differs from the one before.\<close>

definition applyProviderLockAnswer :: "json option \<Rightarrow> lock_policy \<Rightarrow> lock_policy \<times> bool" where
  "applyProviderLockAnswer capabilities current =
     (let parsed = providerLockPolicy capabilities;
          nxt = (if lp_locked parsed
                 then parsed\<lparr>lp_allow := filter (\<lambda>i. i \<in> set APP_PROVIDER_IDS) (lp_allow parsed)\<rparr> else parsed)
      in (nxt, \<not> samePolicy current nxt))"

definition resetProviderLock :: lock_policy where
  "resetProviderLock = lockedProviderPolicy DefaultSource"

definition providerAllowed :: "json option \<Rightarrow> lock_policy \<Rightarrow> bool" where
  "providerAllowed providerId policy =
     (\<not> lp_locked policy
      \<or> (case jstring providerId of Some s \<Rightarrow> js_lower (js_trim s) \<in> set (lp_allow policy) | None \<Rightarrow> False))"

section \<open>Model references\<close>

definition before_slash :: "string \<Rightarrow> string option" where
  "before_slash s = (case index_of CHR ''/'' s of Some i \<Rightarrow> if 0 < i then Some (take i s) else None | None \<Rightarrow> None)"

definition modelProvider :: "json \<Rightarrow> string option" where
  "modelProvider ref = (case ref of JStr s \<Rightarrow> before_slash (js_trim s) | _ \<Rightarrow> None)"

definition modelRefAllowed :: "lock_policy \<Rightarrow> json \<Rightarrow> bool" where
  "modelRefAllowed policy ref =
     (\<not> lp_locked policy
      \<or> (case modelProvider ref of None \<Rightarrow> True | Some provider \<Rightarrow> provider \<in> set (lp_allow policy)))"

section \<open>Engine environments\<close>

text \<open>An environment maps a name to a text or to \<open>undefined\<close>.\<close>

type_synonym env_map = "(string, string option) jsmap"

definition providerLockEnv :: "lock_policy \<Rightarrow> (string \<times> string) list \<times> string list" where
  "providerLockEnv policy =
     (if \<not> lp_locked policy then ([(''OMNIRUSH_PROVIDER_LOCK'', ''0'')], [])
      else
        ([(''OMNIRUSH_PROVIDER_LOCK'', ''1''), (''OMNIRUSH_PROVIDER_ALLOW'', join '','' (lp_allow policy)),
          (''OMNIRUSH_PROVIDER_LOCK_MESSAGE'', lp_message policy), (''OPENCODE_DISABLE_MODELS_FETCH'', ''1'')],
         ENGINE_CONFIG_INJECTION_ENV))"

definition assign :: "env_map \<Rightarrow> env_map \<Rightarrow> env_map" where
  "assign target source = foldl (\<lambda>e (k, v). jm_set k v e) target source"

definition set_values :: "(string \<times> string) list \<Rightarrow> env_map" where
  "set_values kvs = map (\<lambda>(k, v). (k, Some v)) kvs"

definition delete_keys :: "string list \<Rightarrow> env_map \<Rightarrow> env_map" where
  "delete_keys ks env = foldl (\<lambda>e k. jm_delete k e) env ks"

definition withProviderLockEnv :: "env_map \<Rightarrow> lock_policy \<Rightarrow> env_map" where
  "withProviderLockEnv env policy =
     (let (changes, remove) = providerLockEnv policy in assign (delete_keys remove env) (set_values changes))"

definition finishEngineEnv :: "env_map \<Rightarrow> lock_policy \<Rightarrow> env_map" where
  "finishEngineEnv env policy =
     (let (changes, remove) = providerLockEnv policy
      in assign (delete_keys (filter (\<lambda>k. k \<noteq> ''OPENCODE_CONFIG_DIR'') remove) env) (set_values changes))"

definition lockedEngineEnv :: "env_map \<Rightarrow> env_map \<Rightarrow> lock_policy \<Rightarrow> env_map" where
  "lockedEngineEnv inherited app policy = finishEngineEnv (assign (withProviderLockEnv inherited policy) app) policy"

section \<open>Engine configurations\<close>

text \<open>The properties of an object built by assignments.\<close>

definition assigned_entries :: "(string \<times> json) list \<Rightarrow> (string \<times> json) list" where
  "assigned_entries es = filter (\<lambda>e. fst e \<noteq> ''__proto__'') es"

type_synonym lock_work = "(string \<times> json) list \<times> string list"

definition kept_providers :: "lock_policy \<Rightarrow> (string \<times> json) list \<Rightarrow> (string \<times> json) list" where
  "kept_providers policy ps = assigned_entries (filter (\<lambda>e. fst e \<in> set (lp_allow policy)) ps)"

definition lock_providers :: "lock_policy \<Rightarrow> lock_work \<Rightarrow> lock_work" where
  "lock_providers policy w =
     (case jm_get ''provider'' (fst w) of
        Some (JObj ps) \<Rightarrow>
          (jm_set ''provider'' (JObj (kept_providers policy ps)) (fst w),
           snd w @ map (\<lambda>e. ''provider:'' @ fst e) (filter (\<lambda>e. fst e \<notin> set (lp_allow policy)) ps))
      | _ \<Rightarrow> w)"

definition defines_provider :: "(string \<times> json) list \<Rightarrow> string \<Rightarrow> bool" where
  "defines_provider es i = (case jm_get ''provider'' es of Some (JObj ps) \<Rightarrow> jm_has i ps | _ \<Rightarrow> False)"

definition lock_enabled :: "lock_policy \<Rightarrow> lock_work \<Rightarrow> lock_work" where
  "lock_enabled policy w =
     (jm_set ''enabled_providers''
        (JArr (map JStr (filter (\<lambda>i. i = OMNIRUSH_PROVIDER_ID \<or> defines_provider (fst w) i) (lp_allow policy)))) (fst w),
      snd w)"

definition lock_disabled :: "lock_work \<Rightarrow> lock_work" where
  "lock_disabled w =
     (if jm_has ''disabled_providers'' (fst w)
      then (jm_delete ''disabled_providers'' (fst w), snd w @ [''disabled_providers'']) else w)"

definition lock_model :: "lock_policy \<Rightarrow> lock_work \<Rightarrow> string \<Rightarrow> lock_work" where
  "lock_model policy w key =
     (case jm_get key (fst w) of
        Some v \<Rightarrow> if modelRefAllowed policy v then w else (jm_delete key (fst w), snd w @ [key])
      | None \<Rightarrow> w)"

text \<open>Whether an agent, mode or command names a model of another provider.\<close>

definition foreign_entry :: "lock_policy \<Rightarrow> json \<Rightarrow> bool" where
  "foreign_entry policy entry =
     (case jfield ''model'' entry of Some v \<Rightarrow> \<not> modelRefAllowed policy v | None \<Rightarrow> False)"

definition lock_entry :: "lock_policy \<Rightarrow> string \<times> json \<Rightarrow> string \<times> json" where
  "lock_entry policy e =
     (case snd e of
        JObj fs \<Rightarrow> if foreign_entry policy (snd e) then (fst e, JObj (jm_delete ''model'' fs)) else e
      | _ \<Rightarrow> e)"

definition lock_group :: "lock_policy \<Rightarrow> lock_work \<Rightarrow> string \<Rightarrow> lock_work" where
  "lock_group policy w grp =
     (case jm_get grp (fst w) of
        Some (JObj entries) \<Rightarrow>
          (jm_set grp (JObj (assigned_entries (map (lock_entry policy) entries))) (fst w),
           snd w @ map (\<lambda>e. grp @ ''.'' @ fst e @ ''.model'') (filter (\<lambda>e. foreign_entry policy (snd e)) entries))
      | _ \<Rightarrow> w)"

definition lock_entries :: "lock_policy \<Rightarrow> (string \<times> json) list \<Rightarrow> lock_work" where
  "lock_entries policy es =
     foldl (lock_group policy)
       (foldl (lock_model policy) (lock_disabled (lock_enabled policy (lock_providers policy (es, []))))
         [''model'', ''small_model''])
       [''agent'', ''mode'', ''command'']"

definition lockEngineConfig :: "json \<Rightarrow> lock_policy \<Rightarrow> json \<times> string list" where
  "lockEngineConfig config policy =
     (case config of
        JObj es \<Rightarrow> if \<not> lp_locked policy then (config, []) else (let w = lock_entries policy es in (JObj (fst w), snd w))
      | _ \<Rightarrow> (config, []))"

text \<open>\<open>String(v)\<close>: \<open>None\<close> is the \<open>TypeError\<close> for an object that hides \<open>toString\<close>.\<close>

fun js_text :: "json \<Rightarrow> string option" and js_elements :: "json list \<Rightarrow> string list option" where
  "js_text JNull = Some ''null''"
| "js_text (JBool b) = Some (if b then ''true'' else ''false'')"
| "js_text (JNum n) = Some (js_number_text n)"
| "js_text (JStr s) = Some s"
| "js_text (JArr vs) = map_option (join '','') (js_elements vs)"
| "js_text (JObj es) = (if jm_has ''toString'' es then None else Some ''[object Object]'')"
| "js_elements [] = Some []"
| "js_elements (v # vs) =
     (case (if v = JNull then Some [] else js_text v) of
        None \<Rightarrow> None
      | Some s \<Rightarrow> map_option (\<lambda>ss. s # ss) (js_elements vs))"

text \<open>The ids of \<open>enabled_providers\<close> outside the lock; \<open>None\<close> is the \<open>TypeError\<close>.\<close>

fun foreign_enabled :: "lock_policy \<Rightarrow> json list \<Rightarrow> string list option" where
  "foreign_enabled policy [] = Some []"
| "foreign_enabled policy (i # ids) =
     (case js_text i of
        None \<Rightarrow> None
      | Some s \<Rightarrow>
          map_option (\<lambda>r. if s \<in> set (lp_allow policy) then r else (''enabled_providers:'' @ s) # r)
            (foreign_enabled policy ids))"

definition providerLockConfigViolations :: "json \<Rightarrow> lock_policy \<Rightarrow> string list option" where
  "providerLockConfigViolations config policy =
     (if \<not> lp_locked policy \<or> \<not> is_record (Some config) then Some []
      else
        (let removed = filter (\<lambda>item. item \<noteq> ''disabled_providers'') (snd (lockEngineConfig config policy))
         in case jfield ''enabled_providers'' config of
              Some (JArr ids) \<Rightarrow> map_option (\<lambda>r. removed @ r) (foreign_enabled policy ids)
            | _ \<Rightarrow> Some removed))"

definition configAddsPlugins :: "json \<Rightarrow> bool" where
  "configAddsPlugins config =
     (case jfield ''plugin'' config of
        Some (JStr s) \<Rightarrow> js_trim s \<noteq> []
      | Some (JArr vs) \<Rightarrow> vs \<noteq> []
      | _ \<Rightarrow> False)"

section \<open>Errors and checks\<close>

text \<open>What a check throws: an answer of the server, or an error of the standard library.\<close>

datatype lock_error = ApiError nat string string | UriError | TypeFailure

definition INVALID_ENGINE_PATH_CODE :: string where
  "INVALID_ENGINE_PATH_CODE = ''invalid_engine_path''"

definition PROVIDER_RESERVED_CODE :: string where
  "PROVIDER_RESERVED_CODE = ''provider_reserved''"

definition PROVIDER_RESERVED_MESSAGE :: string where
  "PROVIDER_RESERVED_MESSAGE = ''The OmniRush provider is set by the app only.''"

definition providerLockedError :: "lock_policy \<Rightarrow> lock_error" where
  "providerLockedError policy = ApiError 403 PROVIDER_LOCKED_CODE (lp_message policy)"

definition assertProviderAllowed :: "json option \<Rightarrow> lock_policy \<Rightarrow> lock_error + unit" where
  "assertProviderAllowed providerId policy =
     (if providerAllowed providerId policy then Inr () else Inl (providerLockedError policy))"

definition assertProviderWritable :: "string \<Rightarrow> lock_policy \<Rightarrow> lock_error + unit" where
  "assertProviderWritable providerId policy =
     (if js_lower (js_trim providerId) \<in> set APP_PROVIDER_IDS
      then Inl (ApiError 403 PROVIDER_RESERVED_CODE PROVIDER_RESERVED_MESSAGE)
      else assertProviderAllowed (Some (JStr providerId)) policy)"

definition assertProvidersUnlocked :: "lock_policy \<Rightarrow> lock_error + unit" where
  "assertProvidersUnlocked policy = (if lp_locked policy then Inl (providerLockedError policy) else Inr ())"

definition assertPluginsUnlocked :: "lock_policy \<Rightarrow> lock_error + unit" where
  "assertPluginsUnlocked policy =
     (if lp_locked policy then Inl (ApiError 403 PLUGINS_LOCKED_CODE PLUGINS_OFF_MESSAGE) else Inr ())"

definition assertConfigWithinProviderLock :: "json \<Rightarrow> lock_policy \<Rightarrow> lock_error + unit" where
  "assertConfigWithinProviderLock config policy =
     (case providerLockConfigViolations config policy of
        None \<Rightarrow> Inl TypeFailure
      | Some removed \<Rightarrow> if removed = [] then Inr () else Inl (providerLockedError policy))"

definition assertConfigWithinLock :: "json \<Rightarrow> lock_policy \<Rightarrow> lock_error + unit" where
  "assertConfigWithinLock config policy =
     (case assertConfigWithinProviderLock config policy of
        Inl e \<Rightarrow> Inl e
      | Inr _ \<Rightarrow> if configAddsPlugins config then assertPluginsUnlocked policy else Inr ())"

section \<open>Engine routes\<close>

definition odd_char :: "char \<Rightarrow> bool" where
  "odd_char c = (c = CHR 0x5C \<or> c = CHR '';'' \<or> c = CHR 0x00)"

text \<open>\<open>/%(?:2e|2f|5c|3b|00)/i\<close>.\<close>

fun odd_escape :: "string \<Rightarrow> bool" where
  "odd_escape [] = False"
| "odd_escape (c # s) =
     ((c = CHR ''%'' \<and> upper_ascii (take 2 s) \<in> set [''2E'', ''2F'', ''5C'', ''3B'', ''00'']) \<or> odd_escape s)"

text \<open>\<open>replace(/\/{2,}/g, "/")\<close>.\<close>

fun collapse_slashes :: "string \<Rightarrow> string" where
  "collapse_slashes [] = []"
| "collapse_slashes [c] = [c]"
| "collapse_slashes (c # d # s) =
     (if c = CHR ''/'' \<and> d = CHR ''/'' then collapse_slashes (d # s) else c # collapse_slashes (d # s))"

definition engineRoutePath :: "(string \<Rightarrow> string) \<Rightarrow> string \<Rightarrow> lock_error + string" where
  "engineRoutePath url_path raw =
     (let refuse = Inl (ApiError 400 INVALID_ENGINE_PATH_CODE ''This engine route is not accepted.'');
          path = takeWhile (\<lambda>c. c \<noteq> CHR ''?'') raw
      in if list_ex odd_char path \<or> odd_escape path then refuse
         else
           (case decode_component path of
              None \<Rightarrow> refuse
            | Some decoded \<Rightarrow>
                (if list_ex odd_char decoded \<or> list_ex (\<lambda>s. s = ''.'' \<or> s = ''..'') (split_on CHR ''/'' decoded)
                 then refuse
                 else
                   (let collapsed = collapse_slashes decoded
                    in Inr (url_path (if starts_with ''/'' collapsed then collapsed else CHR ''/'' # collapsed))))))"

text \<open>
  \<open>replace(/^\/name(?=\/|$)/, "")\<close>: \<open>norm\<close> is \<open>upper_ascii\<close> for a pattern without case, and
  \<open>at_end\<close> says whether the text may end behind the word.
\<close>

definition word_follows :: "bool \<Rightarrow> (string \<Rightarrow> string) \<Rightarrow> string \<Rightarrow> string \<Rightarrow> bool" where
  "word_follows at_end norm w p =
     (norm (take (length w) p) = norm w
      \<and> (case drop (length w) p of [] \<Rightarrow> at_end | c # _ \<Rightarrow> c = CHR ''/''))"

definition strip_api :: "string \<Rightarrow> string" where
  "strip_api p = (if word_follows False upper_ascii ''/api'' p then drop 4 p else p)"

definition strip_opencode :: "(string \<Rightarrow> string) \<Rightarrow> string \<Rightarrow> string" where
  "strip_opencode norm p =
     (if word_follows True norm ''/opencode2'' p then drop 10 p
      else if word_follows True norm ''/opencode'' p then drop 9 p
      else p)"

definition same_i :: "string \<Rightarrow> string \<Rightarrow> bool" where
  "same_i a b = (upper_ascii a = upper_ascii b)"

text \<open>The segments behind the leading slash of a path.\<close>

definition route_segments :: "string \<Rightarrow> string list" where
  "route_segments path = (case path of c # p \<Rightarrow> if c = CHR ''/'' then split_on c p else [] | [] \<Rightarrow> [])"

definition auth_route :: "string list \<Rightarrow> string option" where
  "auth_route segs =
     (case segs of
        a # i # rest \<Rightarrow> if same_i a ''auth'' \<and> i \<noteq> [] \<and> (rest = [] \<or> rest = [[]]) then Some i else None
      | _ \<Rightarrow> None)"

definition oauth_route :: "string list \<Rightarrow> string option" where
  "oauth_route segs =
     (case segs of
        a # i # o' # _ \<Rightarrow> if same_i a ''provider'' \<and> i \<noteq> [] \<and> same_i o' ''oauth'' then Some i else None
      | _ \<Rightarrow> None)"

definition config_route :: "string list \<Rightarrow> bool" where
  "config_route segs =
     (let segs = (case segs of g # rest \<Rightarrow> if same_i g ''global'' then rest else segs | [] \<Rightarrow> [])
      in case segs of c # rest \<Rightarrow> same_i c ''config'' \<and> (rest = [] \<or> rest = [[]]) | [] \<Rightarrow> False)"

definition session_route :: "string list \<Rightarrow> bool" where
  "session_route segs = (case segs of s # _ \<Rightarrow> same_i s ''session'' | [] \<Rightarrow> False)"

section \<open>Engine requests\<close>

text \<open>\<open>None\<close> stands for \<open>undefined\<close> and for \<open>null\<close>, which the caller treats alike.\<close>

definition modelProviderOf :: "json option \<Rightarrow> string option" where
  "modelProviderOf v =
     (case v of
        Some (JStr s) \<Rightarrow> before_slash s
      | Some (JObj fs) \<Rightarrow> jstring (jm_get ''providerID'' fs)
      | _ \<Rightarrow> None)"

definition part_models :: "json \<Rightarrow> json option list" where
  "part_models body =
     (case jfield ''parts'' body of
        Some (JArr parts) \<Rightarrow> map (jfield ''model'') (filter (\<lambda>p. is_record (Some p)) parts)
      | _ \<Rightarrow> [])"

definition request_models :: "json \<Rightarrow> json option list" where
  "request_models body =
     [jfield ''model'' body, map_option (\<lambda>v. JObj [(''providerID'', v)]) (jfield ''providerID'' body)] @ part_models body"

definition foreign_model :: "lock_policy \<Rightarrow> json option \<Rightarrow> bool" where
  "foreign_model policy v =
     (case modelProviderOf v of None \<Rightarrow> False | Some p \<Rightarrow> \<not> providerAllowed (Some (JStr p)) policy)"

definition denial_of_provider :: "lock_policy \<Rightarrow> string \<Rightarrow> lock_error + string option" where
  "denial_of_provider policy i =
     (case decode_component i of
        None \<Rightarrow> Inl UriError
      | Some d \<Rightarrow> Inr (if providerAllowed (Some (JStr d)) policy then None else Some (lp_message policy)))"

definition engineRequestProviderLockDenial ::
  "string \<Rightarrow> string \<Rightarrow> json \<Rightarrow> lock_policy \<Rightarrow> lock_error + string option" where
  "engineRequestProviderLockDenial http_method enginePath body policy =
     (if \<not> lp_locked policy then Inr None
      else if upper_ascii http_method \<in> set [''GET'', ''HEAD'', ''OPTIONS'', ''DELETE''] then Inr None
      else
        (let segs = route_segments (strip_api enginePath)
         in case auth_route segs of
              Some i \<Rightarrow> denial_of_provider policy i
            | None \<Rightarrow>
                (case oauth_route segs of
                   Some i \<Rightarrow> denial_of_provider policy i
                 | None \<Rightarrow>
                     (if config_route segs then
                        (if configAddsPlugins body then Inr (Some PLUGINS_OFF_MESSAGE)
                         else
                           (case providerLockConfigViolations body policy of
                              None \<Rightarrow> Inl TypeFailure
                            | Some removed \<Rightarrow> Inr (if removed = [] then None else Some (lp_message policy))))
                      else if session_route segs \<and> list_ex (foreign_model policy) (request_models body)
                      then Inr (Some (lp_message policy))
                      else Inr None))))"

text \<open>An empty denial is falsy.\<close>

definition assertEngineRequestWithinProviderLock :: "string \<Rightarrow> string \<Rightarrow> json \<Rightarrow> lock_policy \<Rightarrow> lock_error + unit" where
  "assertEngineRequestWithinProviderLock http_method enginePath body policy =
     (case engineRequestProviderLockDenial http_method enginePath body policy of
        Inl e \<Rightarrow> Inl e
      | Inr None \<Rightarrow> Inr ()
      | Inr (Some denial) \<Rightarrow>
          (if denial = [] then Inr ()
           else Inl (ApiError 403 (if denial = PLUGINS_OFF_MESSAGE then PLUGINS_LOCKED_CODE else PROVIDER_LOCKED_CODE) denial)))"

text \<open>\<open>parse\<close> is \<open>JSON.parse\<close> with \<open>None\<close> for its error; a missing or unreadable body is the empty text.\<close>

definition request_body :: "(string \<Rightarrow> json option) \<Rightarrow> string \<Rightarrow> json" where
  "request_body parse text =
     (if js_trim text \<noteq> [] \<and> is_record (parse text) then the (parse text) else JObj [])"

definition assertProxiedEngineRequestWithinProviderLock ::
  "(string \<Rightarrow> string) \<Rightarrow> (string \<Rightarrow> json option) \<Rightarrow> string \<Rightarrow> string \<Rightarrow> string \<Rightarrow> lock_policy \<Rightarrow> lock_error + unit" where
  "assertProxiedEngineRequestWithinProviderLock url_path parse http_method text path policy =
     (if http_method \<in> set [''GET'', ''HEAD'', ''OPTIONS''] then Inr ()
      else
        (case engineRoutePath url_path path of
           Inl e \<Rightarrow> Inl e
         | Inr clean \<Rightarrow>
             (if \<not> lp_locked policy \<or> http_method = ''DELETE'' then Inr ()
              else assertEngineRequestWithinProviderLock http_method (strip_opencode id clean) (request_body parse text) policy)))"

section \<open>Engines that were started before the lock\<close>

definition WORK_ROUTES :: "string list" where
  "WORK_ROUTES =
     [''prompt'', ''prompt_async'', ''message'', ''command'', ''shell'', ''summarize'', ''init'', ''revert'', ''unrevert'']"

definition strip_slashes :: "string \<Rightarrow> string" where
  "strip_slashes p = rev (dropWhile (\<lambda>c. c = CHR ''/'') (rev p))"

definition isModelWorkRequest :: "string \<Rightarrow> string \<Rightarrow> bool" where
  "isModelWorkRequest http_method enginePath =
     (upper_ascii http_method = ''POST''
      \<and> (case route_segments (strip_slashes (strip_api (strip_opencode upper_ascii enginePath))) of
            [s] \<Rightarrow> same_i s ''session''
          | [s, i, w] \<Rightarrow> same_i s ''session'' \<and> i \<noteq> [] \<and> list_ex (same_i w) WORK_ROUTES
          | _ \<Rightarrow> False))"

definition PROVIDER_SWITCHING_MESSAGE :: string where
  "PROVIDER_SWITCHING_MESSAGE = ''Switching to OmniRush models, retry in a moment.''"

definition engineStartedUnlocked :: "(string \<Rightarrow> string) \<Rightarrow> (string, bool) jsmap \<Rightarrow> string \<Rightarrow> bool" where
  "engineStartedUnlocked origin engineStarts url = (jm_get (origin url) engineStarts = Some False)"

definition noteEngineStarted :: "(string \<Rightarrow> string) \<Rightarrow> string \<Rightarrow> lock_policy \<Rightarrow> (string, bool) jsmap \<Rightarrow> (string, bool) jsmap" where
  "noteEngineStarted origin url policy engineStarts = jm_set (origin url) (lp_locked policy) engineStarts"

definition assertEngineStartedWithinLock ::
  "(string \<Rightarrow> string) \<Rightarrow> (string \<Rightarrow> string) \<Rightarrow> (string, bool) jsmap \<Rightarrow> string option \<Rightarrow> string \<Rightarrow> string \<Rightarrow> lock_policy \<Rightarrow> bool
    \<Rightarrow> lock_error + unit" where
  "assertEngineStartedWithinLock url_path origin engineStarts engineUrl http_method enginePath policy switching =
     (case engineUrl of
        None \<Rightarrow> Inr ()
      | Some url \<Rightarrow>
          (if \<not> lp_locked policy \<or> url = [] then Inr ()
           else
             (case engineRoutePath url_path enginePath of
                Inl e \<Rightarrow> Inl e
              | Inr route \<Rightarrow>
                  (if \<not> isModelWorkRequest http_method route then Inr ()
                   else if jm_get (origin url) engineStarts \<noteq> Some False then Inr ()
                   else if switching then Inl (ApiError 503 PROVIDER_LOCKED_CODE PROVIDER_SWITCHING_MESSAGE)
                   else Inl (ApiError 403 PROVIDER_LOCKED_CODE (lp_message policy @ '' Restart the app to continue.''))))))"

record lock_status =
  ls_locked :: bool
  ls_allow :: "string list"
  ls_message :: string
  ls_source :: lock_source
  ls_pluginsOff :: bool
  ls_pluginsMessage :: "string option"
  ls_userPlugins :: nat

definition providerLockStatus :: "lock_policy \<Rightarrow> nat \<Rightarrow> lock_status" where
  "providerLockStatus policy userPlugins =
     \<lparr>ls_locked = lp_locked policy, ls_allow = lp_allow policy, ls_message = lp_message policy,
      ls_source = lp_source policy, ls_pluginsOff = lp_locked policy,
      ls_pluginsMessage = (if lp_locked policy then Some PLUGINS_OFF_MESSAGE else None), ls_userPlugins = userPlugins\<rparr>"

section \<open>The watch\<close>

text \<open>
  The state of the module and of one \<open>watchProviderLock\<close>. A tick starts a read unless one is
  under way; the answer, \<open>None\<close> for a failed read, is taken, and a change is applied before the watch
  is free again. Other readers (the one at the start of the server) take their answers as well.
\<close>

datatype watch_phase = WatchIdle | WatchReading | WatchApplying

record lock_app =
  la_current :: lock_policy
  la_watch :: watch_phase
  la_engineStarts :: "(string, bool) jsmap"

datatype lock_event = WatchTick | WatchRead "json option" | WatchApplied | AnswerTaken "json option" | LockReset
  | EngineNoted string lock_policy | EngineStartsReset

definition lock_app0 :: lock_app where
  "lock_app0 = \<lparr>la_current = lockedProviderPolicy DefaultSource, la_watch = WatchIdle, la_engineStarts = []\<rparr>"

definition take_answer :: "json option \<Rightarrow> lock_app \<Rightarrow> lock_app" where
  "take_answer capabilities a = a\<lparr>la_current := fst (applyProviderLockAnswer capabilities (la_current a))\<rparr>"

inductive lock_step :: "(string \<Rightarrow> string) \<Rightarrow> lock_app \<Rightarrow> lock_event \<Rightarrow> lock_app \<Rightarrow> bool"
  for origin :: "string \<Rightarrow> string" where
  tick: "lock_step origin a WatchTick (if la_watch a = WatchIdle then a\<lparr>la_watch := WatchReading\<rparr> else a)"
| read: "la_watch a = WatchReading \<Longrightarrow>
    lock_step origin a (WatchRead c)
      ((take_answer c a)\<lparr>la_watch := if snd (applyProviderLockAnswer c (la_current a)) then WatchApplying else WatchIdle\<rparr>)"
| applied: "la_watch a = WatchApplying \<Longrightarrow> lock_step origin a WatchApplied (a\<lparr>la_watch := WatchIdle\<rparr>)"
| answer: "lock_step origin a (AnswerTaken c) (take_answer c a)"
| reset: "lock_step origin a LockReset (a\<lparr>la_current := resetProviderLock\<rparr>)"
| noted: "lock_step origin a (EngineNoted url policy)
    (a\<lparr>la_engineStarts := noteEngineStarted origin url policy (la_engineStarts a)\<rparr>)"
| forgotten: "lock_step origin a EngineStartsReset (a\<lparr>la_engineStarts := []\<rparr>)"

inductive lock_run :: "(string \<Rightarrow> string) \<Rightarrow> lock_event list \<Rightarrow> lock_app \<Rightarrow> bool"
  for origin :: "string \<Rightarrow> string" where
  start: "lock_run origin [] lock_app0"
| step: "lock_run origin es a \<Longrightarrow> lock_step origin a e a' \<Longrightarrow> lock_run origin (es @ [e]) a'"

inductive_cases lock_stepE: "lock_step origin a e a'"

section \<open>What a locked configuration is\<close>

text \<open>Whether a model reference stays within the allowed providers.\<close>

definition names_allowed :: "string list \<Rightarrow> json \<Rightarrow> bool" where
  "names_allowed allow v = (case modelProvider v of None \<Rightarrow> True | Some p \<Rightarrow> p \<in> set allow)"

definition within_lock :: "string list \<Rightarrow> (string \<times> json) list \<Rightarrow> bool" where
  "within_lock allow es =
     ((\<forall>ps. jm_get ''provider'' es = Some (JObj ps) \<longrightarrow> fst ` set ps \<subseteq> set allow)
      \<and> (\<forall>key \<in> {''model'', ''small_model''}. \<forall>v. jm_get key es = Some v \<longrightarrow> names_allowed allow v)
      \<and> (\<forall>grp \<in> {''agent'', ''mode'', ''command''}. \<forall>entries name fs v.
            jm_get grp es = Some (JObj entries) \<longrightarrow> (name, JObj fs) \<in> set entries \<longrightarrow> jm_get ''model'' fs = Some v
            \<longrightarrow> names_allowed allow v))"

definition enabled_within :: "string list \<Rightarrow> (string \<times> json) list \<Rightarrow> bool" where
  "enabled_within allow es =
     (\<forall>ids. jm_get ''enabled_providers'' es = Some (JArr ids) \<longrightarrow> (\<forall>i \<in> set ids. \<exists>s. js_text i = Some s \<and> s \<in> set allow))"

definition LOCKED_KEYS :: "string list" where
  "LOCKED_KEYS = [''provider'', ''enabled_providers'', ''disabled_providers'', ''model'', ''small_model'', ''agent'', ''mode'', ''command'']"

section \<open>The passes over a configuration\<close>

lemma jm_set_same: "jm_get k m = Some v \<Longrightarrow> jm_set k v m = m"
  by (induction k v m rule: jm_set.induct) (auto split: if_splits)

lemma modelRefAllowed_locked: "lp_locked p \<Longrightarrow> modelRefAllowed p v = names_allowed (lp_allow p) v"
  by (simp add: modelRefAllowed_def names_allowed_def)

text \<open>What each pass takes out, of the entry it looks at.\<close>

definition providers_out :: "lock_policy \<Rightarrow> json option \<Rightarrow> string list" where
  "providers_out p v =
     (case v of
        Some (JObj ps) \<Rightarrow> map (\<lambda>e. ''provider:'' @ fst e) (filter (\<lambda>e. fst e \<notin> set (lp_allow p)) ps)
      | _ \<Rightarrow> [])"

definition model_out :: "lock_policy \<Rightarrow> string \<Rightarrow> json option \<Rightarrow> string list" where
  "model_out p key v = (case v of Some v \<Rightarrow> if modelRefAllowed p v then [] else [key] | None \<Rightarrow> [])"

definition group_out :: "lock_policy \<Rightarrow> string \<Rightarrow> json option \<Rightarrow> string list" where
  "group_out p grp v =
     (case v of
        Some (JObj es) \<Rightarrow> map (\<lambda>e. grp @ ''.'' @ fst e @ ''.model'') (filter (\<lambda>e. foreign_entry p (snd e)) es)
      | _ \<Rightarrow> [])"

text \<open>What each pass leaves of it.\<close>

definition providers_kept :: "lock_policy \<Rightarrow> json option \<Rightarrow> json option" where
  "providers_kept p v = (case v of Some (JObj ps) \<Rightarrow> Some (JObj (kept_providers p ps)) | _ \<Rightarrow> v)"

definition model_kept :: "lock_policy \<Rightarrow> json option \<Rightarrow> json option" where
  "model_kept p v = (case v of Some w \<Rightarrow> if modelRefAllowed p w then v else None | None \<Rightarrow> None)"

definition group_kept :: "lock_policy \<Rightarrow> json option \<Rightarrow> json option" where
  "group_kept p v =
     (case v of Some (JObj es) \<Rightarrow> Some (JObj (assigned_entries (map (lock_entry p) es))) | _ \<Rightarrow> v)"

lemma lock_providers_get: "jm_get k (fst (lock_providers p w)) = (if k = ''provider'' then providers_kept p (jm_get k (fst w)) else jm_get k (fst w))"
  by (simp add: lock_providers_def providers_kept_def split: option.split json.split)

lemma lock_providers_out: "snd (lock_providers p w) = snd w @ providers_out p (jm_get ''provider'' (fst w))"
  by (simp add: lock_providers_def providers_out_def split: option.split json.split)

lemma lock_model_get: "jm_get k (fst (lock_model p w key)) = (if k = key then model_kept p (jm_get k (fst w)) else jm_get k (fst w))"
  by (simp add: lock_model_def model_kept_def split: option.split)

lemma lock_model_out: "snd (lock_model p w key) = snd w @ model_out p key (jm_get key (fst w))"
  by (simp add: lock_model_def model_out_def split: option.split)

lemma lock_group_get: "jm_get k (fst (lock_group p w g)) = (if k = g then group_kept p (jm_get k (fst w)) else jm_get k (fst w))"
  by (simp add: lock_group_def group_kept_def split: option.split json.split)

lemma lock_group_out: "snd (lock_group p w g) = snd w @ group_out p g (jm_get g (fst w))"
  by (simp add: lock_group_def group_out_def split: option.split json.split)

lemma lock_disabled_get: "jm_get k (fst (lock_disabled w)) = (if k = ''disabled_providers'' then None else jm_get k (fst w))"
  by (auto simp: lock_disabled_def jm_has_def)

lemma lock_disabled_out:
  "snd (lock_disabled w) = snd w @ (if jm_has ''disabled_providers'' (fst w) then [''disabled_providers''] else [])"
  by (simp add: lock_disabled_def)

definition enabled_now :: "lock_policy \<Rightarrow> json option \<Rightarrow> json" where
  "enabled_now p v =
     JArr (map JStr (filter (\<lambda>i. i = OMNIRUSH_PROVIDER_ID \<or> (case v of Some (JObj ps) \<Rightarrow> jm_has i ps | _ \<Rightarrow> False)) (lp_allow p)))"

lemma lock_enabled_get: "jm_get k (fst (lock_enabled p w)) = (if k = ''enabled_providers'' then Some (enabled_now p (jm_get ''provider'' (fst w))) else jm_get k (fst w))"
  by (simp add: lock_enabled_def enabled_now_def defines_provider_def)

lemma lock_enabled_out: "snd (lock_enabled p w) = snd w"
  by (simp add: lock_enabled_def)

lemmas lock_gets = lock_providers_get lock_model_get lock_group_get lock_disabled_get lock_enabled_get
lemmas lock_outs = lock_providers_out lock_model_out lock_group_out lock_disabled_out lock_enabled_out

lemma lock_entries_get:
  "jm_get k (fst (lock_entries p es)) =
     (if k = ''provider'' then providers_kept p (jm_get k es)
      else if k = ''enabled_providers'' then Some (enabled_now p (providers_kept p (jm_get ''provider'' es)))
      else if k = ''disabled_providers'' then None
      else if k = ''model'' \<or> k = ''small_model'' then model_kept p (jm_get k es)
      else if k = ''agent'' \<or> k = ''mode'' \<or> k = ''command'' then group_kept p (jm_get k es)
      else jm_get k es)"
  by (simp add: lock_entries_def lock_gets)

lemma lock_entries_out:
  "snd (lock_entries p es) =
     providers_out p (jm_get ''provider'' es)
     @ (if jm_has ''disabled_providers'' es then [''disabled_providers''] else [])
     @ model_out p ''model'' (jm_get ''model'' es) @ model_out p ''small_model'' (jm_get ''small_model'' es)
     @ group_out p ''agent'' (jm_get ''agent'' es) @ group_out p ''mode'' (jm_get ''mode'' es)
     @ group_out p ''command'' (jm_get ''command'' es)"
  by (simp add: lock_entries_def lock_outs lock_gets jm_has_def)

text \<open>A pass over an entry that is as it should be changes nothing.\<close>

lemma lock_providers_fix:
  "providers_kept p (jm_get ''provider'' (fst w)) = jm_get ''provider'' (fst w) \<Longrightarrow> fst (lock_providers p w) = fst w"
  by (auto simp: lock_providers_def providers_kept_def jm_set_same split: option.split json.split)

lemma lock_enabled_fix:
  "jm_get ''enabled_providers'' (fst w) = Some (enabled_now p (jm_get ''provider'' (fst w))) \<Longrightarrow> fst (lock_enabled p w) = fst w"
  by (simp add: lock_enabled_def enabled_now_def defines_provider_def jm_set_same)

lemma lock_disabled_fix: "jm_get ''disabled_providers'' (fst w) = None \<Longrightarrow> fst (lock_disabled w) = fst w"
  by (simp add: lock_disabled_def jm_has_def)

lemma lock_model_fix: "model_kept p (jm_get key (fst w)) = jm_get key (fst w) \<Longrightarrow> fst (lock_model p w key) = fst w"
  by (auto simp: lock_model_def model_kept_def jm_delete_absent split: option.splits)

lemma lock_group_fix: "group_kept p (jm_get g (fst w)) = jm_get g (fst w) \<Longrightarrow> fst (lock_group p w g) = fst w"
  by (auto simp: lock_group_def group_kept_def jm_set_same split: option.split json.split)

lemma kept_providers_idem [simp]: "kept_providers p (kept_providers p ps) = kept_providers p ps"
  by (simp add: kept_providers_def assigned_entries_def conj_commute conj_left_commute)

lemma providers_kept_idem [simp]: "providers_kept p (providers_kept p v) = providers_kept p v"
  by (simp add: providers_kept_def split: option.split json.split)

lemma model_kept_idem [simp]: "model_kept p (model_kept p v) = model_kept p v"
  by (simp add: model_kept_def split: option.split)

lemma foreign_entry_lock [simp]: "\<not> foreign_entry p (snd (lock_entry p e))"
  by (auto simp: lock_entry_def foreign_entry_def jfield_def split: json.splits option.splits)

lemma fst_lock_entry [simp]: "fst (lock_entry p e) = fst e"
  by (simp add: lock_entry_def split: json.split)

lemma lock_entry_own: "\<not> foreign_entry p (snd e) \<Longrightarrow> lock_entry p e = e"
  by (auto simp: lock_entry_def split: json.split)

lemma assigned_lock_idem:
  "assigned_entries (map (lock_entry p) (assigned_entries (map (lock_entry p) es))) = assigned_entries (map (lock_entry p) es)"
  by (induction es) (simp_all add: assigned_entries_def lock_entry_own)

lemma group_kept_idem [simp]: "group_kept p (group_kept p v) = group_kept p v"
  by (simp add: group_kept_def assigned_lock_idem split: option.split json.split)

lemma lock_entries_fix: "fst (lock_entries p (fst (lock_entries p es))) = fst (lock_entries p es)"
proof -
  show ?thesis
    by (subst (1) lock_entries_def)
      (simp add: lock_providers_fix lock_enabled_fix lock_disabled_fix lock_model_fix lock_group_fix lock_entries_get)
qed

text \<open>When a pass takes nothing out.\<close>

lemma providers_out_Nil: "providers_out p v = [] \<longleftrightarrow> (\<forall>ps. v = Some (JObj ps) \<longrightarrow> fst ` set ps \<subseteq> set (lp_allow p))"
  by (auto simp: providers_out_def filter_empty_conv split: option.split json.split)

lemma model_out_Nil: "lp_locked p \<Longrightarrow> model_out p key v = [] \<longleftrightarrow> (\<forall>w. v = Some w \<longrightarrow> names_allowed (lp_allow p) w)"
  by (auto simp: model_out_def modelRefAllowed_locked split: option.split)

lemma foreign_entry_iff:
  "lp_locked p \<Longrightarrow> foreign_entry p v \<longleftrightarrow> (\<exists>fs w. v = JObj fs \<and> jm_get ''model'' fs = Some w \<and> \<not> names_allowed (lp_allow p) w)"
  by (cases v) (auto simp: foreign_entry_def jfield_def modelRefAllowed_locked split: option.split)

lemma group_out_Nil:
  "lp_locked p \<Longrightarrow> group_out p g v = [] \<longleftrightarrow>
     (\<forall>entries name fs w. v = Some (JObj entries) \<longrightarrow> (name, JObj fs) \<in> set entries \<longrightarrow> jm_get ''model'' fs = Some w
        \<longrightarrow> names_allowed (lp_allow p) w)"
  by (fastforce simp: group_out_def filter_empty_conv foreign_entry_iff split: option.split json.split)

lemma outs_not_disabled:
  "''disabled_providers'' \<notin> set (providers_out p v)"
  "key \<in> {''model'', ''small_model''} \<Longrightarrow> ''disabled_providers'' \<notin> set (model_out p key v)"
  "g \<in> {''agent'', ''mode'', ''command''} \<Longrightarrow> ''disabled_providers'' \<notin> set (group_out p g v)"
  by (auto simp: providers_out_def model_out_def group_out_def split: option.splits json.splits if_splits)

lemma removed_Nil:
  assumes "lp_locked p"
  shows "filter (\<lambda>i. i \<noteq> ''disabled_providers'') (snd (lock_entries p es)) = [] \<longleftrightarrow> within_lock (lp_allow p) es"
proof -
  have "filter (\<lambda>i. i \<noteq> ''disabled_providers'') (snd (lock_entries p es)) = [] \<longleftrightarrow>
      providers_out p (jm_get ''provider'' es) = [] \<and> model_out p ''model'' (jm_get ''model'' es) = []
      \<and> model_out p ''small_model'' (jm_get ''small_model'' es) = [] \<and> group_out p ''agent'' (jm_get ''agent'' es) = []
      \<and> group_out p ''mode'' (jm_get ''mode'' es) = [] \<and> group_out p ''command'' (jm_get ''command'' es) = []"
  proof -
    have all: "filter (\<lambda>i. i \<noteq> d) xs = xs" if "d \<notin> set xs" for d :: string and xs using that by (induction xs) auto
    show ?thesis by (simp add: lock_entries_out all outs_not_disabled)
  qed
  then show ?thesis by (simp add: providers_out_Nil model_out_Nil [OF assms] group_out_Nil [OF assms] within_lock_def conj_assoc)
qed

lemma foreign_enabled_Nil:
  "foreign_enabled p ids = Some [] \<longleftrightarrow> (\<forall>i \<in> set ids. \<exists>s. js_text i = Some s \<and> s \<in> set (lp_allow p))"
  by (induction ids) (auto split: option.splits)

lemma violations_Nil:
  assumes "lp_locked p"
  shows "providerLockConfigViolations (JObj es) p = Some [] \<longleftrightarrow> within_lock (lp_allow p) es \<and> enabled_within (lp_allow p) es"
proof -
  have "jfield ''enabled_providers'' (JObj es) = jm_get ''enabled_providers'' es" by (simp add: jfield_def)
  then show ?thesis
    using assms removed_Nil [OF assms, of es] foreign_enabled_Nil [of p]
    by (auto simp: providerLockConfigViolations_def is_record_def lockEngineConfig_def Let_def enabled_within_def
        split: option.splits json.splits)
qed

lemma outs_of_kept:
  "providers_out p (providers_kept p v) = []" "model_out p key (model_kept p v) = []" "group_out p g (group_kept p v) = []"
  by (auto simp: providers_out_def providers_kept_def kept_providers_def assigned_entries_def model_out_def model_kept_def
      group_out_def group_kept_def filter_empty_conv split: option.split json.split)

lemma lock_entries_clean: "snd (lock_entries p (fst (lock_entries p es))) = []"
  by (simp add: lock_entries_out lock_entries_get outs_of_kept jm_has_def)

lemma locked_entries_within: "lp_locked p \<Longrightarrow> within_lock (lp_allow p) (fst (lock_entries p es))"
  using removed_Nil [of p "fst (lock_entries p es)"] by (simp add: lock_entries_clean)

lemma locked_entries_enabled: "enabled_within (lp_allow p) (fst (lock_entries p es))"
  by (auto simp: enabled_within_def lock_entries_get enabled_now_def)


definition sample_config :: "(string \<times> json) list" where
  "sample_config =
     [(''provider'', JObj [(''omnirush'', JObj []), (''other'', JObj [])]), (''model'', JStr ''other/big''), (''theme'', JStr ''dark''),
      (''agent'', JObj [(''plan'', JObj [(''model'', JStr ''omnirush/a'')]), (''run'', JObj [(''model'', JStr ''other/b'')])])]"


lemma sample_locked:
  "lockEngineConfig (JObj sample_config) (lockedProviderPolicy DefaultSource) =
     (JObj [(''provider'', JObj [(''omnirush'', JObj [])]), (''theme'', JStr ''dark''),
        (''agent'', JObj [(''plan'', JObj [(''model'', JStr ''omnirush/a'')]), (''run'', JObj [])]),
        (''enabled_providers'', JArr [JStr ''omnirush''])],
      [''provider:other'', ''model'', ''agent.run.model''])"
  by code_simp

text \<open>The check of a configuration is exact. While locked it finds nothing exactly if every defined
  provider is allowed, every model of the configuration and of its agents, modes and commands
  belongs to an allowed provider or to none, and every enabled provider is allowed.\<close>

theorem config_violations_exact:
  assumes "lp_locked policy"
  shows "providerLockConfigViolations (JObj es) policy = Some [] \<longleftrightarrow>
    within_lock (lp_allow policy) es \<and> enabled_within (lp_allow policy) es"
  by (rule violations_Nil [OF assms])

theorem config_violations_exact_witness:
  "providerLockConfigViolations (JObj sample_config) (lockedProviderPolicy DefaultSource) = Some [] \<longleftrightarrow>
    within_lock (lp_allow (lockedProviderPolicy DefaultSource)) sample_config
    \<and> enabled_within (lp_allow (lockedProviderPolicy DefaultSource)) sample_config"
  by (rule config_violations_exact) (simp add: lockedProviderPolicy_def)

section \<open>Routes by their segments\<close>

lemma upper_ascii_simps [simp]: "upper_ascii [] = []" "upper_ascii (a @ b) = upper_ascii a @ upper_ascii b"
  by (simp_all add: upper_ascii_def)

lemma upper_words: "upper_ascii ''/api'' = ''/API''" "upper_ascii ''api'' = ''API''"
  by code_simp+

lemma upper_Cons: "upper_ascii (c # s) = upper_ascii [c] @ upper_ascii s"
  by (simp add: upper_ascii_def)

lemma upper_char: "\<exists>d. upper_ascii [c] = [d]"
  by (simp add: upper_ascii_def)

lemma length_upper_ascii [simp]: "length (upper_ascii s) = length s"
  by (simp add: upper_ascii_def)

lemma upper_slash: "CHR ''/'' \<in> set s \<Longrightarrow> CHR ''/'' \<in> set (upper_ascii s)"
  by (force simp: upper_ascii_def Let_def)

lemma upper_is_slash: "upper_ascii [c] = ''/'' \<Longrightarrow> c = CHR ''/''"
proof -
  assume "upper_ascii [c] = ''/''"
  then have "(of_char (if 97 \<le> (of_char c :: nat) \<and> (of_char c :: nat) \<le> 122 then char_of (of_char c - 32 :: nat) else c) :: nat) = 47"
    by (simp add: upper_ascii_def Let_def)
  then have "(of_char c :: nat) = 47" using of_char_less [of c] by (auto split: if_splits)
  then show ?thesis by (simp add: char_code_eq)
qed

lemma route_segments_path: "segs \<noteq> [] \<Longrightarrow> \<forall>s \<in> set segs. CHR ''/'' \<notin> set s \<Longrightarrow> route_segments (absolute_path segs) = segs"
  by (simp add: route_segments_def absolute_path_def split_on_join)

lemma route_segments_slash [simp]: "route_segments (CHR ''/'' # p) = split_on CHR ''/'' p"
  by (simp add: route_segments_def)

text \<open>The segments behind \<open>api\<close>, when there are some.\<close>

definition behind_api :: "string list \<Rightarrow> string list" where
  "behind_api segs = (case segs of a # b # rest \<Rightarrow> if same_i a ''api'' then b # rest else segs | _ \<Rightarrow> segs)"

lemma api_word:
  "word_follows False upper_ascii ''/api'' p =
     (upper_ascii (take 4 p) = ''/API'' \<and> (case drop 4 p of [] \<Rightarrow> False | c # _ \<Rightarrow> c = CHR ''/''))"
proof -
  have len: "length ''/api'' = 4" by simp
  show ?thesis unfolding word_follows_def upper_words len ..
qed

lemma api_follows:
  "word_follows False upper_ascii ''/api'' p \<longleftrightarrow> (\<exists>a q. p = CHR ''/'' # a @ CHR ''/'' # q \<and> CHR ''/'' \<notin> set a \<and> same_i a ''api'')"
proof
  assume w: "word_follows False upper_ascii ''/api'' p"
  have u: "upper_ascii (take 4 p) = ''/API''" using w unfolding api_word by (rule conjunct1)
  obtain q where q: "drop 4 p = CHR ''/'' # q" using w unfolding api_word by (cases "drop 4 p") auto
  obtain c a where ca: "take 4 p = c # a" using u by (cases "take 4 p") auto
  have "upper_ascii [c] = ''/''" "upper_ascii a = ''API''"
    using u upper_char [of c] unfolding ca upper_Cons [of c a] by auto
  then have "c = CHR ''/''" "CHR ''/'' \<notin> set a" "same_i a ''api''"
    using upper_is_slash upper_slash [of a] by (auto simp: same_i_def upper_words)
  moreover have "p = take 4 p @ drop 4 p" by simp
  ultimately show "\<exists>a q. p = CHR ''/'' # a @ CHR ''/'' # q \<and> CHR ''/'' \<notin> set a \<and> same_i a ''api''"
    using ca q by (metis append_Cons)
next
  assume "\<exists>a q. p = CHR ''/'' # a @ CHR ''/'' # q \<and> CHR ''/'' \<notin> set a \<and> same_i a ''api''"
  then obtain a q where p: "p = CHR ''/'' # a @ CHR ''/'' # q" and u: "upper_ascii a = ''API''"
    by (auto simp: same_i_def upper_words)
  have "length a = 3" using arg_cong [OF u, of length] by simp
  then obtain x y z where "a = [x, y, z]" by (auto simp: numeral_eq_Suc length_Suc_conv)
  then have "take 4 p = CHR ''/'' # a" "drop 4 p = CHR ''/'' # q" using p by simp_all
  moreover have "upper_ascii (CHR ''/'' # a) = ''/API''" using u upper_Cons [of "CHR ''/''" a] upper_Cons [of "CHR ''/''" "''api''"] upper_words by simp
  ultimately show "word_follows False upper_ascii ''/api'' p" unfolding api_word by simp
qed

lemma strip_api_segments: "route_segments (strip_api p) = behind_api (route_segments p)"
proof (cases "word_follows False upper_ascii ''/api'' p")
  case True
  then obtain a q where p: "p = CHR ''/'' # a @ CHR ''/'' # q" and a: "CHR ''/'' \<notin> set a" and api: "same_i a ''api''"
    unfolding api_follows by blast
  have "length a = 3" using arg_cong [OF api [unfolded same_i_def], of length] by simp
  then have "strip_api p = CHR ''/'' # q" using True p by (simp add: strip_api_def)
  moreover obtain t ts where "split_on CHR ''/'' q = t # ts" by (cases "split_on CHR ''/'' q") auto
  ultimately show ?thesis using p a api by (simp add: split_on_step behind_api_def)
next
  case False
  have "behind_api (route_segments p) = route_segments p"
  proof (cases "\<exists>q. p = CHR ''/'' # q")
    case True
    then obtain q where q: "p = CHR ''/'' # q" by blast
    show ?thesis
    proof (cases "split_on CHR ''/'' q")
      case (Cons s ss)
      show ?thesis
      proof (cases ss)
        case (Cons t ts)
        have "q = s @ CHR ''/'' # join ''/'' (t # ts)"
          using join_split_on [of "CHR ''/''" q] unfolding \<open>split_on CHR ''/'' q = s # ss\<close> Cons by simp
        moreover have "CHR ''/'' \<notin> set s" using split_on_free [of s "CHR ''/''" q] \<open>split_on CHR ''/'' q = s # ss\<close> by simp
        ultimately have "\<not> same_i s ''api''" using False q unfolding api_follows by blast
        then show ?thesis using q \<open>split_on CHR ''/'' q = s # ss\<close> Cons by (simp add: behind_api_def)
      qed (use q \<open>split_on CHR ''/'' q = s # ss\<close> in \<open>simp add: behind_api_def\<close>)
    qed simp
  qed (auto simp: route_segments_def behind_api_def split: list.split)
  then show ?thesis using False by (simp add: strip_api_def)
qed

section \<open>Requests under the lock\<close>

definition id_allowed :: "lock_policy \<Rightarrow> string \<Rightarrow> bool" where
  "id_allowed policy i = (\<exists>d. decode_component i = Some d \<and> js_lower (js_trim d) \<in> set (lp_allow policy))"

text \<open>
  What a locked request may do, by its route: sign in to and store keys of allowed providers,
  write configurations within the lock and without plugins, and start or continue chats with
  models of allowed providers.
\<close>

definition request_within :: "lock_policy \<Rightarrow> string list \<Rightarrow> (string \<times> json) list \<Rightarrow> bool" where
  "request_within policy segs es =
     ((\<forall>a i rest. segs = a # i # rest \<and> same_i a ''auth'' \<and> i \<noteq> [] \<and> rest \<in> {[], [[]]} \<longrightarrow> id_allowed policy i)
      \<and> (\<forall>a i b rest. segs = a # i # b # rest \<and> same_i a ''provider'' \<and> i \<noteq> [] \<and> same_i b ''oauth'' \<longrightarrow> id_allowed policy i)
      \<and> (\<forall>pre c rest. segs = pre @ c # rest \<and> (pre = [] \<or> (\<exists>g. pre = [g] \<and> same_i g ''global'')) \<and> same_i c ''config''
            \<and> rest \<in> {[], [[]]} \<longrightarrow>
          \<not> configAddsPlugins (JObj es) \<and> within_lock (lp_allow policy) es \<and> enabled_within (lp_allow policy) es)
      \<and> (\<forall>a rest. segs = a # rest \<and> same_i a ''session'' \<longrightarrow>
          (\<forall>v \<in> set (request_models (JObj es)). \<forall>p. modelProviderOf v = Some p \<longrightarrow> js_lower (js_trim p) \<in> set (lp_allow policy))))"

lemma route_words:
  "upper_ascii ''auth'' = ''AUTH''" "upper_ascii ''provider'' = ''PROVIDER''" "upper_ascii ''oauth'' = ''OAUTH''"
  "upper_ascii ''global'' = ''GLOBAL''" "upper_ascii ''config'' = ''CONFIG''" "upper_ascii ''session'' = ''SESSION''"
  "upper_ascii ''GET'' = ''GET''" "upper_ascii ''HEAD'' = ''HEAD''" "upper_ascii ''OPTIONS'' = ''OPTIONS''"
  "upper_ascii ''DELETE'' = ''DELETE''"
  by code_simp+

lemma request_within_api: "same_i (hd segs) ''api'' \<Longrightarrow> request_within policy segs es"
  by (auto simp: request_within_def same_i_def route_words upper_words)

lemma behind_api_cases: "behind_api segs = segs \<or> same_i (hd segs) ''api''"
  by (auto simp: behind_api_def split: list.split)

lemma providerAllowed_locked:
  "lp_locked policy \<Longrightarrow> providerAllowed (Some (JStr s)) policy \<longleftrightarrow> js_lower (js_trim s) \<in> set (lp_allow policy)"
  by (simp add: providerAllowed_def jstring_def)

lemma denial_None: "lp_locked policy \<Longrightarrow> denial_of_provider policy i = Inr None \<Longrightarrow> id_allowed policy i"
  by (auto simp: denial_of_provider_def id_allowed_def providerAllowed_locked split: option.splits if_splits)

lemma locked_denial_None:
  assumes p: "lp_locked policy" and m: "upper_ascii m \<notin> set [''GET'', ''HEAD'', ''OPTIONS'', ''DELETE'']"
    and none: "engineRequestProviderLockDenial m enginePath (JObj es) policy = Inr None"
    and segs: "route_segments (strip_api enginePath) = segs"
  shows "request_within policy segs es"
proof -
  note d = none [unfolded engineRequestProviderLockDenial_def Let_def segs]
  have auth: "id_allowed policy i" if "auth_route segs = Some i" for i
    using d p m that denial_None [OF p] by simp
  have oauth: "id_allowed policy i" if "auth_route segs = None" "oauth_route segs = Some i" for i
    using d p m that denial_None [OF p] by simp
  have config: "\<not> configAddsPlugins (JObj es) \<and> within_lock (lp_allow policy) es \<and> enabled_within (lp_allow policy) es"
    if "auth_route segs = None" "oauth_route segs = None" "config_route segs"
    using d p m that violations_Nil [OF p, of es] by (auto split: if_splits option.splits)
  have session: "\<not> list_ex (foreign_model policy) (request_models (JObj es))"
    if "auth_route segs = None" "oauth_route segs = None" "\<not> config_route segs" "session_route segs"
    using d p m that by (auto split: if_splits)
  show ?thesis
    unfolding request_within_def
  proof (intro conjI allI impI)
    fix a i rest
    assume "segs = a # i # rest \<and> same_i a ''auth'' \<and> i \<noteq> [] \<and> rest \<in> {[], [[]]}"
    then show "id_allowed policy i" by (intro auth) (auto simp: auth_route_def)
  next
    fix a i b rest
    assume "segs = a # i # b # rest \<and> same_i a ''provider'' \<and> i \<noteq> [] \<and> same_i b ''oauth''"
    then show "id_allowed policy i"
      by (intro oauth) (auto simp: auth_route_def oauth_route_def same_i_def route_words)
  next
    fix pre c rest
    assume "segs = pre @ c # rest \<and> (pre = [] \<or> (\<exists>g. pre = [g] \<and> same_i g ''global'')) \<and> same_i c ''config'' \<and> rest \<in> {[], [[]]}"
    then have "auth_route segs = None \<and> oauth_route segs = None \<and> config_route segs"
      by (auto simp: auth_route_def oauth_route_def config_route_def same_i_def route_words)
    then show "\<not> configAddsPlugins (JObj es)" "within_lock (lp_allow policy) es" "enabled_within (lp_allow policy) es"
      using config by blast+
  next
    fix a rest
    assume "segs = a # rest \<and> same_i a ''session''"
    then have "auth_route segs = None \<and> oauth_route segs = None \<and> \<not> config_route segs \<and> session_route segs"
      by (auto simp: auth_route_def oauth_route_def config_route_def session_route_def same_i_def route_words split: list.split)
    then have "\<not> list_ex (foreign_model policy) (request_models (JObj es))" using session by blast
    then show "\<forall>v \<in> set (request_models (JObj es)). \<forall>p. modelProviderOf v = Some p \<longrightarrow> js_lower (js_trim p) \<in> set (lp_allow policy)"
      using providerAllowed_locked [OF p] by (fastforce simp: list_ex_iff foreign_model_def)
  qed
qed

lemma request_body_obj: "\<exists>es. request_body parse text = JObj es"
  by (auto simp: request_body_def is_record_def split: option.splits json.splits)


definition sample_body :: json where
  "sample_body = JObj [(''model'', JStr ''omnirush/large''), (''parts'', JArr [JObj [(''model'', JStr ''Omnirush-Claude/x'')]])]"


lemma foreign_part_refused:
  "assertProxiedEngineRequestWithinProviderLock id
     (\<lambda>_. Some (JObj [(''parts'', JArr [JObj [(''model'', JObj [(''providerID'', JStr ''other'')])]])])) ''POST'' ''{}''
     ''/opencode/Session/1/prompt'' (lockedProviderPolicy ServerSource) =
   Inl (ApiError 403 PROVIDER_LOCKED_CODE PROVIDER_LOCK_MESSAGE)"
  by code_simp

text \<open>The id in a route is decoded twice; what is left of a doubly escaped percent sign is no answer but an error.\<close>

lemma doubly_escaped_id:
  "assertProxiedEngineRequestWithinProviderLock id (\<lambda>_. None) ''PUT'' ''{}'' ''/auth/%25zz'' (lockedProviderPolicy ServerSource) =
   Inl UriError"
  by code_simp

section \<open>Environments under the lock\<close>

lemma jm_get_assign: "jm_wf source \<Longrightarrow> jm_get k (assign target source) = (case jm_get k source of Some v \<Rightarrow> Some v | None \<Rightarrow> jm_get k target)"
proof (induction source arbitrary: target)
  case Nil
  then show ?case by (simp add: assign_def)
next
  case (Cons e source)
  obtain k' v where e: "e = (k', v)" by (cases e)
  have wf: "jm_wf source" and fresh: "jm_get k' source = None"
    using Cons.prems e by (auto simp: jm_wf_def jm_get_None_iff)
  have "assign target (e # source) = assign (jm_set k' v target) source" by (simp add: assign_def e)
  then show ?case using Cons.IH [OF wf] fresh e by (auto split: option.split)
qed

lemma jm_get_delete_keys: "jm_get k (delete_keys ks env) = (if k \<in> set ks then None else jm_get k env)"
  by (induction ks arbitrary: env) (auto simp: delete_keys_def)

lemma jm_wf_assign: "jm_wf target \<Longrightarrow> jm_wf (assign target source)"
  by (induction source arbitrary: target) (auto simp: assign_def)

lemma jm_get_set_values: "jm_get k (set_values kvs) = map_option Some (map_of kvs k)"
  by (induction kvs) (auto simp: set_values_def)

lemma lock_values_wf: "jm_wf (set_values (fst (providerLockEnv policy)))"
  by (simp add: providerLockEnv_def set_values_def jm_wf_def)

text \<open>The environment of an engine, variable by variable. Under the lock the lock's own variables
  have the lock's values whatever was inherited or passed, no other source of configuration is
  left, the directory of the configuration is the app's or unset, and every other variable is
  the app's or, where the app has none, inherited. Unlocked, only the switch is set.\<close>

theorem engine_env_exact:
  assumes "jm_wf app"
  shows "jm_get k (lockedEngineEnv inherited app policy) =
    (let passed = (case jm_get k app of Some v \<Rightarrow> Some v | None \<Rightarrow> jm_get k inherited) in
     if k = ''OMNIRUSH_PROVIDER_LOCK'' then Some (Some (if lp_locked policy then ''1'' else ''0''))
     else if \<not> lp_locked policy then passed
     else if k = ''OMNIRUSH_PROVIDER_ALLOW'' then Some (Some (join '','' (lp_allow policy)))
     else if k = ''OMNIRUSH_PROVIDER_LOCK_MESSAGE'' then Some (Some (lp_message policy))
     else if k = ''OPENCODE_DISABLE_MODELS_FETCH'' then Some (Some ''1'')
     else if k = ''OPENCODE_CONFIG_DIR'' then jm_get k app
     else if k \<in> set ENGINE_CONFIG_INJECTION_ENV then None
     else passed)"
proof -
  have get: "jm_get k (lockedEngineEnv inherited app policy) =
      (case map_of (fst (providerLockEnv policy)) k of
         Some v \<Rightarrow> Some (Some v)
       | None \<Rightarrow>
           if k \<noteq> ''OPENCODE_CONFIG_DIR'' \<and> k \<in> set (snd (providerLockEnv policy)) then None
           else case jm_get k app of
                  Some v \<Rightarrow> Some v
                | None \<Rightarrow> if k \<in> set (snd (providerLockEnv policy)) then None else jm_get k inherited)"
    using lock_values_wf [of policy] assms
    by (auto simp: lockedEngineEnv_def finishEngineEnv_def withProviderLockEnv_def split_def Let_def
        jm_get_assign jm_get_delete_keys jm_get_set_values split: option.split)
  show ?thesis
    unfolding get by (simp add: providerLockEnv_def ENGINE_CONFIG_INJECTION_ENV_def Let_def split: option.split)
qed

theorem engine_env_exact_witness:
  "jm_get ''OMNIRUSH_PROVIDER_LOCK'' (lockedEngineEnv [] [(''OMNIRUSH_PROVIDER_LOCK'', Some ''0'')] (lockedProviderPolicy DefaultSource)) = Some (Some ''1'')
   \<and> jm_get ''OPENCODE_MODELS_URL'' (lockedEngineEnv [(''OPENCODE_MODELS_URL'', Some ''x'')] [] (lockedProviderPolicy DefaultSource)) = None"
  by (simp add: engine_env_exact jm_wf_def lockedProviderPolicy_def ENGINE_CONFIG_INJECTION_ENV_def)

section \<open>The policy in force\<close>

text \<open>An answer that unlocks, and the last answer taken, a reset counting as no answer.\<close>

definition unlocks :: "json option \<Rightarrow> bool" where
  "unlocks c = (\<exists>fs gs. c = Some (JObj fs) \<and> jm_get ''providers'' fs = Some (JObj gs) \<and> jm_get ''locked'' gs = Some (JBool False))"

fun answer_of :: "lock_event \<Rightarrow> json option option" where
  "answer_of (WatchRead c) = Some c"
| "answer_of (AnswerTaken c) = Some c"
| "answer_of LockReset = Some None"
| "answer_of _ = None"

definition last_answer :: "lock_event list \<Rightarrow> json option" where
  "last_answer es = foldl (\<lambda>c e. opt_default c (answer_of e)) None es"

definition notes_unlocked :: "(string \<Rightarrow> string) \<Rightarrow> string \<Rightarrow> lock_event \<Rightarrow> bool" where
  "notes_unlocked origin site e = (case e of EngineNoted url policy \<Rightarrow> origin url = site \<and> \<not> lp_locked policy | _ \<Rightarrow> False)"

definition renotes :: "(string \<Rightarrow> string) \<Rightarrow> string \<Rightarrow> lock_event \<Rightarrow> bool" where
  "renotes origin site e = (case e of EngineNoted url _ \<Rightarrow> origin url = site | EngineStartsReset \<Rightarrow> True | _ \<Rightarrow> False)"

definition started_unlocked :: "(string \<Rightarrow> string) \<Rightarrow> string \<Rightarrow> lock_event list \<Rightarrow> bool" where
  "started_unlocked origin site es =
     (\<exists>pre e post. es = pre @ e # post \<and> notes_unlocked origin site e \<and> (\<forall>e' \<in> set post. \<not> renotes origin site e'))"

definition sound_policy :: "lock_policy \<Rightarrow> bool" where
  "sound_policy p = (lp_message p \<noteq> [] \<and> length (lp_message p) \<le> MAX_MESSAGE \<and> lp_allow p = (if lp_locked p then APP_PROVIDER_IDS else []))"

lemma cleanMessage_bounds: "cleanMessage v \<noteq> [] \<and> length (cleanMessage v) \<le> MAX_MESSAGE"
  by (simp add: cleanMessage_def PROVIDER_LOCK_MESSAGE_def MAX_MESSAGE_def Let_def split: option.split)

lemma sound_locked [simp]: "sound_policy (lockedProviderPolicy source)"
  by (simp add: sound_policy_def lockedProviderPolicy_def PROVIDER_LOCK_MESSAGE_def MAX_MESSAGE_def)

lemma sound_made [simp]:
  "sound_policy \<lparr>lp_locked = True, lp_allow = APP_PROVIDER_IDS, lp_message = cleanMessage v, lp_source = source\<rparr>"
  "sound_policy \<lparr>lp_locked = False, lp_allow = [], lp_message = cleanMessage v, lp_source = source\<rparr>"
  using cleanMessage_bounds [of v] by (simp_all add: sound_policy_def)

lemma sound_parsed: "sound_policy (providerLockPolicy c)"
  by (simp add: providerLockPolicy_def Let_def split: option.split json.split)

lemma unlocks_iff:
  "unlocks c \<longleftrightarrow>
     (case Option.bind c (jfield ''providers'') of
        Some (JObj gs) \<Rightarrow> jm_get ''locked'' gs = Some (JBool False)
      | _ \<Rightarrow> False)"
proof (cases c)
  case None
  then show ?thesis by (simp add: unlocks_def)
next
  case (Some v)
  then show ?thesis by (cases v) (simp_all add: unlocks_def jfield_def split: option.split json.split)
qed

lemma locked_parsed: "lp_locked (providerLockPolicy c) \<longleftrightarrow> \<not> unlocks c"
  by (simp add: providerLockPolicy_def Let_def unlocks_iff lockedProviderPolicy_def split: option.split json.split)

lemma applied_policy: "fst (applyProviderLockAnswer c cur) = providerLockPolicy c"
proof -
  have "filter (\<lambda>i. i \<in> set APP_PROVIDER_IDS) (lp_allow (providerLockPolicy c)) = lp_allow (providerLockPolicy c)"
    if "lp_locked (providerLockPolicy c)"
    using sound_parsed [of c] that by (simp add: sound_policy_def)
  then show ?thesis by (simp add: applyProviderLockAnswer_def Let_def)
qed

lemma last_answer_snoc: "last_answer (es @ [e]) = opt_default (last_answer es) (answer_of e)"
  by (simp add: last_answer_def)

lemma last_such_snoc:
  "(\<exists>pre x post. es @ [e] = pre @ x # post \<and> P x \<and> (\<forall>y \<in> set post. Q y)) \<longleftrightarrow>
     P e \<or> Q e \<and> (\<exists>pre x post. es = pre @ x # post \<and> P x \<and> (\<forall>y \<in> set post. Q y))" (is "?l \<longleftrightarrow> ?r")
proof
  assume ?l
  then obtain pre x post where d: "es @ [e] = pre @ x # post" "P x" "\<forall>y \<in> set post. Q y" by blast
  show ?r
  proof (cases post rule: rev_cases)
    case Nil
    then show ?thesis using d by simp
  next
    case (snoc post' y)
    then have "es = pre @ x # post'" "e = y" using d(1) by simp_all
    then show ?thesis using d(2,3) snoc by auto
  qed
next
  assume ?r
  then show ?l
  proof (elim disjE conjE exE)
    assume "P e"
    then show ?l by (intro exI [of _ es] exI [of _ e] exI [of _ "[]"]) simp
  next
    fix pre x post
    assume "Q e" "es = pre @ x # post" "P x" "\<forall>y \<in> set post. Q y"
    then show ?l by (intro exI [of _ pre] exI [of _ x] exI [of _ "post @ [e]"]) auto
  qed
qed

lemma started_unlocked_snoc:
  "started_unlocked origin site (es @ [e]) \<longleftrightarrow>
     notes_unlocked origin site e \<or> \<not> renotes origin site e \<and> started_unlocked origin site es"
  unfolding started_unlocked_def by (rule last_such_snoc)

lemma run_invariant:
  "lock_run origin es a \<Longrightarrow>
     sound_policy (la_current a) \<and> (lp_locked (la_current a) \<longleftrightarrow> \<not> unlocks (last_answer es))
     \<and> (\<forall>site. jm_get site (la_engineStarts a) = Some False \<longleftrightarrow> started_unlocked origin site es)"
proof (induction rule: lock_run.induct)
  case start
  then show ?case by (simp add: lock_app0_def last_answer_def unlocks_def lockedProviderPolicy_def started_unlocked_def
    sound_locked [unfolded lockedProviderPolicy_def])
next
  case (step es a e a')
  have "lp_locked (lockedProviderPolicy DefaultSource)" by (simp add: lockedProviderPolicy_def)
  with step.hyps(2) step.IH show ?case
    by (cases rule: lock_step.cases)
      (auto simp: last_answer_snoc started_unlocked_snoc take_answer_def applied_policy sound_parsed locked_parsed
        resetProviderLock_def noteEngineStarted_def unlocks_def [of None] notes_unlocked_def renotes_def)
qed

text \<open>C12. The app is unlocked only by the server. After any sequence of reads, answers, failures,
  resets and engine starts, the policy in force is unlocked exactly if the last answer says
  \<open>locked: false\<close> in its \<open>providers\<close> block; a failed read, a reset and any other answer lock again; the
  allowed providers are then the app's own, and there is always a message to refuse with.\<close>

theorem lock_follows_last_answer:
  assumes "lock_run origin es a"
  shows "(lp_locked (la_current a) \<longleftrightarrow> \<not> unlocks (last_answer es))
    \<and> lp_allow (la_current a) = (if lp_locked (la_current a) then APP_PROVIDER_IDS else [])
    \<and> lp_message (la_current a) \<noteq> [] \<and> length (lp_message (la_current a)) \<le> MAX_MESSAGE"
  using run_invariant [OF assms] by (simp add: sound_policy_def)

definition unlock_answer :: "json option" where
  "unlock_answer = Some (JObj [(''providers'', JObj [(''locked'', JBool False)])])"

definition sample_lock_events :: "lock_event list" where
  "sample_lock_events =
     [AnswerTaken unlock_answer, EngineNoted ''http://e'' (providerLockPolicy unlock_answer), WatchTick, WatchRead None]"

lemma sample_lock_run: "\<exists>a. lock_run id sample_lock_events a \<and> la_watch a = WatchApplying"
proof -
  let ?p = "providerLockPolicy unlock_answer"
  let ?a1 = "take_answer unlock_answer lock_app0"
  let ?a2 = "?a1\<lparr>la_engineStarts := noteEngineStarted id ''http://e'' ?p (la_engineStarts ?a1)\<rparr>"
  let ?a3 = "?a2\<lparr>la_watch := WatchReading\<rparr>"
  have r1: "lock_run id [AnswerTaken unlock_answer] ?a1"
    using lock_run.step [OF lock_run.start lock_step.answer] by simp
  have r2: "lock_run id [AnswerTaken unlock_answer, EngineNoted ''http://e'' ?p] ?a2"
    using lock_run.step [OF r1 lock_step.noted] by simp
  have idle: "la_watch ?a2 = WatchIdle" by (simp add: take_answer_def lock_app0_def)
  have r3: "lock_run id [AnswerTaken unlock_answer, EngineNoted ''http://e'' ?p, WatchTick] ?a3"
    using lock_run.step [OF r2 lock_step.tick] idle by simp
  let ?a4 = "(take_answer None ?a3)\<lparr>la_watch := if snd (applyProviderLockAnswer None (la_current ?a3)) then WatchApplying else WatchIdle\<rparr>"
  have "la_watch ?a3 = WatchReading" by simp
  from lock_run.step [OF r3 lock_step.read [OF this, where c = None]] have r4: "lock_run id sample_lock_events ?a4"
    by (simp add: sample_lock_events_def)
  have "la_watch ?a4 = WatchApplying" by code_simp
  then show ?thesis using r4 by blast
qed

theorem lock_follows_last_answer_witness:
  "\<exists>a :: lock_app. (lp_locked (la_current a) \<longleftrightarrow> \<not> unlocks (last_answer sample_lock_events))
    \<and> lp_allow (la_current a) = (if lp_locked (la_current a) then APP_PROVIDER_IDS else [])
    \<and> lp_message (la_current a) \<noteq> [] \<and> length (lp_message (la_current a)) \<le> MAX_MESSAGE"
proof -
  obtain a where run: "lock_run id sample_lock_events a" using sample_lock_run by blast
  show ?thesis by (rule exI, rule lock_follows_last_answer [OF run])
qed

text \<open>A stale engine does no work. For a request that makes the engine work, the check passes
  exactly if the app is unlocked by the last answer or the engine at that origin was not last
  started unlocked; otherwise it answers with \<open>provider_locked\<close>, 503 while a new engine takes over
  and 403 else.\<close>

theorem stale_engine_refused:
  assumes run: "lock_run origin es a"
    and work: "engineRoutePath url_path path = Inr route" "isModelWorkRequest http_method route" and url: "url \<noteq> []"
  shows "(assertEngineStartedWithinLock url_path origin (la_engineStarts a) (Some url) http_method path (la_current a) switching
      = Inr () \<longleftrightarrow> unlocks (last_answer es) \<or> \<not> started_unlocked origin (origin url) es)
    \<and> (\<forall>e. assertEngineStartedWithinLock url_path origin (la_engineStarts a) (Some url) http_method path (la_current a) switching
      = Inl e \<longrightarrow> (\<exists>m. e = ApiError (if switching then 503 else 403) PROVIDER_LOCKED_CODE m))"
  using run_invariant [OF run] work url by (auto simp: assertEngineStartedWithinLock_def)


theorem stale_engine_refused_witness:
  "\<exists>a :: lock_app. (assertEngineStartedWithinLock id id (la_engineStarts a) (Some ''http://e'') ''post'' ''/opencode/session/1/prompt'' (la_current a) True
      = Inr () \<longleftrightarrow> unlocks (last_answer sample_lock_events) \<or> \<not> started_unlocked id (id ''http://e'') sample_lock_events)
    \<and> (\<forall>e. assertEngineStartedWithinLock id id (la_engineStarts a) (Some ''http://e'') ''post'' ''/opencode/session/1/prompt''
        (la_current a) True = Inl e \<longrightarrow> (\<exists>m. e = ApiError (if True then 503 else 403) PROVIDER_LOCKED_CODE m))"
proof -
  obtain a where run: "lock_run id sample_lock_events a" using sample_lock_run by blast
  have route: "engineRoutePath id ''/opencode/session/1/prompt'' = Inr ''/opencode/session/1/prompt''" by code_simp
  have work: "isModelWorkRequest ''post'' ''/opencode/session/1/prompt''" by code_simp
  show ?thesis by (rule exI, rule stale_engine_refused [OF run route work]) simp
qed

lemma sample_stale: "\<not> unlocks (last_answer sample_lock_events) \<and> started_unlocked id ''http://e'' sample_lock_events"
proof
  show "\<not> unlocks (last_answer sample_lock_events)" by (simp add: sample_lock_events_def last_answer_def unlocks_def)
  have "\<not> lp_locked (providerLockPolicy unlock_answer)" by code_simp
  then show "started_unlocked id ''http://e'' sample_lock_events"
    unfolding started_unlocked_def sample_lock_events_def
    by (intro exI [of _ "[AnswerTaken unlock_answer]"] exI [of _ "EngineNoted ''http://e'' (providerLockPolicy unlock_answer)"]
        exI [of _ "[WatchTick, WatchRead None]"]) (simp add: notes_unlocked_def renotes_def)
qed

end
