(* ===== verification/TaskRecovery.thy ===== *)
theory TaskRecovery
  imports ProviderLock
begin

text \<open>
  The recovery of interrupted turns (\<open>apps/server/src/task-recovery.ts\<close>). The server keeps a
  journal of running turns; after a restart or the loss of an engine it looks at each of them
  again and, when the same turn is still unfinished, sends one prompt to continue it.

  A record of the journal is an object with an identity (\<open>rr_object\<close>), which a check in flight
  compares with the object that is in the map now. The key of a record is the JSON text of
  the three of them, which tells them apart; it is their tuple here. Everything between two \<open>await\<close>s is one event:
  an answer of the engine, the end of a write, a request of the person, a timer. The payloads of
  the engine's answers, the clock and whether a workspace is still the record's are
  arguments of the events. A write to the journal is taken up by the store in the order of the calls,
  may fail, and is lost with the process. A timeout of the prompt request is its failure
  (\<open>PromptSettled\<close>), and aborts the request where it still waits for its turn. That the workspace of
  a prompt is still a local one was seen when its check began.
\<close>

section \<open>Records\<close>

datatype recovery_engine = EngineV1 | EngineV2

datatype recovery_phase = ObservingPhase | RunningPhase | BlockedPhase | ClaimedPhase

datatype recovery_key = RecoveryKey string (key_engine: recovery_engine) string

record recovery_record =
  rr_workspaceId :: string
  rr_directory :: string
  rr_sessionId :: string
  rr_engine :: recovery_engine
  rr_phase :: recovery_phase
  rr_userId :: "string option"
  rr_shutdown :: bool
  rr_object :: nat

definition RECOVERY_INTERVAL_MS :: int where
  "RECOVERY_INTERVAL_MS = 2000"

definition RECOVERY_CONCURRENCY :: nat where
  "RECOVERY_CONCURRENCY = 2"

definition MAX_TASKS :: nat where
  "MAX_TASKS = 1000"

definition record_key :: "recovery_record \<Rightarrow> recovery_key" where
  "record_key r = RecoveryKey (rr_workspaceId r) (rr_engine r) (rr_sessionId r)"

section \<open>Observations\<close>

record recovery_payload =
  pa_session :: json
  pa_statuses :: json
  pa_messages :: json
  pa_permissions :: json
  pa_questions :: json
  pa_native :: json

record recovery_snapshot =
  sn_active :: bool
  sn_activeCount :: nat
  sn_blocked :: bool
  sn_terminal :: bool
  sn_unfinished :: bool
  sn_userId :: "string option"
  sn_user :: "json option"

text \<open>Answers of the second engine come in a \<open>data\<close> field.\<close>

definition call_payload :: "recovery_engine \<Rightarrow> json \<Rightarrow> json option" where
  "call_payload e payload = (if e = EngineV2 \<and> is_record (Some payload) then jfield ''data'' payload else Some payload)"

definition json_array :: "json option \<Rightarrow> json list option" where
  "json_array v = (case v of Some (JArr vs) \<Rightarrow> Some vs | _ \<Rightarrow> None)"

definition json_truthy :: "json option \<Rightarrow> bool" where
  "json_truthy v = (v \<notin> {None, Some JNull, Some (JBool False), Some (JNum 0), Some (JStr [])})"

text \<open>\<open>names.includes(String(v))\<close>; \<open>None\<close> is the \<open>TypeError\<close>.\<close>

definition text_among :: "json option \<Rightarrow> string list \<Rightarrow> bool option" where
  "text_among v names =
     (case v of None \<Rightarrow> Some (''undefined'' \<in> set names) | Some j \<Rightarrow> map_option (\<lambda>s. s \<in> set names) (js_text j))"

text \<open>\<open>Array.prototype.some\<close> with a test that may throw.\<close>

fun some_hit :: "('a \<Rightarrow> bool option) \<Rightarrow> 'a list \<Rightarrow> bool option" where
  "some_hit P [] = Some False"
| "some_hit P (x # xs) =
     (case P x of None \<Rightarrow> None | Some b \<Rightarrow> if b then Some True else some_hit P xs)"

definition live_status :: "json option \<Rightarrow> bool option" where
  "live_status v =
     (if is_record v then text_among (Option.bind v (jfield ''type'')) [''busy'', ''retry'', ''running''] else Some False)"

fun count_live :: "json list \<Rightarrow> nat option" where
  "count_live [] = Some 0"
| "count_live (v # vs) =
     (case live_status (Some v) of
        None \<Rightarrow> None
      | Some b \<Rightarrow> map_option (\<lambda>n. if b then Suc n else n) (count_live vs))"

text \<open>The messages with their items: the message itself or its \<open>info\<close>.\<close>

definition message_item :: "recovery_engine \<Rightarrow> json \<Rightarrow> (json \<times> json) option" where
  "message_item e m =
     (if \<not> is_record (Some m) then None
      else
        (case (if e = EngineV2 then Some m else jfield ''info'' m) of
           Some item \<Rightarrow> if is_record (Some item) then Some (m, item) else None
         | None \<Rightarrow> None))"

definition item_is :: "recovery_engine \<Rightarrow> string \<Rightarrow> json \<Rightarrow> bool" where
  "item_is e name item = (jfield (if e = EngineV2 then ''type'' else ''role'') item = Some (JStr name))"

definition last_user :: "recovery_engine \<Rightarrow> (json \<times> json) list \<Rightarrow> json option" where
  "last_user e items = find (item_is e ''user'') (rev (map snd items))"

text \<open>What follows the last user message; nothing when there is none.\<close>

definition after_user :: "recovery_engine \<Rightarrow> (json \<times> json) list \<Rightarrow> (json \<times> json) list" where
  "after_user e items =
     (if last_user e items = None then [] else rev (takeWhile (\<lambda>x. \<not> item_is e ''user'' (snd x)) (rev items)))"

definition last_assistant :: "recovery_engine \<Rightarrow> (json \<times> json) list \<Rightarrow> json option" where
  "last_assistant e items = find (item_is e ''assistant'') (rev (map snd (after_user e items)))"

definition delegated_part :: "recovery_engine \<Rightarrow> json \<Rightarrow> bool option" where
  "delegated_part e part =
     (if is_record (Some part) \<and> jfield ''type'' part = Some (JStr ''tool'') then
        (case text_among (jfield (if e = EngineV2 then ''name'' else ''tool'') part) [''task'', ''subagent''] of
           None \<Rightarrow> None
         | Some b \<Rightarrow>
             (if b \<and> is_record (jfield ''state'' part)
              then text_among (Option.bind (jfield ''state'' part) (jfield ''status'')) [''pending'', ''running'']
              else Some False))
      else Some False)"

definition delegated :: "recovery_engine \<Rightarrow> (json \<times> json) list \<Rightarrow> bool option" where
  "delegated e items =
     some_hit (\<lambda>(m, item).
        case json_array (jfield (if e = EngineV2 then ''content'' else ''parts'') m) of
          Some parts \<Rightarrow> some_hit (delegated_part e) parts
        | None \<Rightarrow> Some False) (after_user e items)"

definition waits_for :: "string \<Rightarrow> json list \<Rightarrow> bool" where
  "waits_for sid asks = list_ex (\<lambda>a. is_record (Some a) \<and> jfield ''sessionID'' a = Some (JStr sid)) asks"

definition is_number :: "json option \<Rightarrow> bool" where
  "is_number v = (case v of Some (JNum n) \<Rightarrow> True | _ \<Rightarrow> False)"

definition session_info :: "json \<Rightarrow> json" where
  "session_info session = (case jfield ''info'' session of Some i \<Rightarrow> if is_record (Some i) then i else session | None \<Rightarrow> session)"

definition archived :: "json \<Rightarrow> bool" where
  "archived info =
     (case Option.bind (jfield ''time'' info) (jfield ''archived'') of Some (JNum n) \<Rightarrow> 0 < n | _ \<Rightarrow> False)"

definition aborted :: "json option \<Rightarrow> bool" where
  "aborted assistant =
     (Option.bind (Option.bind assistant (jfield ''error'')) (jfield ''name'') = Some (JStr ''MessageAbortedError''))"

definition completed :: "json option \<Rightarrow> bool" where
  "completed assistant = is_number (Option.bind (Option.bind assistant (jfield ''time'')) (jfield ''completed''))"

definition turn_unfinished :: "bool \<Rightarrow> json \<Rightarrow> json option \<Rightarrow> bool" where
  "turn_unfinished shutdown info assistant =
     (assistant \<noteq> None
        \<and> (\<not> json_truthy (Option.bind assistant (jfield ''error''))
             \<and> (\<not> completed assistant \<or> Option.bind assistant (jfield ''finish'') = Some (JStr ''tool-calls''))
           \<or> shutdown \<and> aborted assistant)
      \<or> shutdown \<and> jfield ''outcome'' info = Some (JStr ''interrupted''))"

definition turn_terminal :: "bool \<Rightarrow> json \<Rightarrow> json option \<Rightarrow> bool" where
  "turn_terminal shutdown info assistant =
     (archived info \<or> jfield ''outcome'' info \<in> {Some (JStr ''succeeded''), Some (JStr ''failed'')}
      \<or> json_truthy (Option.bind assistant (jfield ''error'')) \<and> \<not> (shutdown \<and> aborted assistant))"

text \<open>\<open>observe\<close>: \<open>None\<close> for an answer of the wrong shape or an error of the library.\<close>

definition observe_session :: "recovery_record \<Rightarrow> recovery_payload \<Rightarrow> recovery_snapshot option" where
  "observe_session r p =
     (let e = rr_engine r;
          native = (if e = EngineV2 then Some (JArr []) else Some (pa_native p));
          native = (if is_record native then Option.bind native (jfield ''data'') else native)
      in case (call_payload e (pa_session p), call_payload e (pa_statuses p), json_array (call_payload e (pa_messages p)),
               json_array (call_payload e (pa_permissions p)), json_array (call_payload e (pa_questions p)), json_array native) of
           (Some session, Some (JObj statuses), Some messages, Some permissions, Some questions, Some extra) \<Rightarrow>
             (if \<not> is_record (Some session) then None
              else
                (let info = session_info session;
                     items = List.map_filter (message_item e) messages;
                     user = last_user e items;
                     assistant = last_assistant e items
                 in case (live_status (jm_get (rr_sessionId r) statuses), delegated e items, count_live (map snd statuses)) of
                      (Some active, Some deleg, Some n) \<Rightarrow>
                        Some \<lparr>sn_active = active, sn_activeCount = n,
                              sn_blocked = deleg \<or> waits_for (rr_sessionId r) (permissions @ extra @ questions),
                              sn_terminal = turn_terminal (rr_shutdown r) info assistant,
                              sn_unfinished = turn_unfinished (rr_shutdown r) info assistant,
                              sn_userId = jstring (Option.bind user (jfield ''id'')),
                              sn_user = user\<rparr>
                    | _ \<Rightarrow> None))
         | _ \<Rightarrow> None)"

section \<open>The state of the coordinator\<close>

text \<open>
  The stages of a check: waiting for the sign-in, for the engine's answers, for a write after which
  it ends, for the write of its claim (with the user message it will quote), the claim written,
  and the prompt under way (with whether the request has reached the queue of the session).
  The number is the number of the write; that of a claim names the prompt request.
\<close>

datatype check_stage = ResumingStage | ReadingStage | SavingStage nat | ClaimSaving nat "json option"
  | ClaimSaved nat "json option" | Prompting nat bool

record recovery_check =
  ck_key :: recovery_key
  ck_object :: nat
  ck_stage :: check_stage

text \<open>The queue of mutations of a session: a prompt of the coordinator, with its record and claim, or a request.\<close>

datatype admission_op = OwnedOp nat nat | OtherOp

record admission =
  ad_key :: recovery_key
  ad_op :: admission_op
  ad_running :: bool

datatype forward_stage = ForwardSaving nat bool | ForwardSending

record forward_call =
  fw_key :: recovery_key
  fw_object :: nat
  fw_stage :: forward_stage

datatype stop_stage = NotStopped | StopSaving nat "nat list" | FinalReads "nat list" | StopDone

text \<open>What the engine saw, for the properties: prompts sent, and observations of a running session that were taken.\<close>

datatype recovery_mark = PromptSent recovery_key | SeenActive recovery_key

record recovery =
  tr_records :: "(recovery_key, recovery_record) jsmap"
  tr_startup :: "recovery_key list"
  tr_recovered :: "recovery_key list"
  tr_observingSince :: "(recovery_key, int) jsmap"
  tr_admissions :: "admission list"
  tr_checks :: "recovery_check list"
  tr_forwards :: "forward_call list"
  tr_stop :: stop_stage
  tr_nextLaunch :: int
  tr_cursor :: nat
  tr_issued :: nat
  tr_queue :: "(nat \<times> recovery_record list) list"
  tr_db :: "recovery_record list"
  tr_nextObject :: nat
  tr_log :: "recovery_mark list"

definition tr_stopped :: "recovery \<Rightarrow> bool" where
  "tr_stopped st = (tr_stop st \<noteq> NotStopped)"

text \<open>The start of a process: the running records of the journal are loaded and are pending.\<close>

definition load_record :: "recovery \<Rightarrow> recovery_record \<Rightarrow> recovery" where
  "load_record st r =
     (if rr_phase r \<noteq> RunningPhase then st
      else st\<lparr>tr_records := jm_set (record_key r) (r\<lparr>rr_object := tr_nextObject st\<rparr>) (tr_records st),
              tr_startup := List.insert (record_key r) (tr_startup st), tr_nextObject := Suc (tr_nextObject st)\<rparr>)"

definition createTaskRecovery :: "recovery_record list \<Rightarrow> nat \<Rightarrow> recovery_mark list \<Rightarrow> recovery" where
  "createTaskRecovery db n log =
     foldl load_record
       \<lparr>tr_records = [], tr_startup = [], tr_recovered = [], tr_observingSince = [], tr_admissions = [], tr_checks = [],
        tr_forwards = [], tr_stop = NotStopped, tr_nextLaunch = 0, tr_cursor = 0, tr_issued = 0, tr_queue = [],
        tr_db = db, tr_nextObject = n, tr_log = log\<rparr> db"

definition persist :: "recovery \<Rightarrow> recovery" where
  "persist st = st\<lparr>tr_queue := tr_queue st @ [(tr_issued st, map snd (tr_records st))], tr_issued := Suc (tr_issued st)\<rparr>"

text \<open>\<open>current(record)\<close>.\<close>

definition is_current :: "recovery \<Rightarrow> recovery_key \<Rightarrow> nat \<Rightarrow> bool" where
  "is_current st k i = (\<not> tr_stopped st \<and> map_option rr_object (jm_get k (tr_records st)) = Some i)"

definition remove_record :: "recovery_key \<Rightarrow> recovery \<Rightarrow> recovery" where
  "remove_record k st =
     st\<lparr>tr_records := jm_delete k (tr_records st), tr_startup := removeAll k (tr_startup st),
        tr_recovered := removeAll k (tr_recovered st), tr_observingSince := jm_delete k (tr_observingSince st)\<rparr>"

definition put_record :: "recovery_key \<Rightarrow> recovery_record \<Rightarrow> recovery \<Rightarrow> recovery" where
  "put_record k r st = st\<lparr>tr_records := jm_set k r (tr_records st)\<rparr>"

definition find_check :: "recovery \<Rightarrow> nat \<Rightarrow> recovery_check option" where
  "find_check st i = find (\<lambda>c. ck_object c = i) (tr_checks st)"

definition set_stage :: "nat \<Rightarrow> check_stage \<Rightarrow> recovery \<Rightarrow> recovery" where
  "set_stage i stage st = st\<lparr>tr_checks := map (\<lambda>c. if ck_object c = i then c\<lparr>ck_stage := stage\<rparr> else c) (tr_checks st)\<rparr>"

definition end_check :: "nat \<Rightarrow> recovery \<Rightarrow> recovery" where
  "end_check i st = st\<lparr>tr_checks := filter (\<lambda>c. ck_object c \<noteq> i) (tr_checks st)\<rparr>"

text \<open>\<open>await persist(); return\<close> in a check.\<close>

definition save_and_end :: "nat \<Rightarrow> recovery \<Rightarrow> recovery" where
  "save_and_end i st = set_stage i (SavingStage (tr_issued st)) (persist st)"

definition mark :: "recovery_mark \<Rightarrow> recovery \<Rightarrow> recovery" where
  "mark m st = st\<lparr>tr_log := tr_log st @ [m]\<rparr>"

section \<open>Checks\<close>

definition start_check :: "(recovery_record \<Rightarrow> bool) \<Rightarrow> recovery \<Rightarrow> recovery_key \<times> recovery_record \<Rightarrow> recovery" where
  "start_check known st e =
     (let k = fst e; i = rr_object (snd e);
          put = (\<lambda>stage st. st\<lparr>tr_checks := tr_checks st @ [\<lparr>ck_key = k, ck_object = i, ck_stage = stage\<rparr>]\<rparr>)
      in if \<not> known (snd e)
         then (if is_current st k i then put (SavingStage (tr_issued st)) (persist (remove_record k st)) else st)
         else put (if k \<in> set (tr_startup st) then ResumingStage else ReadingStage) st)"

text \<open>Two records at a time, in turn, and only when the checks before have ended.\<close>

definition tick :: "(recovery_record \<Rightarrow> bool) \<Rightarrow> recovery \<Rightarrow> recovery" where
  "tick known st =
     (if tr_stopped st \<or> tr_checks st \<noteq> [] then st
      else
        (let batch = tr_records st; n = length batch;
             selected = (if n = 0 then []
               else js_uniq [batch ! (tr_cursor st mod n), batch ! ((tr_cursor st + 1) mod n)])
         in foldl (start_check known) (st\<lparr>tr_cursor := tr_cursor st + RECOVERY_CONCURRENCY\<rparr>) selected))"

definition resumed :: "nat \<Rightarrow> bool \<Rightarrow> recovery \<Rightarrow> recovery" where
  "resumed i ok st =
     (case find_check st i of
        Some c \<Rightarrow> if ck_stage c = ResumingStage then (if ok then set_stage i ReadingStage st else end_check i st) else st
      | None \<Rightarrow> st)"

definition has_admission :: "recovery_key \<Rightarrow> recovery \<Rightarrow> bool" where
  "has_admission k st = list_ex (\<lambda>a. ad_key a = k) (tr_admissions st)"

text \<open>An engine that runs the session by itself, or waits for the person, is only observed.\<close>

definition observe_only :: "recovery_key \<Rightarrow> recovery_record \<Rightarrow> recovery_snapshot \<Rightarrow> recovery \<Rightarrow> recovery" where
  "observe_only k r s st =
     (let pending = (k \<in> set (tr_startup st));
          st = st\<lparr>tr_startup := removeAll k (tr_startup st),
                 tr_recovered := (if pending then List.insert k (tr_recovered st) else tr_recovered st)\<rparr>;
          st = put_record k (r\<lparr>rr_phase := (if sn_blocked s then BlockedPhase else RunningPhase),
                 rr_userId := sn_userId s, rr_shutdown := False\<rparr>) st
      in if sn_active s then mark (SeenActive k) st else st)"

definition claim :: "recovery_key \<Rightarrow> recovery_record \<Rightarrow> json option \<Rightarrow> int \<Rightarrow> recovery \<Rightarrow> recovery" where
  "claim k r user now st =
     (let st = put_record k (r\<lparr>rr_phase := ClaimedPhase\<rparr>) st;
          st = st\<lparr>tr_startup := removeAll k (tr_startup st), tr_recovered := List.insert k (tr_recovered st),
                 tr_nextLaunch := now + RECOVERY_INTERVAL_MS\<rparr>
      in set_stage (rr_object r) (ClaimSaving (tr_issued st) user) (persist st))"

definition judge :: "recovery_key \<Rightarrow> recovery_record \<Rightarrow> recovery_snapshot \<Rightarrow> int \<Rightarrow> recovery \<Rightarrow> recovery" where
  "judge k r s now st =
     (let i = rr_object r; pending = (k \<in> set (tr_startup st)) in
      if rr_phase r = ClaimedPhase \<and> (sn_active s \<or> has_admission k st) then end_check i st
      else if sn_terminal s \<or> (rr_userId r \<noteq> None \<and> sn_userId s \<noteq> rr_userId r) \<or> (pending \<and> sn_blocked s)
      then save_and_end i (remove_record k st)
      else if sn_active s \<or> sn_blocked s then save_and_end i (observe_only k r s st)
      else if \<not> pending then
        (if rr_phase r \<noteq> ObservingPhase \<or> 30000 < now - opt_default 0 (jm_get k (tr_observingSince st))
         then save_and_end i (remove_record k st) else end_check i st)
      else if \<not> sn_unfinished s \<or> rr_userId r = None \<or> rr_userId r = Some [] then save_and_end i (remove_record k st)
      else if RECOVERY_CONCURRENCY \<le> length (tr_recovered st) \<or> RECOVERY_CONCURRENCY \<le> sn_activeCount s
        \<or> now < tr_nextLaunch st then end_check i st
      else claim k r (sn_user s) now st)"

text \<open>The answers of the engine for the check of the record \<open>i\<close>; \<open>None\<close> when one of the calls fails.\<close>

definition observed :: "nat \<Rightarrow> recovery_payload option \<Rightarrow> int \<Rightarrow> recovery \<Rightarrow> recovery" where
  "observed i payload now st =
     (case find_check st i of
        None \<Rightarrow> st
      | Some c \<Rightarrow>
          (if ck_stage c \<noteq> ReadingStage then st
           else if \<not> is_current st (ck_key c) i then end_check i st
           else
             (case jm_get (ck_key c) (tr_records st) of
                None \<Rightarrow> st
              | Some r \<Rightarrow>
                  (case Option.bind payload (observe_session r) of
                     None \<Rightarrow> end_check i st
                   | Some s \<Rightarrow> judge (ck_key c) r s now st))))"

section \<open>Writes\<close>

definition settle_check :: "nat \<Rightarrow> bool \<Rightarrow> recovery_check \<Rightarrow> recovery_check option" where
  "settle_check n ok c =
     (case ck_stage c of
        SavingStage m \<Rightarrow> if m = n then None else Some c
      | ClaimSaving m user \<Rightarrow>
          (if m \<noteq> n then Some c else if ok then Some (c\<lparr>ck_stage := ClaimSaved n user\<rparr>) else None)
      | _ \<Rightarrow> Some c)"

definition settle_forward :: "nat \<Rightarrow> bool \<Rightarrow> forward_call \<Rightarrow> forward_call option" where
  "settle_forward n ok f =
     (case fw_stage f of
        ForwardSaving m _ \<Rightarrow> if m \<noteq> n then Some f else if ok then Some (f\<lparr>fw_stage := ForwardSending\<rparr>) else None
      | _ \<Rightarrow> Some f)"

text \<open>The requests that join the queue of their session once their write is done; a stop or delete does not.\<close>

definition joining :: "nat \<Rightarrow> forward_call list \<Rightarrow> admission list" where
  "joining n fs =
     map (\<lambda>f. \<lparr>ad_key = fw_key f, ad_op = OtherOp, ad_running = False\<rparr>) (filter (\<lambda>f. fw_stage f = ForwardSaving n False) fs)"

definition settle_stop :: "nat \<Rightarrow> bool \<Rightarrow> stop_stage \<Rightarrow> stop_stage" where
  "settle_stop n ok s = (case s of StopSaving m is \<Rightarrow> if m \<noteq> n then s else if ok then FinalReads is else StopDone | _ \<Rightarrow> s)"

definition write_settled :: "bool \<Rightarrow> recovery \<Rightarrow> recovery" where
  "write_settled ok st =
     (case tr_queue st of
        [] \<Rightarrow> st
      | (n, snapshot) # rest \<Rightarrow>
          st\<lparr>tr_queue := rest, tr_db := (if ok then snapshot else tr_db st),
             tr_checks := List.map_filter (settle_check n ok) (tr_checks st),
             tr_admissions := tr_admissions st @ (if ok then joining n (tr_forwards st) else []),
             tr_forwards := List.map_filter (settle_forward n ok) (tr_forwards st),
             tr_stop := settle_stop n ok (tr_stop st)\<rparr>)"

section \<open>Prompts\<close>

definition names_model :: "json option \<Rightarrow> bool" where
  "names_model user =
     (case Option.bind user (jfield ''model'') of
        Some m \<Rightarrow> is_record (Some m) \<and> jstring (jfield ''providerID'' m) \<noteq> None \<and> jstring (jfield ''modelID'' m) \<noteq> None
      | None \<Rightarrow> False)"

definition claim_continues :: "nat \<Rightarrow> recovery \<Rightarrow> recovery" where
  "claim_continues i st =
     (case find_check st i of
        Some c \<Rightarrow>
          (case ck_stage c of
             ClaimSaved n user \<Rightarrow>
               (if \<not> is_current st (ck_key c) i then end_check i st
                else if key_engine (ck_key c) = EngineV1 \<and> \<not> names_model user
                then save_and_end i (remove_record (ck_key c) st)
                else set_stage i (Prompting n False) st)
           | _ \<Rightarrow> st)
      | None \<Rightarrow> st)"

text \<open>The coordinator's own request reaches the queue of its session.\<close>

definition prompt_arrives :: "nat \<Rightarrow> recovery \<Rightarrow> recovery" where
  "prompt_arrives i st =
     (case find_check st i of
        Some c \<Rightarrow>
          (case ck_stage c of
             Prompting n False \<Rightarrow>
               set_stage i (Prompting n True)
                 (st\<lparr>tr_admissions := tr_admissions st @ [\<lparr>ad_key = ck_key c, ad_op = OwnedOp i n, ad_running = False\<rparr>]\<rparr>)
           | _ \<Rightarrow> st)
      | None \<Rightarrow> st)"

fun map_first :: "('a \<Rightarrow> bool) \<Rightarrow> ('a \<Rightarrow> 'a option) \<Rightarrow> 'a list \<Rightarrow> 'a list" where
  "map_first P f [] = []"
| "map_first P f (x # xs) = (if P x then (case f x of Some y \<Rightarrow> y # xs | None \<Rightarrow> xs) else x # map_first P f xs)"

text \<open>Whether a prompt may still be sent when its turn comes: the record is current and the request is not aborted.\<close>

definition prompt_live :: "recovery \<Rightarrow> recovery_key \<Rightarrow> nat \<Rightarrow> nat \<Rightarrow> bool" where
  "prompt_live st k i n = (is_current st k i \<and> map_option ck_stage (find_check st i) = Some (Prompting n True))"

text \<open>The turn of the first mutation of a session.\<close>

definition admission_runs :: "recovery_key \<Rightarrow> recovery \<Rightarrow> recovery" where
  "admission_runs k st =
     (case find (\<lambda>a. ad_key a = k) (tr_admissions st) of
        None \<Rightarrow> st
      | Some a \<Rightarrow>
          (let put = (\<lambda>f. st\<lparr>tr_admissions := map_first (\<lambda>a. ad_key a = k) f (tr_admissions st)\<rparr>) in
           if ad_running a then st
           else
             (case ad_op a of
                OtherOp \<Rightarrow> put (\<lambda>a. Some (a\<lparr>ad_running := True\<rparr>))
              | OwnedOp i n \<Rightarrow>
                  (if prompt_live st k i n then mark (PromptSent k) (put (\<lambda>a. Some (a\<lparr>ad_running := True\<rparr>)))
                   else put (\<lambda>a. None)))))"

definition admission_done :: "recovery_key \<Rightarrow> recovery \<Rightarrow> recovery" where
  "admission_done k st =
     (case find (\<lambda>a. ad_key a = k) (tr_admissions st) of
        Some a \<Rightarrow>
          (if ad_running a then st\<lparr>tr_admissions := map_first (\<lambda>a. ad_key a = k) (\<lambda>a. None) (tr_admissions st)\<rparr> else st)
      | None \<Rightarrow> st)"

definition op_outstanding :: "nat \<Rightarrow> nat \<Rightarrow> recovery \<Rightarrow> bool" where
  "op_outstanding i n st = list_ex (\<lambda>a. ad_op a = OwnedOp i n) (tr_admissions st)"

text \<open>The acknowledgement of a prompt, which comes after its turn has ended, or its failure.\<close>

definition prompt_settled :: "nat \<Rightarrow> bool \<Rightarrow> int \<Rightarrow> recovery \<Rightarrow> recovery" where
  "prompt_settled i ok now st =
     (case find_check st i of
        Some c \<Rightarrow>
          (case ck_stage c of
             Prompting n arrived \<Rightarrow>
               (if \<not> ok then end_check i st
                else if \<not> arrived \<or> op_outstanding i n st then st
                else
                  (case jm_get (ck_key c) (tr_records st) of
                     Some r \<Rightarrow>
                       (if is_current st (ck_key c) i
                        then save_and_end i
                          (put_record (ck_key c) (r\<lparr>rr_phase := ObservingPhase, rr_userId := None, rr_shutdown := False\<rparr>)
                            (st\<lparr>tr_observingSince := jm_set (ck_key c) now (tr_observingSince st)\<rparr>))
                        else end_check i st)
                   | None \<Rightarrow> end_check i st))
           | _ \<Rightarrow> st)
      | None \<Rightarrow> st)"

section \<open>Requests of the person\<close>

datatype request_kind = Untracked | BadRoute | ReplyRequest string | Mutation string bool bool

text \<open>
  \<open>replace(/^\/opencode2\/api|^\/opencode/, "").match(/^\/session\/([^/]+)(.*)$/)\<close>; the dot does not
  match a line terminator.
\<close>

definition recovery_route :: "string \<Rightarrow> (string \<times> string) option" where
  "recovery_route path =
     (let path = (if starts_with ''/opencode2/api'' path then drop 14 path
                  else if starts_with ''/opencode'' path then drop 9 path else path);
          rest = drop 9 path;
          sid = takeWhile (\<lambda>c. c \<noteq> CHR ''/'') rest;
          suffix = dropWhile (\<lambda>c. c \<noteq> CHR ''/'') rest
      in if starts_with ''/session/'' path \<and> sid \<noteq> [] \<and> CHR 0x0A \<notin> set suffix \<and> CHR 0x0D \<notin> set suffix
         then Some (sid, suffix) else None)"

definition classify_request :: "bool \<Rightarrow> string \<Rightarrow> string \<Rightarrow> bool \<Rightarrow> request_kind" where
  "classify_request local http_method path off =
     (if \<not> local \<or> http_method \<notin> set [''POST'', ''PUT'', ''PATCH'', ''DELETE''] then Untracked
      else
        (case recovery_route path of
           None \<Rightarrow> Untracked
         | Some (i, suffix) \<Rightarrow>
             (case decode_component i of
                None \<Rightarrow> BadRoute
              | Some sid \<Rightarrow>
                  (if starts_with ''/permission/'' suffix \<or> starts_with ''/form/'' suffix then ReplyRequest sid
                   else
                     Mutation sid
                       (http_method = ''POST'' \<and> suffix \<in> set [''/prompt_async'', ''/prompt'', ''/command''] \<and> \<not> off)
                       ((http_method = ''DELETE'' \<and> suffix = [])
                        \<or> (http_method = ''POST'' \<and> suffix \<in> set [''/abort'', ''/interrupt'']))))))"

text \<open>
  \<open>forward\<close> for a request that is not the coordinator's: up to the end of its \<open>persist\<close>, or up to the
  queue of the session for a reply.
\<close>

definition forward_mutation :: "string \<Rightarrow> string \<Rightarrow> recovery_engine \<Rightarrow> string \<Rightarrow> bool \<Rightarrow> bool \<Rightarrow> int \<Rightarrow> recovery \<Rightarrow> recovery" where
  "forward_mutation wid directory e sid admission interrupts now st =
     (let k = RecoveryKey wid e sid;
          i = tr_nextObject st;
          r = \<lparr>rr_workspaceId = wid, rr_directory = directory, rr_sessionId = sid, rr_engine = e, rr_phase = ObservingPhase,
               rr_userId = None, rr_shutdown = False, rr_object = i\<rparr>;
          st = (if jm_has k (tr_records st) then remove_record k st else st)\<lparr>tr_nextObject := Suc i\<rparr>;
          st = (if \<not> tr_stopped st \<and> admission \<and> length (tr_records st) < MAX_TASKS
                then put_record k r (st\<lparr>tr_observingSince := jm_set k now (tr_observingSince st)\<rparr>) else st)
      in persist (st\<lparr>tr_forwards := tr_forwards st
           @ [\<lparr>fw_key = k, fw_object = i, fw_stage = ForwardSaving (tr_issued st) interrupts\<rparr>]\<rparr>))"

definition forward :: "string \<Rightarrow> string \<Rightarrow> recovery_engine \<Rightarrow> request_kind \<Rightarrow> int \<Rightarrow> recovery \<Rightarrow> recovery" where
  "forward wid directory e req now st =
     (case req of
        Untracked \<Rightarrow> st
      | BadRoute \<Rightarrow> st
      | ReplyRequest sid \<Rightarrow>
          st\<lparr>tr_admissions := tr_admissions st @ [\<lparr>ad_key = RecoveryKey wid e sid, ad_op = OtherOp, ad_running = False\<rparr>]\<rparr>
      | Mutation sid admission interrupts \<Rightarrow> forward_mutation wid directory e sid admission interrupts now st)"

text \<open>The answer to a forwarded mutation: whether it is ok, \<open>None\<close> when the request throws.\<close>

definition forward_answered :: "nat \<Rightarrow> bool option \<Rightarrow> recovery \<Rightarrow> recovery" where
  "forward_answered i answer st =
     (case find (\<lambda>f. fw_object f = i) (tr_forwards st) of
        Some f \<Rightarrow>
          (if fw_stage f \<noteq> ForwardSending then st
           else
             (let st = st\<lparr>tr_forwards := filter (\<lambda>f. fw_object f \<noteq> i) (tr_forwards st)\<rparr>
              in if answer = Some False \<and> is_current st (fw_key f) i then persist (remove_record (fw_key f) st) else st))
      | None \<Rightarrow> st)"

section \<open>Loss of the engine, and the end\<close>

definition requeueable :: "recovery_record \<Rightarrow> bool" where
  "requeueable r = (rr_phase r = RunningPhase \<and> rr_userId r \<noteq> None)"

definition requeueAfterEngineLoss :: "recovery \<Rightarrow> recovery" where
  "requeueAfterEngineLoss st =
     (if tr_stopped st then st
      else
        (let ks = map fst (filter (\<lambda>e. requeueable (snd e)) (tr_records st));
             st' = st\<lparr>tr_records := map (\<lambda>(k, r). (k, if requeueable r then r\<lparr>rr_shutdown := True\<rparr> else r)) (tr_records st),
                      tr_startup := foldl (\<lambda>s k. List.insert k s) (tr_startup st) ks,
                      tr_recovered := filter (\<lambda>k. k \<notin> set ks) (tr_recovered st)\<rparr>
         in if ks = [] then st else persist st'))"

definition stop_candidate :: "recovery \<Rightarrow> recovery_key \<times> recovery_record \<Rightarrow> bool" where
  "stop_candidate st e = (rr_phase (snd e) \<noteq> ClaimedPhase \<and> fst e \<notin> set (tr_startup st))"

definition stop :: "recovery \<Rightarrow> recovery" where
  "stop st =
     (if tr_stopped st then st
      else
        (let is = map (\<lambda>e. rr_object (snd e)) (filter (stop_candidate st) (tr_records st));
             records = map (\<lambda>e. if stop_candidate st e
               then (fst e, (snd e)\<lparr>rr_phase := BlockedPhase, rr_shutdown := False\<rparr>) else e) (tr_records st)
         in persist (st\<lparr>tr_records := records, tr_stop := StopSaving (tr_issued st) is\<rparr>)))"

text \<open>The final look at one candidate; a candidate out of time or without an answer is left out.\<close>

definition final_observed :: "nat \<Rightarrow> recovery_payload option \<Rightarrow> recovery \<Rightarrow> recovery" where
  "final_observed i payload st =
     (case tr_stop st of
        FinalReads is \<Rightarrow>
          (if i \<notin> set is then st
           else
             (let st = st\<lparr>tr_stop := FinalReads (removeAll i is)\<rparr> in
              case find (\<lambda>e. rr_object (snd e) = i) (tr_records st) of
                None \<Rightarrow> st
              | Some (k, r) \<Rightarrow>
                  (case Option.bind payload (observe_session r) of
                     None \<Rightarrow> st
                   | Some s \<Rightarrow>
                       (if sn_active s \<and> \<not> sn_blocked s \<and> \<not> sn_terminal s \<and> sn_userId s \<noteq> None \<and> sn_userId s \<noteq> Some []
                           \<and> (rr_userId r = None \<or> sn_userId s = rr_userId r)
                        then mark (SeenActive k)
                          (put_record k (r\<lparr>rr_phase := RunningPhase, rr_shutdown := True, rr_userId := sn_userId s\<rparr>) st)
                        else st))))
      | _ \<Rightarrow> st)"

definition final_saved :: "recovery \<Rightarrow> recovery" where
  "final_saved st = (case tr_stop st of FinalReads _ \<Rightarrow> persist (st\<lparr>tr_stop := StopDone\<rparr>) | _ \<Rightarrow> st)"

section \<open>Runs\<close>

datatype recovery_input =
    Tick "recovery_record \<Rightarrow> bool"
  | Resumed nat bool
  | Observed nat "recovery_payload option" int
  | WriteSettled bool
  | ClaimContinues nat
  | PromptArrives nat
  | AdmissionRuns recovery_key
  | AdmissionDone recovery_key
  | PromptSettled nat bool int
  | Forwarded string string recovery_engine request_kind int
  | ForwardAnswered nat "bool option"
  | EngineLost
  | StopCalled
  | FinalObserved nat "recovery_payload option"
  | FinalSaved
  | Restarted

text \<open>A restart, or a crash: what was not written is lost, requests in flight are not ours any more.\<close>

definition recovery_restarted :: "recovery \<Rightarrow> recovery" where
  "recovery_restarted st = createTaskRecovery (tr_db st) (tr_nextObject st) (tr_log st)"

fun recovery_step :: "recovery_input \<Rightarrow> recovery \<Rightarrow> recovery" where
  "recovery_step (Tick known) st = tick known st"
| "recovery_step (Resumed i ok) st = resumed i ok st"
| "recovery_step (Observed i payload now) st = observed i payload now st"
| "recovery_step (WriteSettled ok) st = write_settled ok st"
| "recovery_step (ClaimContinues i) st = claim_continues i st"
| "recovery_step (PromptArrives i) st = prompt_arrives i st"
| "recovery_step (AdmissionRuns k) st = admission_runs k st"
| "recovery_step (AdmissionDone k) st = admission_done k st"
| "recovery_step (PromptSettled i ok now) st = prompt_settled i ok now st"
| "recovery_step (Forwarded wid directory e req now) st = forward wid directory e req now st"
| "recovery_step (ForwardAnswered i answer) st = forward_answered i answer st"
| "recovery_step EngineLost st = requeueAfterEngineLoss st"
| "recovery_step StopCalled st = stop st"
| "recovery_step (FinalObserved i payload) st = final_observed i payload st"
| "recovery_step FinalSaved st = final_saved st"
| "recovery_step Restarted st = recovery_restarted st"

definition recovery_run :: "recovery_record list \<Rightarrow> recovery_input list \<Rightarrow> recovery" where
  "recovery_run db es = foldl (\<lambda>st e. recovery_step e st) (createTaskRecovery db 0 []) es"

section \<open>Prompts are not repeated\<close>

text \<open>The last mark of a session is a prompt: the engine was not seen running since.\<close>

definition quiet_session :: "recovery_key \<Rightarrow> recovery_mark list \<Rightarrow> bool" where
  "quiet_session k log = (find (\<lambda>m. m = PromptSent k \<or> m = SeenActive k) (rev log) = Some (PromptSent k))"

lemma quiet_session_Nil [simp]: "\<not> quiet_session k []"
  by (simp add: quiet_session_def)

lemma quiet_session_snoc [simp]: "quiet_session k (log @ [m]) \<longleftrightarrow> m = PromptSent k \<or> m \<noteq> SeenActive k \<and> quiet_session k log"
  by (auto simp: quiet_session_def)

definition not_running :: "recovery_key \<Rightarrow> recovery_record list \<Rightarrow> bool" where
  "not_running k rs = (\<forall>r \<in> set rs. record_key r = k \<longrightarrow> rr_phase r \<noteq> RunningPhase)"

text \<open>The journal, now and after the writes under way, does not resume the session.\<close>

definition journal_holds :: "recovery \<Rightarrow> recovery_key \<Rightarrow> bool" where
  "journal_holds st k = (not_running k (tr_db st) \<and> (\<forall>w \<in> set (tr_queue st). not_running k (snd w)))"

text \<open>The claim of a session is held in memory.\<close>

definition claim_held :: "recovery \<Rightarrow> recovery_key \<Rightarrow> bool" where
  "claim_held st k = (map_option rr_phase (jm_get k (tr_records st)) = Some ClaimedPhase \<and> k \<notin> set (tr_startup st))"

definition no_op :: "recovery \<Rightarrow> nat \<Rightarrow> nat \<Rightarrow> bool" where
  "no_op st i n = (n < tr_issued st \<and> (\<forall>a \<in> set (tr_admissions st). ad_op a \<noteq> OwnedOp i n))"

text \<open>The prompt of a claim is asked for once.\<close>

definition op_fresh :: "recovery \<Rightarrow> recovery_check \<Rightarrow> bool" where
  "op_fresh st c =
     (case ck_stage c of
        ClaimSaving n _ \<Rightarrow> no_op st (ck_object c) n
      | ClaimSaved n _ \<Rightarrow> no_op st (ck_object c) n
      | Prompting n arrived \<Rightarrow> arrived \<or> no_op st (ck_object c) n
      | _ \<Rightarrow> True)"

definition claim_ok :: "recovery \<Rightarrow> recovery_check \<Rightarrow> bool" where
  "claim_ok st c =
     (op_fresh st c
      \<and> (is_current st (ck_key c) (ck_object c) \<longrightarrow>
         (case ck_stage c of
            ClaimSaving n _ \<Rightarrow> claim_held st (ck_key c)
              \<and> (\<forall>w \<in> set (tr_queue st). n \<le> fst w \<longrightarrow> not_running (ck_key c) (snd w))
          | ClaimSaved n _ \<Rightarrow> claim_held st (ck_key c) \<and> journal_holds st (ck_key c)
          | Prompting n _ \<Rightarrow> claim_held st (ck_key c) \<and> journal_holds st (ck_key c)
          | _ \<Rightarrow> True)))"

definition unsent_stage :: "check_stage \<Rightarrow> bool" where
  "unsent_stage s = (case s of ClaimSaving _ _ \<Rightarrow> True | ClaimSaved _ _ \<Rightarrow> True | Prompting _ arrived \<Rightarrow> \<not> arrived | _ \<Rightarrow> False)"

definition quiet_ok :: "recovery \<Rightarrow> recovery_key \<Rightarrow> bool" where
  "quiet_ok st k =
     (quiet_session k (tr_log st) \<longrightarrow>
       k \<notin> set (tr_startup st) \<and> (\<forall>r. jm_get k (tr_records st) = Some r \<longrightarrow> rr_phase r \<noteq> RunningPhase) \<and> journal_holds st k
       \<and> (\<forall>c \<in> set (tr_checks st). ck_key c = k \<and> is_current st k (ck_object c) \<longrightarrow> \<not> unsent_stage (ck_stage c))
       \<and> (\<forall>a \<in> set (tr_admissions st). \<forall>i n. ad_key a = k \<and> ad_op a = OwnedOp i n \<and> \<not> ad_running a \<longrightarrow> \<not> prompt_live st k i n))"

definition records_ok :: "recovery \<Rightarrow> bool" where
  "records_ok st =
     (jm_wf (tr_records st) \<and> distinct (map (rr_object \<circ> snd) (tr_records st))
      \<and> (\<forall>(k, r) \<in> set (tr_records st). record_key r = k \<and> rr_object r < tr_nextObject st))"

definition checks_ok :: "recovery \<Rightarrow> bool" where
  "checks_ok st =
     (distinct (map ck_object (tr_checks st))
      \<and> (\<forall>c \<in> set (tr_checks st). ck_object c < tr_nextObject st
           \<and> (\<forall>k r. jm_get k (tr_records st) = Some r \<longrightarrow> rr_object r = ck_object c \<longrightarrow> ck_key c = k)))"

definition writes_ok :: "recovery \<Rightarrow> bool" where
  "writes_ok st = (sorted_wrt (<) (map fst (tr_queue st)) \<and> (\<forall>w \<in> set (tr_queue st). fst w < tr_issued st))"

definition ops_ok :: "recovery \<Rightarrow> bool" where
  "ops_ok st =
     (distinct (filter (\<lambda>o'. o' \<noteq> OtherOp) (map ad_op (tr_admissions st)))
      \<and> (\<forall>a \<in> set (tr_admissions st). \<forall>i n. ad_op a = OwnedOp i n \<longrightarrow> n < tr_issued st \<and> i < tr_nextObject st))"

definition prompt_log_ok :: "recovery_mark list \<Rightarrow> bool" where
  "prompt_log_ok log = (\<forall>a k b. log = a @ PromptSent k # b \<longrightarrow> \<not> quiet_session k a)"

definition recovery_inv :: "recovery \<Rightarrow> bool" where
  "recovery_inv st =
     (records_ok st \<and> checks_ok st \<and> writes_ok st \<and> ops_ok st \<and> prompt_log_ok (tr_log st)
      \<and> (\<forall>c \<in> set (tr_checks st). claim_ok st c) \<and> (\<forall>k. quiet_ok st k))"

lemmas recovery_inv_defs = records_ok_def checks_ok_def writes_ok_def ops_ok_def

lemma recovery_invI:
  "records_ok st \<Longrightarrow> checks_ok st \<Longrightarrow> writes_ok st \<Longrightarrow> ops_ok st \<Longrightarrow> prompt_log_ok (tr_log st)
    \<Longrightarrow> (\<And>c. c \<in> set (tr_checks st) \<Longrightarrow> claim_ok st c) \<Longrightarrow> (\<And>k. quiet_ok st k) \<Longrightarrow> recovery_inv st"
  by (simp add: recovery_inv_def)

lemma recovery_invD:
  assumes "recovery_inv st"
  shows "records_ok st" "checks_ok st" "writes_ok st" "ops_ok st" "prompt_log_ok (tr_log st)"
    "c \<in> set (tr_checks st) \<Longrightarrow> claim_ok st c" "quiet_ok st k"
  using assms by (simp_all add: recovery_inv_def)

lemma prompt_log_ok_snoc: "prompt_log_ok log \<Longrightarrow> (\<forall>k. m = PromptSent k \<longrightarrow> \<not> quiet_session k log) \<Longrightarrow> prompt_log_ok (log @ [m])"
  unfolding prompt_log_ok_def
proof (intro allI impI)
  fix a k b
  assume h: "\<forall>a k b. log = a @ PromptSent k # b \<longrightarrow> \<not> quiet_session k a" "\<forall>k. m = PromptSent k \<longrightarrow> \<not> quiet_session k log"
    and l: "log @ [m] = a @ PromptSent k # b"
  show "\<not> quiet_session k a" using h l by (cases b rule: rev_cases) auto
qed

lemma map_snd_not_running:
  "records_ok st \<Longrightarrow> (\<And>r. jm_get k (tr_records st) = Some r \<Longrightarrow> rr_phase r \<noteq> RunningPhase) \<Longrightarrow> not_running k (map snd (tr_records st))"
  by (fastforce simp: not_running_def records_ok_def dest: jm_mem_get)

lemma is_current_persist [simp]: "is_current (persist st) = is_current st"
  by (simp add: is_current_def tr_stopped_def persist_def fun_eq_iff)

lemma prompt_live_persist [simp]: "prompt_live (persist st) = prompt_live st"
  by (simp add: prompt_live_def find_check_def fun_eq_iff) (simp add: persist_def)

lemma persist_simps [simp]:
  "tr_records (persist st) = tr_records st" "tr_startup (persist st) = tr_startup st" "tr_checks (persist st) = tr_checks st"
  "tr_admissions (persist st) = tr_admissions st" "tr_db (persist st) = tr_db st" "tr_log (persist st) = tr_log st"
  "tr_nextObject (persist st) = tr_nextObject st" "tr_issued (persist st) = Suc (tr_issued st)"
  "tr_queue (persist st) = tr_queue st @ [(tr_issued st, map snd (tr_records st))]" "tr_stop (persist st) = tr_stop st"
  by (simp_all add: persist_def)

lemma claim_held_not_running:
  "records_ok st \<Longrightarrow> claim_held st k \<Longrightarrow> not_running k (map snd (tr_records st))"
  by (rule map_snd_not_running) (auto simp: claim_held_def)

lemma inv_persist: "recovery_inv st \<Longrightarrow> recovery_inv (persist st)"
proof (rule recovery_invI)
  assume inv: "recovery_inv st"
  note d = recovery_invD [OF inv]
  show "records_ok (persist st)" "checks_ok (persist st)" using d(1,2) by (simp_all add: recovery_inv_defs)
  show "writes_ok (persist st)" using d(3) by (auto simp: writes_ok_def sorted_wrt_append less_Suc_eq)
  show "ops_ok (persist st)" using d(4) by (auto simp: ops_ok_def less_Suc_eq)
  show "prompt_log_ok (tr_log (persist st))" using d(5) by simp
  show "claim_ok (persist st) c" if "c \<in> set (tr_checks (persist st))" for c
    using d(6) [of c] that claim_held_not_running [OF d(1), of "ck_key c"]
    by (auto simp: claim_ok_def op_fresh_def claim_held_def no_op_def journal_holds_def split: check_stage.splits)
  show "quiet_ok (persist st) k" for k
    using d(7) [of k] map_snd_not_running [OF d(1), of k] by (auto simp: quiet_ok_def journal_holds_def)
qed

subsection \<open>The small changes a step is made of\<close>

lemma is_current_cong: "tr_stop st' = tr_stop st \<Longrightarrow> tr_records st' = tr_records st \<Longrightarrow> is_current st' = is_current st"
  by (simp add: is_current_def tr_stopped_def fun_eq_iff)

lemma prompt_live_cong:
  assumes "tr_stop st' = tr_stop st" "tr_records st' = tr_records st" "tr_checks st' = tr_checks st"
  shows "prompt_live st' = prompt_live st"
  unfolding prompt_live_def find_check_def is_current_cong [OF assms(1,2)] assms(3) ..

lemma claim_ok_cong:
  assumes "is_current st' = is_current st" "claim_held st' = claim_held st" "no_op st' = no_op st"
    "journal_holds st' = journal_holds st" "tr_queue st' = tr_queue st"
  shows "claim_ok st' = claim_ok st"
  unfolding claim_ok_def [abs_def] op_fresh_def [abs_def] assms ..

lemma views_cong:
  "tr_records st' = tr_records st \<Longrightarrow> tr_startup st' = tr_startup st \<Longrightarrow> claim_held st' = claim_held st"
  "tr_issued st' = tr_issued st \<Longrightarrow> tr_admissions st' = tr_admissions st \<Longrightarrow> no_op st' = no_op st"
  "tr_db st' = tr_db st \<Longrightarrow> tr_queue st' = tr_queue st \<Longrightarrow> journal_holds st' = journal_holds st"
  by (simp_all add: claim_held_def no_op_def journal_holds_def fun_eq_iff)

text \<open>The invariant reads only these fields.\<close>

lemma inv_cong:
  assumes "tr_stop st' = tr_stop st" "tr_records st' = tr_records st" "tr_checks st' = tr_checks st" "tr_startup st' = tr_startup st"
    "tr_admissions st' = tr_admissions st" "tr_issued st' = tr_issued st" "tr_queue st' = tr_queue st" "tr_db st' = tr_db st"
    "tr_nextObject st' = tr_nextObject st" "tr_log st' = tr_log st"
  shows "recovery_inv st' = recovery_inv st"
proof -
  note eqs = is_current_cong [OF assms(1,2)] prompt_live_cong [OF assms(1-3)] views_cong(1) [OF assms(2,4)]
    views_cong(2) [OF assms(6,5)] views_cong(3) [OF assms(8,7)]
  have "claim_ok st' = claim_ok st" by (rule claim_ok_cong; fact eqs assms)
  moreover have "quiet_ok st' = quiet_ok st" unfolding quiet_ok_def [abs_def] eqs assms ..
  ultimately show ?thesis unfolding recovery_inv_def recovery_inv_defs assms by simp
qed

lemma inv_unread [simp]:
  "recovery_inv (st\<lparr>tr_recovered := x\<rparr>) = recovery_inv st" "recovery_inv (st\<lparr>tr_observingSince := y\<rparr>) = recovery_inv st"
  "recovery_inv (st\<lparr>tr_nextLaunch := z\<rparr>) = recovery_inv st" "recovery_inv (st\<lparr>tr_cursor := n\<rparr>) = recovery_inv st"
  "recovery_inv (st\<lparr>tr_forwards := fs\<rparr>) = recovery_inv st"
  by (rule inv_cong; simp)+

lemma find_check_end: "find_check (end_check i st) j = (if j = i then None else find_check st j)"
proof -
  have "find (\<lambda>c. ck_object c = j) (filter (\<lambda>c. ck_object c \<noteq> i) cs) = (if j = i then None else find (\<lambda>c. ck_object c = j) cs)"
    for cs :: "recovery_check list"
    by (induction cs) auto
  then show ?thesis by (simp add: find_check_def end_check_def)
qed

lemma find_check_stage:
  "find_check (set_stage i stage st) j = (if j = i then map_option (\<lambda>c. c\<lparr>ck_stage := stage\<rparr>) (find_check st j) else find_check st j)"
proof -
  have "find (\<lambda>c. ck_object c = j) (map (\<lambda>c. if ck_object c = i then c\<lparr>ck_stage := stage\<rparr> else c) cs) =
      (if j = i then map_option (\<lambda>c. c\<lparr>ck_stage := stage\<rparr>) (find (\<lambda>c. ck_object c = j) cs) else find (\<lambda>c. ck_object c = j) cs)"
    for cs :: "recovery_check list"
    by (induction cs) auto
  then show ?thesis by (simp add: find_check_def set_stage_def)
qed

lemma end_check_simps [simp]:
  "tr_records (end_check i st) = tr_records st" "tr_startup (end_check i st) = tr_startup st" "tr_queue (end_check i st) = tr_queue st"
  "tr_admissions (end_check i st) = tr_admissions st" "tr_db (end_check i st) = tr_db st" "tr_log (end_check i st) = tr_log st"
  "tr_nextObject (end_check i st) = tr_nextObject st" "tr_issued (end_check i st) = tr_issued st" "tr_stop (end_check i st) = tr_stop st"
  "tr_checks (end_check i st) = filter (\<lambda>c. ck_object c \<noteq> i) (tr_checks st)" "is_current (end_check i st) = is_current st"
  by (simp_all add: end_check_def is_current_def tr_stopped_def fun_eq_iff)

lemma set_stage_simps [simp]:
  "tr_records (set_stage i s st) = tr_records st" "tr_startup (set_stage i s st) = tr_startup st" "tr_queue (set_stage i s st) = tr_queue st"
  "tr_admissions (set_stage i s st) = tr_admissions st" "tr_db (set_stage i s st) = tr_db st" "tr_log (set_stage i s st) = tr_log st"
  "tr_nextObject (set_stage i s st) = tr_nextObject st" "tr_issued (set_stage i s st) = tr_issued st" "tr_stop (set_stage i s st) = tr_stop st"
  "tr_checks (set_stage i s st) = map (\<lambda>c. if ck_object c = i then c\<lparr>ck_stage := s\<rparr> else c) (tr_checks st)"
  "is_current (set_stage i s st) = is_current st"
  by (simp_all add: set_stage_def is_current_def tr_stopped_def fun_eq_iff)

lemma inv_end_check:
  assumes inv: "recovery_inv st"
  shows "recovery_inv (end_check i st)"
proof (rule recovery_invI)
  note d = recovery_invD [OF inv]
  show "records_ok (end_check i st)" "writes_ok (end_check i st)" "ops_ok (end_check i st)" using d(1,3,4) by (simp_all add: recovery_inv_defs)
  show "prompt_log_ok (tr_log (end_check i st))" using d(5) by simp
  show "checks_ok (end_check i st)" using d(2) by (auto simp: checks_ok_def distinct_map_filter)
  show "claim_ok (end_check i st) c" if "c \<in> set (tr_checks (end_check i st))" for c
    using d(6) [of c] that claim_ok_cong [of "end_check i st" st] views_cong [of "end_check i st" st] by simp
  have live: "prompt_live (end_check i st) k j n \<Longrightarrow> prompt_live st k j n" for k j n
    by (auto simp: prompt_live_def find_check_end split: if_splits)
  show "quiet_ok (end_check i st) k" for k
    using d(7) [of k] live [of k] by (auto simp: quiet_ok_def journal_holds_def)
qed

text \<open>A stage that is no claim.\<close>

definition plain_stage :: "check_stage \<Rightarrow> bool" where
  "plain_stage s = (case s of ResumingStage \<Rightarrow> True | ReadingStage \<Rightarrow> True | SavingStage _ \<Rightarrow> True | _ \<Rightarrow> False)"

lemma plain_unsent: "plain_stage s \<Longrightarrow> \<not> unsent_stage s"
  by (simp add: plain_stage_def unsent_stage_def split: check_stage.splits)

text \<open>A new stage keeps the invariant if its check is in order and it does not promise a prompt for a quiet session.\<close>

lemma inv_set_stage:
  assumes inv: "recovery_inv st"
    and claim: "\<And>c. c \<in> set (tr_checks st) \<Longrightarrow> ck_object c = i \<Longrightarrow> claim_ok (set_stage i s st) (c\<lparr>ck_stage := s\<rparr>)"
    and quiet_session: "\<And>c. c \<in> set (tr_checks st) \<Longrightarrow> ck_object c = i \<Longrightarrow> is_current st (ck_key c) i \<Longrightarrow> quiet_session (ck_key c) (tr_log st)
      \<Longrightarrow> plain_stage s"
  shows "recovery_inv (set_stage i s st)"
proof (rule recovery_invI)
  note d = recovery_invD [OF inv]
  show "records_ok (set_stage i s st)" "writes_ok (set_stage i s st)" "ops_ok (set_stage i s st)" using d(1,3,4) by (simp_all add: recovery_inv_defs)
  show "prompt_log_ok (tr_log (set_stage i s st))" using d(5) by simp
  have objs: "map ck_object (tr_checks (set_stage i s st)) = map ck_object (tr_checks st)" by (simp add: set_stage_def)
  show "checks_ok (set_stage i s st)" using d(2) unfolding checks_ok_def objs by (auto split: if_splits)
  show "claim_ok (set_stage i s st) c" if c: "c \<in> set (tr_checks (set_stage i s st))" for c
  proof -
    obtain b where b: "b \<in> set (tr_checks st)" "c = (if ck_object b = i then b\<lparr>ck_stage := s\<rparr> else b)" using c by auto
    show ?thesis
    proof (cases "ck_object b = i")
      case True
      then show ?thesis using claim b by simp
    next
      case False
      then show ?thesis
        using d(6) [OF b(1)] b claim_ok_cong [of "set_stage i s st" st] views_cong [of "set_stage i s st" st] by simp
    qed
  qed
  have live: "plain_stage s \<and> j = i \<or> j \<noteq> i \<Longrightarrow> prompt_live (set_stage i s st) k j n \<Longrightarrow> prompt_live st k j n" for k j n
    by (auto simp: prompt_live_def find_check_stage plain_stage_def split: if_splits)
  show "quiet_ok (set_stage i s st) k" for k
    unfolding quiet_ok_def
  proof (intro impI conjI)
    assume q: "quiet_session k (tr_log (set_stage i s st))"
    show "k \<notin> set (tr_startup (set_stage i s st))"
      "\<forall>r. jm_get k (tr_records (set_stage i s st)) = Some r \<longrightarrow> rr_phase r \<noteq> RunningPhase"
      "journal_holds (set_stage i s st) k"
      using d(7) [of k] q by (auto simp: quiet_ok_def journal_holds_def)
    show "\<forall>c \<in> set (tr_checks (set_stage i s st)). ck_key c = k \<and> is_current (set_stage i s st) k (ck_object c) \<longrightarrow> \<not> unsent_stage (ck_stage c)"
    proof (intro ballI impI)
      fix c
      assume c: "c \<in> set (tr_checks (set_stage i s st))" "ck_key c = k \<and> is_current (set_stage i s st) k (ck_object c)"
      obtain b where b: "b \<in> set (tr_checks st)" "c = (if ck_object b = i then b\<lparr>ck_stage := s\<rparr> else b)" using c(1) by auto
      show "\<not> unsent_stage (ck_stage c)"
      proof (cases "ck_object b = i")
        case True
        then have "plain_stage s" using quiet_session [of b] b c(2) q by simp
        then show ?thesis using b True plain_unsent by simp
      next
        case False
        then show ?thesis using d(7) [of k] q b c(2) by (simp add: quiet_ok_def)
      qed
    qed
    show "\<forall>a \<in> set (tr_admissions (set_stage i s st)). \<forall>j n. ad_key a = k \<and> ad_op a = OwnedOp j n \<and> \<not> ad_running a
        \<longrightarrow> \<not> prompt_live (set_stage i s st) k j n"
    proof (intro ballI allI impI notI)
      fix a j n
      assume a: "a \<in> set (tr_admissions (set_stage i s st))" "ad_key a = k \<and> ad_op a = OwnedOp j n \<and> \<not> ad_running a"
        and l: "prompt_live (set_stage i s st) k j n"
      have "\<not> prompt_live st k j n" using d(7) [of k] a q by (simp add: quiet_ok_def)
      then have "j = i" "\<not> plain_stage s" using live l by blast+
      obtain c where c: "find_check st i = Some c" and cur: "is_current st k i"
        using l \<open>j = i\<close> by (auto simp: prompt_live_def find_check_stage)
      have "c \<in> set (tr_checks st)" "ck_object c = i" using c by (auto simp: find_check_def find_Some_iff)
      moreover have "ck_key c = k" using d(2) cur calculation by (auto simp: checks_ok_def is_current_def)
      ultimately show False using quiet_session [of c] cur q \<open>\<not> plain_stage s\<close> by simp
    qed
  qed
qed

lemma inv_set_plain: "recovery_inv st \<Longrightarrow> plain_stage s \<Longrightarrow> recovery_inv (set_stage i s st)"
  by (rule inv_set_stage) (auto simp: claim_ok_def op_fresh_def plain_stage_def split: check_stage.splits)

lemma inv_save_and_end: "recovery_inv st \<Longrightarrow> recovery_inv (save_and_end i st)"
  unfolding save_and_end_def by (intro inv_set_plain inv_persist) (simp_all add: plain_stage_def)

text \<open>Steps that take nothing back keep a check in order and a session quiet.\<close>

lemma claim_ok_mono:
  assumes "claim_ok st c" and "is_current st' (ck_key c) (ck_object c) \<Longrightarrow> is_current st (ck_key c) (ck_object c)"
    and "is_current st' (ck_key c) (ck_object c) \<Longrightarrow> claim_held st (ck_key c) \<Longrightarrow> claim_held st' (ck_key c)"
    and "\<And>n. no_op st (ck_object c) n \<Longrightarrow> no_op st' (ck_object c) n"
    and "journal_holds st (ck_key c) \<Longrightarrow> journal_holds st' (ck_key c)"
    and "set (tr_queue st') \<subseteq> set (tr_queue st)"
  shows "claim_ok st' c"
proof -
  have "op_fresh st' c"
    using assms(1,4) by (auto simp: claim_ok_def op_fresh_def split: check_stage.splits)
  then show ?thesis
  proof (cases "is_current st' (ck_key c) (ck_object c)")
    case True
    note h = conjunct2 [OF assms(1) [unfolded claim_ok_def], rule_format, OF assms(2) [OF True]]
    show ?thesis
      unfolding claim_ok_def
      using h \<open>op_fresh st' c\<close> assms(3) [OF True] assms(5,6) by (cases "ck_stage c") auto
  next
    case False
    then show ?thesis using \<open>op_fresh st' c\<close> by (simp add: claim_ok_def)
  qed
qed

lemma quiet_ok_step:
  assumes q: "quiet_ok st k" and "quiet_session k (tr_log st') \<Longrightarrow> quiet_session k (tr_log st)"
    and "k \<in> set (tr_startup st') \<Longrightarrow> k \<in> set (tr_startup st)"
    and rs: "\<And>r. quiet_session k (tr_log st') \<Longrightarrow> jm_get k (tr_records st') = Some r
      \<Longrightarrow> jm_get k (tr_records st) = Some r \<or> rr_phase r \<noteq> RunningPhase"
    and "journal_holds st k \<Longrightarrow> journal_holds st' k"
    and cs: "\<And>c. c \<in> set (tr_checks st') \<Longrightarrow> ck_key c = k \<Longrightarrow> is_current st' k (ck_object c) \<Longrightarrow> unsent_stage (ck_stage c)
      \<Longrightarrow> \<exists>b \<in> set (tr_checks st). ck_key b = k \<and> is_current st k (ck_object b) \<and> unsent_stage (ck_stage b)"
    and as: "\<And>a i n. a \<in> set (tr_admissions st') \<Longrightarrow> ad_key a = k \<Longrightarrow> ad_op a = OwnedOp i n \<Longrightarrow> \<not> ad_running a \<Longrightarrow> prompt_live st' k i n
      \<Longrightarrow> a \<in> set (tr_admissions st) \<and> prompt_live st k i n"
  shows "quiet_ok st' k"
proof (cases "quiet_session k (tr_log st')")
  case True
  then have "quiet_session k (tr_log st)" by (rule assms(2))
  note h = q [unfolded quiet_ok_def, rule_format, OF this]
  show ?thesis
    unfolding quiet_ok_def
  proof (intro impI conjI ballI allI notI)
    show False if "k \<in> set (tr_startup st')" using that assms(3) h by blast
    show False if "jm_get k (tr_records st') = Some r" "rr_phase r = RunningPhase" for r
      using rs [OF True that(1)] that(2) h by blast
    show "journal_holds st' k" using assms(5) h by blast
    show False if "c \<in> set (tr_checks st')" "ck_key c = k \<and> is_current st' k (ck_object c)" "unsent_stage (ck_stage c)" for c
      using cs [OF that(1)] that(2,3) h by blast
    show False if "a \<in> set (tr_admissions st')" "ad_key a = k \<and> ad_op a = OwnedOp i n \<and> \<not> ad_running a" "prompt_live st' k i n" for a i n
      using as [OF that(1) _ _ _ that(3)] that(2) h by blast
  qed
next
  case False
  then show ?thesis by (simp add: quiet_ok_def)
qed

lemma quiet_ok_mono:
  assumes q: "quiet_ok st k" and "quiet_session k (tr_log st') \<Longrightarrow> quiet_session k (tr_log st)"
    and "k \<in> set (tr_startup st') \<Longrightarrow> k \<in> set (tr_startup st)"
    and rs: "\<And>r. quiet_session k (tr_log st') \<Longrightarrow> jm_get k (tr_records st') = Some r
      \<Longrightarrow> jm_get k (tr_records st) = Some r \<or> rr_phase r \<noteq> RunningPhase"
    and "journal_holds st k \<Longrightarrow> journal_holds st' k"
    and cs: "\<And>c. c \<in> set (tr_checks st') \<Longrightarrow> ck_key c = k \<Longrightarrow> is_current st' k (ck_object c) \<Longrightarrow> unsent_stage (ck_stage c)
      \<Longrightarrow> c \<in> set (tr_checks st) \<and> is_current st k (ck_object c)"
    and as: "\<And>a i n. a \<in> set (tr_admissions st') \<Longrightarrow> ad_key a = k \<Longrightarrow> ad_op a = OwnedOp i n \<Longrightarrow> \<not> ad_running a \<Longrightarrow> prompt_live st' k i n
      \<Longrightarrow> a \<in> set (tr_admissions st) \<and> prompt_live st k i n"
  shows "quiet_ok st' k"
  by (rule quiet_ok_step [OF q assms(2,3) rs assms(5) _ as]) (use cs in blast)+

lemma inv_remove:
  assumes inv: "recovery_inv st"
  shows "recovery_inv (remove_record k st)"
proof (rule recovery_invI)
  let ?st = "remove_record k st"
  note d = recovery_invD [OF inv]
  have cur: "is_current ?st k' i \<longleftrightarrow> k' \<noteq> k \<and> is_current st k' i" for k' i
    by (auto simp: is_current_def tr_stopped_def remove_record_def)
  have live: "prompt_live ?st k' i n \<Longrightarrow> prompt_live st k' i n" for k' i n
    unfolding prompt_live_def cur find_check_def by (simp add: remove_record_def)
  have held: "claim_held st k' \<Longrightarrow> k' \<noteq> k \<Longrightarrow> claim_held ?st k'" for k' by (simp add: claim_held_def remove_record_def)
  have views: "no_op ?st = no_op st" "journal_holds ?st = journal_holds st" "tr_queue ?st = tr_queue st"
    by ((rule views_cong; simp add: remove_record_def)+) (simp add: remove_record_def)
  show "records_ok ?st"
    using d(1) by (auto simp: records_ok_def remove_record_def jm_delete_def jm_wf_filter distinct_map_filter)
  show "checks_ok ?st" using d(2) by (auto simp: checks_ok_def remove_record_def)
  show "writes_ok ?st" "ops_ok ?st" "prompt_log_ok (tr_log ?st)" using d(3-5) by (simp_all add: writes_ok_def ops_ok_def remove_record_def)
  show "claim_ok ?st c" if "c \<in> set (tr_checks ?st)" for c
  proof -
    have "claim_ok st c" using d(6) [of c] that by (simp add: remove_record_def)
    then show ?thesis by (rule claim_ok_mono) (simp_all add: cur held views)
  qed
  show "quiet_ok ?st k'" for k'
  proof -
    have "tr_checks ?st = tr_checks st" "tr_admissions ?st = tr_admissions st" "tr_log ?st = tr_log st"
      "set (tr_startup ?st) \<subseteq> set (tr_startup st)" "\<And>r. jm_get k' (tr_records ?st) = Some r \<Longrightarrow> jm_get k' (tr_records st) = Some r"
      by (auto simp: remove_record_def split: if_splits)
    then show ?thesis using live by (intro quiet_ok_mono [OF d(7)]) (auto simp: views cur)
  qed
qed

lemma inv_unpend:
  assumes inv: "recovery_inv st"
  shows "recovery_inv (st\<lparr>tr_startup := removeAll k (tr_startup st)\<rparr>)"
proof (rule recovery_invI)
  let ?st = "st\<lparr>tr_startup := removeAll k (tr_startup st)\<rparr>"
  note d = recovery_invD [OF inv]
  have views: "is_current ?st = is_current st" "prompt_live ?st = prompt_live st" "no_op ?st = no_op st" "journal_holds ?st = journal_holds st"
    by (rule is_current_cong prompt_live_cong views_cong; simp)+
  have held: "claim_held st k' \<Longrightarrow> claim_held ?st k'" for k' by (simp add: claim_held_def)
  show "records_ok ?st" "checks_ok ?st" "writes_ok ?st" "ops_ok ?st" "prompt_log_ok (tr_log ?st)"
    using d(1-5) by (simp_all add: recovery_inv_defs)
  show "claim_ok ?st c" if "c \<in> set (tr_checks ?st)" for c
    by (rule claim_ok_mono [OF d(6)]) (use that in \<open>simp_all add: held views\<close>)
  show "quiet_ok ?st k'" for k' by (rule quiet_ok_mono [OF d(7)]) (simp_all add: views)
qed

lemma jm_set_present_map: "jm_get k m = Some v \<Longrightarrow> f v' = f v \<Longrightarrow> map (f \<circ> snd) (jm_set k v' m) = map (f \<circ> snd) m"
  by (induction k v' m rule: jm_set.induct) (auto split: if_splits)

lemma inv_put_record:
  assumes inv: "recovery_inv st" and r: "jm_get k (tr_records st) = Some r"
    and r': "record_key r' = k" "rr_object r' = rr_object r"
    and plain: "\<And>c. c \<in> set (tr_checks st) \<Longrightarrow> ck_key c = k \<Longrightarrow> is_current st k (ck_object c) \<Longrightarrow> plain_stage (ck_stage c)"
    and quiet_session: "quiet_session k (tr_log st) \<Longrightarrow> rr_phase r' \<noteq> RunningPhase"
  shows "recovery_inv (put_record k r' st)"
proof (rule recovery_invI)
  let ?st = "put_record k r' st"
  note d = recovery_invD [OF inv]
  have get: "jm_get k' (tr_records ?st) = (if k' = k then Some r' else jm_get k' (tr_records st))" for k' by (simp add: put_record_def)
  have cur: "is_current ?st = is_current st"
    using r r' by (auto simp: is_current_def tr_stopped_def put_record_def fun_eq_iff)
  have live: "prompt_live ?st = prompt_live st" unfolding prompt_live_def [abs_def] find_check_def cur by (simp add: put_record_def)
  have held: "k' \<noteq> k \<Longrightarrow> claim_held ?st k' = claim_held st k'" for k' by (simp add: claim_held_def put_record_def)
  have views: "no_op ?st = no_op st" "journal_holds ?st = journal_holds st" "tr_queue ?st = tr_queue st"
    by ((rule views_cong; simp add: put_record_def)+) (simp add: put_record_def)
  have "rr_object r < tr_nextObject st" using d(1) jm_get_mem [OF r] by (auto simp: records_ok_def)
  moreover have "set (jm_set k r' m) \<subseteq> insert (k, r') (set m)" for m :: "(recovery_key, recovery_record) jsmap"
    by (induction k r' m rule: jm_set.induct) auto
  ultimately show "records_ok ?st"
    using d(1) r' jm_set_present_map [OF r, of rr_object r'] by (fastforce simp: records_ok_def put_record_def)
  show "checks_ok ?st" using d(2) r r' by (auto simp: checks_ok_def put_record_def)
  show "writes_ok ?st" "ops_ok ?st" "prompt_log_ok (tr_log ?st)" using d(3-5) by (simp_all add: writes_ok_def ops_ok_def put_record_def)
  show "claim_ok ?st c" if "c \<in> set (tr_checks ?st)" for c
  proof -
    have c: "c \<in> set (tr_checks st)" using that by (simp add: put_record_def)
    show ?thesis
    proof (cases "ck_key c = k \<and> is_current st k (ck_object c)")
      case True
      then show ?thesis using plain [OF c] by (auto simp: claim_ok_def op_fresh_def plain_stage_def split: check_stage.splits)
    next
      case False
      have "is_current st (ck_key c) (ck_object c) \<Longrightarrow> claim_held st (ck_key c) \<Longrightarrow> claim_held ?st (ck_key c)"
        using False held [of "ck_key c"] by (cases "ck_key c = k") auto
      then show ?thesis by (intro claim_ok_mono [OF d(6) [OF c]]) (simp_all add: cur views)
    qed
  qed
  show "quiet_ok ?st k'" for k'
  proof -
    have "tr_checks ?st = tr_checks st" "tr_admissions ?st = tr_admissions st" "tr_log ?st = tr_log st" "tr_startup ?st = tr_startup st"
      by (simp_all add: put_record_def)
    then show ?thesis using quiet_session by (intro quiet_ok_mono [OF d(7)]) (auto simp: views cur live get split: if_splits)
  qed
qed

lemma inv_seen:
  assumes inv: "recovery_inv st"
  shows "recovery_inv (mark (SeenActive k) st)"
proof (rule recovery_invI)
  let ?st = "mark (SeenActive k) st"
  note d = recovery_invD [OF inv]
  have views: "is_current ?st = is_current st" "prompt_live ?st = prompt_live st" "no_op ?st = no_op st" "journal_holds ?st = journal_holds st"
    "claim_held ?st = claim_held st" "tr_queue ?st = tr_queue st"
    by ((rule is_current_cong prompt_live_cong views_cong; simp add: mark_def)+) (simp add: mark_def)
  show "records_ok ?st" "checks_ok ?st" "writes_ok ?st" "ops_ok ?st"
    using d(1-4) by (simp_all add: recovery_inv_defs mark_def)
  show "prompt_log_ok (tr_log ?st)" using prompt_log_ok_snoc [OF d(5)] by (simp add: mark_def)
  show "claim_ok ?st c" if "c \<in> set (tr_checks ?st)" for c
    using d(6) [of c] that claim_ok_cong [OF views(1,5,3,4,6)] by (simp add: mark_def)
  show "quiet_ok ?st k'" for k'
  proof -
    have "tr_checks ?st = tr_checks st" "tr_admissions ?st = tr_admissions st" "tr_log ?st = tr_log st @ [SeenActive k]"
      "tr_startup ?st = tr_startup st" "tr_records ?st = tr_records st"
      by (simp_all add: mark_def)
    then show ?thesis by (intro quiet_ok_mono [OF d(7)]) (auto simp: views)
  qed
qed

lemma distinct_same:
  "distinct (filter P (map f xs)) \<Longrightarrow> x \<in> set xs \<Longrightarrow> y \<in> set xs \<Longrightarrow> f x = f y \<Longrightarrow> P (f x) \<Longrightarrow> x = y"
  by (induction xs) (auto split: if_splits simp: image_iff)

lemma set_map_first:
  "b \<in> set (map_first P f xs) \<Longrightarrow> b \<in> set xs \<or> (\<exists>x. find P xs = Some x \<and> f x = Some b)"
  by (induction xs) (auto split: if_splits option.splits)

lemma map_first_image:
  "(\<And>x y. f x = Some y \<Longrightarrow> g y = g x) \<Longrightarrow>
     set (map g (map_first P f xs)) \<subseteq> set (map g xs) \<and>
     (distinct (filter Q (map g xs)) \<longrightarrow> distinct (filter Q (map g (map_first P f xs))))"
  by (induction xs) (auto split: option.splits)

lemma map_first_hit: "find P xs = Some x \<Longrightarrow> f x = Some y \<Longrightarrow> y \<in> set (map_first P f xs)"
  by (induction xs) (auto split: if_splits)

lemma inv_set_admissions:
  assumes inv: "recovery_inv st"
    and pending: "\<And>a. a \<in> set as \<Longrightarrow> ad_op a \<noteq> OtherOp \<Longrightarrow> \<not> ad_running a \<Longrightarrow> a \<in> set (tr_admissions st)"
    and ops: "\<And>a. a \<in> set as \<Longrightarrow> ad_op a \<noteq> OtherOp \<Longrightarrow> ad_op a \<in> ad_op ` set (tr_admissions st)"
    and distinct: "distinct (filter (\<lambda>o'. o' \<noteq> OtherOp) (map ad_op as))"
  shows "recovery_inv (st\<lparr>tr_admissions := as\<rparr>)"
proof (rule recovery_invI)
  let ?st = "st\<lparr>tr_admissions := as\<rparr>"
  note d = recovery_invD [OF inv]
  have views: "is_current ?st = is_current st" "prompt_live ?st = prompt_live st" "claim_held ?st = claim_held st"
    "journal_holds ?st = journal_holds st"
    by (rule is_current_cong prompt_live_cong views_cong; simp)+
  have none: "no_op st i n \<Longrightarrow> no_op ?st i n" for i n
    using ops by (force simp: no_op_def)
  show "records_ok ?st" "checks_ok ?st" "writes_ok ?st" "prompt_log_ok (tr_log ?st)" using d(1-3,5) by (simp_all add: recovery_inv_defs)
  have "n < tr_issued st \<and> i < tr_nextObject st" if mem: "a \<in> set as" and op: "ad_op a = OwnedOp i n" for a i n
  proof -
    have "ad_op a \<in> ad_op ` set (tr_admissions st)" by (rule ops [OF mem]) (simp add: op)
    then obtain b where "b \<in> set (tr_admissions st)" "ad_op b = OwnedOp i n" using op by auto
    then show ?thesis using d(4) by (simp add: ops_ok_def)
  qed
  then show "ops_ok ?st" using distinct by (simp add: ops_ok_def)
  show "claim_ok ?st c" if "c \<in> set (tr_checks ?st)" for c
    by (rule claim_ok_mono [OF d(6)]) (use that none in \<open>simp_all add: views\<close>)
  show "quiet_ok ?st k" for k
    by (rule quiet_ok_mono [OF d(7)]) (use pending in \<open>auto simp: views\<close>)
qed

lemma find_check_mem: "find_check st i = Some c \<Longrightarrow> c \<in> set (tr_checks st) \<and> ck_object c = i"
  by (auto simp: find_check_def find_Some_iff)

lemma find_check_Some: "recovery_inv st \<Longrightarrow> c \<in> set (tr_checks st) \<Longrightarrow> find_check st (ck_object c) = Some c"
proof -
  assume inv: "recovery_inv st" and c: "c \<in> set (tr_checks st)"
  have dist: "distinct (map ck_object (tr_checks st))" using recovery_invD(2) [OF inv] by (simp add: checks_ok_def)
  obtain b where b: "find_check st (ck_object c) = Some b"
    using c by (cases "find_check st (ck_object c)") (auto simp: find_check_def find_None_iff)
  then have "b \<in> set (tr_checks st)" "ck_object b = ck_object c" using find_check_mem by auto
  then have "b = c" using dist c by (auto simp: distinct_map dest: inj_onD)
  then show ?thesis using b by simp
qed

lemma current_check_key:
  "recovery_inv st \<Longrightarrow> c \<in> set (tr_checks st) \<Longrightarrow> is_current st k (ck_object c) \<Longrightarrow> ck_key c = k"
  using recovery_invD(2) by (auto simp: checks_ok_def is_current_def)

text \<open>A prompt that is sent: its session was not quiet, and is held in memory and in the journal.\<close>

lemma inv_sent:
  assumes inv: "recovery_inv st" and c: "c \<in> set (tr_checks st)" "ck_key c = k" "is_current st k (ck_object c)"
    and stage: "ck_stage c = Prompting n True"
    and sent: "\<And>a. a \<in> set (tr_admissions st) \<Longrightarrow> ad_op a = OwnedOp (ck_object c) n \<Longrightarrow> ad_running a"
    and fresh: "\<not> quiet_session k (tr_log st)"
  shows "recovery_inv (mark (PromptSent k) st)"
proof (rule recovery_invI)
  let ?st = "mark (PromptSent k) st"
  note d = recovery_invD [OF inv]
  have views: "is_current ?st = is_current st" "prompt_live ?st = prompt_live st" "no_op ?st = no_op st" "journal_holds ?st = journal_holds st"
    "claim_held ?st = claim_held st" "tr_queue ?st = tr_queue st"
    by ((rule is_current_cong prompt_live_cong views_cong; simp add: mark_def)+) (simp add: mark_def)
  have same: "tr_checks ?st = tr_checks st" "tr_admissions ?st = tr_admissions st" "tr_log ?st = tr_log st @ [PromptSent k]"
    "tr_startup ?st = tr_startup st" "tr_records ?st = tr_records st"
    by (simp_all add: mark_def)
  show "records_ok ?st" "checks_ok ?st" "writes_ok ?st" "ops_ok ?st"
    using d(1-4) by (simp_all add: recovery_inv_defs mark_def)
  show "prompt_log_ok (tr_log ?st)" using prompt_log_ok_snoc [OF d(5)] fresh by (simp add: mark_def)
  show "claim_ok ?st c" if "c \<in> set (tr_checks ?st)" for c
    using d(6) [of c] that claim_ok_cong [OF views(1,5,3,4,6)] by (simp add: mark_def)
  show "quiet_ok ?st k'" for k'
  proof (cases "k' = k")
    case False
    then show ?thesis by (intro quiet_ok_mono [OF d(7)]) (auto simp: views same)
  next
    case True
    have held: "claim_held st k" "journal_holds st k" using d(6) [OF c(1)] c stage by (auto simp: claim_ok_def)
    have one: "ck_stage b = Prompting n True" if b: "b \<in> set (tr_checks st)" "is_current st k (ck_object b)" for b
    proof -
      have "ck_object b = ck_object c" using b(2) c(3) by (auto simp: is_current_def)
      then have "find_check st (ck_object c) = Some b" using find_check_Some [OF inv b(1)] by metis
      then show ?thesis using find_check_Some [OF inv c(1)] stage by simp
    qed
    have live: "i = ck_object c \<and> m = n" if "prompt_live st k i m" for i m
    proof -
      have i: "i = ck_object c" using that c(3) by (auto simp: prompt_live_def is_current_def)
      show ?thesis using that find_check_Some [OF inv c(1)] stage unfolding prompt_live_def i by simp
    qed
    show ?thesis
      unfolding quiet_ok_def views same True
    proof (intro impI conjI ballI allI notI)
      show False if "k \<in> set (tr_startup st)" using that held by (simp add: claim_held_def)
      show False if "jm_get k (tr_records st) = Some r" "rr_phase r = RunningPhase" for r using that held by (simp add: claim_held_def)
      show "journal_holds st k" by (rule held)
      show False if "b \<in> set (tr_checks st)" "ck_key b = k \<and> is_current st k (ck_object b)" "unsent_stage (ck_stage b)" for b
        using that one by (simp add: unsent_stage_def)
      show False if "a \<in> set (tr_admissions st)" "ad_key a = k \<and> ad_op a = OwnedOp i m \<and> \<not> ad_running a" "prompt_live st k i m" for a i m
        using that sent live by blast
    qed
  qed
qed

text \<open>The first mutation of a session is started or taken out.\<close>

lemma inv_map_first:
  assumes inv: "recovery_inv st" and f: "f = (\<lambda>a. Some (a\<lparr>ad_running := True\<rparr>)) \<or> f = (\<lambda>a. None)"
  shows "recovery_inv (st\<lparr>tr_admissions := map_first P f (tr_admissions st)\<rparr>)"
proof -
  let ?as = "map_first P f (tr_admissions st)"
  have dist: "distinct (filter (\<lambda>o'. o' \<noteq> OtherOp) (map ad_op (tr_admissions st)))"
    using recovery_invD(4) [OF inv] by (simp add: ops_ok_def)
  have keep: "f x = Some y \<Longrightarrow> ad_op y = ad_op x" for x y using f by auto
  show ?thesis
  proof (rule inv_set_admissions [OF inv])
    show "b \<in> set ?as \<Longrightarrow> ad_op b \<noteq> OtherOp \<Longrightarrow> \<not> ad_running b \<Longrightarrow> b \<in> set (tr_admissions st)" for b
      using set_map_first [of b _ f] f by fastforce
    show "b \<in> set ?as \<Longrightarrow> ad_op b \<noteq> OtherOp \<Longrightarrow> ad_op b \<in> ad_op ` set (tr_admissions st)" for b
      using subsetD [OF conjunct1 [OF map_first_image [of f ad_op, OF keep]], of "ad_op b" _ "tr_admissions st"] by auto
    show "distinct (filter (\<lambda>o'. o' \<noteq> OtherOp) (map ad_op ?as))" using map_first_image [of f ad_op, OF keep] dist by blast
  qed
qed

lemma inv_admission_runs: "recovery_inv st \<Longrightarrow> recovery_inv (admission_runs k st)"
proof (cases "find (\<lambda>a. ad_key a = k) (tr_admissions st)")
  case None
  then show "recovery_inv st \<Longrightarrow> ?thesis" by (simp add: admission_runs_def)
next
  case (Some a)
  assume inv: "recovery_inv st"
  note d = recovery_invD [OF inv]
  let ?run = "\<lambda>a. Some (a\<lparr>ad_running := True\<rparr>)"
  let ?as = "\<lambda>f. map_first (\<lambda>a. ad_key a = k) f (tr_admissions st)"
  have a: "a \<in> set (tr_admissions st)" "ad_key a = k" using Some by (auto simp: find_Some_iff)
  have dist: "distinct (filter (\<lambda>o'. o' \<noteq> OtherOp) (map ad_op (tr_admissions st)))" using d(4) by (simp add: ops_ok_def)
  note put = inv_map_first [OF inv, where P = "\<lambda>a. ad_key a = k"]
  show ?thesis
  proof (cases "ad_running a")
    case True
    then show ?thesis using inv Some by (simp add: admission_runs_def)
  next
    case False
    show ?thesis
    proof (cases "ad_op a")
      case OtherOp
      then show ?thesis using put [of ?run] Some False by (simp add: admission_runs_def)
    next
      case (OwnedOp i n)
      show ?thesis
      proof (cases "prompt_live st k i n")
        case False
        then show ?thesis using put [of "\<lambda>a. None"] Some \<open>\<not> ad_running a\<close> OwnedOp by (simp add: admission_runs_def)
      next
        case True
        let ?st = "st\<lparr>tr_admissions := ?as ?run\<rparr>"
        have inv': "recovery_inv ?st" by (rule put) simp
        obtain c where c: "find_check st i = Some c" "ck_stage c = Prompting n True" "is_current st k i"
          using True by (auto simp: prompt_live_def)
        then have mem: "c \<in> set (tr_checks st)" "ck_object c = i" using find_check_mem by auto
        have key: "ck_key c = k" using current_check_key [OF inv mem(1)] c(3) mem(2) by simp
        have fresh: "\<not> quiet_session k (tr_log st)" using d(7) [of k] a OwnedOp False True by (auto simp: quiet_ok_def)
        have cur: "is_current ?st = is_current st" by (rule is_current_cong; simp)
        have "recovery_inv (mark (PromptSent k) ?st)"
        proof (rule inv_sent [OF inv'])
          show "c \<in> set (tr_checks ?st)" "ck_key c = k" "is_current ?st k (ck_object c)" "ck_stage c = Prompting n True"
            "\<not> quiet_session k (tr_log ?st)"
            using mem key c fresh cur by simp_all
          have run: "a\<lparr>ad_running := True\<rparr> \<in> set (?as ?run)" by (rule map_first_hit [OF Some]) simp
          have dist': "distinct (filter (\<lambda>o'. o' \<noteq> OtherOp) (map ad_op (?as ?run)))"
            using map_first_image [of ?run ad_op] dist by fastforce
          show "ad_running b" if "b \<in> set (tr_admissions ?st)" "ad_op b = OwnedOp (ck_object c) n" for b
            using distinct_same [OF dist' run, of b] that OwnedOp mem(2) by auto
        qed
        then show ?thesis using Some \<open>\<not> ad_running a\<close> OwnedOp True by (simp add: admission_runs_def)
      qed
    qed
  qed
qed

subsection \<open>The steps\<close>

lemma inv_add_check:
  assumes inv: "recovery_inv st" and new: "i < tr_nextObject st" "i \<notin> ck_object ` set (tr_checks st)"
    and key: "\<And>k' r. jm_get k' (tr_records st) = Some r \<Longrightarrow> rr_object r = i \<Longrightarrow> k = k'"
    and stage: "plain_stage s"
  shows "recovery_inv (st\<lparr>tr_checks := tr_checks st @ [\<lparr>ck_key = k, ck_object = i, ck_stage = s\<rparr>]\<rparr>)"
proof (rule recovery_invI)
  let ?c = "\<lparr>ck_key = k, ck_object = i, ck_stage = s\<rparr>"
  let ?st = "st\<lparr>tr_checks := tr_checks st @ [?c]\<rparr>"
  note d = recovery_invD [OF inv]
  have views: "is_current ?st = is_current st" "claim_held ?st = claim_held st" "no_op ?st = no_op st" "journal_holds ?st = journal_holds st"
    by (rule is_current_cong views_cong; simp)+
  show "records_ok ?st" "writes_ok ?st" "ops_ok ?st" "prompt_log_ok (tr_log ?st)" using d(1,3-5) by (simp_all add: recovery_inv_defs)
  show "checks_ok ?st" using d(2) new key by (auto simp: checks_ok_def)
  show "claim_ok ?st c" if "c \<in> set (tr_checks ?st)" for c
  proof (cases "c = ?c")
    case True
    then show ?thesis using stage by (simp add: claim_ok_def op_fresh_def plain_stage_def split: check_stage.splits)
  next
    case False
    then show ?thesis using that by (intro claim_ok_mono [OF d(6)]) (simp_all add: views)
  qed
  have find: "find P (xs @ [x]) = (case find P xs of Some y \<Rightarrow> Some y | None \<Rightarrow> if P x then Some x else None)" for P xs and x :: recovery_check
    by (induction xs) auto
  have live: "prompt_live ?st k' j n \<Longrightarrow> prompt_live st k' j n" for k' j n
    using stage by (auto simp: prompt_live_def find_check_def views find plain_stage_def split: option.splits if_splits)
  show "quiet_ok ?st k'" for k'
    using stage live by (intro quiet_ok_mono [OF d(7)]) (auto simp: views plain_unsent)
qed

lemma object_key:
  "recovery_inv st \<Longrightarrow> jm_get k (tr_records st) = Some r \<Longrightarrow> jm_get k' (tr_records st) = Some r' \<Longrightarrow> rr_object r' = rr_object r \<Longrightarrow> k = k'"
proof -
  assume inv: "recovery_inv st" and g: "jm_get k (tr_records st) = Some r" "jm_get k' (tr_records st) = Some r'" "rr_object r' = rr_object r"
  have inj: "inj_on (rr_object \<circ> snd) (set (tr_records st))" using recovery_invD(1) [OF inv] by (simp add: records_ok_def distinct_map)
  have "(k, r) = (k', r')" by (rule inj_onD [OF inj]) (simp_all add: g(3) jm_get_mem [OF g(1)] jm_get_mem [OF g(2)])
  then show "k = k'" by simp
qed

text \<open>A tick starts the checks of distinct records, one after the other.\<close>

definition tick_ready :: "recovery \<Rightarrow> (recovery_key \<times> recovery_record) list \<Rightarrow> bool" where
  "tick_ready st es =
     (recovery_inv st \<and> distinct es \<and> (\<forall>e \<in> set es. e \<in> set (tr_records st) \<and> rr_object (snd e) \<notin> ck_object ` set (tr_checks st)))"

lemma remove_record_simps [simp]:
  "tr_records (remove_record k st) = jm_delete k (tr_records st)" "tr_checks (remove_record k st) = tr_checks st"
  "tr_issued (remove_record k st) = tr_issued st" "tr_nextObject (remove_record k st) = tr_nextObject st"
  "tr_stop (remove_record k st) = tr_stop st" "tr_log (remove_record k st) = tr_log st"
  "tr_admissions (remove_record k st) = tr_admissions st"
  by (simp_all add: remove_record_def)

lemma tick_ready_step: "tick_ready st (e # es) \<Longrightarrow> tick_ready (start_check known st e) es"
proof -
  assume ready: "tick_ready st (e # es)"
  obtain k r where e: "e = (k, r)" by (cases e)
  let ?i = "rr_object r"
  have inv: "recovery_inv st" and mem: "(k, r) \<in> set (tr_records st)" and new: "?i \<notin> ck_object ` set (tr_checks st)"
    using ready e by (auto simp: tick_ready_def)
  note d = recovery_invD [OF inv]
  have get: "jm_get k (tr_records st) = Some r" using d(1) mem by (auto simp: records_ok_def jm_mem_get)
  have less: "?i < tr_nextObject st" using d(1) mem by (auto simp: records_ok_def)
  have others: "fst x \<noteq> k \<and> rr_object (snd x) \<noteq> ?i" if x: "x \<in> set es" for x
  proof -
    have m: "x \<in> set (tr_records st)" "x \<noteq> (k, r)" using ready e x by (auto simp: tick_ready_def)
    then have g: "jm_get (fst x) (tr_records st) = Some (snd x)" using d(1) by (auto simp: records_ok_def jm_mem_get)
    then have "fst x \<noteq> k" using get m(2) by (cases x) auto
    then show ?thesis using object_key [OF inv get g] by auto
  qed
  let ?put = "\<lambda>s st. st\<lparr>tr_checks := tr_checks st @ [\<lparr>ck_key = k, ck_object = ?i, ck_stage = s\<rparr>]\<rparr>"
  have rest: "tick_ready st' es"
    if "recovery_inv st'" "tr_records st' = tr_records st \<or> tr_records st' = jm_delete k (tr_records st)"
      "set (tr_checks st') \<subseteq> set (tr_checks st) \<union> {\<lparr>ck_key = k, ck_object = ?i, ck_stage = stage\<rparr>}" for st' stage
    using that ready others unfolding tick_ready_def by (fastforce simp: jm_delete_def)
  show ?thesis
  proof (cases "known r")
    case True
    let ?s = "if k \<in> set (tr_startup st) then ResumingStage else ReadingStage"
    have "recovery_inv (?put ?s st)"
      using object_key [OF inv get] by (intro inv_add_check [OF inv less new]) (auto simp: plain_stage_def)
    then have "tick_ready (?put ?s st) es" by (rule rest [of _ ?s]) simp_all
    then show ?thesis using True e by (simp add: start_check_def Let_def)
  next
    case unknown: False
    show ?thesis
    proof (cases "is_current st k ?i")
      case True
      let ?st = "persist (remove_record k st)" and ?s = "SavingStage (tr_issued st)"
      have "recovery_inv (?put ?s ?st)"
        using less new object_key [OF inv get]
        by (intro inv_add_check inv_persist inv_remove inv) (auto simp: plain_stage_def split: if_splits)
      then have "tick_ready (?put ?s ?st) es" by (rule rest [of _ ?s]) auto
      then show ?thesis using True unknown e by (simp add: start_check_def Let_def)
    next
      case False
      have "tick_ready st es" using ready by (simp add: tick_ready_def)
      then show ?thesis using False unknown e by (simp add: start_check_def Let_def)
    qed
  qed
qed

lemma tick_ready_run: "tick_ready st es \<Longrightarrow> recovery_inv (foldl (start_check known) st es)"
  by (induction es arbitrary: st) (auto simp: tick_ready_step, simp add: tick_ready_def)

lemma inv_tick: "recovery_inv st \<Longrightarrow> recovery_inv (tick known st)"
proof (cases "tr_stopped st \<or> tr_checks st \<noteq> []")
  case False
  assume inv: "recovery_inv st"
  let ?st = "st\<lparr>tr_cursor := tr_cursor st + RECOVERY_CONCURRENCY\<rparr>"
  let ?n = "length (tr_records st)"
  let ?es = "if ?n = 0 then [] else js_uniq [tr_records st ! (tr_cursor st mod ?n), tr_records st ! ((tr_cursor st + 1) mod ?n)]"
  have "tick_ready ?st ?es" using inv False by (auto simp: tick_ready_def)
  then show ?thesis using False tick_ready_run by (simp add: tick_def Let_def)
qed (auto simp: tick_def)

lemma inv_resumed: "recovery_inv st \<Longrightarrow> recovery_inv (resumed i ok st)"
  by (simp add: resumed_def inv_set_plain inv_end_check plain_stage_def split: option.split)

lemma put_record_simps [simp]:
  "tr_records (put_record k r st) = jm_set k r (tr_records st)" "tr_checks (put_record k r st) = tr_checks st"
  "tr_issued (put_record k r st) = tr_issued st" "tr_nextObject (put_record k r st) = tr_nextObject st"
  "tr_stop (put_record k r st) = tr_stop st" "tr_log (put_record k r st) = tr_log st"
  "tr_admissions (put_record k r st) = tr_admissions st" "tr_startup (put_record k r st) = tr_startup st"
  "tr_queue (put_record k r st) = tr_queue st" "tr_db (put_record k r st) = tr_db st"
  "tr_recovered (put_record k r st) = tr_recovered st"
  by (simp_all add: put_record_def)

lemma record_key_of: "recovery_inv st \<Longrightarrow> jm_get k (tr_records st) = Some r \<Longrightarrow> record_key r = k"
  using recovery_invD(1) jm_get_mem by (fastforce simp: records_ok_def)

lemma record_key_update [simp]:
  "record_key (r\<lparr>rr_phase := ph\<rparr>) = record_key r" "record_key (r\<lparr>rr_userId := u\<rparr>) = record_key r"
  "record_key (r\<lparr>rr_shutdown := b\<rparr>) = record_key r"
  by (simp_all add: record_key_def)

text \<open>Where the check of a record is in a plain stage, the record may be changed.\<close>

lemma only_check:
  assumes inv: "recovery_inv st" and c: "c \<in> set (tr_checks st)" "is_current st k (ck_object c)"
    and b: "b \<in> set (tr_checks st)" "is_current st k (ck_object b)"
  shows "b = c"
proof -
  have "ck_object b = ck_object c" using b(2) c(2) by (auto simp: is_current_def)
  then have "find_check st (ck_object c) = Some b" using find_check_Some [OF inv b(1)] by metis
  then show ?thesis using find_check_Some [OF inv c(1)] by simp
qed

lemma inv_put_checked:
  assumes inv: "recovery_inv st" and c: "c \<in> set (tr_checks st)" "is_current st k (ck_object c)" "plain_stage (ck_stage c)"
    and r: "jm_get k (tr_records st) = Some r" "record_key r' = k" "rr_object r' = rr_object r"
    and quiet_session: "quiet_session k (tr_log st) \<Longrightarrow> rr_phase r' \<noteq> RunningPhase"
  shows "recovery_inv (put_record k r' st)"
  using only_check [OF inv c(1,2)] c(3) quiet_session by (intro inv_put_record [OF inv r]) auto

lemma inv_observe_only:
  assumes inv: "recovery_inv st" and c: "c \<in> set (tr_checks st)" "is_current st k (ck_object c)" "plain_stage (ck_stage c)"
    and r: "jm_get k (tr_records st) = Some r" and s: "sn_active s \<or> sn_blocked s"
  shows "recovery_inv (observe_only k r s st)"
proof -
  let ?st = "st\<lparr>tr_startup := removeAll k (tr_startup st),
    tr_recovered := (if k \<in> set (tr_startup st) then List.insert k (tr_recovered st) else tr_recovered st)\<rparr>"
  let ?r = "r\<lparr>rr_phase := (if sn_blocked s then BlockedPhase else RunningPhase), rr_userId := sn_userId s, rr_shutdown := False\<rparr>"
  have inv1: "recovery_inv ?st"
    using inv_unpend [OF inv, of k] by (subst inv_cong [where st = "st\<lparr>tr_startup := removeAll k (tr_startup st)\<rparr>"]) simp_all
  have cur: "is_current ?st = is_current st" by (rule is_current_cong; simp)
  have key: "record_key ?r = k" "rr_object ?r = rr_object r" using record_key_of [OF inv r] by simp_all
  show ?thesis
  proof (cases "sn_active s")
    case True
    have cur': "is_current (mark (SeenActive k) ?st) = is_current st" by (rule is_current_cong; simp add: mark_def)
    have "recovery_inv (put_record k ?r (mark (SeenActive k) ?st))"
      by (rule inv_put_checked [OF inv_seen [OF inv1], of c]) (use c r key cur' in \<open>simp_all add: mark_def\<close>)
    moreover have "put_record k ?r (mark (SeenActive k) ?st) = mark (SeenActive k) (put_record k ?r ?st)"
      by (simp add: put_record_def mark_def)
    ultimately show ?thesis using True by (simp add: observe_only_def Let_def)
  next
    case False
    have "recovery_inv (put_record k ?r ?st)"
      by (rule inv_put_checked [OF inv1, of c]) (use c r key cur s False in \<open>simp_all\<close>)
    then show ?thesis using False by (simp add: observe_only_def Let_def)
  qed
qed

lemma inv_claim:
  assumes inv: "recovery_inv st" and c: "c \<in> set (tr_checks st)" "is_current st k (ck_object c)" "plain_stage (ck_stage c)"
    and r: "jm_get k (tr_records st) = Some r" and pending: "k \<in> set (tr_startup st)"
  shows "recovery_inv (claim k r user now st)"
proof -
  let ?r = "r\<lparr>rr_phase := ClaimedPhase\<rparr>"
  let ?st = "(put_record k ?r st)\<lparr>tr_startup := removeAll k (tr_startup st), tr_recovered := List.insert k (tr_recovered st),
    tr_nextLaunch := now + RECOVERY_INTERVAL_MS\<rparr>"
  have key: "record_key ?r = k" using record_key_of [OF inv r] by simp
  have inv1: "recovery_inv (put_record k ?r st)" by (rule inv_put_checked [OF inv c r key]) simp_all
  have inv2: "recovery_inv ?st"
    using inv_unpend [OF inv1, of k]
    by (subst inv_cong [where st = "(put_record k ?r st)\<lparr>tr_startup := removeAll k (tr_startup (put_record k ?r st))\<rparr>"]) simp_all
  let ?n = "tr_issued st"
  have i: "rr_object r = ck_object c" using c(2) r by (simp add: is_current_def)
  have fresh: "\<not> quiet_session k (tr_log st)" using recovery_invD(7) [OF inv, of k] pending by (auto simp: quiet_ok_def)
  have ck: "ck_key b = k" if "b \<in> set (tr_checks st)" "ck_object b = ck_object c" for b
    using current_check_key [OF inv that(1)] c(2) that(2) by simp
  have "recovery_inv (set_stage (ck_object c) (ClaimSaving ?n user) (persist ?st))"
  proof (rule inv_set_stage [OF inv_persist [OF inv2]])
    fix b
    assume b: "b \<in> set (tr_checks (persist ?st))" "ck_object b = ck_object c"
    have held: "claim_held (set_stage (ck_object c) (ClaimSaving ?n user) (persist ?st)) k" by (simp add: claim_held_def)
    have old: "fst w < ?n" if "w \<in> set (tr_queue st)" for w
      using recovery_invD(3) [OF inv] that by (simp add: writes_ok_def)
    have last: "not_running k (map snd (jm_set k ?r (tr_records st)))"
    proof -
      have "records_ok (put_record k ?r st)" by (rule recovery_invD(1) [OF inv1])
      then show ?thesis using map_snd_not_running [of "put_record k ?r st" k] by simp
    qed
    have "no_op (set_stage (ck_object c) (ClaimSaving ?n user) (persist ?st)) (ck_object c) ?n"
      using recovery_invD(4) [OF inv] by (auto simp: no_op_def ops_ok_def)
    then show "claim_ok (set_stage (ck_object c) (ClaimSaving ?n user) (persist ?st)) (b\<lparr>ck_stage := ClaimSaving ?n user\<rparr>)"
      using held last b ck by (auto simp: claim_ok_def op_fresh_def dest!: old)
    show "plain_stage (ClaimSaving ?n user)"
      if "is_current (persist ?st) (ck_key b) (ck_object c)" "quiet_session (ck_key b) (tr_log (persist ?st))"
      using that fresh ck b by simp
  qed
  then show ?thesis by (simp add: claim_def Let_def i)
qed

lemma inv_judge:
  assumes inv: "recovery_inv st" and c: "c \<in> set (tr_checks st)" "is_current st k (ck_object c)" "plain_stage (ck_stage c)"
    and r: "jm_get k (tr_records st) = Some r"
  shows "recovery_inv (judge k r s now st)"
  using inv_observe_only [OF assms, of s] inv_claim [OF assms]
  by (simp add: judge_def Let_def inv inv_end_check inv_save_and_end inv_remove)

lemma inv_observed: "recovery_inv st \<Longrightarrow> recovery_inv (observed i payload now st)"
proof (cases "find_check st i")
  case None
  then show "recovery_inv st \<Longrightarrow> ?thesis" by (simp add: observed_def)
next
  case (Some c)
  assume inv: "recovery_inv st"
  have c: "c \<in> set (tr_checks st)" "ck_object c = i" using find_check_mem [OF Some] by simp_all
  show ?thesis
  proof (cases "ck_stage c = ReadingStage \<and> is_current st (ck_key c) i")
    case True
    then have "recovery_inv (judge (ck_key c) r s now st)" if "jm_get (ck_key c) (tr_records st) = Some r" for r s
      using c by (intro inv_judge [OF inv c(1) _ _ that]) (simp_all add: plain_stage_def)
    then show ?thesis using inv Some True by (simp add: observed_def inv_end_check split: option.split)
  next
    case False
    then show ?thesis using inv Some by (auto simp: observed_def inv_end_check)
  qed
qed

text \<open>The end of a write.\<close>

lemma map_filter_mem: "y \<in> set (List.map_filter f xs) \<Longrightarrow> \<exists>x \<in> set xs. f x = Some y"
  by (auto simp: List.map_filter_def)

lemma distinct_map_filter_key:
  "(\<And>x y. f x = Some y \<Longrightarrow> g y = g x) \<Longrightarrow> distinct (map g xs) \<Longrightarrow> distinct (map g (List.map_filter f xs))"
proof (induction xs)
  case (Cons x xs)
  then have "g x \<notin> g ` set (List.map_filter f xs)" using map_filter_mem [of _ f xs] by fastforce
  then show ?case using Cons by (auto simp: List.map_filter_simps split: option.split)
qed (simp add: List.map_filter_simps)

lemma settle_check_keeps:
  "settle_check n ok c = Some c' \<Longrightarrow>
     c' = c \<or> (\<exists>user. ck_stage c = ClaimSaving n user \<and> ok \<and> c' = c\<lparr>ck_stage := ClaimSaved n user\<rparr>)"
  by (auto simp: settle_check_def split: check_stage.splits if_splits)

lemma inv_write_settled: "recovery_inv st \<Longrightarrow> recovery_inv (write_settled ok st)"
proof (cases "tr_queue st")
  case Nil
  then show "recovery_inv st \<Longrightarrow> ?thesis" by (simp add: write_settled_def)
next
  case (Cons w rest)
  assume inv: "recovery_inv st"
  note d = recovery_invD [OF inv]
  obtain n snapshot where w: "w = (n, snapshot)" by (cases w)
  let ?st = "write_settled ok st"
  have st: "?st = st\<lparr>tr_queue := rest, tr_db := (if ok then snapshot else tr_db st),
      tr_checks := List.map_filter (settle_check n ok) (tr_checks st),
      tr_admissions := tr_admissions st @ (if ok then joining n (tr_forwards st) else []),
      tr_forwards := List.map_filter (settle_forward n ok) (tr_forwards st), tr_stop := settle_stop n ok (tr_stop st)\<rparr>"
    using Cons w by (simp add: write_settled_def)
  have stopped: "tr_stopped ?st = tr_stopped st" unfolding st tr_stopped_def by (simp add: settle_stop_def split: stop_stage.split)
  have cur: "is_current ?st = is_current st" unfolding is_current_def [abs_def] stopped by (simp add: st)
  have held: "claim_held ?st = claim_held st" by (rule views_cong; simp add: st)
  have joined: "ad_op a = OtherOp" if "a \<in> set (joining n (tr_forwards st))" for a using that by (auto simp: joining_def)
  have none: "no_op st i m \<Longrightarrow> no_op ?st i m" for i m using joined by (auto simp: no_op_def st)
  have journal: "journal_holds st k \<Longrightarrow> journal_holds ?st k" for k using Cons w by (auto simp: journal_holds_def st)
  have queue: "set (tr_queue ?st) \<subseteq> set (tr_queue st)" using Cons by (auto simp: st)
  have before: "\<exists>c. c \<in> set (tr_checks st) \<and> settle_check n ok c = Some c'" if "c' \<in> set (tr_checks ?st)" for c'
    using map_filter_mem [of c' "settle_check n ok" "tr_checks st"] that by (auto simp: st)
  have obj: "settle_check n ok c = Some c' \<Longrightarrow> ck_object c' = ck_object c \<and> ck_key c' = ck_key c" for c c'
    using settle_check_keeps [of n ok c c'] by auto
  show ?thesis
  proof (rule recovery_invI)
    show "records_ok ?st" "prompt_log_ok (tr_log ?st)" using d(1,5) by (simp_all add: records_ok_def st)
    have "distinct (map ck_object (tr_checks ?st))"
      unfolding st using d(2) obj by (auto simp: checks_ok_def intro!: distinct_map_filter_key)
    then show "checks_ok ?st"
      using d(2) before obj unfolding checks_ok_def by (auto simp: st) (metis, metis)
    show "writes_ok ?st" using d(3) Cons by (auto simp: writes_ok_def st)
    have "filter (\<lambda>o'. o' \<noteq> OtherOp) (map ad_op (joining n (tr_forwards st))) = []" using joined by (auto simp: filter_empty_conv)
    then show "ops_ok ?st" using d(4) joined by (fastforce simp: ops_ok_def st)
    show "claim_ok ?st c'" if c': "c' \<in> set (tr_checks ?st)" for c'
    proof -
      obtain c where c: "c \<in> set (tr_checks st)" "settle_check n ok c = Some c'" using before [OF c'] by blast
      show ?thesis
        using settle_check_keeps [OF c(2)]
      proof (elim disjE exE conjE)
        assume "c' = c"
        then show ?thesis
          using journal none queue by (intro claim_ok_mono [OF d(6)]) (simp_all add: c cur held)
      next
        fix user
        assume s: "ck_stage c = ClaimSaving n user" "ok" "c' = c\<lparr>ck_stage := ClaimSaved n user\<rparr>"
        have "journal_holds ?st (ck_key c)" if "is_current st (ck_key c) (ck_object c)"
        proof -
          have h: "not_running (ck_key c) (snd x)" if "x \<in> set (tr_queue st)" "n \<le> fst x" for x
            using d(6) [OF c(1)] \<open>is_current st (ck_key c) (ck_object c)\<close> s(1) that by (simp add: claim_ok_def)
          have later: "n \<le> fst x" if "x \<in> set rest" for x
            using d(3) Cons w that by (auto simp: writes_ok_def)
          show ?thesis unfolding journal_holds_def st using h [of w] h later Cons w \<open>ok\<close> by auto
        qed
        moreover have "no_op ?st (ck_object c) n" using d(6) [OF c(1)] s(1) none by (simp add: claim_ok_def op_fresh_def)
        ultimately show ?thesis
          using d(6) [OF c(1)] s(1,3) by (simp add: claim_ok_def op_fresh_def cur held)
      qed
    qed
    have live: "prompt_live ?st k i m \<Longrightarrow> prompt_live st k i m" for k i m
    proof -
      assume l: "prompt_live ?st k i m"
      then obtain c' where c': "find_check ?st i = Some c'" "ck_stage c' = Prompting m True" by (auto simp: prompt_live_def)
      then obtain c where c: "c \<in> set (tr_checks st)" "settle_check n ok c = Some c'" using before find_check_mem by blast
      then have "c' = c" using settle_check_keeps [OF c(2)] c'(2) by auto
      then have "find_check st i = Some c" using find_check_Some [OF inv c(1)] find_check_mem [OF c'(1)] by simp
      then show ?thesis using l c'(2) \<open>c' = c\<close> by (simp add: prompt_live_def cur)
    qed
    show "quiet_ok ?st k" for k
    proof (rule quiet_ok_step [OF d(7)])
      show "\<exists>b \<in> set (tr_checks st). ck_key b = k \<and> is_current st k (ck_object b) \<and> unsent_stage (ck_stage b)"
        if c': "c' \<in> set (tr_checks ?st)" "ck_key c' = k" "is_current ?st k (ck_object c')" "unsent_stage (ck_stage c')" for c'
      proof -
        obtain c where c: "c \<in> set (tr_checks st)" "settle_check n ok c = Some c'" using before [OF c'(1)] by blast
        then have "unsent_stage (ck_stage c)" using settle_check_keeps [OF c(2)] c'(4) by (auto simp: unsent_stage_def)
        then show ?thesis using c obj [OF c(2)] c' cur by auto
      qed
      show "a \<in> set (tr_admissions st) \<and> prompt_live st k i m"
        if "a \<in> set (tr_admissions ?st)" "ad_op a = OwnedOp i m" "prompt_live ?st k i m" for a i m
        using that live joined by (fastforce simp: st split: if_splits)
    qed (use journal in \<open>simp_all add: st\<close>)
  qed
qed

text \<open>Prompts on their way.\<close>

lemma same_check: "recovery_inv st \<Longrightarrow> find_check st i = Some c \<Longrightarrow> b \<in> set (tr_checks st) \<Longrightarrow> ck_object b = i \<Longrightarrow> b = c"
  using find_check_Some by fastforce

lemma unsent_not_quiet:
  "recovery_inv st \<Longrightarrow> c \<in> set (tr_checks st) \<Longrightarrow> is_current st (ck_key c) (ck_object c) \<Longrightarrow> unsent_stage (ck_stage c)
    \<Longrightarrow> \<not> quiet_session (ck_key c) (tr_log st)"
  using recovery_invD(7) [of st "ck_key c"] by (auto simp: quiet_ok_def)

text \<open>A claim moves on.\<close>

lemma inv_advance:
  assumes inv: "recovery_inv st" and c: "find_check st i = Some c" "unsent_stage (ck_stage c)"
    and stage: "ck_stage c = ClaimSaved n user \<and> s = Prompting n False \<or> ck_stage c = Prompting n False \<and> s = Prompting n True"
  shows "recovery_inv (set_stage i s st)"
proof (rule inv_set_stage [OF inv])
  have mem: "c \<in> set (tr_checks st)" "ck_object c = i" using find_check_mem [OF c(1)] by simp_all
  have ok: "claim_ok st c" by (rule recovery_invD(6) [OF inv mem(1)])
  have views: "claim_held (set_stage i s st) = claim_held st" "no_op (set_stage i s st) = no_op st"
    "journal_holds (set_stage i s st) = journal_holds st" for s
    by (rule views_cong; simp)+
  fix b
  assume "b \<in> set (tr_checks st)" "ck_object b = i"
  then have b: "b = c" by (rule same_check [OF inv c(1)])
  show "claim_ok (set_stage i s st) (b\<lparr>ck_stage := s\<rparr>)"
    using ok stage unfolding b claim_ok_def op_fresh_def by (auto simp: views)
  show "plain_stage s" if "is_current st (ck_key b) i" "quiet_session (ck_key b) (tr_log st)"
    using unsent_not_quiet [OF inv mem(1)] that b mem(2) c(2) by simp
qed

lemma inv_claim_continues: "recovery_inv st \<Longrightarrow> recovery_inv (claim_continues i st)"
proof (cases "find_check st i")
  case None
  then show "recovery_inv st \<Longrightarrow> ?thesis" by (simp add: claim_continues_def)
next
  case (Some c)
  assume inv: "recovery_inv st"
  have "recovery_inv (set_stage i (Prompting n False) st)" if "ck_stage c = ClaimSaved n user" for n user
    by (rule inv_advance [OF inv Some]) (use that in \<open>auto simp: unsent_stage_def\<close>)
  then show ?thesis
    using Some inv by (simp add: claim_continues_def inv_end_check inv_save_and_end inv_remove split: check_stage.split)
qed

lemma inv_add_op:
  assumes inv: "recovery_inv st" and c: "find_check st i = Some c" "ck_stage c = Prompting n True" and none: "no_op st i n"
    and fresh: "is_current st (ck_key c) i \<Longrightarrow> \<not> quiet_session (ck_key c) (tr_log st)"
  shows "recovery_inv (st\<lparr>tr_admissions := tr_admissions st @ [\<lparr>ad_key = ck_key c, ad_op = OwnedOp i n, ad_running = False\<rparr>]\<rparr>)"
proof (rule recovery_invI)
  let ?st = "st\<lparr>tr_admissions := tr_admissions st @ [\<lparr>ad_key = ck_key c, ad_op = OwnedOp i n, ad_running = False\<rparr>]\<rparr>"
  note d = recovery_invD [OF inv]
  have mem: "c \<in> set (tr_checks st)" "ck_object c = i" using find_check_mem [OF c(1)] by simp_all
  have views: "is_current ?st = is_current st" "prompt_live ?st = prompt_live st" "claim_held ?st = claim_held st"
    "journal_holds ?st = journal_holds st"
    by (rule is_current_cong prompt_live_cong views_cong; simp)+
  show "records_ok ?st" "checks_ok ?st" "writes_ok ?st" "prompt_log_ok (tr_log ?st)" using d(1-3,5) by (simp_all add: recovery_inv_defs)
  have "i < tr_nextObject st" using d(2) mem by (auto simp: checks_ok_def)
  then show "ops_ok ?st" using d(4) none by (auto simp: ops_ok_def no_op_def)
  show "claim_ok ?st b" if b: "b \<in> set (tr_checks ?st)" for b
  proof (cases "ck_object b = i")
    case True
    then have "b = c" using same_check [OF inv c(1)] b by simp
    then show ?thesis using d(6) [OF mem(1)] c(2) by (simp add: claim_ok_def op_fresh_def views)
  next
    case False
    then have "no_op st (ck_object b) m \<Longrightarrow> no_op ?st (ck_object b) m" for m by (auto simp: no_op_def)
    then show ?thesis using b by (intro claim_ok_mono [OF d(6)]) (simp_all add: views)
  qed
  show "quiet_ok ?st k" for k
  proof (cases "quiet_session k (tr_log st)")
    case True
    show ?thesis
      using fresh True by (intro quiet_ok_mono [OF d(7)]) (auto simp: views prompt_live_def)
  next
    case False
    then show ?thesis by (simp add: quiet_ok_def)
  qed
qed

lemma inv_prompt_arrives: "recovery_inv st \<Longrightarrow> recovery_inv (prompt_arrives i st)"
proof (cases "find_check st i")
  case None
  then show "recovery_inv st \<Longrightarrow> ?thesis" by (simp add: prompt_arrives_def)
next
  case (Some c)
  assume inv: "recovery_inv st"
  have mem: "c \<in> set (tr_checks st)" "ck_object c = i" using find_check_mem [OF Some] by simp_all
  have "recovery_inv (set_stage i (Prompting n True)
      (st\<lparr>tr_admissions := tr_admissions st @ [\<lparr>ad_key = ck_key c, ad_op = OwnedOp i n, ad_running = False\<rparr>]\<rparr>))"
    if s: "ck_stage c = Prompting n False" for n
  proof -
    let ?st = "set_stage i (Prompting n True) st"
    let ?c = "c\<lparr>ck_stage := Prompting n True\<rparr>"
    have unsent: "unsent_stage (ck_stage c)" using s by (simp add: unsent_stage_def)
    have inv': "recovery_inv ?st" by (rule inv_advance [OF inv Some unsent]) (use s in simp)
    have none: "no_op ?st i n"
      using recovery_invD(6) [OF inv mem(1)] s mem(2) by (simp add: claim_ok_def op_fresh_def no_op_def)
    have c: "find_check ?st i = Some ?c" using Some by (simp add: find_check_stage)
    have fresh: "\<not> quiet_session (ck_key ?c) (tr_log ?st)" if "is_current ?st (ck_key ?c) i"
      using unsent_not_quiet [OF inv mem(1)] that mem(2) unsent by simp
    have "recovery_inv (?st\<lparr>tr_admissions := tr_admissions ?st @ [\<lparr>ad_key = ck_key ?c, ad_op = OwnedOp i n, ad_running = False\<rparr>]\<rparr>)"
      by (rule inv_add_op [OF inv' c _ none fresh]) simp_all
    moreover have "?st\<lparr>tr_admissions := tr_admissions ?st @ [\<lparr>ad_key = ck_key ?c, ad_op = OwnedOp i n, ad_running = False\<rparr>]\<rparr> =
        set_stage i (Prompting n True)
          (st\<lparr>tr_admissions := tr_admissions st @ [\<lparr>ad_key = ck_key c, ad_op = OwnedOp i n, ad_running = False\<rparr>]\<rparr>)"
      by (simp add: set_stage_def)
    ultimately show ?thesis by simp
  qed
  then show ?thesis using Some inv by (simp add: prompt_arrives_def split: check_stage.split bool.split)
qed

lemma inv_admission_done: "recovery_inv st \<Longrightarrow> recovery_inv (admission_done k st)"
  using inv_map_first [of st "\<lambda>a. None" "\<lambda>a. ad_key a = k"] by (simp add: admission_done_def split: option.split)

lemma inv_prompt_settled: "recovery_inv st \<Longrightarrow> recovery_inv (prompt_settled i ok now st)"
proof (cases "find_check st i")
  case None
  then show "recovery_inv st \<Longrightarrow> ?thesis" by (simp add: prompt_settled_def)
next
  case (Some c)
  assume inv: "recovery_inv st"
  have mem: "c \<in> set (tr_checks st)" "ck_object c = i" using find_check_mem [OF Some] by simp_all
  have "recovery_inv (save_and_end i (put_record (ck_key c) r'
      (st\<lparr>tr_observingSince := jm_set (ck_key c) now (tr_observingSince st)\<rparr>)))"
    if r: "jm_get (ck_key c) (tr_records st) = Some r" and r': "r' = r\<lparr>rr_phase := ObservingPhase, rr_userId := None, rr_shutdown := False\<rparr>"
      and cur: "is_current st (ck_key c) i" for r r'
  proof -
    let ?st = "st\<lparr>tr_observingSince := jm_set (ck_key c) now (tr_observingSince st)\<rparr>"
    let ?st1 = "set_stage i ReadingStage ?st"
    have inv1: "recovery_inv ?st1" using inv by (intro inv_set_plain) (simp_all add: plain_stage_def)
    have cur1: "is_current ?st1 = is_current st" by (rule is_current_cong; simp)
    have key: "record_key r' = ck_key c" "rr_object r' = rr_object r" "rr_phase r' \<noteq> RunningPhase"
      using record_key_of [OF inv r] r' by simp_all
    have "c\<lparr>ck_stage := ReadingStage\<rparr> \<in> set (tr_checks ?st1)" using mem by force
    then have "recovery_inv (put_record (ck_key c) r' ?st1)"
      by (rule inv_put_checked [OF inv1]) (use r key cur1 cur mem in \<open>simp_all add: plain_stage_def\<close>)
    then have "recovery_inv (save_and_end i (put_record (ck_key c) r' ?st1))" by (rule inv_save_and_end)
    moreover have "save_and_end i (put_record (ck_key c) r' ?st1) = save_and_end i (put_record (ck_key c) r' ?st)"
      by (simp add: save_and_end_def set_stage_def persist_def put_record_def o_def if_distrib cong: if_cong)
    ultimately show ?thesis by simp
  qed
  then show ?thesis
    using Some inv by (simp add: prompt_settled_def inv_end_check split: check_stage.split option.split)
qed

text \<open>Requests of the person: the record of the session is replaced, if anything, by a new object.\<close>

lemma inv_new_object:
  assumes inv: "recovery_inv st"
    and rs: "tr_records st' = tr_records st \<or>
      (jm_get k (tr_records st) = None \<and> tr_records st' = jm_set k r (tr_records st) \<and> record_key r = k
        \<and> rr_object r = tr_nextObject st \<and> rr_phase r \<noteq> RunningPhase)"
    and same: "tr_stop st' = tr_stop st" "tr_checks st' = tr_checks st" "tr_startup st' = tr_startup st"
      "tr_admissions st' = tr_admissions st" "tr_issued st' = tr_issued st" "tr_queue st' = tr_queue st" "tr_db st' = tr_db st"
      "tr_log st' = tr_log st" "tr_nextObject st' = Suc (tr_nextObject st)"
  shows "recovery_inv st'"
proof (rule recovery_invI)
  note d = recovery_invD [OF inv]
  have stopped: "tr_stopped st' = tr_stopped st" by (simp add: tr_stopped_def same)
  have get: "jm_get k' (tr_records st') = jm_get k' (tr_records st) \<or>
      jm_get k' (tr_records st) = None \<and> jm_get k' (tr_records st') = Some r \<and> rr_object r = tr_nextObject st \<and> rr_phase r \<noteq> RunningPhase" for k'
    using rs by (auto split: if_splits)
  have cur: "is_current st' k' i \<Longrightarrow> i < tr_nextObject st \<Longrightarrow> is_current st k' i" for k' i
    using get [of k'] by (auto simp: is_current_def stopped)
  have live: "prompt_live st' k' i n \<Longrightarrow> i < tr_nextObject st \<Longrightarrow> prompt_live st k' i n" for k' i n
    using cur by (simp add: prompt_live_def find_check_def same)
  have held: "claim_held st k' \<Longrightarrow> claim_held st' k'" for k'
    using get [of k'] by (auto simp: claim_held_def same)
  have views: "no_op st' = no_op st" "journal_holds st' = journal_holds st" by (rule views_cong; simp add: same)+
  have obj: "ck_object c < tr_nextObject st" if "c \<in> set (tr_checks st)" for c using d(2) that by (simp add: checks_ok_def)
  show "records_ok st'"
    using rs
  proof (elim disjE conjE)
    assume "tr_records st' = tr_records st"
    then show ?thesis using d(1) by (auto simp: records_ok_def same)
  next
    assume n: "jm_get k (tr_records st) = None" "tr_records st' = jm_set k r (tr_records st)" "record_key r = k" "rr_object r = tr_nextObject st"
    have "tr_records st' = tr_records st @ [(k, r)]" using n(1,2) jm_set_fresh by metis
    then show ?thesis using d(1) n by (auto simp: records_ok_def jm_wf_def jm_get_None_iff same) (fastforce+)?
  qed
  have "ck_key c = k'" if c: "c \<in> set (tr_checks st)" and r': "jm_get k' (tr_records st') = Some r'" "rr_object r' = ck_object c" for c k' r'
  proof -
    have "jm_get k' (tr_records st) = Some r'" using get [of k'] r' obj [OF c] by auto
    then show ?thesis using d(2) c r'(2) by (auto simp: checks_ok_def)
  qed
  then show "checks_ok st'" using d(2) obj by (auto simp: checks_ok_def same less_Suc_eq)
  show "writes_ok st'" "prompt_log_ok (tr_log st')" using d(3,5) by (simp_all add: writes_ok_def same)
  show "ops_ok st'" using d(4) by (auto simp: ops_ok_def same)
  show "claim_ok st' c" if "c \<in> set (tr_checks st')" for c
    by (rule claim_ok_mono [OF d(6)]) (use that cur held obj in \<open>simp_all add: same views\<close>)
  show "quiet_ok st' k'" for k'
  proof (rule quiet_ok_mono [OF d(7)])
    show "jm_get k' (tr_records st) = Some r' \<or> rr_phase r' \<noteq> RunningPhase" if "jm_get k' (tr_records st') = Some r'" for r'
      using get [of k'] that by auto
    show "a \<in> set (tr_admissions st) \<and> prompt_live st k' i n"
      if "a \<in> set (tr_admissions st')" "ad_op a = OwnedOp i n" "prompt_live st' k' i n" for a i n
      using that live d(4) by (auto simp: same ops_ok_def)
  qed (use cur obj in \<open>simp_all add: same views\<close>)
qed

lemma inv_forward: "recovery_inv st \<Longrightarrow> recovery_inv (forward wid directory e req now st)"
proof (cases req)
  case (ReplyRequest sid)
  assume inv: "recovery_inv st"
  have "distinct (filter (\<lambda>o'. o' \<noteq> OtherOp) (map ad_op (tr_admissions st)))"
    using recovery_invD(4) [OF inv] by (simp add: ops_ok_def)
  then show ?thesis
    unfolding forward_def ReplyRequest request_kind.case by (intro inv_set_admissions [OF inv]) auto
next
  case (Mutation sid admission interrupts)
  assume inv: "recovery_inv st"
  let ?k = "RecoveryKey wid e sid" and ?i = "tr_nextObject st"
  let ?r = "\<lparr>rr_workspaceId = wid, rr_directory = directory, rr_sessionId = sid, rr_engine = e, rr_phase = ObservingPhase,
               rr_userId = None, rr_shutdown = False, rr_object = ?i\<rparr>"
  let ?st1 = "if jm_has ?k (tr_records st) then remove_record ?k st else st"
  have inv1: "recovery_inv ?st1" using inv inv_remove by simp
  have free: "jm_get ?k (tr_records ?st1) = None" by (simp add: jm_has_def)
  have next1: "tr_nextObject ?st1 = ?i" by simp
  let ?st2 = "?st1\<lparr>tr_nextObject := Suc ?i\<rparr>"
  let ?st3 = "if \<not> tr_stopped ?st2 \<and> admission \<and> length (tr_records ?st2) < MAX_TASKS
      then put_record ?k ?r (?st2\<lparr>tr_observingSince := jm_set ?k now (tr_observingSince ?st2)\<rparr>) else ?st2"
  have "recovery_inv ?st3"
    by (rule inv_new_object [OF inv1, of _ ?k ?r]) (use free next1 in \<open>simp_all add: record_key_def put_record_def\<close>)
  then have "recovery_inv (persist (?st3\<lparr>tr_forwards := fs\<rparr>))" for fs by (intro inv_persist) simp
  then show ?thesis unfolding forward_def Mutation request_kind.case forward_mutation_def Let_def by blast
qed (simp_all add: forward_def)

lemma inv_forward_answered: "recovery_inv st \<Longrightarrow> recovery_inv (forward_answered i answer st)"
  by (simp add: forward_answered_def Let_def inv_persist inv_remove split: option.split)

text \<open>The loss of the engine, and the end.\<close>

lemma set_foldl_insert: "set (foldl (\<lambda>s k. List.insert k s) s ks) = set s \<union> set ks"
  by (induction ks arbitrary: s) auto

text \<open>The records may be rewritten in place, each keeping its key, object and, if it is claimed or running, its phase.\<close>

lemma inv_map_records:
  assumes inv: "recovery_inv st" and rs: "tr_records st' = map (\<lambda>e. (fst e, g e)) (tr_records st)"
    and g: "\<And>e. record_key (g e) = record_key (snd e)" "\<And>e. rr_object (g e) = rr_object (snd e)"
      "\<And>e. rr_phase (snd e) = ClaimedPhase \<Longrightarrow> rr_phase (g e) = ClaimedPhase"
      "\<And>e. rr_phase (g e) = RunningPhase \<Longrightarrow> rr_phase (snd e) = RunningPhase"
    and pending: "\<And>k. k \<in> set (tr_startup st') \<Longrightarrow> k \<in> set (tr_startup st) \<or>
      (\<exists>r. jm_get k (tr_records st) = Some r \<and> rr_phase r = RunningPhase)"
    and stop: "tr_stopped st \<Longrightarrow> tr_stopped st'"
    and same: "tr_checks st' = tr_checks st" "tr_admissions st' = tr_admissions st" "tr_issued st' = tr_issued st"
      "tr_queue st' = tr_queue st" "tr_db st' = tr_db st" "tr_log st' = tr_log st" "tr_nextObject st' = tr_nextObject st"
  shows "recovery_inv st'"
proof (rule recovery_invI)
  note d = recovery_invD [OF inv]
  have get: "jm_get k (tr_records st') = map_option (\<lambda>r. g (k, r)) (jm_get k (tr_records st))" for k
  proof -
    have "jm_get k (map (\<lambda>e. (fst e, g e)) m) = map_option (\<lambda>r. g (k, r)) (jm_get k m)" for m
      by (induction m) auto
    then show ?thesis unfolding rs .
  qed
  have cur: "is_current st' k i \<Longrightarrow> is_current st k i" for k i
    using g(2) stop by (auto simp: is_current_def get)
  have live: "prompt_live st' k i n \<Longrightarrow> prompt_live st k i n" for k i n
    using cur by (simp add: prompt_live_def find_check_def same)
  have held: "claim_held st k \<Longrightarrow> claim_held st' k" for k
    using pending [of k] g(3) by (auto simp: claim_held_def get)
  have views: "no_op st' = no_op st" "journal_holds st' = journal_holds st" by (rule views_cong; simp add: same)+
  have "map fst (tr_records st') = map fst (tr_records st)" "map (rr_object \<circ> snd) (tr_records st') = map (rr_object \<circ> snd) (tr_records st)"
    unfolding rs by (simp_all add: o_def g(2))
  moreover have "\<forall>(k, r) \<in> set (tr_records st'). record_key r = k \<and> rr_object r < tr_nextObject st'"
    using d(1) g(1,2) unfolding records_ok_def same rs by auto
  ultimately show "records_ok st'" using d(1) by (simp add: records_ok_def jm_wf_def)
  show "checks_ok st'" using d(2) g(2) by (auto simp: checks_ok_def get same)
  show "writes_ok st'" "ops_ok st'" "prompt_log_ok (tr_log st')" using d(3-5) by (simp_all add: writes_ok_def ops_ok_def same)
  show "claim_ok st' c" if "c \<in> set (tr_checks st')" for c
    by (rule claim_ok_mono [OF d(6)]) (use that cur held in \<open>simp_all add: same views\<close>)
  show "quiet_ok st' k" for k
  proof (cases "quiet_session k (tr_log st)")
    case True
    then have q: "k \<notin> set (tr_startup st)" "\<forall>r. jm_get k (tr_records st) = Some r \<longrightarrow> rr_phase r \<noteq> RunningPhase"
      using d(7) [of k] by (simp_all add: quiet_ok_def)
    show ?thesis
    proof (rule quiet_ok_mono [OF d(7)])
      show "k \<in> set (tr_startup st') \<Longrightarrow> k \<in> set (tr_startup st)" using pending [of k] q by blast
      show "jm_get k (tr_records st) = Some r \<or> rr_phase r \<noteq> RunningPhase" if "jm_get k (tr_records st') = Some r" for r
        using that q(2) g(4) [of "(k, _)"] by (auto simp: get)
    qed (use cur live in \<open>auto simp: same views\<close>)
  next
    case False
    then show ?thesis by (simp add: quiet_ok_def same)
  qed
qed

lemma inv_requeue: "recovery_inv st \<Longrightarrow> recovery_inv (requeueAfterEngineLoss st)"
proof -
  assume inv: "recovery_inv st"
  let ?ks = "map fst (filter (\<lambda>e. requeueable (snd e)) (tr_records st))"
  let ?g = "\<lambda>e. if requeueable (snd e) then (snd e)\<lparr>rr_shutdown := True\<rparr> else snd e"
  let ?st = "st\<lparr>tr_records := map (\<lambda>(k, r). (k, if requeueable r then r\<lparr>rr_shutdown := True\<rparr> else r)) (tr_records st),
                      tr_startup := foldl (\<lambda>s k. List.insert k s) (tr_startup st) ?ks,
                      tr_recovered := filter (\<lambda>k. k \<notin> set ?ks) (tr_recovered st)\<rparr>"
  have "recovery_inv ?st"
  proof (rule inv_map_records [OF inv, where g = ?g])
    show "k \<in> set (tr_startup st) \<or> (\<exists>r. jm_get k (tr_records st) = Some r \<and> rr_phase r = RunningPhase)"
      if "k \<in> set (tr_startup ?st)" for k
      using that recovery_invD(1) [OF inv] by (auto simp: set_foldl_insert requeueable_def records_ok_def jm_mem_get)
  qed (auto simp: tr_stopped_def split_def split: if_splits)
  then show ?thesis using inv inv_persist by (simp add: requeueAfterEngineLoss_def Let_def)
qed

lemma inv_stop: "recovery_inv st \<Longrightarrow> recovery_inv (stop st)"
proof -
  assume inv: "recovery_inv st"
  let ?g = "\<lambda>e. if stop_candidate st e then (snd e)\<lparr>rr_phase := BlockedPhase, rr_shutdown := False\<rparr> else snd e"
  let ?rs = "map (\<lambda>e. if stop_candidate st e
      then (fst e, (snd e)\<lparr>rr_phase := BlockedPhase, rr_shutdown := False\<rparr>) else e) (tr_records st)"
  have "recovery_inv (st\<lparr>tr_records := ?rs, tr_stop := StopSaving n ids\<rparr>)" for n ids
    by (rule inv_map_records [OF inv, where g = ?g]) (auto simp: tr_stopped_def stop_candidate_def split: if_splits)
  then show ?thesis using inv inv_persist by (simp add: stop_def Let_def)
qed

lemma inv_set_stop: "recovery_inv st \<Longrightarrow> tr_stopped st \<Longrightarrow> s \<noteq> NotStopped \<Longrightarrow> recovery_inv (st\<lparr>tr_stop := s\<rparr>)"
  by (rule inv_map_records [where g = snd]) (auto simp: tr_stopped_def)

lemma inv_final_observed: "recovery_inv st \<Longrightarrow> recovery_inv (final_observed i payload st)"
proof (cases "\<exists>ids. tr_stop st = FinalReads ids \<and> i \<in> set ids")
  case True
  assume inv: "recovery_inv st"
  then obtain ids where reads: "tr_stop st = FinalReads ids" "i \<in> set ids" using True by blast
  let ?st = "st\<lparr>tr_stop := FinalReads (removeAll i ids)\<rparr>"
  have inv1: "recovery_inv ?st" using inv reads by (intro inv_set_stop) (simp_all add: tr_stopped_def)
  have put: "recovery_inv (mark (SeenActive k) (put_record k r' ?st))"
    if f: "find (\<lambda>e. rr_object (snd e) = i) (tr_records ?st) = Some (k, r)" and r': "record_key r' = record_key r" "rr_object r' = rr_object r"
    for k r r'
  proof -
    have "(k, r) \<in> set (tr_records ?st)" using f by (auto simp: find_Some_iff)
    then have g: "jm_get k (tr_records ?st) = Some r" using recovery_invD(1) [OF inv1] by (simp add: records_ok_def jm_mem_get)
    have "recovery_inv (put_record k r' (mark (SeenActive k) ?st))"
      by (rule inv_put_record [OF inv_seen [OF inv1]])
        (use g r' record_key_of [OF inv1 g] in \<open>simp_all add: mark_def is_current_def tr_stopped_def\<close>)
    moreover have "put_record k r' (mark (SeenActive k) ?st) = mark (SeenActive k) (put_record k r' ?st)"
      by (simp add: put_record_def mark_def)
    ultimately show ?thesis by simp
  qed
  show ?thesis using reads inv1 put by (auto simp: final_observed_def Let_def split: option.split)
next
  case False
  then show "recovery_inv st \<Longrightarrow> ?thesis" by (auto simp: final_observed_def split: stop_stage.split)
qed

lemma inv_final_saved: "recovery_inv st \<Longrightarrow> recovery_inv (final_saved st)"
  using inv_persist inv_set_stop [of st StopDone] by (simp add: final_saved_def tr_stopped_def split: stop_stage.split)

text \<open>A new process knows of a session only what the journal holds.\<close>

definition loaded :: "recovery_record list \<Rightarrow> recovery_mark list \<Rightarrow> recovery \<Rightarrow> bool" where
  "loaded db log st =
     (records_ok st \<and> tr_checks st = [] \<and> tr_queue st = [] \<and> tr_admissions st = [] \<and> tr_db st = db \<and> tr_log st = log
      \<and> (\<forall>k \<in> set (tr_startup st) \<union> fst ` set (tr_records st). \<not> not_running k db))"

lemma loaded_step: "loaded db log st \<Longrightarrow> r \<in> set db \<Longrightarrow> loaded db log (load_record st r)"
proof (cases "rr_phase r = RunningPhase")
  case True
  assume l: "loaded db log st" and r: "r \<in> set db"
  let ?i = "tr_nextObject st" and ?k = "record_key r"
  let ?rs = "jm_set ?k (r\<lparr>rr_object := ?i\<rparr>) (tr_records st)"
  have ok: "records_ok st" using l by (simp add: loaded_def)
  have running: "\<not> not_running ?k db" using r True by (auto simp: not_running_def)
  have sub: "set (jm_set k v m) \<subseteq> insert (k, v) (set m)" for k and v :: recovery_record and m :: "(recovery_key, recovery_record) jsmap"
    by (induction k v m rule: jm_set.induct) auto
  have objs: "distinct (map (rr_object \<circ> snd) m) \<Longrightarrow> rr_object v \<notin> (rr_object \<circ> snd) ` set m \<Longrightarrow> distinct (map (rr_object \<circ> snd) (jm_set k v m))"
    for k and v :: recovery_record and m :: "(recovery_key, recovery_record) jsmap"
  proof (induction k v m rule: jm_set.induct)
    case (2 k v k' v' m)
    then show ?case using sub [of k v m] by (auto simp: image_iff)
  qed simp
  have fresh: "?i \<notin> (rr_object \<circ> snd) ` set (tr_records st)" using ok by (auto simp: records_ok_def)
  have key: "record_key (r\<lparr>rr_object := ?i\<rparr>) = ?k" by (simp add: record_key_def)
  have "distinct (map (rr_object \<circ> snd) ?rs)" using objs [of "tr_records st" "r\<lparr>rr_object := ?i\<rparr>"] fresh ok by (simp add: records_ok_def)
  moreover have "\<forall>(k, x) \<in> set ?rs. record_key x = k \<and> rr_object x < Suc ?i"
    using sub [of ?k "r\<lparr>rr_object := ?i\<rparr>" "tr_records st"] ok key by (fastforce simp: records_ok_def)
  ultimately have "records_ok (load_record st r)" using ok True by (simp add: records_ok_def load_record_def)
  moreover have "\<not> not_running k db" if "k \<in> set (tr_startup (load_record st r)) \<union> fst ` set (tr_records (load_record st r))" for k
  proof -
    have "set (tr_startup (load_record st r)) \<union> fst ` set (tr_records (load_record st r)) =
        insert ?k (set (tr_startup st) \<union> fst ` set (tr_records st))"
      using True jm_keys_set [of ?k "r\<lparr>rr_object := ?i\<rparr>" "tr_records st"] by (auto simp: load_record_def)
    then have "k = ?k \<or> k \<in> set (tr_startup st) \<union> fst ` set (tr_records st)" using that by auto
    moreover have "\<forall>k \<in> set (tr_startup st) \<union> fst ` set (tr_records st). \<not> not_running k db" using l by (simp add: loaded_def)
    ultimately show ?thesis using running by blast
  qed
  ultimately show ?thesis using l True by (simp add: loaded_def load_record_def)
next
  case False
  then show "loaded db log st \<Longrightarrow> ?thesis" by (simp add: load_record_def)
qed

lemma loaded_all: "set rs \<subseteq> set db \<Longrightarrow> loaded db log st \<Longrightarrow> loaded db log (foldl load_record st rs)"
  by (induction rs arbitrary: st) (auto simp: loaded_step)

lemma inv_created:
  assumes "prompt_log_ok log" and "\<And>k. quiet_session k log \<Longrightarrow> not_running k db"
  shows "recovery_inv (createTaskRecovery db n log)"
proof -
  let ?st = "createTaskRecovery db n log"
  have l: "loaded db log ?st"
    unfolding createTaskRecovery_def by (rule loaded_all) (auto simp: loaded_def records_ok_def)
  have "quiet_ok ?st k" for k
  proof (cases "quiet_session k log")
    case True
    then have "k \<notin> set (tr_startup ?st)" "k \<notin> fst ` set (tr_records ?st)" using l assms(2) [of k] by (auto simp: loaded_def)
    then show ?thesis using l assms(2) [OF True] by (simp add: loaded_def quiet_ok_def journal_holds_def jm_get_None_iff [symmetric])
  next
    case False
    then show ?thesis using l by (simp add: loaded_def quiet_ok_def)
  qed
  then show ?thesis using l assms(1) by (simp add: recovery_inv_def recovery_inv_defs loaded_def)
qed

lemma inv_restarted: "recovery_inv st \<Longrightarrow> recovery_inv (recovery_restarted st)"
  using recovery_invD(5,7) [of st] unfolding recovery_restarted_def
  by (intro inv_created) (simp_all add: quiet_ok_def journal_holds_def)

lemma inv_recovery_step: "recovery_inv st \<Longrightarrow> recovery_inv (recovery_step e st)"
  by (cases e) (simp_all add: inv_tick inv_resumed inv_observed inv_write_settled inv_claim_continues inv_prompt_arrives
    inv_admission_runs inv_admission_done inv_prompt_settled inv_forward inv_forward_answered inv_requeue inv_stop
    inv_final_observed inv_final_saved inv_restarted)

lemma inv_recovery_run: "recovery_inv (recovery_run db es)"
proof -
  have "recovery_inv st \<Longrightarrow> recovery_inv (foldl (\<lambda>st e. recovery_step e st) st es)" for st
    by (induction es arbitrary: st) (simp_all add: inv_recovery_step)
  moreover have "recovery_inv (createTaskRecovery db 0 [])" by (rule inv_created) (simp_all add: prompt_log_ok_def)
  ultimately show ?thesis by (simp add: recovery_run_def)
qed

lemma quiet_since: "SeenActive k \<notin> set b \<Longrightarrow> quiet_session k (a @ PromptSent k # b)"
proof (induction b rule: rev_induct)
  case Nil
  then show ?case by simp
next
  case (snoc m b)
  then have "quiet_session k ((a @ PromptSent k # b) @ [m])" unfolding quiet_session_snoc by auto
  then show ?case by simp
qed

text \<open>C7. No turn is continued twice. Whatever the order of ticks, answers, failed or lost writes, requests of
  the person, lost acknowledgements, losses of the engine, shutdowns and crashes, across any number of
  processes that share the journal: between two prompts sent to the same session the coordinator
  has seen the engine running that session.\<close>

theorem prompts_not_repeated:
  assumes "tr_log (recovery_run db es) = a @ PromptSent k # b @ PromptSent k # c"
  shows "SeenActive k \<in> set b"
proof (rule ccontr)
  assume "SeenActive k \<notin> set b"
  then have "quiet_session k (a @ PromptSent k # b)" by (rule quiet_since)
  moreover have "tr_log (recovery_run db es) = (a @ PromptSent k # b) @ PromptSent k # c" using assms by simp
  ultimately show False using recovery_invD(5) [OF inv_recovery_run [of db es]] unfolding prompt_log_ok_def by blast
qed

definition sample_key :: recovery_key where
  "sample_key = RecoveryKey ''w'' EngineV2 ''s''"

definition sample_record :: recovery_record where
  "sample_record =
     \<lparr>rr_workspaceId = ''w'', rr_directory = ''/w'', rr_sessionId = ''s'', rr_engine = EngineV2, rr_phase = RunningPhase,
      rr_userId = Some ''u'', rr_shutdown = False, rr_object = 0\<rparr>"

text \<open>The answers for a session whose last turn, of the user message \<open>u\<close>, has an assistant message without an end.\<close>

definition sample_payload :: "string \<Rightarrow> (string \<times> json) list \<Rightarrow> recovery_payload" where
  "sample_payload u statuses =
     \<lparr>pa_session = JObj [(''data'', JObj [(''id'', JStr ''s'')])], pa_statuses = JObj [(''data'', JObj statuses)],
      pa_messages = JObj [(''data'', JArr [JObj [(''type'', JStr ''user''), (''id'', JStr u)], JObj [(''type'', JStr ''assistant'')]])],
      pa_permissions = JObj [(''data'', JArr [])], pa_questions = JObj [(''data'', JArr [])], pa_native = JNull\<rparr>"

definition resume_events :: "string \<Rightarrow> int \<Rightarrow> recovery_input list" where
  "resume_events u now =
     [Tick (\<lambda>_. True), Resumed 0 True, Observed 0 (Some (sample_payload u [])) now, WriteSettled True, ClaimContinues 0,
      PromptArrives 0, AdmissionRuns sample_key, AdmissionDone sample_key, PromptSettled 0 True now, WriteSettled True]"

definition sample_events :: "recovery_input list" where
  "sample_events =
     resume_events ''u'' 5000
     @ [Tick (\<lambda>_. True), Observed 0 (Some (sample_payload ''v'' [(''s'', JObj [(''type'', JStr ''busy'')])])) 7000, WriteSettled True,
        EngineLost, WriteSettled True]
     @ resume_events ''v'' 9000"

lemma sample_log: "tr_log (recovery_run [sample_record] sample_events) = [PromptSent sample_key, SeenActive sample_key, PromptSent sample_key]"
  by code_simp

theorem prompts_not_repeated_witness: "SeenActive sample_key \<in> set [SeenActive sample_key]"
  by (rule prompts_not_repeated [where a = "[]" and c = "[]" and db = "[sample_record]" and es = sample_events]) (simp add: sample_log)

section \<open>Prompts need evidence\<close>

lemma find_last:
  "find P (rev xs) = Some x \<longleftrightarrow> (\<exists>pre post. xs = pre @ x # post \<and> P x \<and> (\<forall>y \<in> set post. \<not> P y))"
proof -
  have "find P (rev xs) = Some x \<longleftrightarrow>
      (\<exists>pre z post. xs = pre @ z # post \<and> (z = x \<and> P z) \<and> (\<forall>y \<in> set post. \<not> P y))"
  proof (induction xs rule: rev_induct)
    case (snoc y ys)
    show ?case unfolding last_such_snoc using snoc.IH by auto
  qed simp
  then show ?thesis by blast
qed

lemma find_map_snd: "find P (map snd xs) = map_option snd (find (\<lambda>x. P (snd x)) xs)"
  by (induction xs) auto

lemma last_user_split:
  "last_user e items = Some u \<longleftrightarrow>
     (\<exists>pre m post. items = pre @ (m, u) # post \<and> item_is e ''user'' u \<and> (\<forall>x \<in> set post. \<not> item_is e ''user'' (snd x)))"
  by (auto simp: last_user_def rev_map find_map_snd find_last)

lemma after_user_split:
  assumes "items = pre @ (m, u) # post" "item_is e ''user'' u" "\<forall>x \<in> set post. \<not> item_is e ''user'' (snd x)"
  shows "after_user e items = post"
proof -
  have "last_user e items = Some u" unfolding last_user_split using assms by blast
  moreover have "takeWhile (\<lambda>x. \<not> item_is e ''user'' (snd x)) (rev items) = rev post"
    using assms(1,2) by (subst assms(1), simp, subst takeWhile_append2) (use assms(3) in auto)
  ultimately show ?thesis by (simp add: after_user_def)
qed

text \<open>
  The turn of the user message \<open>u\<close> is the last one, and it is unfinished: its last assistant message has no
  error and no end, or ended to call tools; after a shutdown of our own an abort counts as well.
\<close>

definition unfinished_turn :: "recovery_engine \<Rightarrow> bool \<Rightarrow> json \<Rightarrow> string \<Rightarrow> (json \<times> json) list \<Rightarrow> bool" where
  "unfinished_turn e shutdown info u items =
     (\<exists>pre m user post. items = pre @ (m, user) # post \<and> item_is e ''user'' user \<and> jfield ''id'' user = Some (JStr u)
        \<and> (\<forall>x \<in> set post. \<not> item_is e ''user'' (snd x))
        \<and> ((\<exists>mid m' a rest. post = mid @ (m', a) # rest \<and> item_is e ''assistant'' a \<and> (\<forall>x \<in> set rest. \<not> item_is e ''assistant'' (snd x))
              \<and> (\<not> json_truthy (jfield ''error'' a)
                    \<and> (\<not> is_number (Option.bind (jfield ''time'' a) (jfield ''completed'')) \<or> jfield ''finish'' a = Some (JStr ''tool-calls''))
                  \<or> shutdown \<and> Option.bind (jfield ''error'' a) (jfield ''name'') = Some (JStr ''MessageAbortedError'')))
            \<or> shutdown \<and> jfield ''outcome'' info = Some (JStr ''interrupted'')))"

lemma observe_unfinished:
  assumes "observe_session r p = Some s" "sn_unfinished s" "sn_userId s = Some u"
  shows "\<exists>session messages. call_payload (rr_engine r) (pa_session p) = Some session
    \<and> json_array (call_payload (rr_engine r) (pa_messages p)) = Some messages
    \<and> unfinished_turn (rr_engine r) (rr_shutdown r) (session_info session) u (List.map_filter (message_item (rr_engine r)) messages)"
proof -
  let ?e = "rr_engine r"
  obtain session messages where parts: "call_payload ?e (pa_session p) = Some session"
      "json_array (call_payload ?e (pa_messages p)) = Some messages"
    and s: "turn_unfinished (rr_shutdown r) (session_info session) (last_assistant ?e (List.map_filter (message_item ?e) messages))"
      "jstring (Option.bind (last_user ?e (List.map_filter (message_item ?e) messages)) (jfield ''id'')) = Some u"
    using assms unfolding observe_session_def Let_def by (auto split: option.splits json.splits if_splits)
  define items where "items = List.map_filter (message_item ?e) messages"
  note s = s [folded items_def]
  obtain user where user: "last_user ?e items = Some user" "jfield ''id'' user = Some (JStr u)"
    using s(2) by (cases "last_user ?e items") (auto simp: jstring_def split: option.splits json.splits)
  obtain pre m post where split: "items = pre @ (m, user) # post" "item_is ?e ''user'' user" "\<forall>x \<in> set post. \<not> item_is ?e ''user'' (snd x)"
    using user(1) unfolding last_user_split by blast
  have la: "last_assistant ?e items = Some a \<longleftrightarrow>
      (\<exists>mid m' rest. post = mid @ (m', a) # rest \<and> item_is ?e ''assistant'' a \<and> (\<forall>x \<in> set rest. \<not> item_is ?e ''assistant'' (snd x)))" for a
    unfolding last_assistant_def after_user_split [OF split] by (auto simp: rev_map find_map_snd find_last)
  have "unfinished_turn ?e (rr_shutdown r) (session_info session) u items"
    unfolding unfinished_turn_def
  proof (intro exI conjI)
    show "items = pre @ (m, user) # post" "item_is ?e ''user'' user" "jfield ''id'' user = Some (JStr u)"
      "\<forall>x \<in> set post. \<not> item_is ?e ''user'' (snd x)"
      by (fact split user)+
    show "(\<exists>mid m' a rest. post = mid @ (m', a) # rest \<and> item_is ?e ''assistant'' a \<and> (\<forall>x \<in> set rest. \<not> item_is ?e ''assistant'' (snd x))
              \<and> (\<not> json_truthy (jfield ''error'' a)
                    \<and> (\<not> is_number (Option.bind (jfield ''time'' a) (jfield ''completed'')) \<or> jfield ''finish'' a = Some (JStr ''tool-calls''))
                  \<or> rr_shutdown r \<and> Option.bind (jfield ''error'' a) (jfield ''name'') = Some (JStr ''MessageAbortedError'')))
            \<or> rr_shutdown r \<and> jfield ''outcome'' (session_info session) = Some (JStr ''interrupted'')"
    proof (cases "last_assistant ?e items")
      case None
      then show ?thesis using s(1) by (simp add: turn_unfinished_def)
    next
      case (Some a)
      then obtain mid m' rest where w: "post = mid @ (m', a) # rest" "item_is ?e ''assistant'' a"
          "\<forall>x \<in> set rest. \<not> item_is ?e ''assistant'' (snd x)"
        using la [of a] by blast
      have "\<not> json_truthy (jfield ''error'' a)
            \<and> (\<not> is_number (Option.bind (jfield ''time'' a) (jfield ''completed'')) \<or> jfield ''finish'' a = Some (JStr ''tool-calls''))
          \<or> rr_shutdown r \<and> Option.bind (jfield ''error'' a) (jfield ''name'') = Some (JStr ''MessageAbortedError'')
          \<or> rr_shutdown r \<and> jfield ''outcome'' (session_info session) = Some (JStr ''interrupted'')"
        using s(1) Some by (auto simp: turn_unfinished_def completed_def aborted_def)
      then show ?thesis using w by blast
    qed
  qed
  then show ?thesis using parts items_def by blast
qed

lemma end_check_none: "find_check (end_check i st) i = None"
  by (simp add: find_check_end)

lemma save_and_end_stage: "find_check (save_and_end i st) i = Some c' \<Longrightarrow> ck_stage c' \<noteq> ClaimSaving n user"
  by (auto simp: save_and_end_def find_check_stage)


lemma sample_claims:
  "let st = recovery_run [sample_record] [Tick (\<lambda>_. True), Resumed 0 True]
   in find_check st 0 = Some \<lparr>ck_key = sample_key, ck_object = 0, ck_stage = ReadingStage\<rparr>
    \<and> map_option ck_stage (find_check (observed 0 (Some (sample_payload ''u'' [])) 5000 st) 0)
        = Some (ClaimSaving 0 (Some (JObj [(''type'', JStr ''user''), (''id'', JStr ''u'')])))"
  by code_simp


end
