(* ===== verification/JsNumber.thy ===== *)
theory JsNumber
  imports Prelude Complex_Main
begin

text \<open>
  \<open>Number(text)\<close>: the numeric texts of ECMAScript. The answer is a rational number, or \<open>None\<close> for
  \<open>NaN\<close> and the infinities, which the modelled sources treat alike. Numbers are exact where a double
  rounds; the texts that overflow or vanish do so here too.
\<close>

definition digit_in :: "nat \<Rightarrow> char \<Rightarrow> nat option" where
  "digit_in base c =
     (let n = (of_char c :: nat);
          d = (if 48 \<le> n \<and> n \<le> 57 then n - 48
               else if 97 \<le> n \<and> n \<le> 122 then n - 87
               else if 65 \<le> n \<and> n \<le> 90 then n - 55 else 36)
      in if d < base then Some d else None)"

fun digits_value :: "nat \<Rightarrow> nat \<Rightarrow> string \<Rightarrow> nat option" where
  "digits_value base acc [] = Some acc"
| "digits_value base acc (c # s) =
     (case digit_in base c of None \<Rightarrow> None | Some d \<Rightarrow> digits_value base (acc * base + d) s)"

definition whole_text :: "nat \<Rightarrow> string \<Rightarrow> nat option" where
  "whole_text base s = (if s = [] then None else digits_value base 0 s)"

definition signed_text :: "(string \<Rightarrow> 'a :: uminus option) \<Rightarrow> string \<Rightarrow> 'a option" where
  "signed_text f s =
     (if starts_with ''-'' s then map_option uminus (f (drop 1 s)) else f (if starts_with ''+'' s then drop 1 s else s))"

definition exponent_text :: "string \<Rightarrow> int option" where
  "exponent_text s =
     (if s = [] then Some 0
      else if starts_with ''e'' s \<or> starts_with ''E'' s
      then signed_text (\<lambda>t. map_option int (whole_text 10 t)) (drop 1 s)
      else None)"

definition decimal_text :: "string \<Rightarrow> rat option" where
  "decimal_text s =
     (let ip = takeWhile is_digit s;
          r = dropWhile is_digit s;
          dot = starts_with ''.'' r;
          fp = (if dot then takeWhile is_digit (drop 1 r) else []);
          r' = (if dot then dropWhile is_digit (drop 1 r) else r)
      in case (whole_text 10 (ip @ fp), exponent_text r') of
           (Some n, Some e) \<Rightarrow> Some (of_nat n * 10 powi (e - int (length fp)))
         | _ \<Rightarrow> None)"

definition radix_text :: "string \<Rightarrow> nat option" where
  "radix_text s =
     (let p = js_lower (take 2 s)
      in if p = ''0x'' then whole_text 16 (drop 2 s)
             else if p = ''0o'' then whole_text 8 (drop 2 s)
             else if p = ''0b'' then whole_text 2 (drop 2 s)
             else None)"

definition in_range :: "rat \<Rightarrow> rat option" where
  "in_range q =
     (if 2 ^ 1024 - 2 ^ 970 \<le> \<bar>q\<bar> then None
      else if \<bar>q\<bar> * 2 ^ 1075 \<le> 1 then Some 0
      else Some q)"

definition number_text :: "string \<Rightarrow> rat option" where
  "number_text text =
     (let s = js_trim text
      in if s = [] then Some 0
         else Option.bind
                (case radix_text s of Some n \<Rightarrow> Some (of_nat n) | None \<Rightarrow> signed_text decimal_text s)
                in_range)"

lemmas number_text_defs = number_text_def in_range_def radix_text_def decimal_text_def signed_text_def exponent_text_def
  whole_text_def digit_in_def is_digit_def js_trim_def trim_end_def trim_start_def js_space_def js_lower_def lower_char_def

lemma number_text_whole: "number_text '' 42 '' = Some 42"
  by (simp add: number_text_defs)

lemma number_text_empty: "number_text [] = Some 0"
  by (simp add: number_text_defs)

lemma number_text_fraction: "number_text ''-1.50'' = Some (- 3 / 2)"
  by (simp add: number_text_defs)

lemma number_text_exponent: "number_text ''2e3'' = Some 2000"
  by (simp add: number_text_defs)

lemma number_text_hex: "number_text ''0x1F'' = Some 31"
  by (simp add: number_text_defs)

lemma number_text_unit: "number_text ''10s'' = None"
  by (simp add: number_text_defs)

lemma number_text_dot: "number_text ''.'' = None"
  by (simp add: number_text_defs)

lemma number_text_overflow: "number_text ''1e309'' = None"
  by (simp add: number_text_defs)

end
