(* ===== verification/EngineRegistry.thy ===== *)
theory EngineRegistry
  imports ProviderLock JsNumber "HOL-Library.Multiset"
begin

text \<open>
  The registry of engine processes (\<open>apps/server/src/engine-registry.ts\<close>): the file that records
  every engine a server has started, the queue its changes pass, and the reaping of engines whose
  server died.

  The file is the JSON value it holds, \<open>None\<close> when it is missing, empty or not JSON. What the
  operating system and the network answer is an argument: the result of \<open>process.kill(pid, 0)\<close>, of
  \<open>spawnSync\<close> and of the request to the engine. Path and process list are those of Windows or of
  POSIX by a flag. JSON numbers are integers; a start time that is a text of a fraction or an infinity
  is outside the model.
\<close>

section \<open>Entries and the file\<close>

datatype engine_role = RoleStarting | RolePrimary | RoleDraining

record engine_record =
  er_id :: string
  er_pid :: int
  er_port :: int
  er_url :: string
  er_startedAt :: int
  er_role :: engine_role
  er_serverRunId :: string
  er_ownerPid :: int
  er_authProbe :: string
  er_bin :: string

text \<open>\<open>Number(v)\<close>: \<open>None\<close> is the \<open>TypeError\<close>, \<open>Some None\<close> is not a finite number.\<close>

definition js_number :: "json option \<Rightarrow> rat option option" where
  "js_number v =
     (case v of
        None \<Rightarrow> Some None
      | Some JNull \<Rightarrow> Some (Some 0)
      | Some (JBool b) \<Rightarrow> Some (Some (if b then 1 else 0))
      | Some (JNum n) \<Rightarrow> Some (Some (of_int n))
      | Some j \<Rightarrow> map_option number_text (js_text j))"

definition whole :: "rat option \<Rightarrow> int option" where
  "whole q = (case q of Some r \<Rightarrow> if of_int \<lfloor>r\<rfloor> = r then Some \<lfloor>r\<rfloor> else None | None \<Rightarrow> None)"

definition positive_up_to :: "int option \<Rightarrow> int option \<Rightarrow> bool" where
  "positive_up_to bound n = (case n of Some k \<Rightarrow> 0 < k \<and> (case bound of Some b \<Rightarrow> k \<le> b | None \<Rightarrow> True) | None \<Rightarrow> False)"

definition filled_text :: "json option \<Rightarrow> bool" where
  "filled_text v = (case jstring v of Some s \<Rightarrow> js_trim s \<noteq> [] | None \<Rightarrow> False)"

definition role_of :: "json option \<Rightarrow> engine_role" where
  "role_of v =
     (if v = Some (JStr ''draining'') then RoleDraining
      else if v = Some (JStr ''starting'') then RoleStarting
      else RolePrimary)"

definition text_or_empty :: "json option \<Rightarrow> string" where
  "text_or_empty v = opt_default [] (jstring v)"

text \<open>\<open>parseEntry\<close>: \<open>None\<close> when the conversion of a number throws, \<open>Some None\<close> for \<open>null\<close>.\<close>

definition parseEntry :: "json \<Rightarrow> engine_record option option" where
  "parseEntry value =
     (if \<not> is_record (Some value) then Some None
      else
        (case (js_number (jfield ''pid'' value), js_number (jfield ''port'' value), js_number (jfield ''ownerPid'' value)) of
           (Some pid, Some port, Some ownerPid) \<Rightarrow>
             (if \<not> filled_text (jfield ''id'' value) \<or> \<not> positive_up_to None (whole pid)
                 \<or> \<not> positive_up_to (Some 65535) (whole port) \<or> \<not> positive_up_to None (whole ownerPid)
                 \<or> \<not> filled_text (jfield ''url'' value)
              then Some None
              else
                map_option (\<lambda>started. Some
                  \<lparr>er_id = text_or_empty (jfield ''id'' value), er_pid = the (whole pid), er_port = the (whole port),
                   er_url = text_or_empty (jfield ''url'' value), er_startedAt = opt_default 0 (whole started),
                   er_role = role_of (jfield ''role'' value),
                   er_serverRunId = text_or_empty (jfield ''serverRunId'' value), er_ownerPid = the (whole ownerPid),
                   er_authProbe = text_or_empty (jfield ''authProbe'' value), er_bin = text_or_empty (jfield ''bin'' value)\<rparr>)
                  (js_number (jfield ''startedAt'' value)))
         | _ \<Rightarrow> None))"

fun parse_entries :: "json list \<Rightarrow> engine_record list option" where
  "parse_entries [] = Some []"
| "parse_entries (v # vs) =
     (case (parseEntry v, parse_entries vs) of
        (Some e, Some es) \<Rightarrow> Some ((case e of Some r \<Rightarrow> [r] | None \<Rightarrow> []) @ es)
      | _ \<Rightarrow> None)"

definition readRegistryFile :: "json option \<Rightarrow> engine_record list" where
  "readRegistryFile file =
     (case file of
        Some (JObj es) \<Rightarrow>
          (case jm_get ''entries'' es of
             Some (JArr vs) \<Rightarrow> opt_default [] (parse_entries vs)
           | _ \<Rightarrow> [])
      | _ \<Rightarrow> [])"

definition role_text :: "engine_role \<Rightarrow> string" where
  "role_text r = (case r of RoleStarting \<Rightarrow> ''starting'' | RolePrimary \<Rightarrow> ''primary'' | RoleDraining \<Rightarrow> ''draining'')"

definition entry_json :: "engine_record \<Rightarrow> json" where
  "entry_json e =
     JObj [(''id'', JStr (er_id e)), (''pid'', JNum (er_pid e)), (''port'', JNum (er_port e)), (''url'', JStr (er_url e)),
           (''startedAt'', JNum (er_startedAt e)), (''role'', JStr (role_text (er_role e))),
           (''serverRunId'', JStr (er_serverRunId e)), (''ownerPid'', JNum (er_ownerPid e)),
           (''authProbe'', JStr (er_authProbe e)), (''bin'', JStr (er_bin e))]"

definition registry_payload :: "engine_record list \<Rightarrow> json option" where
  "registry_payload es = Some (JObj [(''version'', JNum 1), (''entries'', JArr (map entry_json es))])"

section \<open>Changes\<close>

datatype registry_change =
    Register engine_record
  | UpdateRole string engine_role
  | Remove string
  | Reaped "engine_record list" "int list"

definition registerEngineInstance :: "engine_record \<Rightarrow> engine_record list \<Rightarrow> engine_record list" where
  "registerEngineInstance r es = filter (\<lambda>e. er_id e \<noteq> er_id r) es @ [r]"

definition updateEngineInstanceRole :: "string \<Rightarrow> engine_role \<Rightarrow> engine_record list \<Rightarrow> engine_record list" where
  "updateEngineInstanceRole i role es = map (\<lambda>e. if er_id e = i then e\<lparr>er_role := role\<rparr> else e) es"

definition removeEngineInstance :: "string \<Rightarrow> engine_record list \<Rightarrow> engine_record list" where
  "removeEngineInstance i es = filter (\<lambda>e. er_id e \<noteq> i) es"

text \<open>The last change of a reap: the entries it kept, and the pids it killed or dropped.\<close>

definition reap_change :: "engine_record list \<Rightarrow> int list \<Rightarrow> engine_record list \<Rightarrow> engine_record list" where
  "reap_change kept removed es =
     (let surviving = filter (\<lambda>e. er_pid e \<notin> set removed) es
      in kept @ filter (\<lambda>e. er_id e \<notin> set (map er_id kept)) surviving)"

definition apply_registry_change :: "registry_change \<Rightarrow> engine_record list \<Rightarrow> engine_record list" where
  "apply_registry_change c =
     (case c of
        Register r \<Rightarrow> registerEngineInstance r
      | UpdateRole i role \<Rightarrow> updateEngineInstanceRole i role
      | Remove i \<Rightarrow> removeEngineInstance i
      | Reaped kept removed \<Rightarrow> reap_change kept removed)"

section \<open>The queue of a process\<close>

text \<open>
  A job reads the file, waits for the directory, writes, and ends well or not; the next job starts in
  either case. \<open>wq_read\<close> is what the first job has computed from its read.
\<close>

record ('o, 'e) write_queue =
  wq_jobs :: "'o list"
  wq_read :: "'e option"
  wq_answers :: "'e option list"

datatype 'o queue_event = JobIssued 'o | JobRead | JobEnds bool

definition job_step ::
  "('f \<Rightarrow> 'e) \<Rightarrow> ('e \<Rightarrow> 'f) \<Rightarrow> ('o \<Rightarrow> 'e \<Rightarrow> 'e) \<Rightarrow> 'f \<times> ('o, 'e) write_queue \<Rightarrow> 'o queue_event \<Rightarrow> 'f \<times> ('o, 'e) write_queue" where
  "job_step rd wr ap st ev =
     (let (file, q) = st
      in case ev of
           JobIssued c \<Rightarrow> (file, q\<lparr>wq_jobs := wq_jobs q @ [c]\<rparr>)
         | JobRead \<Rightarrow>
             (case (wq_jobs q, wq_read q) of
                (c # cs, None) \<Rightarrow> (file, q\<lparr>wq_read := Some (ap c (rd file))\<rparr>)
              | _ \<Rightarrow> st)
         | JobEnds ok \<Rightarrow>
             (case (wq_jobs q, wq_read q) of
                (c # cs, Some es) \<Rightarrow>
                  (if ok then wr es else file,
                   \<lparr>wq_jobs = cs, wq_read = None, wq_answers = wq_answers q @ [if ok then Some es else None]\<rparr>)
              | _ \<Rightarrow> st))"

definition mutateRegistry ::
  "json option \<times> (registry_change, engine_record list) write_queue \<Rightarrow> registry_change queue_event
     \<Rightarrow> json option \<times> (registry_change, engine_record list) write_queue" where
  "mutateRegistry = job_step readRegistryFile registry_payload apply_registry_change"

definition registry_run ::
  "json option \<Rightarrow> registry_change queue_event list \<Rightarrow> json option \<times> (registry_change, engine_record list) write_queue" where
  "registry_run file evs = foldl mutateRegistry (file, \<lparr>wq_jobs = [], wq_read = None, wq_answers = []\<rparr>) evs"

text \<open>Several servers on one file: each has a queue of its own.\<close>

definition servers_step ::
  "json option \<times> (registry_change, engine_record list) write_queue list \<Rightarrow> nat \<times> registry_change queue_event
     \<Rightarrow> json option \<times> (registry_change, engine_record list) write_queue list" where
  "servers_step st ev =
     (let (file, qs) = st; (i, e) = ev
      in if i < length qs then (let (file', q) = mutateRegistry (file, qs ! i) e in (file', qs[i := q])) else st)"

section \<open>Evidence about a process\<close>

datatype signal_result = SignalSent | SignalDenied | SignalFailed

definition processAlive :: "int \<Rightarrow> signal_result \<Rightarrow> bool" where
  "processAlive pid r = (0 < pid \<and> r \<noteq> SignalFailed)"

fun text_includes :: "string \<Rightarrow> string \<Rightarrow> bool" where
  "text_includes p [] = (p = [])"
| "text_includes p (c # s) = (starts_with p (c # s) \<or> text_includes p s)"

text \<open>\<open>text.split(/\r?\n/)\<close> and \<open>text.split(p)[0]\<close>.\<close>

definition text_lines :: "string \<Rightarrow> string list" where
  "text_lines s =
     (let ps = split_on (CHR 0x0A) s in map (strip_suffix [CHR 0x0D]) (butlast ps) @ [last ps])"

fun text_upto :: "string \<Rightarrow> string \<Rightarrow> string" where
  "text_upto p [] = []"
| "text_upto p (c # s) = (if starts_with p (c # s) then [] else c # text_upto p s)"

definition filled :: "string \<Rightarrow> string option" where
  "filled s = (if s = [] then None else Some s)"

text \<open>The output of \<open>tasklist\<close> or \<open>ps\<close>: status and text, or \<open>None\<close> when starting it throws.\<close>

definition processCommand :: "bool \<Rightarrow> int \<Rightarrow> (int option \<times> string) option \<Rightarrow> string option" where
  "processCommand windows pid run =
     (case run of
        None \<Rightarrow> None
      | Some (status, out) \<Rightarrow>
          (if status \<noteq> Some 0 then None
           else if windows then
             (case find (text_includes (CHR 0x22 # js_number_text pid @ [CHR 0x22])) (text_lines out) of
                None \<Rightarrow> None
              | Some row \<Rightarrow>
                  (let cell = text_upto [CHR 0x22, CHR 0x2C, CHR 0x22] row;
                       command = (if starts_with [CHR 0x22] cell then drop 1 cell else cell)
                   in filled (js_trim command)))
           else filled (js_trim out)))"

text \<open>\<open>basename\<close> of \<open>node:path\<close>.\<close>

definition path_sep :: "bool \<Rightarrow> char \<Rightarrow> bool" where
  "path_sep windows c = (c = CHR ''/'' \<or> windows \<and> c = CHR 0x5C)"

definition path_basename :: "bool \<Rightarrow> string \<Rightarrow> string" where
  "path_basename windows s =
     (let s = (if windows \<and> 2 \<le> length s \<and> is_letter (hd s) \<and> s ! 1 = CHR '':'' then drop 2 s else s)
      in rev (takeWhile (\<lambda>c. \<not> path_sep windows c) (dropWhile (path_sep windows) (rev s))))"

definition command_sep :: "char \<Rightarrow> bool" where
  "command_sep c = (c = CHR ''/'' \<or> c = CHR 0x5C \<or> c = CHR '' '')"

text \<open>\<open>/(^|[/\\ ])opencode[^/\\ ]*( |$)/\<close>; the flag says that the text before allows a match here.\<close>

fun opencode_word :: "bool \<Rightarrow> string \<Rightarrow> bool" where
  "opencode_word start [] = False"
| "opencode_word start (c # s) =
     ((start \<and> starts_with ''opencode'' (c # s)
         \<and> (let r = dropWhile (\<lambda>d. \<not> command_sep d) (drop 8 (c # s)) in r = [] \<or> starts_with '' '' r))
      \<or> opencode_word (command_sep c) s)"

definition commandMatchesEngine :: "bool \<Rightarrow> string \<Rightarrow> string \<Rightarrow> bool" where
  "commandMatchesEngine windows command bin =
     (let lower = js_lower command
      in if opencode_word True lower \<and> text_includes ''serve'' lower then True
         else
           (let binBase = js_lower (path_basename windows (js_trim bin))
            in binBase \<noteq> [] \<and> text_includes binBase lower))"

datatype engine_identity = ProbeOurs | ProbeStranger | ProbeUnreachable

text \<open>The status of the answer; \<open>None\<close> when the URL is not one or no answer comes in time.\<close>

definition probeEngineIdentity :: "nat option \<Rightarrow> engine_identity" where
  "probeEngineIdentity response =
     (case response of
        None \<Rightarrow> ProbeUnreachable
      | Some status \<Rightarrow>
          (if 200 \<le> status \<and> status \<le> 299 then ProbeOurs
           else if status = 401 \<or> status = 403 then ProbeStranger
           else ProbeUnreachable))"

section \<open>Reaping\<close>

text \<open>What a reap sees of an entry when it comes to it.\<close>

record reap_look =
  lk_owner :: signal_result
  lk_process :: signal_result
  lk_command :: "(int option \<times> string) option"
  lk_probe :: "nat option"

datatype reap_decision = VerdictSpared | VerdictDropped | VerdictKill

definition reap_verdict :: "bool \<Rightarrow> int \<Rightarrow> engine_record \<Rightarrow> reap_look \<Rightarrow> reap_decision" where
  "reap_verdict windows own e l =
     (if er_ownerPid e = own \<or> processAlive (er_ownerPid e) (lk_owner l) then VerdictSpared
      else if \<not> processAlive (er_pid e) (lk_process l) then VerdictDropped
      else
        (let command = processCommand windows (er_pid e) (lk_command l)
         in if (case command of Some c \<Rightarrow> \<not> commandMatchesEngine windows c (er_bin e) | None \<Rightarrow> False) then VerdictDropped
            else
              (let probe = probeEngineIdentity (lk_probe l)
               in if probe = ProbeStranger then VerdictDropped
                  else if command = None \<and> probe \<noteq> ProbeOurs then VerdictDropped
                  else VerdictKill)))"

record reap_state =
  rs_kept :: "engine_record list"
  rs_toKill :: "engine_record list"
  rs_spared :: "int list"
  rs_dropped :: "int list"

definition reap_entry :: "bool \<Rightarrow> int \<Rightarrow> reap_state \<Rightarrow> engine_record \<times> reap_look \<Rightarrow> reap_state" where
  "reap_entry windows own st el =
     (let (e, l) = el
      in case reap_verdict windows own e l of
           VerdictSpared \<Rightarrow> st\<lparr>rs_kept := rs_kept st @ [e], rs_spared := rs_spared st @ [er_pid e]\<rparr>
         | VerdictDropped \<Rightarrow> st\<lparr>rs_dropped := rs_dropped st @ [er_pid e]\<rparr>
         | VerdictKill \<Rightarrow> st\<lparr>rs_toKill := rs_toKill st @ [e]\<rparr>)"

definition reap_scan :: "bool \<Rightarrow> int \<Rightarrow> (engine_record \<times> reap_look) list \<Rightarrow> reap_state" where
  "reap_scan windows own els =
     foldl (reap_entry windows own) \<lparr>rs_kept = [], rs_toKill = [], rs_spared = [], rs_dropped = []\<rparr> els"

datatype reap_signal = TaskKill int | Terminate int | Kill int

record reap_result =
  rt_killed :: "int list"
  rt_spared :: "int list"
  rt_dropped :: "int list"
  rt_signals :: "reap_signal list"
  rt_change :: registry_change

text \<open>
  The entries are those of one read of the registry, each with what was seen of it; \<open>after\<close> answers
  \<open>process.kill(pid, 0)\<close> once the wait is over. The last change is issued as a job of the queue.
\<close>

definition reapOrphanEngineInstances ::
  "bool \<Rightarrow> int \<Rightarrow> (engine_record \<times> reap_look) list \<Rightarrow> (int \<Rightarrow> signal_result) \<Rightarrow> reap_result" where
  "reapOrphanEngineInstances windows own els after =
     (let st = reap_scan windows own els;
          pids = map er_pid (rs_toKill st);
          first = map (\<lambda>pid. if windows then TaskKill pid else Terminate pid) pids;
          second = (if windows then [] else map Kill (filter (\<lambda>pid. processAlive pid (after pid)) pids))
      in \<lparr>rt_killed = pids, rt_spared = rs_spared st, rt_dropped = rs_dropped st, rt_signals = first @ second,
          rt_change = Reaped (rs_kept st) (pids @ rs_dropped st)\<rparr>)"

section \<open>Jobs in the order of their issue\<close>

text \<open>What a queue promises: the changes, one after the other, each of them made or failed as a whole.\<close>

definition atomic_run :: "('o \<Rightarrow> 'e \<Rightarrow> 'e) \<Rightarrow> 'e \<Rightarrow> ('o \<times> bool) list \<Rightarrow> 'e option list \<times> 'e" where
  "atomic_run ap e0 cs =
     foldl (\<lambda>(answers, e) (c, ok). if ok then (answers @ [Some (ap c e)], ap c e) else (answers @ [None], e)) ([], e0) cs"

definition issued :: "'o queue_event list \<Rightarrow> 'o list" where
  "issued evs = List.map_filter (\<lambda>ev. case ev of JobIssued c \<Rightarrow> Some c | _ \<Rightarrow> None) evs"

lemma issued_snoc:
  "issued (evs @ [ev]) = issued evs @ (case ev of JobIssued c \<Rightarrow> [c] | _ \<Rightarrow> [])"
  by (simp add: issued_def List.map_filter_def split: queue_event.splits)

lemma atomic_run_Nil [simp]: "atomic_run ap e [] = ([], e)"
  by (simp add: atomic_run_def)

lemma atomic_run_snoc:
  "atomic_run ap e (cs @ [(c, ok)]) =
     (let (answers, e') = atomic_run ap e cs
      in if ok then (answers @ [Some (ap c e')], ap c e') else (answers @ [None], e'))"
  by (simp add: atomic_run_def split: prod.splits)

lemma zip_grows: "length bs < length as \<Longrightarrow> zip as (bs @ [b]) = zip as bs @ [(as ! length bs, b)]"
proof (induction bs arbitrary: as)
  case Nil
  then show ?case by (cases as) auto
next
  case (Cons x bs)
  then show ?case by (cases as) auto
qed

locale queued_file =
  fixes rd :: "'f \<Rightarrow> 'e" and wr :: "'e \<Rightarrow> 'f" and ap :: "'o \<Rightarrow> 'e \<Rightarrow> 'e"
    and good :: "'e \<Rightarrow> bool" and allowed :: "'o \<Rightarrow> bool"
  assumes read_back: "good e \<Longrightarrow> rd (wr e) = e"
    and change_good: "good e \<Longrightarrow> allowed c \<Longrightarrow> good (ap c e)"
begin

definition queue_inv :: "'f \<Rightarrow> 'o list \<Rightarrow> 'f \<times> ('o, 'e) write_queue \<Rightarrow> bool" where
  "queue_inv file0 cs st =
     (let (file, q) = st; n = length (wq_answers q)
      in n \<le> length cs \<and> wq_jobs q = drop n cs
         \<and> atomic_run ap (rd file0) (zip cs (map (\<lambda>a. a \<noteq> None) (wq_answers q))) = (wq_answers q, rd file)
         \<and> good (rd file)
         \<and> (\<forall>e. wq_read q = Some e \<longrightarrow> wq_jobs q \<noteq> [] \<and> e = ap (hd (wq_jobs q)) (rd file)))"

lemma queue_inv_issue:
  "queue_inv file0 cs (file, q) \<Longrightarrow> queue_inv file0 (cs @ [c]) (job_step rd wr ap (file, q) (JobIssued c))"
proof -
  assume inv: "queue_inv file0 cs (file, q)"
  let ?n = "length (wq_answers q)"
  have n: "?n \<le> length cs" using inv by (simp add: queue_inv_def Let_def)
  then have "zip (cs @ [c]) (map (\<lambda>a. a \<noteq> None) (wq_answers q)) = zip cs (map (\<lambda>a. a \<noteq> None) (wq_answers q))"
    by (simp add: zip_append1)
  then show ?thesis
    using inv n by (auto simp: queue_inv_def job_step_def Let_def hd_append)
qed

lemma queue_inv_read: "queue_inv file0 cs (file, q) \<Longrightarrow> queue_inv file0 cs (job_step rd wr ap (file, q) JobRead)"
  by (auto simp: queue_inv_def job_step_def Let_def split: list.splits option.splits)

lemma queue_inv_end:
  assumes inv: "queue_inv file0 cs (file, q)" and cs: "\<forall>c \<in> set cs. allowed c"
  shows "queue_inv file0 cs (job_step rd wr ap (file, q) (JobEnds ok))"
proof (cases "\<exists>c rest e. wq_jobs q = c # rest \<and> wq_read q = Some e")
  case False
  then have "job_step rd wr ap (file, q) (JobEnds ok) = (file, q)"
    by (auto simp: job_step_def split: list.splits option.splits)
  then show ?thesis using inv by simp
next
  case True
  then obtain c rest e where q: "wq_jobs q = c # rest" "wq_read q = Some e" by auto
  let ?n = "length (wq_answers q)" and ?oks = "map (\<lambda>a. a \<noteq> None) (wq_answers q)"
  have jobs: "drop ?n cs = c # rest" and good: "good (rd file)" and e: "e = ap c (rd file)"
    and run: "atomic_run ap (rd file0) (zip cs ?oks) = (wq_answers q, rd file)"
    using inv q by (auto simp: queue_inv_def Let_def)
  have n: "?n < length cs" using jobs by (metis drop_all linorder_not_less list.distinct(1))
  then have c: "cs ! ?n = c" "rest = drop (Suc ?n) cs" using jobs by (simp_all add: Cons_nth_drop_Suc [symmetric])
  have "c \<in> set cs" using c(1) n by auto
  then have new: "good e" using change_good good cs e by simp
  have "zip cs (?oks @ [ok]) = zip cs ?oks @ [(c, ok)]" using zip_grows [of ?oks cs ok] n c(1) by simp
  then have "atomic_run ap (rd file0) (zip cs (?oks @ [ok])) = atomic_run ap (rd file0) (zip cs ?oks @ [(c, ok)])"
    by (simp only:)
  also have "\<dots> = (wq_answers q @ [if ok then Some e else None], if ok then e else rd file)"
    unfolding atomic_run_snoc run by (simp add: e)
  finally show ?thesis
    using n c(2) new good read_back [OF new] q by (cases ok) (simp_all add: queue_inv_def job_step_def Let_def)
qed

lemma queue_inv_run:
  assumes "good (rd file0)" "\<forall>c \<in> set (issued evs). allowed c"
  shows "queue_inv file0 (issued evs) (foldl (job_step rd wr ap) (file0, \<lparr>wq_jobs = [], wq_read = None, wq_answers = []\<rparr>) evs)"
  using assms(2)
proof (induction evs rule: rev_induct)
  case Nil
  show ?case using assms(1) by (simp add: queue_inv_def issued_def List.map_filter_def)
next
  case (snoc ev evs)
  obtain f q where st: "foldl (job_step rd wr ap) (file0, \<lparr>wq_jobs = [], wq_read = None, wq_answers = []\<rparr>) evs = (f, q)"
    by (cases "foldl (job_step rd wr ap) (file0, \<lparr>wq_jobs = [], wq_read = None, wq_answers = []\<rparr>) evs")
  have inv: "queue_inv file0 (issued evs) (f, q)" using snoc st by (simp add: issued_snoc)
  show ?case
    using queue_inv_issue [OF inv] queue_inv_read [OF inv] queue_inv_end [OF inv] snoc.prems
    by (cases ev) (simp_all add: st issued_snoc)
qed

lemma answers_in_order:
  assumes "good (rd file0)" "\<forall>c \<in> set (issued evs). allowed c"
    and "foldl (job_step rd wr ap) (file0, \<lparr>wq_jobs = [], wq_read = None, wq_answers = []\<rparr>) evs = (file, q)"
  shows "length (wq_answers q) \<le> length (issued evs)
    \<and> wq_jobs q = drop (length (wq_answers q)) (issued evs)
    \<and> atomic_run ap (rd file0) (zip (issued evs) (map (\<lambda>a. a \<noteq> None) (wq_answers q))) = (wq_answers q, rd file)
    \<and> good (rd file)"
  using queue_inv_run [OF assms(1,2)] assms(3) by (simp add: queue_inv_def Let_def)

end

section \<open>The registry file\<close>

definition valid_record :: "engine_record \<Rightarrow> bool" where
  "valid_record e =
     (js_trim (er_id e) \<noteq> [] \<and> 0 < er_pid e \<and> 0 < er_port e \<and> er_port e \<le> 65535 \<and> 0 < er_ownerPid e
        \<and> js_trim (er_url e) \<noteq> [])"

definition registry_ok :: "engine_record list \<Rightarrow> bool" where
  "registry_ok es = ((\<forall>e \<in> set es. valid_record e) \<and> distinct (map er_id es))"

definition change_ok :: "registry_change \<Rightarrow> bool" where
  "change_ok c = (case c of Register r \<Rightarrow> valid_record r | Reaped kept removed \<Rightarrow> registry_ok kept | _ \<Rightarrow> True)"

lemma role_round [simp]: "role_of (Some (JStr (role_text r))) = r"
  by (cases r) (simp_all add: role_of_def role_text_def)

lemma whole_of_int [simp]: "whole (Some (of_int n)) = Some n"
  by (simp add: whole_def)

lemma parse_entry_json: "valid_record e \<Longrightarrow> parseEntry (entry_json e) = Some (Some e)"
  by (simp add: parseEntry_def entry_json_def is_record_def jfield_def js_number_def filled_text_def jstring_def
      positive_up_to_def text_or_empty_def opt_default_def valid_record_def)

lemma parse_entries_json: "\<forall>e \<in> set es. valid_record e \<Longrightarrow> parse_entries (map entry_json es) = Some es"
  by (induction es) (simp_all add: parse_entry_json)

lemma read_registry_payload: "\<forall>e \<in> set es. valid_record e \<Longrightarrow> readRegistryFile (registry_payload es) = es"
  by (simp add: readRegistryFile_def registry_payload_def parse_entries_json opt_default_def)

lemma parse_entry_valid: "parseEntry v = Some (Some e) \<Longrightarrow> valid_record e"
  by (auto simp: parseEntry_def valid_record_def filled_text_def positive_up_to_def text_or_empty_def opt_default_def
      split: if_splits option.splits)

lemma parse_entries_valid: "parse_entries vs = Some es \<Longrightarrow> e \<in> set es \<Longrightarrow> valid_record e"
  by (induction vs arbitrary: es) (auto dest: parse_entry_valid split: option.splits)

lemma read_registry_valid: "e \<in> set (readRegistryFile file) \<Longrightarrow> valid_record e"
proof -
  assume "e \<in> set (readRegistryFile file)"
  then obtain es vs xs where "parse_entries vs = Some xs" "e \<in> set xs"
    by (auto simp: readRegistryFile_def opt_default_def split: option.splits json.splits) metis
  then show ?thesis by (rule parse_entries_valid)
qed

lemma distinct_ids_filter: "distinct (map er_id es) \<Longrightarrow> distinct (map er_id (filter P es))"
  by (rule distinct_map_filter)

lemma change_keeps_ok: "registry_ok es \<Longrightarrow> change_ok c \<Longrightarrow> registry_ok (apply_registry_change c es)"
proof (cases c)
  case (Register r)
  assume "registry_ok es" "change_ok c"
  then show ?thesis
    by (auto simp: Register apply_registry_change_def registerEngineInstance_def registry_ok_def change_ok_def distinct_ids_filter)
next
  case (UpdateRole i role)
  assume ok: "registry_ok es"
  have "map er_id (updateEngineInstanceRole i role es) = map er_id es"
    by (simp add: updateEngineInstanceRole_def)
  moreover have "\<forall>e \<in> set (updateEngineInstanceRole i role es). valid_record e"
    using ok by (auto simp: updateEngineInstanceRole_def registry_ok_def valid_record_def)
  ultimately show ?thesis using ok by (simp add: UpdateRole apply_registry_change_def registry_ok_def)
next
  case (Remove i)
  assume "registry_ok es"
  then show ?thesis by (auto simp: Remove apply_registry_change_def removeEngineInstance_def registry_ok_def distinct_ids_filter)
next
  case (Reaped kept removed)
  assume "registry_ok es" "change_ok c"
  then show ?thesis
    by (auto simp: Reaped apply_registry_change_def reap_change_def Let_def registry_ok_def change_ok_def distinct_ids_filter)
      (metis imageI)
qed

interpretation registry_file: queued_file readRegistryFile registry_payload apply_registry_change registry_ok change_ok
proof
  show "readRegistryFile (registry_payload e) = e" if "registry_ok e" for e
    using that by (simp add: registry_ok_def read_registry_payload)
  show "registry_ok (apply_registry_change c e)" if "registry_ok e" "change_ok c" for e c
    using that by (rule change_keeps_ok)
qed

text \<open>
  C0. Whatever order the reads, writes and new calls of one server come in, the file reads, at every moment, as if the
  changes had been made one after the other in the order of their calls, each answered change made as a whole and each
  failed one left out; each caller is answered with the registry right after its own change, and ids stay unique.
\<close>
theorem registry_changes_in_order:
  assumes "registry_ok (readRegistryFile file0)" "\<forall>c \<in> set (issued evs). change_ok c"
    and "registry_run file0 evs = (file, q)"
  shows "length (wq_answers q) \<le> length (issued evs)
    \<and> wq_jobs q = drop (length (wq_answers q)) (issued evs)
    \<and> atomic_run apply_registry_change (readRegistryFile file0) (zip (issued evs) (map (\<lambda>a. a \<noteq> None) (wq_answers q)))
        = (wq_answers q, readRegistryFile file)
    \<and> registry_ok (readRegistryFile file)"
  using registry_file.answers_in_order [OF assms(1,2)] assms(3) unfolding registry_run_def mutateRegistry_def by blast

definition sample_engine :: "string \<Rightarrow> int \<Rightarrow> int \<Rightarrow> engine_record" where
  "sample_engine i pid owner =
     \<lparr>er_id = i, er_pid = pid, er_port = 4096, er_url = ''http://127.0.0.1:4096'', er_startedAt = 7, er_role = RoleStarting,
      er_serverRunId = ''run'', er_ownerPid = owner, er_authProbe = [], er_bin = ''/opt/opencode''\<rparr>"

definition sample_jobs :: "registry_change queue_event list" where
  "sample_jobs =
     [JobIssued (Register (sample_engine ''a'' 11 5)), JobRead, JobIssued (UpdateRole ''a'' RolePrimary), JobEnds False,
      JobIssued (Register (sample_engine ''b'' 12 5)), JobRead, JobEnds True, JobRead, JobEnds True]"

lemmas registry_defs = readRegistryFile_def registry_payload_def parse_entry_json valid_record_def sample_engine_def
  registry_ok_def change_ok_def registry_run_def mutateRegistry_def job_step_def apply_registry_change_def
  registerEngineInstance_def updateEngineInstanceRole_def removeEngineInstance_def opt_default_def

lemma sample_valid [simp]: "0 < pid \<Longrightarrow> 0 < owner \<Longrightarrow> js_trim i \<noteq> [] \<Longrightarrow> valid_record (sample_engine i pid owner)"
  by (simp add: valid_record_def sample_engine_def js_trim_def trim_end_def trim_start_def js_space_def)

lemma sample_name [simp]: "js_trim ''a'' = ''a''" "js_trim ''b'' = ''b''"
  by (simp_all add: js_trim_def trim_end_def trim_start_def js_space_def)

lemma sample_id [simp]: "er_id (sample_engine i pid owner) = i"
  by (simp add: sample_engine_def)

lemma sample_read [simp]: "readRegistryFile None = []"
  by (simp add: readRegistryFile_def)

lemma sample_written [simp]:
  "readRegistryFile (registry_payload [sample_engine ''b'' 12 5]) = [sample_engine ''b'' 12 5]"
  by (simp add: read_registry_payload)

text \<open>The write of the first job fails; the change of a role then finds no entry.\<close>

lemma sample_registry_run:
  "registry_run None sample_jobs =
     (registry_payload [sample_engine ''b'' 12 5],
      \<lparr>wq_jobs = [], wq_read = None, wq_answers = [None, Some [], Some [sample_engine ''b'' 12 5]]\<rparr>)"
  by (simp add: registry_run_def sample_jobs_def mutateRegistry_def job_step_def apply_registry_change_def
      registerEngineInstance_def updateEngineInstanceRole_def read_registry_payload)

theorem registry_changes_in_order_witness:
  "wq_jobs (snd (registry_run None sample_jobs)) = [] \<and>
   atomic_run apply_registry_change (readRegistryFile None)
     (zip (issued sample_jobs) (map (\<lambda>a. a \<noteq> None) (wq_answers (snd (registry_run None sample_jobs)))))
     = ([None, Some [], Some [sample_engine ''b'' 12 5]], [sample_engine ''b'' 12 5])"
proof -
  have "registry_ok (readRegistryFile None)" by (simp add: registry_ok_def)
  moreover have "\<forall>c \<in> set (issued sample_jobs). change_ok c"
    by (simp add: issued_def sample_jobs_def List.map_filter_def change_ok_def)
  ultimately show ?thesis
    using registry_changes_in_order [OF _ _ sample_registry_run] by (simp add: sample_registry_run)
qed

section \<open>Two servers\<close>

text \<open>
  The queue belongs to one process. When two servers read before either writes, the later write takes the other's
  entry away.
\<close>

lemma two_servers_lose_an_entry:
  "readRegistryFile (fst (foldl servers_step (None, replicate 2 \<lparr>wq_jobs = [], wq_read = None, wq_answers = []\<rparr>)
     [(0, JobIssued (Register (sample_engine ''a'' 11 5))), (1, JobIssued (Register (sample_engine ''b'' 12 5))),
      (0, JobRead), (1, JobRead), (0, JobEnds True), (1, JobEnds True)])) = [sample_engine ''b'' 12 5]"
  by (simp add: servers_step_def mutateRegistry_def job_step_def apply_registry_change_def registerEngineInstance_def numeral_2_eq_2)

section \<open>What a reap kills\<close>

text \<open>The evidence a kill needs, stated without the order of the checks.\<close>

definition proven_orphan :: "bool \<Rightarrow> int \<Rightarrow> engine_record \<Rightarrow> reap_look \<Rightarrow> bool" where
  "proven_orphan windows own e l =
     (er_ownerPid e \<noteq> own \<and> \<not> processAlive (er_ownerPid e) (lk_owner l)
      \<and> processAlive (er_pid e) (lk_process l)
      \<and> probeEngineIdentity (lk_probe l) \<noteq> ProbeStranger
      \<and> (case processCommand windows (er_pid e) (lk_command l) of
           Some c \<Rightarrow> commandMatchesEngine windows c (er_bin e)
         | None \<Rightarrow> probeEngineIdentity (lk_probe l) = ProbeOurs))"

definition owner_lives :: "int \<Rightarrow> engine_record \<Rightarrow> reap_look \<Rightarrow> bool" where
  "owner_lives own e l = (er_ownerPid e = own \<or> processAlive (er_ownerPid e) (lk_owner l))"

lemma verdict_kill_iff: "reap_verdict windows own e l = VerdictKill \<longleftrightarrow> proven_orphan windows own e l"
  by (auto simp: reap_verdict_def proven_orphan_def Let_def split: option.splits)

lemma verdict_spared_iff: "reap_verdict windows own e l = VerdictSpared \<longleftrightarrow> owner_lives own e l"
  by (auto simp: reap_verdict_def owner_lives_def Let_def)

lemma reap_scan_filters:
  "reap_scan windows own els =
     \<lparr>rs_kept = map fst (filter (\<lambda>(e, l). owner_lives own e l) els),
      rs_toKill = map fst (filter (\<lambda>(e, l). proven_orphan windows own e l) els),
      rs_spared = map (er_pid \<circ> fst) (filter (\<lambda>(e, l). owner_lives own e l) els),
      rs_dropped = map (er_pid \<circ> fst) (filter (\<lambda>(e, l). \<not> owner_lives own e l \<and> \<not> proven_orphan windows own e l) els)\<rparr>"
proof (induction els rule: rev_induct)
  case Nil
  show ?case by (simp add: reap_scan_def)
next
  case (snoc el els)
  obtain e l where el: "el = (e, l)" by (cases el)
  have "\<not> (owner_lives own e l \<and> proven_orphan windows own e l)" by (auto simp: owner_lives_def proven_orphan_def)
  then show ?case
    using snoc verdict_kill_iff [of windows own e l] verdict_spared_iff [of windows own e l]
    by (cases "reap_verdict windows own e l") (auto simp: reap_scan_def reap_entry_def el)
qed

lemma reap_signals:
  assumes "result = reapOrphanEngineInstances windows own els after"
  shows "TaskKill pid \<in> set (rt_signals result) \<longleftrightarrow> windows \<and> pid \<in> set (rt_killed result)"
    and "Terminate pid \<in> set (rt_signals result) \<longleftrightarrow> \<not> windows \<and> pid \<in> set (rt_killed result)"
    and "Kill pid \<in> set (rt_signals result) \<longleftrightarrow> \<not> windows \<and> pid \<in> set (rt_killed result) \<and> processAlive pid (after pid)"
  by (auto simp: assms reapOrphanEngineInstances_def Let_def simp del: set_map) auto

lemma reap_killed:
  assumes "result = reapOrphanEngineInstances windows own els after"
  shows "pid \<in> set (rt_killed result) \<longleftrightarrow> (\<exists>(e, l) \<in> set els. er_pid e = pid \<and> proven_orphan windows own e l)"
  by (force simp: assms reapOrphanEngineInstances_def Let_def reap_scan_filters)

lemma reap_partition:
  assumes "result = reapOrphanEngineInstances windows own els after"
  shows "mset (rt_killed result) + mset (rt_dropped result) + mset (rt_spared result) = mset (map (er_pid \<circ> fst) els)"
proof -
  have "image_mset f (mset els) = image_mset f (mset (filter (\<lambda>(e, l). proven_orphan windows own e l) els))
      + image_mset f (mset (filter (\<lambda>(e, l). \<not> owner_lives own e l \<and> \<not> proven_orphan windows own e l) els))
      + image_mset f (mset (filter (\<lambda>(e, l). owner_lives own e l) els))" for f :: "engine_record \<times> reap_look \<Rightarrow> int"
    by (induction els) (auto simp: owner_lives_def proven_orphan_def)
  from this [of "er_pid \<circ> fst"] show ?thesis
    by (simp add: assms reapOrphanEngineInstances_def reap_scan_filters Let_def comp_def)
qed

lemma reap_keeps:
  assumes "result = reapOrphanEngineInstances windows own els after"
  shows "apply_registry_change (rt_change result) (map fst els) = map fst (filter (\<lambda>(e, l). owner_lives own e l) els)"
proof -
  let ?kept = "map fst (filter (\<lambda>(e, l). owner_lives own e l) els)"
  let ?removed = "rt_killed result @ rt_dropped result"
  have change: "rt_change result = Reaped ?kept ?removed"
    by (simp add: assms reapOrphanEngineInstances_def reap_scan_filters Let_def)
  have "er_id e \<in> set (map er_id ?kept) \<or> er_pid e \<in> set ?removed" if "e \<in> set (map fst els)" for e
  proof -
    obtain l where el: "(e, l) \<in> set els" using \<open>e \<in> set (map fst els)\<close> by auto
    show ?thesis
      using el by (force simp: assms reapOrphanEngineInstances_def reap_scan_filters Let_def image_iff)
  qed
  then have "filter (\<lambda>e. er_id e \<notin> set (map er_id ?kept)) (filter (\<lambda>e. er_pid e \<notin> set ?removed) (map fst els)) = []"
    unfolding filter_filter filter_empty_conv by blast
  then show ?thesis by (simp only: change apply_registry_change_def reap_change_def registry_change.case Let_def append_Nil2)
qed


definition sample_looks :: "(engine_record \<times> reap_look) list" where
  "sample_looks =
     [(sample_engine ''a'' 11 5, \<lparr>lk_owner = SignalFailed, lk_process = SignalSent, lk_command = Some (Some 0, ''/opt/opencode serve''),
         lk_probe = None\<rparr>),
      (sample_engine ''b'' 12 6, \<lparr>lk_owner = SignalDenied, lk_process = SignalSent, lk_command = None, lk_probe = None\<rparr>),
      (sample_engine ''c'' 13 7, \<lparr>lk_owner = SignalFailed, lk_process = SignalSent, lk_command = None, lk_probe = Some 401\<rparr>)]"

lemma sample_reap:
  "reapOrphanEngineInstances False 5000 sample_looks (\<lambda>pid. SignalSent) =
     \<lparr>rt_killed = [11], rt_spared = [12], rt_dropped = [13], rt_signals = [Terminate 11, Kill 11],
      rt_change = Reaped [sample_engine ''b'' 12 6] [11, 13]\<rparr>"
  by (simp add: reapOrphanEngineInstances_def reap_scan_def reap_entry_def sample_looks_def sample_engine_def reap_verdict_def
      processAlive_def processCommand_def filled_def js_trim_def trim_end_def trim_start_def js_space_def
      commandMatchesEngine_def js_lower_def lower_char_def command_sep_def probeEngineIdentity_def)


section \<open>Reaping beside other changes\<close>

text \<open>What the registry holds when it has changed since the reap read it.\<close>

lemma reap_change_members:
  "e \<in> set (reap_change kept removed es) \<longleftrightarrow>
     e \<in> set kept \<or> e \<in> set es \<and> er_pid e \<notin> set removed \<and> er_id e \<notin> er_id ` set kept"
  by (auto simp: reap_change_def)

text \<open>
  An entry added during the scan is lost if its process has a number that was dropped; a kept entry is written back
  as it was read, whatever happened to it since.
\<close>

lemma added_entry_lost: "reap_change [] [13] [sample_engine ''d'' 13 5000] = []"
  by (simp add: reap_change_def sample_engine_def)

lemma removed_entry_back:
  "reap_change [sample_engine ''b'' 12 6] [] (removeEngineInstance ''b'' [sample_engine ''b'' 12 6]) = [sample_engine ''b'' 12 6]"
  by (simp add: reap_change_def removeEngineInstance_def)

lemma role_change_undone:
  "reap_change [sample_engine ''b'' 12 6] [] (updateEngineInstanceRole ''b'' RolePrimary [sample_engine ''b'' 12 6]) =
     [sample_engine ''b'' 12 6]"
  by (simp add: reap_change_def updateEngineInstanceRole_def)

end
