(* ===== verification/TurnProgress.thy ===== *)
theory TurnProgress
  imports LocalStores JsNumber
begin

text \<open>
  How a long turn is uploaded while it runs
  (\<open>apps/server/src/session-archive/turn-progress.ts\<close>, and the way
  \<open>apps/server/src/session-upload-observer.ts\<close> uses it): when something is sent ahead, which
  messages of a session are final, which of them went ahead, and what the end of the turn still
  sends.

  A message is the JSON value the engine answered with, its size is measured by the observer.
  A session is named by its id, the root by the empty text. Reads of the engine are arguments.
\<close>

section \<open>Constants and the interval\<close>

definition TURN_PROGRESS_INTERVAL_MS :: int where "TURN_PROGRESS_INTERVAL_MS = 3 * 60000"
definition TURN_PROGRESS_MIN_AGE_MS :: int where "TURN_PROGRESS_MIN_AGE_MS = 60000"
definition TURN_PROGRESS_MIN_GAP_MS :: int where "TURN_PROGRESS_MIN_GAP_MS = 15000"
definition TURN_PROGRESS_FLOOR_MS :: int where "TURN_PROGRESS_FLOOR_MS = 10000"

definition turnProgressIntervalMs :: "string option \<Rightarrow> int" where
  "turnProgressIntervalMs value =
     (case value of
        None \<Rightarrow> TURN_PROGRESS_INTERVAL_MS
      | Some s \<Rightarrow>
          (if js_trim s = [] then TURN_PROGRESS_INTERVAL_MS
           else
             (case number_text s of
                None \<Rightarrow> TURN_PROGRESS_INTERVAL_MS
              | Some q \<Rightarrow>
                  (if q < 0 then TURN_PROGRESS_INTERVAL_MS
                   else if q = 0 then 0 else max TURN_PROGRESS_FLOOR_MS \<lfloor>q\<rfloor>))))"

section \<open>Messages\<close>

definition is_object :: "json option \<Rightarrow> bool" where
  "is_object v = (case v of Some (JObj es) \<Rightarrow> True | _ \<Rightarrow> False)"

definition message_info :: "json \<Rightarrow> json" where
  "message_info m = (case jfield ''info'' m of Some i \<Rightarrow> if is_object (Some i) then i else m | None \<Rightarrow> m)"

definition progressMessageId :: "json \<Rightarrow> string option" where
  "progressMessageId m =
     (if \<not> is_object (Some m) then None
      else (case jstring (jfield ''id'' (message_info m)) of Some s \<Rightarrow> if s = [] then None else Some s | None \<Rightarrow> None))"

definition nullish :: "json option \<Rightarrow> bool" where
  "nullish v = (v = None \<or> v = Some JNull)"

definition open_tool :: "json \<Rightarrow> bool" where
  "open_tool part =
     (is_object (Some part) \<and> jfield ''type'' part = Some (JStr ''tool'')
        \<and> is_object (jfield ''state'' part)
        \<and> Option.bind (jfield ''state'' part) (jfield ''status'') \<in> {Some (JStr ''pending''), Some (JStr ''running'')})"

definition message_ended :: "json \<Rightarrow> bool" where
  "message_ended info =
     ((is_object (jfield ''time'' info)
         \<and> (case Option.bind (jfield ''time'' info) (jfield ''completed'') of
              Some (JNum n) \<Rightarrow> True | Some (JStr s) \<Rightarrow> True | _ \<Rightarrow> False))
      \<or> \<not> nullish (jfield ''error'' info))"

definition settledMessage :: "json \<Rightarrow> bool" where
  "settledMessage m =
     (if \<not> is_object (Some m) then False
      else
        (let info = message_info m;
             role = (if nullish (jfield ''role'' info) then jfield ''type'' info else jfield ''role'' info)
         in if role = Some (JStr ''user'') then True
            else if role \<noteq> Some (JStr ''assistant'') then False
            else if \<not> message_ended info then False
            else \<not> list_ex open_tool (case jfield ''parts'' m of Some (JArr ps) \<Rightarrow> ps | _ \<Rightarrow> [])))"

fun settledPrefix :: "json list \<Rightarrow> nat" where
  "settledPrefix [] = 0"
| "settledPrefix (m # ms) = (if settledMessage m then Suc (settledPrefix ms) else 0)"

text \<open>The messages with \<open>sizes[index] ?? 0\<close>.\<close>

fun sized :: "'a list \<Rightarrow> int list \<Rightarrow> ('a \<times> int) list" where
  "sized [] zs = []"
| "sized (m # ms) zs = (m, (case zs of [] \<Rightarrow> 0 | z # _ \<Rightarrow> z)) # sized ms (tl zs)"

section \<open>The progress of a turn\<close>

datatype progress_reason = IntervalPassed | SubAgentEnded

record turn_progress =
  tp_sent :: "(string, (string, int) jsmap) jsmap"
  tp_startedAt :: int
  tp_intervalMs :: int
  tp_lastAt :: "int option"
  tp_busy :: "string list"
  tp_ended :: bool

definition newTurnProgress :: "int \<Rightarrow> int \<Rightarrow> turn_progress" where
  "newTurnProgress startedAt intervalMs =
     \<lparr>tp_sent = [], tp_startedAt = startedAt, tp_intervalMs = intervalMs, tp_lastAt = None, tp_busy = [], tp_ended = False\<rparr>"

definition tp_enabled :: "turn_progress \<Rightarrow> bool" where
  "tp_enabled st = (0 < tp_intervalMs st)"

definition busy_status :: "json \<Rightarrow> bool" where
  "busy_status status =
     (case (if is_object (Some status) then jfield ''type'' status else None) of
        Some (JStr t) \<Rightarrow> t \<noteq> ''idle''
      | _ \<Rightarrow> False)"

definition noteStatuses :: "json \<Rightarrow> string \<Rightarrow> turn_progress \<Rightarrow> turn_progress" where
  "noteStatuses statuses rootId st =
     (case statuses of
        JObj es \<Rightarrow>
          (let now = map fst (filter (\<lambda>(sid, status). sid \<noteq> rootId \<and> busy_status status) es)
           in st\<lparr>tp_ended := (tp_ended st \<or> list_ex (\<lambda>sid. sid \<notin> set now) (tp_busy st)), tp_busy := now\<rparr>)
      | _ \<Rightarrow> st)"

definition due :: "int \<Rightarrow> turn_progress \<Rightarrow> progress_reason option" where
  "due now st =
     (if \<not> tp_enabled st then None
      else if now - tp_startedAt st < TURN_PROGRESS_MIN_AGE_MS then None
      else
        (let since = (case tp_lastAt st of Some t \<Rightarrow> t | None \<Rightarrow> tp_startedAt st)
         in if tp_ended st \<and> (case tp_lastAt st of None \<Rightarrow> True | Some t \<Rightarrow> TURN_PROGRESS_MIN_GAP_MS \<le> now - t)
            then Some SubAgentEnded
            else if tp_intervalMs st \<le> now - since then Some IntervalPassed
            else None))"

definition flushed :: "int \<Rightarrow> turn_progress \<Rightarrow> turn_progress" where
  "flushed now st = st\<lparr>tp_lastAt := Some now, tp_ended := False\<rparr>"

definition sentCount :: "turn_progress \<Rightarrow> nat" where
  "sentCount st = sum_list (map length (jm_values (tp_sent st)))"

definition sent_of :: "turn_progress \<Rightarrow> string \<Rightarrow> (string, int) jsmap" where
  "sent_of st session = (case jm_get session (tp_sent st) of Some m \<Rightarrow> m | None \<Rightarrow> [])"

definition sent_size :: "turn_progress \<Rightarrow> string \<Rightarrow> json \<Rightarrow> int option" where
  "sent_size st session m = Option.bind (progressMessageId m) (\<lambda>i. jm_get i (sent_of st session))"

definition ahead :: "json list \<Rightarrow> int list \<Rightarrow> string \<Rightarrow> turn_progress \<Rightarrow> json list \<times> int list" where
  "ahead messages sizes session st =
     (let count = settledPrefix (butlast messages);
          out = filter (\<lambda>(m, z). progressMessageId m \<noteq> None \<and> sent_size st session m = None)
                  (take count (sized messages sizes))
      in (map fst out, map snd out))"

definition mark_message :: "(string, int) jsmap \<Rightarrow> json \<times> int \<Rightarrow> (string, int) jsmap" where
  "mark_message sent mz = (case progressMessageId (fst mz) of Some i \<Rightarrow> jm_set i (snd mz) sent | None \<Rightarrow> sent)"

definition markSent :: "json list \<Rightarrow> int list \<Rightarrow> string \<Rightarrow> turn_progress \<Rightarrow> turn_progress" where
  "markSent messages sizes session st =
     st\<lparr>tp_sent := jm_set session (foldl mark_message (sent_of st session) (sized messages sizes)) (tp_sent st)\<rparr>"

definition unsent :: "json list \<Rightarrow> int list \<Rightarrow> string \<Rightarrow> turn_progress \<Rightarrow> json list \<times> int list" where
  "unsent messages sizes session st =
     (if sent_of st session = [] then (messages, sizes)
      else
        (let out = filter (\<lambda>(m, z). \<not> (progressMessageId m \<noteq> None \<and> sent_size st session m = Some z)) (sized messages sizes)
         in (map fst out, map snd out)))"

section \<open>Pieces\<close>

record message_part =
  mp_messages :: "json list"
  mp_bytes :: int

text \<open>From the newest message back; a part holds its messages oldest first.\<close>

fun cut_parts :: "int \<Rightarrow> (json \<times> int) list \<Rightarrow> message_part \<Rightarrow> message_part list" where
  "cut_parts maxBytes [] part = [part]"
| "cut_parts maxBytes ((m, z) # rest) part =
     (if mp_messages part \<noteq> [] \<and> maxBytes < mp_bytes part + z
      then cut_parts maxBytes rest \<lparr>mp_messages = [m], mp_bytes = z\<rparr> @ [part]
      else cut_parts maxBytes rest \<lparr>mp_messages = m # mp_messages part, mp_bytes = mp_bytes part + z\<rparr>)"

definition messageParts :: "int \<Rightarrow> json list \<Rightarrow> int list \<Rightarrow> message_part list" where
  "messageParts maxBytes messages sizes = cut_parts maxBytes (rev (sized messages sizes)) \<lparr>mp_messages = [], mp_bytes = 0\<rparr>"

record progress_event =
  pe_messages :: "json list"
  pe_part :: nat
  pe_parts :: nat

definition progressEvents :: "message_part list \<Rightarrow> progress_event list" where
  "progressEvents pieces =
     map (\<lambda>(i, piece). \<lparr>pe_messages = mp_messages piece, pe_part = i + 1, pe_parts = length pieces\<rparr>)
       (enumerate 0 pieces)"

section \<open>The followed turn\<close>

text \<open>
  A read of a session: its id, messages and sizes. What goes ahead is recorded as uploads, in the
  pieces of the root or as one event of a sub-agent; the order within a session is the same.
\<close>

type_synonym session_read = "string \<times> json list \<times> int list"
type_synonym upload = "string \<times> json \<times> int"

definition send_one :: "turn_progress \<times> upload list \<Rightarrow> session_read \<Rightarrow> turn_progress \<times> upload list" where
  "send_one acc read =
     (let (st, us) = acc;
          (session, messages, sizes) = read;
          (out, zs) = ahead messages sizes session st
      in (markSent out zs session st, us @ map (Pair session) (sized out zs)))"

record follow_read =
  fr_statuses :: json
  fr_now :: int
  fr_reads :: "session_read list"
  fr_after :: int

definition follow_once :: "string \<Rightarrow> turn_progress \<times> upload list \<Rightarrow> follow_read \<Rightarrow> turn_progress \<times> upload list" where
  "follow_once rootId acc i =
     (let (st, us) = acc
      in if \<not> tp_enabled st then acc
         else
           (let st' = noteStatuses (fr_statuses i) rootId st
            in case due (fr_now i) st' of
                 None \<Rightarrow> (st', us)
               | Some reason \<Rightarrow> (let (st'', us') = foldl send_one (st', us) (fr_reads i) in (flushed (fr_after i) st'', us'))))"

definition follow_turn :: "string \<Rightarrow> int \<Rightarrow> int \<Rightarrow> follow_read list \<Rightarrow> turn_progress \<times> upload list" where
  "follow_turn rootId startedAt intervalMs ins = foldl (follow_once rootId) (newTurnProgress startedAt intervalMs, []) ins"

section \<open>Sizes and pieces\<close>

lemma map_fst_sized [simp]: "map fst (sized ms zs) = ms"
  by (induction ms zs rule: sized.induct) auto

lemma sized_pairs [simp]: "sized (map fst ps) (map snd ps) = ps"
  by (induction ps) auto

lemma settledPrefix_le: "settledPrefix ms \<le> length ms"
  by (induction ms) auto

lemma settled_prefix: "m \<in> set (take (settledPrefix ms) ms) \<Longrightarrow> settledMessage m"
  by (induction ms) (auto split: if_splits)

lemma sent_ahead_settled:
  assumes "(m, z) \<in> set (take (settledPrefix (butlast ms)) (sized ms zs))"
  shows "settledMessage m \<and> m \<in> set (butlast ms)"
proof -
  let ?n = "settledPrefix (butlast ms)"
  have n: "?n \<le> length (butlast ms)" by (rule settledPrefix_le)
  have "m \<in> fst ` set (take ?n (sized ms zs))" using assms by force
  then have "m \<in> set (take ?n ms)" by (metis image_set map_fst_sized take_map)
  moreover have "take ?n ms = take ?n (butlast ms)" using n by (cases ms rule: rev_cases) simp_all
  ultimately show ?thesis using settled_prefix in_set_takeD by metis
qed

lemma cut_parts_exact:
  "concat (map mp_messages (cut_parts maxBytes ps part)) = rev (map fst ps) @ mp_messages part"
proof (induction ps arbitrary: part)
  case Nil
  show ?case by simp
next
  case (Cons mz ps)
  then show ?case by (cases mz) simp
qed

lemma message_parts_exact: "concat (map mp_messages (messageParts maxBytes ms zs)) = ms"
  by (simp add: messageParts_def cut_parts_exact rev_map)

lemma progress_events_carry: "concat (map pe_messages (progressEvents pieces)) = concat (map mp_messages pieces)"
proof -
  have "map pe_messages (progressEvents pieces) = map (mp_messages \<circ> snd) (enumerate 0 pieces)"
    by (simp add: progressEvents_def split_def comp_def)
  also have "\<dots> = map mp_messages (map snd (enumerate 0 pieces))" by (simp only: map_map)
  finally show ?thesis by simp
qed

lemma cut_parts_bounded:
  "(1 < length (mp_messages part) \<longrightarrow> mp_bytes part \<le> maxBytes) \<Longrightarrow>
     q \<in> set (cut_parts maxBytes ps part) \<Longrightarrow> 1 < length (mp_messages q) \<Longrightarrow> mp_bytes q \<le> maxBytes"
proof (induction ps arbitrary: part)
  case Nil
  then show ?case by simp
next
  case (Cons mz ps)
  obtain m z where mz: "mz = (m, z)" by (cases mz)
  show ?case
  proof (cases "mp_messages part \<noteq> [] \<and> maxBytes < mp_bytes part + z")
    case True
    then show ?thesis
      using Cons.prems Cons.IH [of "\<lparr>mp_messages = [m], mp_bytes = z\<rparr>"] by (auto simp: mz)
  next
    case False
    then have "1 < length (m # mp_messages part) \<longrightarrow> mp_bytes part + z \<le> maxBytes" by auto
    then show ?thesis
      using False Cons.prems(2,3) Cons.IH [of "\<lparr>mp_messages = m # mp_messages part, mp_bytes = mp_bytes part + z\<rparr>"]
      by (auto simp: mz)
  qed
qed

lemma message_part_bounded:
  "q \<in> set (messageParts maxBytes ms zs) \<Longrightarrow> 1 < length (mp_messages q) \<Longrightarrow> mp_bytes q \<le> maxBytes"
  unfolding messageParts_def by (rule cut_parts_bounded) auto

section \<open>What went ahead\<close>

definition distinct_ids :: "json list \<Rightarrow> bool" where
  "distinct_ids ms = distinct (map progressMessageId (filter (\<lambda>m. progressMessageId m \<noteq> None) ms))"

lemma distinct_ids_out:
  "distinct_ids ms \<Longrightarrow>
     distinct (map (progressMessageId \<circ> fst) (filter (\<lambda>p. progressMessageId (fst p) \<noteq> None \<and> P p) (take n (sized ms zs))))"
proof -
  let ?f = "progressMessageId \<circ> fst"
  let ?R = "\<lambda>p. progressMessageId (fst p) \<noteq> None"
  assume "distinct_ids ms"
  then have "distinct (map progressMessageId (filter (\<lambda>m. progressMessageId m \<noteq> None) (map fst (sized ms zs))))"
    by (simp add: distinct_ids_def)
  then have d: "distinct (map ?f (filter ?R (sized ms zs)))" by (simp only: filter_map map_map comp_def)
  have "filter ?R (sized ms zs) = filter ?R (take n (sized ms zs)) @ filter ?R (drop n (sized ms zs))"
    by (metis append_take_drop_id filter_append)
  then have "distinct (map ?f (filter ?R (take n (sized ms zs))))" using d by simp
  then have "distinct (map ?f (filter P (filter ?R (take n (sized ms zs)))))" by (rule distinct_map_filter)
  then show ?thesis by (simp add: conj_commute)
qed

lemma sent_of_markSent:
  "sent_of (markSent ms zs s st) s' = (if s' = s then foldl mark_message (sent_of st s) (sized ms zs) else sent_of st s')"
  by (simp add: sent_of_def markSent_def)

lemma mark_all:
  assumes "distinct (map (progressMessageId \<circ> fst) ps)" "\<forall>p \<in> set ps. progressMessageId (fst p) \<noteq> None"
    "\<forall>p \<in> set ps. \<forall>i. progressMessageId (fst p) = Some i \<longrightarrow> jm_get i sent = None"
  shows "jm_get i (foldl mark_message sent ps) = Some z \<longleftrightarrow>
     jm_get i sent = Some z \<or> (\<exists>m. (m, z) \<in> set ps \<and> progressMessageId m = Some i)"
  using assms
proof (induction ps arbitrary: sent)
  case Nil
  then show ?case by simp
next
  case (Cons p ps)
  obtain m y where p: "p = (m, y)" by (cases p)
  obtain j where j: "progressMessageId m = Some j" using Cons.prems(2) by (auto simp: p)
  let ?sent = "jm_set j y sent"
  have fresh: "\<forall>q \<in> set ps. progressMessageId (fst q) \<noteq> Some j" using Cons.prems(1) j by (force simp: p)
  have "jm_get i (foldl mark_message ?sent ps) = Some z \<longleftrightarrow>
     jm_get i ?sent = Some z \<or> (\<exists>m. (m, z) \<in> set ps \<and> progressMessageId m = Some i)"
    by (rule Cons.IH) (use Cons.prems fresh in \<open>auto split: if_splits\<close>)
  moreover have "jm_get j sent = None" using Cons.prems(3) j by (simp add: p)
  moreover have "mark_message sent p = ?sent" using j by (simp add: p mark_message_def)
  ultimately show ?case using j fresh by (auto simp: p)
qed

definition ahead_ok :: "turn_progress \<times> upload list \<Rightarrow> bool" where
  "ahead_ok acc =
     ((\<forall>s i z. jm_get i (sent_of (fst acc) s) = Some z \<longleftrightarrow> (\<exists>m. (s, m, z) \<in> set (snd acc) \<and> progressMessageId m = Some i))
      \<and> distinct (map (\<lambda>(s, m, z). (s, progressMessageId m)) (snd acc))
      \<and> (\<forall>(s, m, z) \<in> set (snd acc). progressMessageId m \<noteq> None \<and> settledMessage m))"

lemma ahead_ok_send:
  assumes ok: "ahead_ok acc" and d: "distinct_ids ms"
  shows "ahead_ok (send_one acc (s, ms, zs))"
proof -
  obtain st us where acc: "acc = (st, us)" by (cases acc)
  define out where "out = filter (\<lambda>p. progressMessageId (fst p) \<noteq> None \<and> sent_size st s (fst p) = None)
    (take (settledPrefix (butlast ms)) (sized ms zs))"
  have new: "send_one acc (s, ms, zs) = (markSent (map fst out) (map snd out) s st, us @ map (Pair s) out)"
    by (simp add: send_one_def acc ahead_def out_def split_def Let_def)
  have old: "\<And>s i z. jm_get i (sent_of st s) = Some z \<longleftrightarrow> (\<exists>m. (s, m, z) \<in> set us \<and> progressMessageId m = Some i)"
    "distinct (map (\<lambda>(s, m, z). (s, progressMessageId m)) us)"
    "\<forall>(s, m, z) \<in> set us. progressMessageId m \<noteq> None \<and> settledMessage m"
    using ok by (auto simp: ahead_ok_def acc)
  have dist: "distinct (map (progressMessageId \<circ> fst) out)"
    unfolding out_def by (rule distinct_ids_out [OF d])
  have ids: "\<forall>p \<in> set out. progressMessageId (fst p) \<noteq> None" by (simp add: out_def)
  have unsent: "\<forall>p \<in> set out. \<forall>i. progressMessageId (fst p) = Some i \<longrightarrow> jm_get i (sent_of st s) = None"
    by (auto simp: out_def sent_size_def)
  have settled: "\<forall>(m, z) \<in> set out. settledMessage m" using sent_ahead_settled by (fastforce simp: out_def)
  have sent: "jm_get i (sent_of (fst (send_one acc (s, ms, zs))) s') = Some z \<longleftrightarrow>
      (\<exists>m. (s', m, z) \<in> set (us @ map (Pair s) out) \<and> progressMessageId m = Some i)" for s' i z
    using mark_all [OF dist ids unsent, of i z] old(1) by (auto simp: new sent_of_markSent)
  have "distinct (map (\<lambda>(s, m, z). (s, progressMessageId m)) (map (Pair s) out))"
    using dist by (auto simp: distinct_map comp_def inj_on_def split_def)
  moreover have "(s', progressMessageId m) \<noteq> (s, progressMessageId m')" if u: "(s', m, z) \<in> set us" and o: "(m', z') \<in> set out" for s' m z m' z'
  proof
    assume eq: "(s', progressMessageId m) = (s, progressMessageId m')"
    obtain i where i: "progressMessageId m' = Some i" using ids o by force
    then have "jm_get i (sent_of st s) = Some z" using old(1) u eq by auto
    then show False using unsent o i by force
  qed
  ultimately have "distinct (map (\<lambda>(s, m, z). (s, progressMessageId m)) (us @ map (Pair s) out))"
    using old(2) by (auto simp: split_def)
  moreover have "\<forall>(s, m, z) \<in> set (us @ map (Pair s) out). progressMessageId m \<noteq> None \<and> settledMessage m"
    using old(3) ids settled by auto
  ultimately show ?thesis using sent by (simp add: ahead_ok_def new)
qed

lemma ahead_ok_sends:
  "ahead_ok acc \<Longrightarrow> \<forall>(s, ms, zs) \<in> set reads. distinct_ids ms \<Longrightarrow> ahead_ok (foldl send_one acc reads)"
proof (induction reads arbitrary: acc)
  case Nil
  then show ?case by simp
next
  case (Cons read reads)
  obtain s ms zs where read: "read = (s, ms, zs)" by (cases read)
  have "ahead_ok (send_one acc read)" unfolding read by (rule ahead_ok_send) (use Cons.prems read in auto)
  then show ?case using Cons.IH Cons.prems(2) by simp
qed

lemma ahead_ok_same: "ahead_ok (st, us) \<Longrightarrow> tp_sent st' = tp_sent st \<Longrightarrow> ahead_ok (st', us)"
  by (simp add: ahead_ok_def sent_of_def)

lemma tp_sent_note [simp]: "tp_sent (noteStatuses statuses rootId st) = tp_sent st"
  by (simp add: noteStatuses_def Let_def split: json.splits)

lemma ahead_ok_follow:
  assumes "ahead_ok acc" "\<forall>(s, ms, zs) \<in> set (fr_reads i). distinct_ids ms"
  shows "ahead_ok (follow_once rootId acc i)"
proof -
  obtain st us where acc: "acc = (st, us)" by (cases acc)
  let ?st = "noteStatuses (fr_statuses i) rootId st"
  have ok: "ahead_ok (?st, us)" by (rule ahead_ok_same [OF assms(1) [unfolded acc]]) simp
  obtain st2 us2 where f: "foldl send_one (?st, us) (fr_reads i) = (st2, us2)" by (cases "foldl send_one (?st, us) (fr_reads i)")
  have "ahead_ok (st2, us2)" using ahead_ok_sends [OF ok assms(2)] f by simp
  then have "ahead_ok (flushed (fr_after i) st2, us2)" by (rule ahead_ok_same) (simp add: flushed_def)
  then show ?thesis using assms(1) ok f by (simp add: follow_once_def acc Let_def split: option.splits)
qed

lemma ahead_ok_turn:
  assumes "\<forall>i \<in> set ins. \<forall>(s, ms, zs) \<in> set (fr_reads i). distinct_ids ms"
  shows "ahead_ok (follow_turn rootId startedAt intervalMs ins)"
proof -
  have "ahead_ok acc \<Longrightarrow> ahead_ok (foldl (follow_once rootId) acc ins)" for acc
    using assms
  proof (induction ins arbitrary: acc)
    case Nil
    then show ?case by simp
  next
    case (Cons i ins)
    have "ahead_ok (follow_once rootId acc i)" by (rule ahead_ok_follow) (use Cons.prems in auto)
    then show ?case using Cons.IH Cons.prems(2) by simp
  qed
  moreover have "ahead_ok (newTurnProgress startedAt intervalMs, [])"
    by (simp add: ahead_ok_def newTurnProgress_def sent_of_def)
  ultimately show ?thesis by (simp add: follow_turn_def)
qed

text \<open>
  C0. However often messages went ahead while a turn ran, no message of a session went ahead twice, each that did was
  settled, and the end of the turn sends, in order, exactly those of its messages that did not go ahead in the size they
  have now. So every message that is there at the end is uploaded
  with the size it has then, and at most once before that.
\<close>
theorem turn_sends_final_form_once:
  assumes "\<forall>i \<in> set ins. \<forall>(s, ms, zs) \<in> set (fr_reads i). distinct_ids ms"
    and "follow_turn rootId startedAt intervalMs ins = (st, us)"
    and "unsent messages sizes session st = (out, zs')"
  shows "distinct (map (\<lambda>(s, m, z). (s, progressMessageId m)) us)
    \<and> (\<forall>(s, m, z) \<in> set us. progressMessageId m \<noteq> None \<and> settledMessage m)
    \<and> sized out zs' =
        filter (\<lambda>(m, z). \<not> (\<exists>m'. (session, m', z) \<in> set us \<and> progressMessageId m' = progressMessageId m)) (sized messages sizes)"
proof -
  have "ahead_ok (st, us)" using ahead_ok_turn [OF assms(1)] assms(2) by metis
  then have ok: "\<And>s i z. jm_get i (sent_of st s) = Some z \<longleftrightarrow> (\<exists>m. (s, m, z) \<in> set us \<and> progressMessageId m = Some i)"
    "distinct (map (\<lambda>(s, m, z). (s, progressMessageId m)) us)"
    "\<forall>(s, m, z) \<in> set us. progressMessageId m \<noteq> None \<and> settledMessage m"
    by (auto simp: ahead_ok_def)
  have sent: "progressMessageId m \<noteq> None \<and> sent_size st session m = Some z \<longleftrightarrow>
      (\<exists>m'. (session, m', z) \<in> set us \<and> progressMessageId m' = progressMessageId m)" for m z
    using ok(1) [of _ session z] ok(3) by (cases "progressMessageId m") (auto simp: sent_size_def)
  have "sized out zs' = filter (\<lambda>(m, z). \<not> (progressMessageId m \<noteq> None \<and> sent_size st session m = Some z)) (sized messages sizes)"
  proof (cases "sent_of st session = []")
    case True
    then have "sent_size st session m = None" for m by (cases "progressMessageId m") (auto simp: sent_size_def)
    then show ?thesis using assms(3) True by (simp add: unsent_def)
  next
    case False
    then show ?thesis using assms(3) by (auto simp: unsent_def Let_def)
  qed
  then show ?thesis using ok(2,3) unfolding sent by blast
qed

section \<open>Pace\<close>

lemma interval_off_or_floored: "turnProgressIntervalMs v = 0 \<or> TURN_PROGRESS_FLOOR_MS \<le> turnProgressIntervalMs v"
  by (auto simp: turnProgressIntervalMs_def TURN_PROGRESS_INTERVAL_MS_def TURN_PROGRESS_FLOOR_MS_def
      split: option.splits)

lemma due_paced:
  "due now st = Some reason \<Longrightarrow>
     tp_startedAt st + TURN_PROGRESS_MIN_AGE_MS \<le> now \<and> 0 < tp_intervalMs st
     \<and> (\<forall>t. tp_lastAt st = Some t \<longrightarrow> t + min (tp_intervalMs st) TURN_PROGRESS_MIN_GAP_MS \<le> now)"
  by (auto simp: due_def tp_enabled_def Let_def split: if_splits option.splits)

text \<open>A turn that was never seen with an ended sub-agent keeps the interval.\<close>

lemma due_interval:
  "due now st = Some IntervalPassed \<Longrightarrow> (case tp_lastAt st of Some t \<Rightarrow> t | None \<Rightarrow> tp_startedAt st) + tp_intervalMs st \<le> now"
  by (auto simp: due_def Let_def split: if_splits option.splits)

lemma ended_when_no_longer_busy:
  "statuses = JObj es \<Longrightarrow> jm_wf es \<Longrightarrow>
     tp_ended (noteStatuses statuses rootId st) \<longleftrightarrow>
       tp_ended st \<or> (\<exists>sid \<in> set (tp_busy st). sid = rootId \<or> (case jm_get sid es of None \<Rightarrow> True | Some v \<Rightarrow> \<not> busy_status v))"
proof -
  assume es: "statuses = JObj es" and wf: "jm_wf es"
  have "sid \<in> set (map fst (filter (\<lambda>(sid, status). sid \<noteq> rootId \<and> busy_status status) es)) \<longleftrightarrow>
     sid \<noteq> rootId \<and> (\<exists>v. (sid, v) \<in> set es \<and> busy_status v)" for sid
    by (auto simp: image_iff)
  moreover have "(sid, v) \<in> set es \<longleftrightarrow> jm_get sid es = Some v" for sid v
    using jm_mem_get [OF wf] jm_get_mem by metis
  ultimately show ?thesis
    unfolding es noteStatuses_def by (simp del: set_map set_filter add: list_ex_iff) (auto split: option.splits)
qed

section \<open>A turn with two messages sent ahead\<close>

definition sample_message :: "string \<Rightarrow> string \<Rightarrow> json \<Rightarrow> json" where
  "sample_message i role time = JObj [(''info'', JObj [(''id'', JStr i), (''role'', JStr role), (''time'', time)]), (''parts'', JArr [])]"

definition sample_messages :: "json list" where
  "sample_messages =
     [sample_message ''m1'' ''user'' JNull, sample_message ''m2'' ''assistant'' (JObj [(''completed'', JNum 9)]),
      sample_message ''m3'' ''assistant'' (JObj [])]"

definition sample_follow :: "follow_read list" where
  "sample_follow = [\<lparr>fr_statuses = JObj [], fr_now = 200000, fr_reads = [([], sample_messages, [5, 7, 8])], fr_after = 200010\<rparr>]"

lemmas turn_progress_defs = follow_turn_def follow_once_def newTurnProgress_def tp_enabled_def noteStatuses_def due_def
  TURN_PROGRESS_MIN_AGE_MS_def send_one_def ahead_def markSent_def mark_message_def unsent_def sent_size_def sent_of_def
  settledMessage_def message_ended_def message_info_def is_object_def nullish_def progressMessageId_def jfield_def
  jstring_def flushed_def sample_follow_def sample_messages_def sample_message_def distinct_ids_def

lemma sample_turn:
  "follow_turn ''r'' 0 180000 sample_follow =
     (\<lparr>tp_sent = [([], [(''m1'', 5), (''m2'', 7)])], tp_startedAt = 0, tp_intervalMs = 180000, tp_lastAt = Some 200010,
       tp_busy = [], tp_ended = False\<rparr>,
      [([], sample_messages ! 0, 5), ([], sample_messages ! 1, 7)])"
  by (simp add: turn_progress_defs)

lemma sample_end:
  "unsent sample_messages [6, 7, 9] [] (fst (follow_turn ''r'' 0 180000 sample_follow)) =
     ([sample_messages ! 0, sample_messages ! 2], [6, 9])"
  by (simp add: sample_turn) (simp add: turn_progress_defs)

theorem turn_sends_final_form_once_witness:
  "sized [sample_messages ! 0, sample_messages ! 2] [6, 9] =
     filter (\<lambda>(m, z). \<not> (\<exists>m'. ([], m', z) \<in> set (snd (follow_turn ''r'' 0 180000 sample_follow))
        \<and> progressMessageId m' = progressMessageId m)) (sized sample_messages [6, 7, 9])"
proof -
  have "\<forall>i \<in> set sample_follow. \<forall>(s, ms, zs) \<in> set (fr_reads i). distinct_ids ms"
    by (simp add: turn_progress_defs)
  from turn_sends_final_form_once [OF this prod.collapse [symmetric] sample_end] show ?thesis by blast
qed

end
