(* ===== verification/Spec2Isabelle.thy ===== *)
theory Spec2Isabelle
  imports GitRules ThreadApprovals ManagedPolicy Approvals AppGate EventLogs LocalStores EditorSaves WorkQueues
    Automations AutomationSchedule AutomationEngine UrlGuard EditorDiff QueuedDrain ConversationHistory EngineReaper SessionGroups TranscriptDeltas
    ProviderLock TaskRecovery EngineRegistry TurnProgress
begin

text \<open>
  A model of the decision making of OmniRush: a desktop and web application
  (\<open>apps/app\<close>, \<open>apps/desktop\<close>) around a local server (\<open>apps/server\<close>) that supervises
  coding engines, with shared packages (\<open>packages\<close>) and a cloud service (\<open>ee\<close>). The
  development covers the parts that decide: what a command is, what is allowed, who may
  ask, what is queued, recorded, scheduled, retried, evicted and shown. It leaves out
  the parts that only move data.

  \<^bold>\<open>How the parts interact.\<close> The engine asks for permissions by rules. The server writes these
  rules: the organisation's policy (\<open>ManagedPolicy\<close>), then the rules for git and other
  destructive commands (\<open>GitRules\<close>, over the classifier of \<open>GitCommandPolicy\<close> and the
  shell reader of \<open>ShellSyntax\<close>); the last rule that applies wins (\<open>PermissionRules\<close>). What
  the rules cannot say is said by a marker in front of a destructive command
  (\<open>DestructiveMarker\<close>). Asks the user answered before are replayed (\<open>ThreadApprovals\<close>);
  the server's own questions are in \<open>Approvals\<close>. Every request to the server passes the
  gate (\<open>AppGate\<close>) and the token scopes (\<open>LocalStores\<close>), and a request to the engine the
  provider lock (\<open>ProviderLock\<close>). Turns an engine or the server lost are continued by
  \<open>TaskRecovery\<close>. Engines live in instances which the reaper retires (\<open>EngineReaper\<close>) and whose
  directories are fenced (\<open>WorkQueues\<close>); their processes are recorded, and killed when their server
  died, by \<open>EngineRegistry\<close>. A long turn is uploaded while it runs (\<open>TurnProgress\<close>). The application queues follow-ups (\<open>QueuedDrain\<close>), keeps the history of its tabs
  (\<open>ConversationHistory\<close>) and polls numbered logs (\<open>EventLogs\<close>, \<open>SessionGroups\<close>). Automations are
  due by a schedule (\<open>AutomationSchedule\<close>), selected and identified by \<open>Automations\<close> and
  admitted to an engine (\<open>AutomationEngine\<close>). Connections to managed tools pass \<open>UrlGuard\<close>.
\<close>

section \<open>Theories and sources\<close>

text \<open>
  Sources are under \<open>apps/server/src\<close> where nothing else is said. A definition carries the
  name of the function it models, or the name of the loop or branch it stands for.

  \<^item> \<open>Prelude\<close>: the JavaScript operations the sources use on strings, arrays, maps in
    insertion order (\<open>jsmap\<close>) and JSON values, and the locale \<open>last_match\<close>.
  \<^item> \<open>ShellSyntax\<close>, \<open>GitCommandPolicy\<close>, \<open>DestructiveMarker\<close>, \<open>GitRules\<close>:
    \<open>git-command-policy.ts\<close>. Tokenizer and segments of a command line; the program behind
    assignments and wrappers, interpreter scripts, the tiers of git, gh and rm; the marker;
    the engine rules. Properties: where segments stand, how a line splits at a control
    operator, destructive shapes under any surroundings, scripts, commits only in the
    write tier, what the marker does, and that a marked command always asks.
  \<^item> \<open>PermissionRules\<close>: \<open>effective-permissions.ts\<close>. Patterns, layers, attribution.
  \<^item> \<open>ManagedPolicy\<close>: \<open>managed-policy-rules.ts\<close> and \<open>desktop-policies.ts\<close> of
    \<open>packages/types/src/den\<close>. The organisation's rules win wherever they are written, and
    the glob matcher with its backtracking equals the language of its pattern.
  \<^item> \<open>ThreadApprovals\<close>: \<open>thread-approvals.ts\<close>. The memory of answers and the replayer as
    sequences of steps; nothing is replayed that the user did not approve.
  \<^item> \<open>Approvals\<close>: \<open>approvals.ts\<close>, \<open>approval-mode.ts\<close>. \<open>AppGate\<close>: \<open>app-request-gate.ts\<close>.
  \<^item> \<open>EventLogs\<close>: \<open>events.ts\<close>, \<open>file-sessions.ts\<close>, over the locale \<open>numbered_log\<close>, which
    \<open>SessionGroups\<close> interprets a third time.
  \<^item> \<open>LocalStores\<close>: \<open>tokens.ts\<close>, \<open>env-file.ts\<close>. \<open>EditorSaves\<close>: \<open>editor-saves.ts\<close>.
  \<^item> \<open>WorkQueues\<close>: \<open>latest-trailing-work-queue.ts\<close>, \<open>engine-directory-fence.ts\<close>.
  \<^item> \<open>Automations\<close>, \<open>AutomationSchedule\<close>, \<open>AutomationEngine\<close>: \<open>packages/automations/src\<close>. The
    state machine, the tick, claims, identities and digests; occurrences across time zone
    changes; admission, event streams and results of the in-memory engine the conformance
    check runs.
  \<^item> \<open>UrlGuard\<close>: \<open>local-managed-mcp-url-guard.ts\<close>. Address classes against a table of blocks,
    lookups, and the redirect loop.
  \<^item> \<open>EditorDiff\<close>: \<open>editor-diff.ts\<close>. The greedy search is shortest, its hunks apply.
  \<^item> \<open>QueuedDrain\<close>: \<open>queued-drain-machine.ts\<close> under
    \<open>apps/app/src/react-app/domains/session/surface\<close>. The reducer, the store of the sessions,
    claims: exclusive, never wedged, completed only on evidence.
  \<^item> \<open>ConversationHistory\<close>: \<open>conversation-tab-history.ts\<close> under
    \<open>apps/app/src/react-app/domains/session/chat\<close>.
  \<^item> \<open>EngineReaper\<close>: \<open>engine-instance-reaper.ts\<close>. Sweeps interleaved with traffic: what is
    disposed of, how often an eviction is reported, and that a sweep ends.
  \<^item> \<open>SessionGroups\<close>: \<open>session-groups.ts\<close> and \<open>routes/session-groups.ts\<close>. The stored state
    refines an order, labels and an assignment.
  \<^item> \<open>ProviderLock\<close>: \<open>provider-lock.ts\<close> and \<open>provider-lock/provider-lock.mjs\<close>. Only the server
    unlocks; a locked configuration, environment and request name allowed providers only, and an
    engine started before the lock does no work.
  \<^item> \<open>TaskRecovery\<close>: \<open>task-recovery.ts\<close>. The journal of interrupted turns, every check and
    write of it as a step, over any number of processes: no turn is continued twice, and none
    without evidence.
  \<^item> \<open>EngineRegistry\<close>: \<open>engine-registry.ts\<close>. The file of engine processes, its queue of changes over
    the locale \<open>queued_file\<close>, and the reaping of orphans: only a proven orphan is killed, and the
    changes of a server take effect in order. \<open>JsNumber\<close> reads numbers from texts.
  \<^item> \<open>TurnProgress\<close>: \<open>session-archive/turn-progress.ts\<close> and the part of
    \<open>session-upload-observer.ts\<close> that sends a running turn ahead. Every message is uploaded in the
    size it ends with, and at most once before.
  \<^item> \<open>TranscriptDeltas\<close>: \<open>session-transcript-deltas.ts\<close> under
    \<open>apps/app/src/react-app/domains/session/sync\<close>. What a batch of streamed deltas does to a
    transcript, and that coalescing changes nothing.
\<close>

section \<open>Conventions\<close>

text \<open>
  Strings are lists of characters (a code unit of the source is one character). Numbers
  the sources use as counters, indexes and milliseconds are \<open>nat\<close> or \<open>int\<close>; they stay far
  below \<open>2 ^ 53\<close>. The digest of \<open>Automations\<close> is on 32-bit words, where the source wraps.
  A map or an object is a list of pairs in insertion order. Exceptions and error answers
  are the left side of a sum or \<open>None\<close>.

  Code between two \<open>await\<close>s runs alone: it is one step, and what others do between two
  steps is any sequence of steps. Clocks, generated ids, hashes, collation, URL parsing, name
  resolution, schemas and the file system are arguments; a store on disk is the JSON value
  that was written to it.

  Loops are structural recursion or have a termination proof, so there is no fuel except
  where the source itself counts: sixteen wrappers in front of a program, the depth
  \<open>MAX_INTERPRETER_DEPTH\<close> of scripts in scripts, five redirects, and the edits of a line diff.
\<close>

section \<open>Not modelled\<close>

text \<open>
  Left out: the HTTP server and its streaming, the session uploader and archive, process
  supervision, synchronisation with the cloud, the sandbox, the plugins that run inside the
  engine, the desktop shell, the views of the application, the generated SDK, the evaluation
  worlds and the cloud service under \<open>ee\<close>. They are I/O, remote protocols, views or generated
  code around the parts above. The part nearest to the modelled ones that is still missing is
  the workflow graph of \<open>packages/codemode\<close>, which lies around an interpreter over a
  third-party parser.
\<close>

end
